(* ===== verification/RTDB_Prelude.thy ===== *)
theory RTDB_Prelude
  imports Main "HOL-Library.Word"
begin

text \<open>
  Shared vocabulary of the development. Nothing here models a source file: it holds the
  state-and-exception type in which the stateful C++ code is translated, hash tables as
  association lists, raw memory (\<open>memcpy\<close> in and out of a byte buffer) and the
  little-endian images of the fixed-width integers, each with the lemmas the component
  theories use through \<open>simp\<close> or through the collections declared below.
\<close>

named_theorems cmd_simps \<open>sequencing of state-and-exception commands\<close>
named_theorems mem_simps \<open>reads and writes of byte buffers\<close>

section \<open>Commands: state plus exception\<close>

text \<open>
  A C++ member function that mutates its object and may throw is a function from the
  object's state to an outcome (\<open>Inl\<close> an exception, \<open>Inr\<close> a result) and the state
  at that moment: what was changed before a throw stays changed.
\<close>

type_synonym ('s, 'e, 'a) cmd = "'s \<Rightarrow> ('e + 'a) \<times> 's"

definition ret :: "'a \<Rightarrow> ('s, 'e, 'a) cmd" where
  "ret a s = (Inr a, s)"

definition throw :: "'e \<Rightarrow> ('s, 'e, 'a) cmd" where
  "throw e s = (Inl e, s)"

definition bindc :: "('s, 'e, 'a) cmd \<Rightarrow> ('a \<Rightarrow> ('s, 'e, 'b) cmd) \<Rightarrow> ('s, 'e, 'b) cmd" where
  "bindc m f s = (case m s of (Inl e, s') \<Rightarrow> (Inl e, s') | (Inr a, s') \<Rightarrow> f a s')"

definition modify :: "('s \<Rightarrow> 's) \<Rightarrow> ('s, 'e, unit) cmd" where
  "modify f s = (Inr (), f s)"

definition guardc :: "bool \<Rightarrow> 'e \<Rightarrow> ('s, 'e, unit) cmd" where
  "guardc b e s = (if b then Inr () else Inl e, s)"

text \<open>Running a command of a sub-object (a field \<open>get\<close>, written back with \<open>put\<close>).\<close>

definition zoom :: "('s \<Rightarrow> 't) \<Rightarrow> ('t \<Rightarrow> 's \<Rightarrow> 's) \<Rightarrow> ('t, 'e, 'a) cmd \<Rightarrow> ('s, 'e, 'a) cmd" where
  "zoom get put m s = (case m (get s) of (r, t) \<Rightarrow> (r, put t s))"

lemma ret_run [simp, cmd_simps]: "ret a s = (Inr a, s)"
  by (simp add: ret_def)

lemma throw_run [simp, cmd_simps]: "throw e s = (Inl e, s)"
  by (simp add: throw_def)

lemma modify_run [simp, cmd_simps]: "modify f s = (Inr (), f s)"
  by (simp add: modify_def)

lemma guardc_run [simp, cmd_simps]: "guardc b e s = (if b then Inr () else Inl e, s)"
  by (simp add: guardc_def)

lemma bindc_Inr: "m s = (Inr a, s') \<Longrightarrow> bindc m f s = f a s'"
  by (simp add: bindc_def)

lemma bindc_Inl: "m s = (Inl e, s') \<Longrightarrow> bindc m f s = (Inl e, s')"
  by (simp add: bindc_def)

lemma bindc_ret [simp, cmd_simps]: "bindc (ret a) f s = f a s"
  by (simp add: bindc_def)

lemma bindc_throw [simp, cmd_simps]: "bindc (throw e) f s = (Inl e, s)"
  by (simp add: bindc_def)

lemma bindc_modify [simp, cmd_simps]: "bindc (modify g) f s = f () (g s)"
  by (simp add: bindc_def)

lemma bindc_guardc [simp, cmd_simps]:
  "bindc (guardc b e) f s = (if b then f () s else (Inl e, s))"
  by (simp add: bindc_def)

lemma bindc_eq_Inr:
  "bindc m f s = (Inr b, t) \<longleftrightarrow> (\<exists>a s'. m s = (Inr a, s') \<and> f a s' = (Inr b, t))"
  by (auto simp: bindc_def split: prod.splits sum.splits)

lemma bindc_assoc [cmd_simps]: "bindc (bindc m f) g = bindc m (\<lambda>a. bindc (f a) g)"
  by (rule ext) (auto simp: bindc_def split: prod.splits sum.splits)

text \<open>
  The rule by which an invariant of the state passes through a sequence: it holds after the
  first command, whatever its outcome, and after the rest.
\<close>

definition keeps :: "('s \<Rightarrow> bool) \<Rightarrow> ('s, 'e, 'a) cmd \<Rightarrow> bool" where
  "keeps I m \<longleftrightarrow> (\<forall>s. I s \<longrightarrow> I (snd (m s)))"

lemma keepsI: "(\<And>s. I s \<Longrightarrow> I (snd (m s))) \<Longrightarrow> keeps I m"
  by (simp add: keeps_def)

lemma keepsD: "keeps I m \<Longrightarrow> I s \<Longrightarrow> I (snd (m s))"
  by (simp add: keeps_def)

lemma keeps_bindc: "keeps I m \<Longrightarrow> (\<And>a. keeps I (f a)) \<Longrightarrow> keeps I (bindc m f)"
  by (fastforce simp: keeps_def bindc_def split: prod.splits sum.splits)

lemma keeps_basic: "keeps I (ret a)" "keeps I (throw e)" "keeps I (guardc b e)"
  by (auto simp: keeps_def)

section \<open>Hash tables\<close>

text \<open>
  A \<open>std::unordered_map\<close> is an association list with distinct keys. Its order stands for
  the unspecified order in which the container is iterated. \<open>emplace\<close> does nothing
  when the key is present; \<open>hput\<close> is \<open>m[k] = v\<close>.
\<close>

type_synonym ('k, 'v) hmap = "('k \<times> 'v) list"

abbreviation hfind :: "('k, 'v) hmap \<Rightarrow> 'k \<Rightarrow> 'v option" where
  "hfind \<equiv> map_of"

definition hkeys :: "('k, 'v) hmap \<Rightarrow> 'k set" where
  "hkeys m = fst ` set m"

definition emplace :: "'k \<Rightarrow> 'v \<Rightarrow> ('k, 'v) hmap \<Rightarrow> ('k, 'v) hmap" where
  "emplace k v m = (case map_of m k of None \<Rightarrow> (k, v) # m | Some _ \<Rightarrow> m)"

definition herase :: "'k \<Rightarrow> ('k, 'v) hmap \<Rightarrow> ('k, 'v) hmap" where
  "herase k m = filter (\<lambda>e. fst e \<noteq> k) m"

fun hput :: "'k \<Rightarrow> 'v \<Rightarrow> ('k, 'v) hmap \<Rightarrow> ('k, 'v) hmap" where
  "hput k v [] = [(k, v)]"
| "hput k v (e # m) = (if fst e = k then (k, v) # m else e # hput k v m)"

abbreviation hwf :: "('k, 'v) hmap \<Rightarrow> bool" where
  "hwf m \<equiv> distinct (map fst m)"

text \<open>Lookups stay lookups: the library would turn them into memberships.\<close>

declare map_of_eq_Some_iff [simp del] and Some_eq_map_of_iff [simp del]

lemma hkeys_dom: "hkeys m = dom (map_of m)"
  by (simp add: hkeys_def dom_map_of_conv_image_fst)

lemma map_of_emplace [simp]:
  "map_of (emplace k v m) = (case map_of m k of None \<Rightarrow> (map_of m)(k \<mapsto> v) | Some _ \<Rightarrow> map_of m)"
  by (simp add: emplace_def split: option.split)

lemma map_of_herase [simp]: "map_of (herase k m) = (map_of m)(k := None)"
  by (induction m) (auto simp: herase_def fun_eq_iff)

lemma map_of_hput [simp]: "map_of (hput k v m) = (map_of m)(k \<mapsto> v)"
  by (induction m) (auto simp: fun_eq_iff)

lemma set_map_fst_herase: "set (map fst (herase k m)) = set (map fst m) - {k}"
  by (auto simp: herase_def)

lemma hwf_herase [simp]: "hwf m \<Longrightarrow> hwf (herase k m)"
  by (simp add: herase_def distinct_map_filter)

lemma hwf_emplace [simp]: "hwf m \<Longrightarrow> hwf (emplace k v m)"
  by (auto simp: emplace_def map_of_eq_None_iff split: option.split)

lemma set_map_fst_hput: "set (map fst (hput k v m)) = insert k (set (map fst m))"
  by (induction m) auto

lemma hwf_hput [simp]: "hwf m \<Longrightarrow> hwf (hput k v m)"
proof (induction m)
  case (Cons e m)
  then show ?case using set_map_fst_hput [of k v m] by auto
qed simp

lemma hfind_in_set: "hwf m \<Longrightarrow> (k, v) \<in> set m \<longleftrightarrow> map_of m k = Some v"
  by (auto dest: map_of_SomeD)

section \<open>Raw memory\<close>

text \<open>
  A buffer is a list of bytes. \<open>read_at off n buf\<close> is the \<open>n\<close> bytes from offset
  \<open>off\<close>; \<open>write_at off bs buf\<close> is \<open>memcpy(buf + off, bs, |bs|)\<close>.
\<close>

type_synonym byte = "8 word"

definition read_at :: "nat \<Rightarrow> nat \<Rightarrow> 'a list \<Rightarrow> 'a list" where
  "read_at off n buf = take n (drop off buf)"

definition write_at :: "nat \<Rightarrow> 'a list \<Rightarrow> 'a list \<Rightarrow> 'a list" where
  "write_at off bs buf = take off buf @ bs @ drop (off + length bs) buf"

lemma length_read_at [mem_simps]: "off + n \<le> length buf \<Longrightarrow> length (read_at off n buf) = n"
  by (simp add: read_at_def)

lemma length_write_at [mem_simps]:
  "off + length bs \<le> length buf \<Longrightarrow> length (write_at off bs buf) = length buf"
  by (simp add: write_at_def)

lemma read_write_same [mem_simps]:
  "off \<le> length buf \<Longrightarrow> n = length bs \<Longrightarrow> read_at off n (write_at off bs buf) = bs"
  by (simp add: read_at_def write_at_def)

lemma nth_write_at:
  "off + length bs \<le> length buf \<Longrightarrow> i < length buf \<Longrightarrow>
   write_at off bs buf ! i = (if off \<le> i \<and> i < off + length bs then bs ! (i - off) else buf ! i)"
  by (auto simp: write_at_def nth_append min_def)

lemma nth_read_at:
  "off + n \<le> length buf \<Longrightarrow> i < n \<Longrightarrow> read_at off n buf ! i = buf ! (off + i)"
  by (simp add: read_at_def)

lemma read_write_disj [mem_simps]:
  assumes "off + length bs \<le> length buf" and "off' + n \<le> length buf"
    and "off' + n \<le> off \<or> off + length bs \<le> off'"
  shows "read_at off' n (write_at off bs buf) = read_at off' n buf"
  by (rule nth_equalityI)
    (use assms in \<open>auto simp: length_read_at length_write_at nth_read_at nth_write_at\<close>)

lemma read_write_sub:
  "off + length bs \<le> length buf \<Longrightarrow> k + n \<le> length bs \<Longrightarrow>
   read_at (off + k) n (write_at off bs buf) = read_at k n bs"
  by (rule nth_equalityI) (auto simp: length_read_at length_write_at nth_read_at nth_write_at)

lemma write_at_0: "length bs = length buf \<Longrightarrow> write_at 0 bs buf = bs"
  by (simp add: write_at_def)

lemma read_at_0: "n = length buf \<Longrightarrow> read_at 0 n buf = buf"
  by (simp add: read_at_def)

text \<open>Reading from a buffer that is laid out as a concatenation.\<close>

lemma read_at_skip: "length a \<le> off \<Longrightarrow> read_at off n (a @ b) = read_at (off - length a) n b"
  by (simp add: read_at_def)

lemma read_at_first: "n = length a \<Longrightarrow> read_at 0 n (a @ b) = a"
  by (simp add: read_at_def)

lemma write_at_append:
  "off + length c \<le> length buf \<Longrightarrow> write_at (off + length c) c' (write_at off c buf) = write_at off (c @ c') buf"
  by (simp add: write_at_def ac_simps)

section \<open>Fixed-width integers in memory\<close>

text \<open>
  The images of the C integer types on the little-endian machines the code is built for:
  \<open>le_bytes k n\<close> are the \<open>k\<close> low bytes of \<open>n\<close>, least significant first. A signed
  integer of \<open>k\<close> bytes is stored as its residue modulo \<open>256 ^ k\<close>.
\<close>

fun le_bytes :: "nat \<Rightarrow> nat \<Rightarrow> byte list" where
  "le_bytes 0 n = []"
| "le_bytes (Suc k) n = of_nat (n mod 256) # le_bytes k (n div 256)"

fun le_val :: "byte list \<Rightarrow> nat" where
  "le_val [] = 0"
| "le_val (b # bs) = unat b + 256 * le_val bs"

definition put_int :: "nat \<Rightarrow> int \<Rightarrow> byte list" where
  "put_int k i = le_bytes k (nat (i mod 256 ^ k))"

definition get_int :: "byte list \<Rightarrow> int" where
  "get_int bs = (let n = int (le_val bs); m = 256 ^ length bs in if 2 * n < m then n else n - m)"

definition in_range :: "nat \<Rightarrow> int \<Rightarrow> bool" where
  "in_range k i \<longleftrightarrow> - (256 ^ k) \<le> 2 * i \<and> 2 * i < 256 ^ k"

lemma length_le_bytes [simp]: "length (le_bytes k n) = k"
  by (induction k arbitrary: n) auto

lemma length_put_int [simp]: "length (put_int k i) = k"
  by (simp add: put_int_def)

lemma unat_byte_of_nat: "n < 256 \<Longrightarrow> unat (of_nat n :: byte) = n"
  by (simp add: unat_of_nat)

lemma le_val_le_bytes: "le_val (le_bytes k n) = n mod 256 ^ k"
proof (induction k arbitrary: n)
  case (Suc k)
  have "n mod 256 ^ Suc k = n mod 256 + 256 * (n div 256 mod 256 ^ k)"
    by (simp add: mod_mult2_eq add.commute)
  with Suc show ?case by (simp add: unat_byte_of_nat)
qed simp

lemma le_bytes_le_val: "le_bytes (length bs) (le_val bs) = bs"
proof (induction bs)
  case (Cons b bs)
  have "unat b < 256" using unsigned_less [of b] by simp
  then show ?case using Cons by simp
qed simp

lemma get_put_int [simp]: "in_range k i \<Longrightarrow> get_int (put_int k i) = i"
proof -
  assume r: "in_range k i"
  let ?m = "256 ^ k :: int"
  have n: "int (le_val (put_int k i)) = i mod ?m"
    by (simp add: put_int_def le_val_le_bytes nat_mod_distrib flip: of_nat_mod)
  show ?thesis
  proof (cases "0 \<le> i")
    case True
    with r have "i mod ?m = i" by (simp add: in_range_def)
    with r n show ?thesis by (simp add: get_int_def Let_def in_range_def)
  next
    case False
    with r have "(i + ?m) mod ?m = i + ?m" by (intro mod_pos_pos_trivial) (auto simp: in_range_def)
    then have "i mod ?m = i + ?m" by simp
    with r n False show ?thesis by (simp add: get_int_def Let_def in_range_def)
  qed
qed

text \<open>What a \<open>k\<close>-byte two's complement variable holds after \<open>i\<close> is stored in it with wrap-around.\<close>

definition wrap_int :: "nat \<Rightarrow> int \<Rightarrow> int" where
  "wrap_int k i = get_int (put_int k i)"

lemma wrap_int_id [simp]: "in_range k i \<Longrightarrow> wrap_int k i = i"
  by (simp add: wrap_int_def)

lemma in_range_small: "0 \<le> i \<Longrightarrow> i \<le> 2000000000 \<Longrightarrow> in_range 4 i" "in_range 4 (- 1)"
  by (simp_all add: in_range_def)

end
