(* ===== verification/Common.thy ===== *)
theory Common
  imports RTDB_Prelude
begin

text \<open>
  The vocabulary every component shares: the constants of \<open>src/src/common/config.h\<close>, the
  exception classes of \<open>src/src/errors.h\<close>, record and page identifiers
  (\<open>src/src/defs.h\<close>, \<open>src/src/storage/page.h\<close>).
\<close>

section \<open>Constants\<close>

definition INVALID_PAGE_ID :: int where "INVALID_PAGE_ID = - 1"
definition INVALID_TXN_ID :: int where "INVALID_TXN_ID = - 1"
definition INVALID_LSN :: int where "INVALID_LSN = - 1"
definition PAGE_SIZE :: nat where "PAGE_SIZE = 4096"
definition LOG_BUFFER_SIZE :: nat where "LOG_BUFFER_SIZE = 1024 * PAGE_SIZE"
definition LOG_FILE_NAME :: string where "LOG_FILE_NAME = ''db.log''"

section \<open>Exceptions\<close>

text \<open>
  One constructor per exception class, with the data its constructor is given.
  \<open>TransactionAbortException\<close> is thrown beside them. The last four are not classes of the
  repository: \<open>std::out_of_range\<close> (thrown by \<open>at\<close>), \<open>std::invalid_argument\<close> (thrown by
  the number parsers of the library), a failed \<open>assert\<close>, and undefined behaviour (a null
  dereference, an index out of bounds, a signed overflow).
\<close>

datatype abort_reason = LOCK_ON_SHIRINKING | UPGRADE_CONFLICT | DEADLOCK_PREVENTION

datatype rmdb_error =
    RMDBError string
  | InternalError string
  | UnixError
  | FileNotOpenError int
  | FileNotClosedError string
  | FileExistsError string
  | FileNotFoundError string
  | RecordNotFoundError int int
  | InvalidRecordSizeError int
  | InvalidColLengthError int
  | IndexEntryNotFoundError
  | IndexDeleteNotFoundError
  | DatabaseNotFoundError string
  | DatabaseExistsError string
  | TableNotFoundError string
  | TableExistsError string
  | ColumnNotFoundError string
  | IndexNotFoundError string "string list"
  | IndexExistsError string "string list"
  | InvalidValueCountError
  | StringOverflowError
  | IncompatibleTypeError string string
  | AmbiguousColumnError string
  | PageNotExistError string int
  | InvalidTypeError
  | TransactionAbortException int abort_reason
  | OutOfRange
  | InvalidArgument
  | AssertionFailure string
  | UndefinedBehaviour string

type_synonym ('s, 'a) rcmd = "('s, rmdb_error, 'a) cmd"

section \<open>Identifiers\<close>

text \<open>\<open>struct Rid\<close>: the place of a record in a table file.\<close>

datatype rid = Rid (rid_page_no: int) (rid_slot_no: int)

text \<open>\<open>struct PageId\<close>: a page of an open file.\<close>

datatype page_id = PageId (pid_fd: int) (pid_page_no: int)

text \<open>\<open>PageId::operator<\<close>, the order of \<open>std::map<PageId, \<dots>>\<close>.\<close>

definition page_id_less :: "page_id \<Rightarrow> page_id \<Rightarrow> bool" where
  "page_id_less p x = (if pid_fd p < pid_fd x then True else pid_page_no p < pid_page_no x)"

datatype ColType = TYPE_INT | TYPE_BIGINT | TYPE_FLOAT | TYPE_STRING | TYPE_DATETIME

fun coltype2str :: "ColType \<Rightarrow> string" where
  "coltype2str TYPE_INT = ''INT''"
| "coltype2str TYPE_BIGINT = ''BIGINT''"
| "coltype2str TYPE_FLOAT = ''FLOAT''"
| "coltype2str TYPE_STRING = ''STRING''"
| "coltype2str TYPE_DATETIME = ''DATETIME''"

lemma coltype2str_inj: "coltype2str a = coltype2str b \<longleftrightarrow> a = b"
  by (cases a; cases b) auto

text \<open>
  Inside one file the order is the order of the page numbers, so it is a strict linear order
  there; across two files it is not.
\<close>

lemma page_id_less_same_file:
  "pid_fd p = pid_fd q \<Longrightarrow> page_id_less p q \<longleftrightarrow> pid_page_no p < pid_page_no q"
  by (simp add: page_id_less_def)

end
