(* ===== verification/Disk.thy ===== *)
theory Disk
  imports Common
begin

text \<open>
  The disk manager, \<open>src/src/storage/disk_manager.h\<close> and \<open>disk_manager.cpp\<close>, on top of the
  part of the POSIX file interface it calls (\<open>open\<close>, \<open>close\<close>, \<open>unlink\<close>, \<open>stat\<close>,
  \<open>lseek\<close> followed by \<open>read\<close> or \<open>write\<close>). A pointer-and-size pair is the byte list it
  denotes. The three functions that run a shell command or test for a directory
  (\<open>is_dir\<close>, \<open>create_dir\<close>, \<open>destroy_dir\<close>) are left out.
\<close>

section \<open>The file interface of the operating system\<close>

text \<open>
  Regular files by path, the descriptors this program has open, the descriptors the rest of
  the process holds (standard streams, sockets), the paths that exist but may not be opened,
  and the largest size a file may reach (a write past it is short). Every call of the disk
  manager seeks before it transfers, so descriptors carry no position.
\<close>

record os =
  os_files :: "string \<rightharpoonup> byte list"
  os_fds :: "(int, string) hmap"
  os_other :: "int list"
  os_denied :: "string \<Rightarrow> bool"
  os_limit :: nat

definition lowest_fd :: "int list \<Rightarrow> int" where
  "lowest_fd used = hd (filter (\<lambda>i. i \<notin> set used) (map int [0..<Suc (length used)]))"

definition used_fds :: "os \<Rightarrow> int list" where
  "used_fds s = map fst (os_fds s) @ os_other s"

datatype errno = ENOENT | EEXIST | EACCES

definition os_open :: "string \<Rightarrow> os \<Rightarrow> (errno + int) \<times> os" where
  "os_open path s =
     (if os_files s path = None then (Inl ENOENT, s)
      else if os_denied s path then (Inl EACCES, s)
      else let fd = lowest_fd (used_fds s) in (Inr fd, s\<lparr>os_fds := emplace fd path (os_fds s)\<rparr>))"

definition os_creat :: "string \<Rightarrow> os \<Rightarrow> (errno + int) \<times> os" where
  "os_creat path s =
     (if os_files s path \<noteq> None then (Inl EEXIST, s)
      else if os_denied s path then (Inl EACCES, s)
      else let fd = lowest_fd (used_fds s)
           in (Inr fd, s\<lparr>os_files := (os_files s)(path \<mapsto> []), os_fds := emplace fd path (os_fds s)\<rparr>))"

definition os_close :: "int \<Rightarrow> os \<Rightarrow> os" where
  "os_close fd s = s\<lparr>os_fds := herase fd (os_fds s)\<rparr>"

definition os_unlink :: "string \<Rightarrow> os \<Rightarrow> bool \<times> os" where
  "os_unlink path s =
     (if os_files s path = None then (False, s) else (True, s\<lparr>os_files := (os_files s)(path := None)\<rparr>))"

definition os_file :: "os \<Rightarrow> int \<Rightarrow> byte list option" where
  "os_file s fd = Option.bind (hfind (os_fds s) fd) (os_files s)"

definition os_lseek :: "os \<Rightarrow> int \<Rightarrow> int \<Rightarrow> bool" where
  "os_lseek s fd off \<longleftrightarrow> os_file s fd \<noteq> None \<and> 0 \<le> off"

definition file_write :: "nat \<Rightarrow> byte list \<Rightarrow> byte list \<Rightarrow> byte list" where
  "file_write off bs f = write_at off bs (f @ replicate (off - length f) 0)"

definition os_write :: "int \<Rightarrow> nat \<Rightarrow> byte list \<Rightarrow> os \<Rightarrow> nat \<times> os" where
  "os_write fd off bs s =
     (case hfind (os_fds s) fd of
        None \<Rightarrow> (0, s)
      | Some path \<Rightarrow>
          (case os_files s path of
             None \<Rightarrow> (0, s)
           | Some f \<Rightarrow>
               (let bs' = take (os_limit s - off) bs
                in (length bs', s\<lparr>os_files := (os_files s)(path \<mapsto> file_write off bs' f)\<rparr>))))"

definition os_read :: "os \<Rightarrow> int \<Rightarrow> nat \<Rightarrow> nat \<Rightarrow> byte list" where
  "os_read s fd off n = (case os_file s fd of None \<Rightarrow> [] | Some f \<Rightarrow> read_at off n f)"

section \<open>The disk manager\<close>

record disk =
  dm_os :: os
  path2fd :: "(string, int) hmap"
  fd2path :: "(int, string) hmap"
  log_fd :: int
  fd2pageno :: "int \<Rightarrow> int"

definition MAX_FD :: int where "MAX_FD = 8192"

definition DiskManager :: "os \<Rightarrow> disk" where
  "DiskManager s = \<lparr>dm_os = s, path2fd = [], fd2path = [], log_fd = - 1, fd2pageno = (\<lambda>_. 0)\<rparr>"

definition write_page :: "int \<Rightarrow> int \<Rightarrow> byte list \<Rightarrow> (disk, unit) rcmd" where
  "write_page fd page_no bs d =
     (let off = page_no * int PAGE_SIZE in
      if \<not> in_range 4 off then (Inl (UndefinedBehaviour ''page_no * PAGE_SIZE''), d)
      else if \<not> os_lseek (dm_os d) fd off then (Inl UnixError, d)
      else let (n, s) = os_write fd (nat off) bs (dm_os d)
           in (if n \<noteq> length bs then Inl (InternalError ''DiskManager::write_page Error'') else Inr (),
               d\<lparr>dm_os := s\<rparr>))"

text \<open>\<open>read_page\<close> fills the caller's buffer as far as the file goes, also when it then throws.\<close>

definition read_page :: "int \<Rightarrow> int \<Rightarrow> byte list \<Rightarrow> nat \<Rightarrow> disk \<Rightarrow> (rmdb_error + unit) \<times> byte list" where
  "read_page fd page_no buf n d =
     (let off = page_no * int PAGE_SIZE in
      if \<not> in_range 4 off then (Inl (UndefinedBehaviour ''page_no * PAGE_SIZE''), buf)
      else if \<not> os_lseek (dm_os d) fd off then (Inl UnixError, buf)
      else let got = os_read (dm_os d) fd (nat off) n
           in (if length got \<noteq> n then Inl (InternalError ''DiskManager::read_page Error'') else Inr (),
               write_at 0 got buf))"

text \<open>The counter is a signed \<open>int\<close>: counting past its largest value is undefined.\<close>

definition allocate_page :: "int \<Rightarrow> (disk, int) rcmd" where
  "allocate_page fd d =
     (if fd < 0 \<or> MAX_FD \<le> fd then (Inl (AssertionFailure ''fd >= 0 && fd < MAX_FD''), d)
      else if \<not> in_range 4 (fd2pageno d fd + 1) then (Inl (UndefinedBehaviour ''fd2pageno_[fd]++''), d)
      else (Inr (fd2pageno d fd), d\<lparr>fd2pageno := (fd2pageno d)(fd := fd2pageno d fd + 1)\<rparr>))"

definition set_fd2pageno :: "int \<Rightarrow> int \<Rightarrow> (disk, unit) rcmd" where
  "set_fd2pageno fd n d =
     (if 0 \<le> fd \<and> fd < MAX_FD then (Inr (), d\<lparr>fd2pageno := (fd2pageno d)(fd := n)\<rparr>)
      else (Inl (UndefinedBehaviour ''fd2pageno_[fd]''), d))"

definition get_fd2pageno :: "int \<Rightarrow> (disk, int) rcmd" where
  "get_fd2pageno fd d =
     (if 0 \<le> fd \<and> fd < MAX_FD then Inr (fd2pageno d fd) else Inl (UndefinedBehaviour ''fd2pageno_[fd]''), d)"

definition is_file :: "string \<Rightarrow> disk \<Rightarrow> bool" where
  "is_file path d \<longleftrightarrow> os_files (dm_os d) path \<noteq> None"

definition create_file :: "string \<Rightarrow> (disk, unit) rcmd" where
  "create_file path d =
     (case os_creat path (dm_os d) of
        (Inl e, s) \<Rightarrow> (Inl (if e = EEXIST then FileExistsError path else UnixError), d\<lparr>dm_os := s\<rparr>)
      | (Inr fd, s) \<Rightarrow> (Inr (), d\<lparr>dm_os := os_close fd s\<rparr>))"

definition destroy_file :: "string \<Rightarrow> (disk, unit) rcmd" where
  "destroy_file path d =
     (if hfind (path2fd d) path \<noteq> None then (Inl (FileNotClosedError path), d)
      else let (ok, s) = os_unlink path (dm_os d)
           in (if ok then Inr () else Inl (FileNotFoundError path), d\<lparr>dm_os := s\<rparr>))"

definition open_file :: "string \<Rightarrow> (disk, int) rcmd" where
  "open_file path d =
     (if hfind (path2fd d) path \<noteq> None then (Inl (FileNotClosedError path), d)
      else case os_open path (dm_os d) of
        (Inl e, s) \<Rightarrow> (Inl (if e = ENOENT then FileNotFoundError path else UnixError), d\<lparr>dm_os := s\<rparr>)
      | (Inr fd, s) \<Rightarrow>
          (Inr fd, d\<lparr>dm_os := s, path2fd := hput path fd (path2fd d), fd2path := hput fd path (fd2path d)\<rparr>))"

definition close_file :: "int \<Rightarrow> (disk, unit) rcmd" where
  "close_file fd d =
     (case hfind (fd2path d) fd of
        None \<Rightarrow> (Inl (FileNotOpenError fd), d)
      | Some path \<Rightarrow>
          (if 0 \<le> fd \<and> fd < MAX_FD
           then (Inr (), d\<lparr>dm_os := os_close fd (dm_os d), path2fd := herase path (path2fd d),
                           fd2path := herase fd (fd2path d), fd2pageno := (fd2pageno d)(fd := 0)\<rparr>)
           else (Inl (UndefinedBehaviour ''fd2pageno_[fd]''), d)))"

text \<open>\<open>st_size\<close> is returned as an \<open>int\<close> of 32 bits.\<close>

definition get_file_size :: "string \<Rightarrow> disk \<Rightarrow> int" where
  "get_file_size path d = (case os_files (dm_os d) path of None \<Rightarrow> - 1 | Some f \<Rightarrow> wrap_int 4 (int (length f)))"

definition get_file_name :: "int \<Rightarrow> (disk, string) rcmd" where
  "get_file_name fd d =
     (case hfind (fd2path d) fd of None \<Rightarrow> Inl (FileNotOpenError fd) | Some path \<Rightarrow> Inr path, d)"

definition get_file_fd :: "string \<Rightarrow> (disk, int) rcmd" where
  "get_file_fd path d =
     (case hfind (path2fd d) path of None \<Rightarrow> open_file path d | Some fd \<Rightarrow> (Inr fd, d))"

definition open_log :: "(disk, unit) rcmd" where
  "open_log d =
     (if log_fd d = - 1
      then bindc (open_file LOG_FILE_NAME) (\<lambda>fd. modify (\<lambda>d. d\<lparr>log_fd := fd\<rparr>)) d
      else (Inr (), d))"

text \<open>
  \<open>read_log\<close>: the result is the returned count and the bytes placed at \<open>log_data\<close>.
\<close>

definition read_log :: "int \<Rightarrow> int \<Rightarrow> (disk, int \<times> byte list) rcmd" where
  "read_log sz offset =
     bindc open_log (\<lambda>_ d.
       let file_size = get_file_size LOG_FILE_NAME d in
       if offset > file_size then (Inr (- 1, []), d)
       else let sz = min sz (file_size - offset) in
         if sz = 0 then (Inr (0, []), d)
         else let got = os_read (dm_os d) (log_fd d) (nat offset) (nat sz) in
           if int (length got) = sz then (Inr (sz, got), d)
           else (Inl (AssertionFailure ''bytes_read == size''), d))"

definition write_log :: "byte list \<Rightarrow> (disk, unit) rcmd" where
  "write_log bs =
     bindc open_log (\<lambda>_ d.
       let eof = (case os_file (dm_os d) (log_fd d) of None \<Rightarrow> 0 | Some f \<Rightarrow> length f);
           (n, s) = os_write (log_fd d) eof bs (dm_os d)
       in (if n \<noteq> length bs then Inl UnixError else Inr (), d\<lparr>dm_os := s\<rparr>))"

section \<open>Descriptors\<close>

lemma lowest_fd_fresh: "lowest_fd used \<notin> set used" and lowest_fd_nonneg: "0 \<le> lowest_fd used"
proof -
  let ?c = "filter (\<lambda>i. i \<notin> set used) (map int [0..<Suc (length used)])"
  have "?c \<noteq> []"
  proof
    assume "?c = []"
    then have "int ` {0..<Suc (length used)} \<subseteq> set used"
      by (simp only: filter_empty_conv set_map set_upt) blast
    then have "card (int ` {0..<Suc (length used)}) \<le> card (set used)" by (simp add: card_mono)
    also have "\<dots> \<le> length used" by (rule card_length)
    finally show False by (simp add: card_image)
  qed
  then have "hd ?c \<in> set ?c" by (rule hd_in_set)
  then show "lowest_fd used \<notin> set used" "0 \<le> lowest_fd used" by (auto simp: lowest_fd_def)
qed

text \<open>
  The open-file tables are inverse to each other and agree with the operating system; every
  open path names an existing file.
\<close>

definition disk_wf :: "disk \<Rightarrow> bool" where
  "disk_wf d \<longleftrightarrow>
     hwf (path2fd d) \<and> hwf (fd2path d) \<and> hwf (os_fds (dm_os d)) \<and>
     (\<forall>p fd. hfind (path2fd d) p = Some fd \<longleftrightarrow> hfind (fd2path d) fd = Some p) \<and>
     map_of (os_fds (dm_os d)) = map_of (fd2path d) \<and>
     (\<forall>fd p. hfind (fd2path d) fd = Some p \<longrightarrow> 0 \<le> fd \<and> os_files (dm_os d) p \<noteq> None)"

lemma disk_wf_tables:
  "disk_wf d \<Longrightarrow> hfind (os_fds (dm_os d)) fd = hfind (fd2path d) fd"
  by (simp add: disk_wf_def)

lemma disk_wf_inj:
  "disk_wf d \<Longrightarrow> hfind (fd2path d) a = Some p \<Longrightarrow> hfind (fd2path d) b = Some p \<Longrightarrow> a = b"
  unfolding disk_wf_def by (metis option.inject)

lemma disk_wf_new: "os_fds s = [] \<Longrightarrow> disk_wf (DiskManager s)"
  by (simp add: disk_wf_def DiskManager_def)

lemma used_fds_None: "hfind (os_fds s) (lowest_fd (used_fds s)) = None"
  using lowest_fd_fresh [of "used_fds s"] by (simp add: used_fds_def map_of_eq_None_iff)


lemma disk_wf_create_file: "disk_wf d \<Longrightarrow> disk_wf (snd (create_file path d))"
  using used_fds_None [of "dm_os d"]
  by (auto simp: create_file_def os_creat_def os_close_def Let_def disk_wf_def fun_eq_iff split: option.splits)

lemma disk_wf_destroy_file: "disk_wf d \<Longrightarrow> disk_wf (snd (destroy_file path d))"
  by (auto simp: destroy_file_def os_unlink_def Let_def disk_wf_def)

lemma disk_wf_open_file: "disk_wf d \<Longrightarrow> disk_wf (snd (open_file path d))"
proof (cases "hfind (path2fd d) path = None \<and> os_files (dm_os d) path \<noteq> None \<and> \<not> os_denied (dm_os d) path")
  case True
  assume w: "disk_wf d"
  let ?fd = "lowest_fd (used_fds (dm_os d))"
  have n: "map_of (os_fds (dm_os d)) ?fd = None" "map_of (fd2path d) ?fd = None" "0 \<le> ?fd"
    using used_fds_None [of "dm_os d"] disk_wf_tables [OF w, of ?fd]
    by (auto simp: lowest_fd_nonneg)
  have inv: "hfind (path2fd d) p = Some fd \<longleftrightarrow> hfind (fd2path d) fd = Some p" for p fd
    using w by (simp add: disk_wf_def)
  have "hfind (fd2path d) fd \<noteq> Some path" for fd using inv [of path fd] True by simp
  with n True w show ?thesis
    by (auto simp: open_file_def os_open_def Let_def disk_wf_def)
qed (auto simp: open_file_def os_open_def Let_def)

lemma disk_wf_close_file: "disk_wf d \<Longrightarrow> disk_wf (snd (close_file fd d))"
  using disk_wf_inj [of d]
  by (auto simp: close_file_def os_close_def disk_wf_def split: option.splits)

lemma os_write_fields:
  "os_write fd off bs s = (n, s') \<Longrightarrow>
   os_fds s' = os_fds s \<and> os_other s' = os_other s \<and> os_denied s' = os_denied s \<and> os_limit s' = os_limit s \<and>
   (\<forall>p. os_files s' p = None \<longleftrightarrow> os_files s p = None)"
  by (auto simp: os_write_def Let_def split: option.splits if_splits)

lemma disk_wf_os_write:
  "disk_wf d \<Longrightarrow> os_write fd off bs (dm_os d) = (n, s') \<Longrightarrow> disk_wf (d\<lparr>dm_os := s'\<rparr>)"
  using os_write_fields [of fd off bs "dm_os d" n s'] by (simp add: disk_wf_def)

lemma disk_wf_write_page: "disk_wf d \<Longrightarrow> disk_wf (snd (write_page fd p bs d))"
  by (auto simp: write_page_def Let_def split: prod.splits intro: disk_wf_os_write)

lemma disk_wf_open_log: "disk_wf d \<Longrightarrow> disk_wf (snd (open_log d))"
proof -
  assume "disk_wf d"
  then have "disk_wf (snd (open_file LOG_FILE_NAME d))" by (rule disk_wf_open_file)
  then show ?thesis using \<open>disk_wf d\<close>
    by (auto simp: open_log_def bindc_def disk_wf_def split: prod.splits sum.splits)
qed

lemma disk_wf_write_log: "disk_wf d \<Longrightarrow> disk_wf (snd (write_log bs d))"
  using disk_wf_open_log [of d]
  by (auto simp: write_log_def bindc_def Let_def split: prod.splits sum.splits intro: disk_wf_os_write)

lemma disk_wf_read_log: "disk_wf d \<Longrightarrow> disk_wf (snd (read_log n off d))"
  using disk_wf_open_log [of d]
  by (auto simp: read_log_def bindc_def Let_def split: prod.splits sum.splits)

section \<open>Pages of files\<close>

text \<open>The page a successful \<open>read_page\<close> of \<open>PAGE_SIZE\<close> bytes returns.\<close>

definition disk_page :: "disk \<Rightarrow> int \<Rightarrow> int \<Rightarrow> byte list option" where
  "disk_page d fd p =
     (case os_file (dm_os d) fd of
        None \<Rightarrow> None
      | Some f \<Rightarrow> if 0 \<le> p \<and> in_range 4 (p * int PAGE_SIZE) \<and> nat p * PAGE_SIZE + PAGE_SIZE \<le> length f
                  then Some (read_at (nat p * PAGE_SIZE) PAGE_SIZE f) else None)"

lemma nat_page_offset: "nat (p * int PAGE_SIZE) = nat p * PAGE_SIZE"
  using nat_mult_distrib_neg nat_mult_distrib [of p "int PAGE_SIZE"]
  by (cases "0 \<le> p") (auto simp: mult_nonpos_nonneg)

lemma PAGE_SIZE_pos [simp]: "0 < PAGE_SIZE"
  by (simp add: PAGE_SIZE_def)

lemma page_offset_nonneg: "0 \<le> p * int PAGE_SIZE \<longleftrightarrow> 0 \<le> p"
  by (simp add: PAGE_SIZE_def zero_le_mult_iff)

lemma disk_page_length: "disk_page d fd p = Some x \<Longrightarrow> length x = PAGE_SIZE"
  by (auto simp: disk_page_def length_read_at split: option.splits if_splits)

lemma read_page_disk_page:
  assumes "length buf = PAGE_SIZE"
  shows "read_page fd p buf PAGE_SIZE d = (Inr (), x) \<longleftrightarrow> disk_page d fd p = Some x"
proof -
  have "length (read_at o' PAGE_SIZE f) = PAGE_SIZE \<longleftrightarrow> o' + PAGE_SIZE \<le> length f" for o' :: nat and f :: "byte list"
    by (simp add: read_at_def min_def PAGE_SIZE_def) linarith
  then show ?thesis
    using assms
    by (auto simp: read_page_def disk_page_def os_lseek_def os_read_def Let_def nat_page_offset
        page_offset_nonneg write_at_0 split: option.splits)
qed

lemma length_file_write: "length (file_write off bs f) = max (length f) (off + length bs)"
  by (auto simp: file_write_def write_at_def max_def)

lemma read_file_write_same: "read_at off (length bs) (file_write off bs f) = bs"
  by (simp add: file_write_def read_at_def write_at_def)

lemma read_file_write_disj:
  assumes "off' + n \<le> length f" and "off' + n \<le> off \<or> off + length bs \<le> off'"
  shows "read_at off' n (file_write off bs f) = read_at off' n f"
  by (rule nth_equalityI)
    (use assms in \<open>auto simp: length_read_at length_file_write nth_read_at,
      auto simp: file_write_def write_at_def nth_append min_def\<close>)

lemma os_file_write:
  assumes "disk_wf d" and "os_write fd off bs (dm_os d) = (n, s)" and "os_file (dm_os d) fd = Some f"
  shows "os_file s fd' =
     (if fd' = fd then Some (file_write off (take (os_limit (dm_os d) - off) bs) f) else os_file (dm_os d) fd')"
    and "n = length (take (os_limit (dm_os d) - off) bs)"
proof -
  obtain path where p: "hfind (os_fds (dm_os d)) fd = Some path" "os_files (dm_os d) path = Some f"
    using assms(3) by (auto simp: os_file_def bind_eq_Some_conv)
  have inj: "hfind (os_fds (dm_os d)) fd' = Some path \<Longrightarrow> fd' = fd" for fd'
    using assms(1) p(1) unfolding disk_wf_def by (metis option.inject)
  show "n = length (take (os_limit (dm_os d) - off) bs)"
    using assms(2) p by (auto simp: os_write_def Let_def)
  show "os_file s fd' =
     (if fd' = fd then Some (file_write off (take (os_limit (dm_os d) - off) bs) f) else os_file (dm_os d) fd')"
    using assms(2) p inj [of fd']
    by (cases "hfind (os_fds (dm_os d)) fd'") (auto simp: os_write_def os_file_def Let_def)
qed

section \<open>The interface the buffer pool and the file managers rely on\<close>

text \<open>
  A page store: a successful write is read back, no write disturbs another page that could
  be read before, and the invariant is kept. \<open>view d fd p\<close> is the page a read returns.
\<close>

locale page_store =
  fixes wr :: "int \<Rightarrow> int \<Rightarrow> byte list \<Rightarrow> 'd \<Rightarrow> (rmdb_error + unit) \<times> 'd"
    and view :: "'d \<Rightarrow> int \<Rightarrow> int \<Rightarrow> byte list option"
    and inv :: "'d \<Rightarrow> bool"
  assumes inv_wr: "inv d \<Longrightarrow> inv (snd (wr fd p bs d))"
    and view_same: "inv d \<Longrightarrow> length bs = PAGE_SIZE \<Longrightarrow> wr fd p bs d = (Inr (), d') \<Longrightarrow>
      view d' fd p = Some bs"
    and view_other: "inv d \<Longrightarrow> length bs \<le> PAGE_SIZE \<Longrightarrow> wr fd p bs d = (r, d') \<Longrightarrow>
      (fd', p') \<noteq> (fd, p) \<Longrightarrow> view d fd' p' = Some x \<Longrightarrow> view d' fd' p' = Some x"
begin

lemma wr_inv: "inv d \<Longrightarrow> wr fd p bs d = (r, d') \<Longrightarrow> inv d'"
  using inv_wr by (metis snd_conv)

text \<open>Two writes of different pages both survive, in either order.\<close>

lemma two_writes:
  assumes "inv d" and "length a = PAGE_SIZE" and "length b = PAGE_SIZE"
    and "wr fd p a d = (Inr (), d1)" and "wr fd' p' b d1 = (Inr (), d2)" and "(fd, p) \<noteq> (fd', p')"
  shows "view d2 fd p = Some a" and "view d2 fd' p' = Some b"
proof -
  have i: "inv d1" using assms(1,4) by (rule wr_inv)
  show "view d2 fd p = Some a"
    using view_other [OF i _ assms(5,6)] view_same [OF assms(1,2,4)] assms(3) by simp
  show "view d2 fd' p' = Some b" by (rule view_same [OF i assms(3,5)])
qed

end

lemma write_page_ok:
  assumes "disk_wf d" and "write_page fd p bs d = (Inr (), d')"
  obtains f where "os_file (dm_os d) fd = Some f" "0 \<le> p" "in_range 4 (p * int PAGE_SIZE)"
    "\<And>g. os_file (dm_os d') g =
       (if g = fd then Some (file_write (nat p * PAGE_SIZE) bs f) else os_file (dm_os d) g)"
proof -
  from assms(2) have r: "in_range 4 (p * int PAGE_SIZE)" and l: "os_lseek (dm_os d) fd (p * int PAGE_SIZE)"
    by (auto simp: write_page_def Let_def split: if_splits)
  then obtain f where f: "os_file (dm_os d) fd = Some f" and p: "0 \<le> p"
    by (auto simp: os_lseek_def page_offset_nonneg)
  obtain n s where w: "os_write fd (nat p * PAGE_SIZE) bs (dm_os d) = (n, s)" by fastforce
  with assms(2) r l have "n = length bs" "d' = d\<lparr>dm_os := s\<rparr>"
    by (auto simp: write_page_def Let_def nat_page_offset split: if_splits)
  with os_file_write [OF assms(1) w f] have
    "os_file (dm_os d') g = (if g = fd then Some (file_write (nat p * PAGE_SIZE) bs f) else os_file (dm_os d) g)" for g
    by (metis disk.select_convs(1) disk.surjective disk.update_convs(1) length_take min.absorb_iff1 take_all_iff)
  with f p r show thesis by (rule that)
qed

lemma write_page_any:
  assumes "disk_wf d" and "write_page fd p bs d = (r, d')"
  shows "d' = d \<or> (\<exists>f k. os_file (dm_os d) fd = Some f \<and> 0 \<le> p \<and>
     (\<forall>g. os_file (dm_os d') g =
        (if g = fd then Some (file_write (nat p * PAGE_SIZE) (take k bs) f) else os_file (dm_os d) g)))"
proof (cases "in_range 4 (p * int PAGE_SIZE) \<and> os_lseek (dm_os d) fd (p * int PAGE_SIZE)")
  case True
  then obtain f where f: "os_file (dm_os d) fd = Some f" and p: "0 \<le> p"
    by (auto simp: os_lseek_def page_offset_nonneg)
  obtain n s where w: "os_write fd (nat p * PAGE_SIZE) bs (dm_os d) = (n, s)" by fastforce
  with assms(2) True have "d' = d\<lparr>dm_os := s\<rparr>"
    by (auto simp: write_page_def Let_def nat_page_offset split: if_splits)
  then have "\<forall>g. os_file (dm_os d') g = (if g = fd then
      Some (file_write (nat p * PAGE_SIZE) (take (os_limit (dm_os d) - nat p * PAGE_SIZE) bs) f) else os_file (dm_os d) g)"
    using os_file_write(1) [OF assms(1) w f] by simp
  with f p show ?thesis by blast
qed (use assms(2) in \<open>auto simp: write_page_def Let_def split: if_splits\<close>)

lemma other_page_disjoint:
  "nat p \<noteq> nat q \<Longrightarrow> n \<le> PAGE_SIZE \<Longrightarrow>
   nat q * PAGE_SIZE + PAGE_SIZE \<le> nat p * PAGE_SIZE \<or> nat p * PAGE_SIZE + n \<le> nat q * PAGE_SIZE"
  by (cases "nat p < nat q") (auto simp: PAGE_SIZE_def)

interpretation ds: page_store write_page disk_page disk_wf
proof unfold_locales
  fix d fd p bs assume "disk_wf d"
  then show "disk_wf (snd (write_page fd p bs d))" by (rule disk_wf_write_page)
next
  fix d fd p and bs :: "byte list" and d'
  assume l: "length bs = PAGE_SIZE" and w: "disk_wf d" "write_page fd p bs d = (Inr (), d')"
  from w obtain f where "0 \<le> p" "in_range 4 (p * int PAGE_SIZE)"
    "os_file (dm_os d') fd = Some (file_write (nat p * PAGE_SIZE) bs f)"
    by (rule write_page_ok) auto
  then show "disk_page d' fd p = Some bs"
    using read_file_write_same [of "nat p * PAGE_SIZE" bs f] l by (simp add: disk_page_def length_file_write)
next
  fix d fd p and bs :: "byte list" and r d' fd' p' x
  assume w: "disk_wf d" "write_page fd p bs d = (r, d')" and l: "length bs \<le> PAGE_SIZE"
    and ne: "(fd', p') \<noteq> (fd, p)" and v: "disk_page d fd' p' = Some x"
  from write_page_any [OF w] show "disk_page d' fd' p' = Some x"
  proof (elim disjE exE conjE)
    fix f k assume f: "os_file (dm_os d) fd = Some f" "0 \<le> p" and
      o: "\<forall>g. os_file (dm_os d') g =
        (if g = fd then Some (file_write (nat p * PAGE_SIZE) (take k bs) f) else os_file (dm_os d) g)"
    show ?thesis
    proof (cases "fd' = fd")
      case True
      with v f have q: "0 \<le> p'" "nat p' * PAGE_SIZE + PAGE_SIZE \<le> length f" "in_range 4 (p' * int PAGE_SIZE)"
        "x = read_at (nat p' * PAGE_SIZE) PAGE_SIZE f"
        by (auto simp: disk_page_def split: if_splits)
      with True ne f(2) have "nat p \<noteq> nat p'" by auto
      with q(2) have "read_at (nat p' * PAGE_SIZE) PAGE_SIZE (file_write (nat p * PAGE_SIZE) (take k bs) f) = x"
        using read_file_write_disj [OF q(2) other_page_disjoint [of p p' "length (take k bs)"]] l q(4) by simp
      with o True q show ?thesis by (simp add: disk_page_def length_file_write)
    qed (use o v in \<open>simp add: disk_page_def\<close>)
  qed (use v in simp)
qed

section \<open>Properties\<close>

lemma os_write_full:
  "os_write fd off bs s = (length bs, s') \<Longrightarrow> hfind (os_fds s) fd = Some path \<Longrightarrow> os_files s path = Some f \<Longrightarrow>
   s' = s\<lparr>os_files := (os_files s)(path \<mapsto> file_write off bs f)\<rparr>"
  by (auto simp: os_write_def Let_def min_def split: if_splits)

lemma file_write_end: "file_write (length f) bs f = f @ bs"
  by (simp add: file_write_def write_at_def)

text \<open>A disk whose log file is open and holds two bytes, and whose descriptor 1 is an empty file.\<close>

definition log_disk :: disk where
  "log_disk =
     \<lparr>dm_os = \<lparr>os_files = [LOG_FILE_NAME \<mapsto> [7, 8], ''t'' \<mapsto> []], os_fds = [(0, LOG_FILE_NAME), (1, ''t'')],
        os_other = [], os_denied = (\<lambda>_. False), os_limit = 100000\<rparr>,
      path2fd = [(LOG_FILE_NAME, 0), (''t'', 1)], fd2path = [(0, LOG_FILE_NAME), (1, ''t'')],
      log_fd = 0, fd2pageno = (\<lambda>_. 0)\<rparr>"

lemma log_disk_wf: "disk_wf log_disk"
  by (auto simp: disk_wf_def log_disk_def LOG_FILE_NAME_def split: if_splits)

text \<open>
  Property C39. Pages on disk: after two successful page writes to different pages, in whatever
  files, both pages read back as written.
\<close>

theorem written_pages_read_back:
  assumes "disk_wf d" and "length a = PAGE_SIZE" and "length b = PAGE_SIZE" and "(fd, p) \<noteq> (fd', p')"
    and "write_page fd p a d = (Inr (), d1)" and "write_page fd' p' b d1 = (Inr (), d2)"
    and "length buf = PAGE_SIZE"
  shows "read_page fd p buf PAGE_SIZE d2 = (Inr (), a) \<and> read_page fd' p' buf PAGE_SIZE d2 = (Inr (), b)"
  using ds.two_writes [OF assms(1-3,5,6,4)] assms(7) by (simp add: read_page_disk_page)

theorem written_pages_read_back_witness:
  "read_page 1 0 (replicate PAGE_SIZE 0) PAGE_SIZE
     (snd (write_page 1 1 (replicate PAGE_SIZE 9) (snd (write_page 1 0 (replicate PAGE_SIZE 5) log_disk)))) =
     (Inr (), replicate PAGE_SIZE 5)"
proof -
  let ?d1 = "snd (write_page 1 0 (replicate PAGE_SIZE 5) log_disk)"
  have "write_page 1 0 (replicate PAGE_SIZE 5) log_disk = (Inr (), ?d1)"
    by (simp add: write_page_def log_disk_def os_lseek_def os_file_def os_write_def in_range_def Let_def PAGE_SIZE_def
        LOG_FILE_NAME_def)
  moreover have "write_page 1 1 (replicate PAGE_SIZE 9) ?d1 = (Inr (), snd (write_page 1 1 (replicate PAGE_SIZE 9) ?d1))"
    by (simp add: write_page_def log_disk_def os_lseek_def os_file_def os_write_def in_range_def Let_def PAGE_SIZE_def
        LOG_FILE_NAME_def)
  ultimately show ?thesis
    using written_pages_read_back [OF log_disk_wf, of "replicate PAGE_SIZE 5" "replicate PAGE_SIZE 9" 1 0 1 1]
    by simp
qed

text \<open>
  The log is append-only: a \<open>write_log\<close> that returns has put its bytes after what
  the log held, and \<open>read_log\<close> then returns any stretch of the result.
\<close>

theorem write_log_appends:
  assumes w: "disk_wf d" and l: "hfind (fd2path d) (log_fd d) = Some LOG_FILE_NAME"
    and f: "os_files (dm_os d) LOG_FILE_NAME = Some f" and wr: "write_log bs d = (Inr (), d')"
  shows "os_files (dm_os d') LOG_FILE_NAME = Some (f @ bs) \<and>
    (\<forall>off sz. in_range 4 (int (length (f @ bs))) \<and> 0 \<le> off \<and> 0 < sz \<and> off + sz \<le> int (length (f @ bs)) \<longrightarrow>
      read_log sz off d' = (Inr (sz, read_at (nat off) (nat sz) (f @ bs)), d'))"
proof -
  have o: "hfind (os_fds (dm_os d)) (log_fd d) = Some LOG_FILE_NAME" using disk_wf_tables [OF w] l by simp
  have nz: "log_fd d \<noteq> - 1" using w l by (force simp: disk_wf_def)
  obtain s where s: "os_write (log_fd d) (length f) bs (dm_os d) = (length bs, s)" "d' = d\<lparr>dm_os := s\<rparr>"
    using wr nz o f by (auto simp: write_log_def open_log_def os_file_def bindc_def Let_def split: prod.splits if_splits)
  from os_write_full [OF s(1) o f] have s': "s = (dm_os d)\<lparr>os_files := (os_files (dm_os d))(LOG_FILE_NAME \<mapsto> f @ bs)\<rparr>"
    by (simp add: file_write_end)
  moreover have "read_log sz off d' = (Inr (sz, read_at (nat off) (nat sz) (f @ bs)), d')"
    if r: "in_range 4 (int (length (f @ bs)))" "0 \<le> off" "0 < sz" "off + sz \<le> int (length (f @ bs))" for off sz
  proof -
    have "int (length (read_at (nat off) (nat sz) (f @ bs))) = sz" using r by (simp add: length_read_at)
    with r s(2) s' o nz show ?thesis
      by (simp add: read_log_def open_log_def bindc_def Let_def get_file_size_def os_read_def os_file_def min_def)
  qed
  ultimately show ?thesis using s(2) by simp
qed

theorem write_log_appends_witness:
  "read_log 2 1 (snd (write_log [9] log_disk)) = (Inr (2, [8, 9]), snd (write_log [9] log_disk))"
proof -
  have "write_log [9] log_disk = (Inr (), snd (write_log [9] log_disk))"
    by (simp add: write_log_def open_log_def bindc_def log_disk_def os_file_def os_write_def Let_def LOG_FILE_NAME_def)
  from write_log_appends [OF log_disk_wf _ _ this, of "[7, 8]"]
  have "in_range 4 (int (length [7, 8, 9 :: byte])) \<and> 0 \<le> (1::int) \<and> 0 < (2::int) \<and> 1 + 2 \<le> int (length [7, 8, 9 :: byte]) \<longrightarrow>
      read_log 2 1 (snd (write_log [9] log_disk)) = (Inr (2, read_at (nat 1) (nat 2) [7, 8, 9]), snd (write_log [9] log_disk))"
    by (simp add: log_disk_def LOG_FILE_NAME_def)
  then show ?thesis by (simp add: read_at_def in_range_def)
qed

text \<open>
  Property C8. Opening a file: the descriptor returned was not in use, the tables know the
  file under it, a second \<open>open_file\<close> or a \<open>destroy_file\<close> before the close is refused, and
  closing it gives the tables back as they were.
\<close>

theorem open_file_exclusive:
  assumes w: "disk_wf d" and op: "open_file path d = (Inr fd, d')"
  shows "hfind (fd2path d) fd = None \<and> get_file_name fd d' = (Inr path, d') \<and>
     open_file path d' = (Inl (FileNotClosedError path), d') \<and>
     destroy_file path d' = (Inl (FileNotClosedError path), d') \<and>
     (fd < MAX_FD \<longrightarrow> fst (close_file fd d') = Inr () \<and>
        map_of (fd2path (snd (close_file fd d'))) = map_of (fd2path d) \<and>
        map_of (path2fd (snd (close_file fd d'))) = map_of (path2fd d))"
proof -
  let ?fd = "lowest_fd (used_fds (dm_os d))"
  from op have np: "hfind (path2fd d) path = None" and fd: "fd = ?fd"
    and d': "path2fd d' = hput path fd (path2fd d)" "fd2path d' = hput fd path (fd2path d)"
    by (auto simp: open_file_def os_open_def Let_def split: if_splits)
  have n: "hfind (fd2path d) fd = None"
    using used_fds_None [of "dm_os d"] disk_wf_tables [OF w] fd by simp
  have "0 \<le> fd" using fd lowest_fd_nonneg by simp
  then show ?thesis
    using np n d' by (auto simp: get_file_name_def open_file_def destroy_file_def close_file_def fun_eq_iff)
qed

theorem open_file_exclusive_witness:
  "let d = DiskManager \<lparr>os_files = [''t'' \<mapsto> []], os_fds = [], os_other = [0, 1, 2], os_denied = (\<lambda>_. False), os_limit = 9\<rparr>;
       d' = snd (open_file ''t'' d)
   in open_file ''t'' d = (Inr 3, d') \<and> get_file_name 3 d' = (Inr ''t'', d')"
proof -
  let ?d = "DiskManager \<lparr>os_files = [''t'' \<mapsto> []], os_fds = [], os_other = [0, 1, 2], os_denied = (\<lambda>_. False), os_limit = 9\<rparr>"
  have "open_file ''t'' ?d = (Inr 3, snd (open_file ''t'' ?d))"
    by (simp add: open_file_def os_open_def DiskManager_def Let_def used_fds_def lowest_fd_def)
  moreover have "disk_wf ?d" by (rule disk_wf_new) simp
  ultimately show ?thesis using open_file_exclusive [of ?d "''t''" 3] by (simp add: Let_def)
qed

end
