(* ===== verification/Log.thy ===== *)
theory Log
  imports Disk
begin

text \<open>
  The write-ahead log: the log records of \<open>src/src/recovery/log_manager.h\<close> with their byte
  format (offsets from \<open>log_defs.h\<close>), and the log manager of \<open>log_manager.cpp\<close>. A class of
  the hierarchy is a kind of payload; a table name is the character array the record holds.
  Serialisation is shown to be inverted by deserialisation, and the log file to be the
  sequence of the records added, each on disk before its number is returned.
\<close>

section \<open>Log records\<close>

datatype LogType = UPDATE | INSERT | DELETE | BEGIN | COMMIT | ABORT

fun log_type_code :: "LogType \<Rightarrow> int" where
  "log_type_code UPDATE = 0"
| "log_type_code INSERT = 1"
| "log_type_code DELETE = 2"
| "log_type_code BEGIN = 3"
| "log_type_code COMMIT = 4"
| "log_type_code ABORT = 5"

datatype log_payload =
    NoData
  | InsertData "byte list" rid "byte list"
  | DeleteData "byte list" rid "byte list"
  | UpdateData "byte list" "byte list" rid "byte list"

record LogRecord =
  log_type :: LogType
  lsn :: int
  log_tot_len :: nat
  log_tid :: int
  log_prev_lsn :: int
  log_data :: log_payload

definition OFFSET_LOG_TYPE :: nat where "OFFSET_LOG_TYPE = 0"
definition OFFSET_LSN :: nat where "OFFSET_LSN = 4"
definition OFFSET_LOG_TOT_LEN :: nat where "OFFSET_LOG_TOT_LEN = 8"
definition OFFSET_LOG_TID :: nat where "OFFSET_LOG_TID = 12"
definition OFFSET_PREV_LSN :: nat where "OFFSET_PREV_LSN = 16"
definition OFFSET_LOG_DATA :: nat where "OFFSET_LOG_DATA = 20"
definition LOG_HEADER_SIZE :: nat where "LOG_HEADER_SIZE = OFFSET_LOG_DATA"

definition new_LogRecord :: "LogType \<Rightarrow> int \<Rightarrow> nat \<Rightarrow> log_payload \<Rightarrow> LogRecord" where
  "new_LogRecord ty tid extra pl =
     \<lparr>log_type = ty, lsn = INVALID_LSN, log_tot_len = LOG_HEADER_SIZE + extra, log_tid = tid,
      log_prev_lsn = INVALID_LSN, log_data = pl\<rparr>"

definition BeginLogRecord :: "int \<Rightarrow> LogRecord" where
  "BeginLogRecord tid = new_LogRecord BEGIN tid 0 NoData"

definition CommitLogRecord :: "int \<Rightarrow> LogRecord" where
  "CommitLogRecord tid = new_LogRecord COMMIT tid 0 NoData"

definition AbortLogRecord :: "int \<Rightarrow> LogRecord" where
  "AbortLogRecord tid = new_LogRecord ABORT tid 0 NoData"

definition InsertLogRecord :: "int \<Rightarrow> byte list \<Rightarrow> rid \<Rightarrow> byte list \<Rightarrow> LogRecord" where
  "InsertLogRecord tid v r name =
     new_LogRecord INSERT tid (4 + length v + 8 + 8 + length name) (InsertData v r name)"

definition DeleteLogRecord :: "int \<Rightarrow> byte list \<Rightarrow> rid \<Rightarrow> byte list \<Rightarrow> LogRecord" where
  "DeleteLogRecord tid v r name =
     new_LogRecord DELETE tid (4 + length v + 8 + 8 + length name) (DeleteData v r name)"

definition UpdateLogRecord :: "int \<Rightarrow> byte list \<Rightarrow> byte list \<Rightarrow> rid \<Rightarrow> byte list \<Rightarrow> LogRecord" where
  "UpdateLogRecord tid old new r name =
     new_LogRecord UPDATE tid (4 + length old + 4 + length new + 8 + 8 + length name) (UpdateData old new r name)"

section \<open>The byte format\<close>

text \<open>\<open>memcpy(dest + offset, chunk, size); offset += size;\<close> repeated.\<close>

fun put_chunks :: "nat \<Rightarrow> byte list list \<Rightarrow> byte list \<Rightarrow> byte list" where
  "put_chunks off [] buf = buf"
| "put_chunks off (c # cs) buf = put_chunks (off + length c) cs (write_at off c buf)"

definition rid_bytes :: "rid \<Rightarrow> byte list" where
  "rid_bytes r = put_int 4 (rid_page_no r) @ put_int 4 (rid_slot_no r)"

definition serialize_header :: "LogRecord \<Rightarrow> byte list \<Rightarrow> byte list" where
  "serialize_header r dest =
     write_at OFFSET_PREV_LSN (put_int 4 (log_prev_lsn r))
      (write_at OFFSET_LOG_TID (put_int 4 (log_tid r))
       (write_at OFFSET_LOG_TOT_LEN (le_bytes 4 (log_tot_len r))
        (write_at OFFSET_LSN (put_int 4 (lsn r))
         (write_at OFFSET_LOG_TYPE (put_int 4 (log_type_code (log_type r))) dest))))"

text \<open>What each class copies after the header.\<close>

definition Insert_chunks :: "byte list \<Rightarrow> rid \<Rightarrow> byte list \<Rightarrow> byte list list" where
  "Insert_chunks v r name = [put_int 4 (int (length v)), v, rid_bytes r, le_bytes 8 (length name), name]"

definition Delete_chunks :: "byte list \<Rightarrow> rid \<Rightarrow> byte list \<Rightarrow> byte list list" where
  "Delete_chunks v r name = [put_int 4 (int (length v)), v, rid_bytes r, le_bytes 8 (length name), name]"

definition Update_chunks :: "byte list \<Rightarrow> byte list \<Rightarrow> rid \<Rightarrow> byte list \<Rightarrow> byte list list" where
  "Update_chunks old new r name =
     [put_int 4 (int (length old)), old, put_int 4 (int (length new)), new, rid_bytes r, le_bytes 8 (length name), name]"

lemmas chunk_defs = Insert_chunks_def Delete_chunks_def Update_chunks_def

fun payload_chunks :: "log_payload \<Rightarrow> byte list list" where
  "payload_chunks NoData = []"
| "payload_chunks (InsertData v r name) = Insert_chunks v r name"
| "payload_chunks (DeleteData v r name) = Delete_chunks v r name"
| "payload_chunks (UpdateData old new r name) = Update_chunks old new r name"

declare chunk_defs [simp]

definition serialize :: "LogRecord \<Rightarrow> byte list \<Rightarrow> byte list" where
  "serialize r dest = put_chunks OFFSET_LOG_DATA (payload_chunks (log_data r)) (serialize_header r dest)"

text \<open>
  Reading back. \<open>None\<close> stands for a read outside the source or an allocation of negative
  size. \<open>RmRecord::Deserialize\<close> reads a size and that many bytes.
\<close>

definition read_value :: "nat \<Rightarrow> byte list \<Rightarrow> byte list option" where
  "read_value off src =
     (let n = get_int (read_at off 4 src) in
      if off + 4 \<le> length src \<and> 0 \<le> n \<and> off + 4 + nat n \<le> length src then Some (read_at (off + 4) (nat n) src) else None)"

definition read_rid :: "nat \<Rightarrow> byte list \<Rightarrow> rid" where
  "read_rid off src = Rid (get_int (read_at off 4 src)) (get_int (read_at (off + 4) 4 src))"

definition read_place :: "nat \<Rightarrow> byte list \<Rightarrow> (rid \<times> byte list) option" where
  "read_place off src =
     (let n = le_val (read_at (off + 8) 8 src) in
      if off + 16 \<le> length src \<and> off + 16 + n \<le> length src
      then Some (read_rid off src, read_at (off + 16) n src) else None)"

definition Insert_deserialize :: "byte list \<Rightarrow> log_payload option" where
  "Insert_deserialize src =
     Option.bind (read_value OFFSET_LOG_DATA src) (\<lambda>v.
       map_option (\<lambda>(r, name). InsertData v r name) (read_place (OFFSET_LOG_DATA + length v + 4) src))"

definition Delete_deserialize :: "byte list \<Rightarrow> log_payload option" where
  "Delete_deserialize src =
     Option.bind (read_value OFFSET_LOG_DATA src) (\<lambda>v.
       map_option (\<lambda>(r, name). DeleteData v r name) (read_place (OFFSET_LOG_DATA + length v + 4) src))"

definition Update_deserialize :: "byte list \<Rightarrow> log_payload option" where
  "Update_deserialize src =
     Option.bind (read_value OFFSET_LOG_DATA src) (\<lambda>old.
       Option.bind (read_value (OFFSET_LOG_DATA + length old + 4) src) (\<lambda>new.
         map_option (\<lambda>(r, name). UpdateData old new r name)
           (read_place (OFFSET_LOG_DATA + length old + 4 + (length new + 4)) src)))"

fun deserialize_payload :: "LogType \<Rightarrow> byte list \<Rightarrow> log_payload option" where
  "deserialize_payload INSERT src = Insert_deserialize src"
| "deserialize_payload DELETE src = Delete_deserialize src"
| "deserialize_payload UPDATE src = Update_deserialize src"
| "deserialize_payload _ src = Some NoData"

declare Insert_deserialize_def [simp] Delete_deserialize_def [simp] Update_deserialize_def [simp]

text \<open>
  The type field is read back from the bytes; which class's \<open>deserialize\<close> runs (\<open>ty\<close>) is the
  caller's choice. A number that is not a \<open>LogType\<close> gives no value of the enumeration.
\<close>

definition log_type_of :: "int \<Rightarrow> LogType option" where
  "log_type_of c = find (\<lambda>t. log_type_code t = c) [UPDATE, INSERT, DELETE, BEGIN, COMMIT, ABORT]"

lemma log_type_of_code [simp]: "log_type_of (log_type_code t) = Some t"
  by (cases t) (simp_all add: log_type_of_def)

lemma log_type_code_range [simp]: "in_range 4 (log_type_code t)"
  by (cases t) (simp_all add: in_range_def)

definition deserialize :: "LogType \<Rightarrow> byte list \<Rightarrow> LogRecord option" where
  "deserialize ty src =
     (if length src < LOG_HEADER_SIZE then None
      else Option.bind (log_type_of (get_int (read_at OFFSET_LOG_TYPE 4 src))) (\<lambda>t. map_option (\<lambda>pl.
        \<lparr>log_type = t, lsn = get_int (read_at OFFSET_LSN 4 src), log_tot_len = le_val (read_at OFFSET_LOG_TOT_LEN 4 src),
         log_tid = get_int (read_at OFFSET_LOG_TID 4 src), log_prev_lsn = get_int (read_at OFFSET_PREV_LSN 4 src),
         log_data = pl\<rparr>) (deserialize_payload ty src)))"

section \<open>The log manager\<close>

record log_mgr =
  global_lsn :: int
  log_buffer :: "byte list"
  log_offset :: nat
  persist_lsn :: int

text \<open>\<open>lsn0\<close>: the uninitialised \<open>persist_lsn_\<close>.\<close>

definition LogManager :: "int \<Rightarrow> log_mgr" where
  "LogManager lsn0 =
     \<lparr>global_lsn = 0, log_buffer = replicate (LOG_BUFFER_SIZE + 1) 0, log_offset = 0, persist_lsn = lsn0\<rparr>"

definition is_full :: "nat \<Rightarrow> log_mgr \<Rightarrow> bool" where
  "is_full append_size m \<longleftrightarrow> log_offset m + append_size > LOG_BUFFER_SIZE"

text \<open>The manager works on the disk manager it shares with the buffer pool.\<close>

type_synonym log_state = "log_mgr \<times> disk"

definition flush_log_to_disk :: "(log_state, unit) rcmd" where
  "flush_log_to_disk s = (case s of (m, d) \<Rightarrow>
     (case write_log (take (log_offset m) (log_buffer m)) d of
        (Inl e, d') \<Rightarrow> (Inl e, (m, d'))
      | (Inr _, d') \<Rightarrow> (Inr (), (m\<lparr>log_offset := 0, persist_lsn := global_lsn m - 1\<rparr>, d'))))"

definition add_log_to_buffer :: "LogRecord \<Rightarrow> (log_state, int \<times> LogRecord) rcmd" where
  "add_log_to_buffer r =
     bindc (\<lambda>s. if is_full (log_tot_len r) (fst s) then flush_log_to_disk s else (Inr (), s)) (\<lambda>_ s. case s of (m, d) \<Rightarrow>
       let r' = r\<lparr>lsn := global_lsn m\<rparr>; m1 = m\<lparr>global_lsn := wrap_int 4 (global_lsn m + 1)\<rparr>;
           bs = serialize r' (replicate (log_tot_len r) 0) in
       if LOG_BUFFER_SIZE + 1 < log_offset m + log_tot_len r then (Inl (UndefinedBehaviour ''log_buffer_''), (m1, d))
       else bindc flush_log_to_disk (\<lambda>_. ret (global_lsn m, r'))
              (m1\<lparr>log_buffer := write_at (log_offset m) bs (log_buffer m), log_offset := log_offset m + log_tot_len r\<rparr>, d))"

section \<open>Round trip\<close>

text \<open>
  A record as the constructors make it, with the number it is given and every field in the
  range of its C type.
\<close>

fun payload_ok :: "LogType \<Rightarrow> log_payload \<Rightarrow> bool" where
  "payload_ok INSERT (InsertData v r name) \<longleftrightarrow>
     in_range 4 (int (length v)) \<and> in_range 4 (rid_page_no r) \<and> in_range 4 (rid_slot_no r) \<and> length name < 256 ^ 8"
| "payload_ok DELETE (DeleteData v r name) \<longleftrightarrow>
     in_range 4 (int (length v)) \<and> in_range 4 (rid_page_no r) \<and> in_range 4 (rid_slot_no r) \<and> length name < 256 ^ 8"
| "payload_ok UPDATE (UpdateData old new r name) \<longleftrightarrow>
     in_range 4 (int (length old)) \<and> in_range 4 (int (length new)) \<and>
     in_range 4 (rid_page_no r) \<and> in_range 4 (rid_slot_no r) \<and> length name < 256 ^ 8"
| "payload_ok BEGIN NoData \<longleftrightarrow> True"
| "payload_ok COMMIT NoData \<longleftrightarrow> True"
| "payload_ok ABORT NoData \<longleftrightarrow> True"
| "payload_ok _ _ \<longleftrightarrow> False"

definition log_ok :: "LogRecord \<Rightarrow> bool" where
  "log_ok r \<longleftrightarrow>
     payload_ok (log_type r) (log_data r) \<and>
     log_tot_len r = LOG_HEADER_SIZE + length (concat (payload_chunks (log_data r))) \<and> log_tot_len r < 256 ^ 4 \<and>
     in_range 4 (lsn r) \<and> in_range 4 (log_tid r) \<and> in_range 4 (log_prev_lsn r)"

lemmas log_offsets = OFFSET_LOG_TYPE_def OFFSET_LSN_def OFFSET_LOG_TOT_LEN_def OFFSET_LOG_TID_def OFFSET_PREV_LSN_def
  OFFSET_LOG_DATA_def LOG_HEADER_SIZE_def

lemma put_chunks_concat:
  "off + length (concat cs) \<le> length buf \<Longrightarrow> put_chunks off cs buf = write_at off (concat cs) buf"
proof (induction cs arbitrary: off buf)
  case (Cons c cs)
  have "off + length c + length (concat cs) \<le> length (write_at off c buf)"
    using Cons.prems by (simp add: length_write_at)
  with Cons show ?case by (simp add: write_at_append)
qed (simp add: write_at_def)

text \<open>The record laid out: header fields, then the payload.\<close>

definition log_bytes :: "LogRecord \<Rightarrow> byte list" where
  "log_bytes r =
     put_int 4 (log_type_code (log_type r)) @ put_int 4 (lsn r) @ le_bytes 4 (log_tot_len r) @ put_int 4 (log_tid r) @
     put_int 4 (log_prev_lsn r) @ concat (payload_chunks (log_data r))"

lemma length_log_bytes: "length (log_bytes r) = LOG_HEADER_SIZE + length (concat (payload_chunks (log_data r)))"
  by (simp add: log_bytes_def log_offsets)

lemma serialize_log_bytes:
  assumes "length dest = LOG_HEADER_SIZE + length (concat (payload_chunks (log_data r)))"
  shows "serialize r dest = log_bytes r"
proof -
  let ?h = "[put_int 4 (log_type_code (log_type r)), put_int 4 (lsn r), le_bytes 4 (log_tot_len r), put_int 4 (log_tid r),
    put_int 4 (log_prev_lsn r)]"
  have "serialize_header r dest = put_chunks 0 ?h dest" by (simp add: serialize_header_def log_offsets)
  moreover have "put_chunks OFFSET_LOG_DATA cs (put_chunks 0 ?h dest) = put_chunks 0 (?h @ cs) dest" for cs
    by (simp add: log_offsets)
  ultimately have "serialize r dest = put_chunks 0 (?h @ payload_chunks (log_data r)) dest"
    by (simp only: serialize_def)
  also have "\<dots> = log_bytes r"
    using assms by (subst put_chunks_concat) (simp_all add: log_offsets write_at_0 log_bytes_def)
  finally show ?thesis .
qed

lemma length_rid_bytes [simp]: "length (rid_bytes r) = 8"
  by (simp add: rid_bytes_def)

lemma read_value_at:
  "off = length a \<Longrightarrow> in_range 4 (int (length v)) \<Longrightarrow> read_value off (a @ put_int 4 (int (length v)) @ v @ c) = Some v"
  by (simp add: read_value_def read_at_skip read_at_first)

lemma read_place_at:
  "off = length a \<Longrightarrow> in_range 4 (rid_page_no r) \<Longrightarrow> in_range 4 (rid_slot_no r) \<Longrightarrow> length name < 256 ^ 8 \<Longrightarrow>
   read_place off (a @ rid_bytes r @ le_bytes 8 (length name) @ name @ c) = Some (r, name)"
  by (simp add: read_place_def read_rid_def rid_bytes_def read_at_skip read_at_first le_val_le_bytes)

lemma deserialize_payload_at:
  assumes "length h = OFFSET_LOG_DATA" and "payload_ok ty pl"
  shows "deserialize_payload ty (h @ concat (payload_chunks pl) @ c) = Some pl"
  using assms
proof (induction ty pl rule: payload_ok.induct)
  case (1 v r name)
  let ?c = "put_int 4 (int (length v)) @ v"
  have "read_value OFFSET_LOG_DATA (h @ put_int 4 (int (length v)) @ v @ rid_bytes r @ le_bytes 8 (length name) @ name @ c) = Some v"
    by (rule read_value_at) (use 1 in simp_all)
  moreover have "read_place (OFFSET_LOG_DATA + length v + 4) ((h @ ?c) @ rid_bytes r @ le_bytes 8 (length name) @ name @ c) = Some (r, name)"
    by (rule read_place_at) (use 1 in simp_all)
  ultimately show ?case by simp
next
  case (2 v r name)
  let ?c = "put_int 4 (int (length v)) @ v"
  have "read_value OFFSET_LOG_DATA (h @ put_int 4 (int (length v)) @ v @ rid_bytes r @ le_bytes 8 (length name) @ name @ c) = Some v"
    by (rule read_value_at) (use 2 in simp_all)
  moreover have "read_place (OFFSET_LOG_DATA + length v + 4) ((h @ ?c) @ rid_bytes r @ le_bytes 8 (length name) @ name @ c) = Some (r, name)"
    by (rule read_place_at) (use 2 in simp_all)
  ultimately show ?case by simp
next
  case (3 old new r name)
  let ?o = "put_int 4 (int (length old)) @ old" and ?n = "put_int 4 (int (length new)) @ new"
  let ?e = "rid_bytes r @ le_bytes 8 (length name) @ name @ c"
  have "read_value OFFSET_LOG_DATA (h @ put_int 4 (int (length old)) @ old @ ?n @ ?e) = Some old"
    by (rule read_value_at) (use 3 in simp_all)
  moreover have "read_value (OFFSET_LOG_DATA + length old + 4) ((h @ ?o) @ put_int 4 (int (length new)) @ new @ ?e) = Some new"
    by (rule read_value_at) (use 3 in simp_all)
  moreover have "read_place (OFFSET_LOG_DATA + length old + 4 + (length new + 4)) ((h @ ?o @ ?n) @ ?e) = Some (r, name)"
    by (rule read_place_at) (use 3 in simp_all)
  ultimately show ?case by simp
qed simp_all

lemma deserialize_log_bytes:
  assumes "log_ok r"
  shows "deserialize (log_type r) (log_bytes r @ c) = Some r"
proof -
  let ?h = "put_int 4 (log_type_code (log_type r)) @ put_int 4 (lsn r) @ le_bytes 4 (log_tot_len r) @ put_int 4 (log_tid r) @
     put_int 4 (log_prev_lsn r)"
  have "deserialize_payload (log_type r) (?h @ concat (payload_chunks (log_data r)) @ c) = Some (log_data r)"
    by (rule deserialize_payload_at) (use assms in \<open>simp_all add: log_offsets log_ok_def\<close>)
  then show ?thesis
    using assms by (simp add: deserialize_def log_bytes_def log_ok_def log_offsets read_at_skip read_at_first le_val_le_bytes)
qed

section \<open>The log file\<close>

text \<open>The log file exists and is either not open yet or open under the descriptor recorded.\<close>

definition log_ready :: "disk \<Rightarrow> bool" where
  "log_ready d \<longleftrightarrow> disk_wf d \<and> os_files (dm_os d) LOG_FILE_NAME \<noteq> None \<and>
     (log_fd d = - 1 \<or> hfind (fd2path d) (log_fd d) = Some LOG_FILE_NAME)"

abbreviation log_file :: "disk \<Rightarrow> byte list" where
  "log_file d \<equiv> the (os_files (dm_os d) LOG_FILE_NAME)"

lemma open_log_ready:
  assumes r: "log_ready d" and o: "open_log d = (Inr (), d')"
  shows "disk_wf d' \<and> hfind (fd2path d') (log_fd d') = Some LOG_FILE_NAME \<and> os_files (dm_os d') = os_files (dm_os d)"
proof -
  have "disk_wf (snd (open_log d))" using r by (intro disk_wf_open_log) (simp add: log_ready_def)
  then have w: "disk_wf d'" using o by simp
  show ?thesis
  proof (cases "log_fd d = - 1")
    case True
    with o w show ?thesis
      by (auto simp: open_log_def bindc_def open_file_def os_open_def Let_def split: if_splits)
  next
    case False
    with o w r show ?thesis by (simp add: open_log_def log_ready_def)
  qed
qed

lemma write_log_ready:
  assumes r: "log_ready d" and wl: "write_log bs d = (Inr (), d')"
  shows "log_ready d'" "os_files (dm_os d') = (os_files (dm_os d))(LOG_FILE_NAME \<mapsto> log_file d @ bs)"
proof -
  obtain d1 where o: "open_log d = (Inr (), d1)" using wl by (auto simp: write_log_def bindc_eq_Inr)
  from open_log_ready [OF r o] have d1: "disk_wf d1" "hfind (fd2path d1) (log_fd d1) = Some LOG_FILE_NAME"
    "os_files (dm_os d1) = os_files (dm_os d)" by auto
  obtain f where f: "os_files (dm_os d1) LOG_FILE_NAME = Some f" using r d1(3) by (auto simp: log_ready_def)
  have fd: "hfind (os_fds (dm_os d1)) (log_fd d1) = Some LOG_FILE_NAME" using disk_wf_tables [OF d1(1)] d1(2) by simp
  obtain s where s: "os_write (log_fd d1) (length f) bs (dm_os d1) = (length bs, s)" "d' = d1\<lparr>dm_os := s\<rparr>"
    using wl o fd f by (auto simp: write_log_def os_file_def bindc_def Let_def split: prod.splits if_splits)
  from os_write_full [OF s(1) fd f] have e: "os_files s = (os_files (dm_os d1))(LOG_FILE_NAME \<mapsto> f @ bs)"
    by (simp add: file_write_end)
  show "os_files (dm_os d') = (os_files (dm_os d))(LOG_FILE_NAME \<mapsto> log_file d @ bs)" using e s(2) d1(3) f by simp
  show "log_ready d'" using disk_wf_os_write [OF d1(1) s(1)] s(2) d1(2) e by (simp add: log_ready_def)
qed

text \<open>
  Between two calls the buffer is empty: every \<open>add_log_to_buffer\<close> flushes.
\<close>

definition log_inv :: "log_state \<Rightarrow> bool" where
  "log_inv s \<longleftrightarrow> log_ready (snd s) \<and> log_offset (fst s) = 0 \<and> length (log_buffer (fst s)) = LOG_BUFFER_SIZE + 1"

lemma add_log_effect:
  assumes i: "log_inv (m, d)" and r: "log_tot_len r = LOG_HEADER_SIZE + length (concat (payload_chunks (log_data r)))"
    and l: "log_tot_len r \<le> LOG_BUFFER_SIZE"
    and a: "add_log_to_buffer r (m, d) = (Inr (n, r'), (m', d'))"
  shows "n = global_lsn m" "r' = r\<lparr>lsn := global_lsn m\<rparr>" "log_inv (m', d')"
    "os_files (dm_os d') = (os_files (dm_os d))(LOG_FILE_NAME \<mapsto> log_file d @ log_bytes r')"
    "global_lsn m' = wrap_int 4 (global_lsn m + 1)" "persist_lsn m' = global_lsn m' - 1"
    "write_log (log_bytes r') d = (Inr (), d')"
proof -
  let ?r = "r\<lparr>lsn := global_lsn m\<rparr>" and ?m = "m\<lparr>global_lsn := wrap_int 4 (global_lsn m + 1)\<rparr>"
  let ?b = "write_at 0 (log_bytes ?r) (log_buffer m)"
  have lb: "length (log_bytes ?r) = log_tot_len r" using r by (simp add: length_log_bytes)
  have sz: "serialize ?r (replicate (log_tot_len r) 0) = log_bytes ?r" using r by (intro serialize_log_bytes) simp
  from i have o: "log_ready d" "log_offset m = 0" "length (log_buffer m) = LOG_BUFFER_SIZE + 1" by (simp_all add: log_inv_def)
  have tk: "take (log_tot_len r) ?b = log_bytes ?r" using lb by (simp add: write_at_def)
  have nf: "\<not> is_full (log_tot_len r) m" using o l by (simp add: is_full_def)
  from a have w: "write_log (log_bytes ?r) d = (Inr (), d')" and n: "n = global_lsn m" "r' = ?r"
    and m': "m' = ?m\<lparr>log_buffer := ?b, log_offset := 0, persist_lsn := global_lsn ?m - 1\<rparr>"
    using nf l o sz tk
    by (auto simp: add_log_to_buffer_def bindc_def Let_def flush_log_to_disk_def split: prod.splits sum.splits if_splits)
  show "n = global_lsn m" "r' = ?r" by (fact n)+
  show "write_log (log_bytes r') d = (Inr (), d')" using w n by simp
  show "global_lsn m' = wrap_int 4 (global_lsn m + 1)" "persist_lsn m' = global_lsn m' - 1" by (simp_all add: m')
  show "os_files (dm_os d') = (os_files (dm_os d))(LOG_FILE_NAME \<mapsto> log_file d @ log_bytes r')"
    using write_log_ready(2) [OF o(1) w] n by simp
  show "log_inv (m', d')"
    using write_log_ready(1) [OF o(1) w] o l lb by (simp add: log_inv_def m' length_write_at)
qed

section \<open>Properties\<close>

text \<open>Adding records one after another; the result is the records with their numbers.\<close>

fun add_logs :: "LogRecord list \<Rightarrow> (log_state, LogRecord list) rcmd" where
  "add_logs [] = ret []"
| "add_logs (r # rs) = bindc (add_log_to_buffer r) (\<lambda>(n, r'). bindc (add_logs rs) (\<lambda>rs'. ret (r' # rs')))"

definition well_sized :: "LogRecord \<Rightarrow> bool" where
  "well_sized r \<longleftrightarrow> log_tot_len r = LOG_HEADER_SIZE + length (concat (payload_chunks (log_data r))) \<and>
     log_tot_len r \<le> LOG_BUFFER_SIZE"

lemma constructors_well_sized:
  "log_tot_len (BeginLogRecord t) = LOG_HEADER_SIZE + length (concat (payload_chunks (log_data (BeginLogRecord t))))"
  "log_tot_len (CommitLogRecord t) = LOG_HEADER_SIZE + length (concat (payload_chunks (log_data (CommitLogRecord t))))"
  "log_tot_len (AbortLogRecord t) = LOG_HEADER_SIZE + length (concat (payload_chunks (log_data (AbortLogRecord t))))"
  "log_tot_len (InsertLogRecord t v r nm) = LOG_HEADER_SIZE + length (concat (payload_chunks (log_data (InsertLogRecord t v r nm))))"
  "log_tot_len (DeleteLogRecord t v r nm) = LOG_HEADER_SIZE + length (concat (payload_chunks (log_data (DeleteLogRecord t v r nm))))"
  "log_tot_len (UpdateLogRecord t v w r nm) = LOG_HEADER_SIZE + length (concat (payload_chunks (log_data (UpdateLogRecord t v w r nm))))"
  by (simp_all add: BeginLogRecord_def CommitLogRecord_def AbortLogRecord_def InsertLogRecord_def DeleteLogRecord_def
      UpdateLogRecord_def new_LogRecord_def)

lemma add_logs_effect:
  assumes "log_inv (m, d)" and "\<forall>r \<in> set rs. well_sized r" and "in_range 4 (global_lsn m)"
    and "in_range 4 (global_lsn m + int (length rs))" and "add_logs rs (m, d) = (Inr rs', (m', d'))"
  shows "log_inv (m', d') \<and> length rs' = length rs \<and>
    os_files (dm_os d') LOG_FILE_NAME = Some (log_file d @ concat (map log_bytes rs')) \<and>
    (\<forall>i < length rs. rs' ! i = (rs ! i)\<lparr>lsn := global_lsn m + int i\<rparr>) \<and> global_lsn m' = global_lsn m + int (length rs)"
  using assms
proof (induction rs arbitrary: m d rs')
  case Nil
  then show ?case by (auto simp: log_inv_def log_ready_def)
next
  case (Cons r rs)
  then obtain n r' m1 d1 rs'' where a: "add_log_to_buffer r (m, d) = (Inr (n, r'), (m1, d1))"
    and b: "add_logs rs (m1, d1) = (Inr rs'', (m', d'))" and rs': "rs' = r' # rs''"
    by (auto simp: bindc_eq_Inr)
  have "well_sized r" using Cons.prems(2) by simp
  then have sz: "log_tot_len r = LOG_HEADER_SIZE + length (concat (payload_chunks (log_data r)))" "log_tot_len r \<le> LOG_BUFFER_SIZE"
    by (simp_all add: well_sized_def)
  note e = add_log_effect [OF Cons.prems(1) sz a]
  have rg: "in_range 4 (global_lsn m + 1)" using Cons.prems(3,4) by (auto simp: in_range_def)
  then have g: "global_lsn m1 = global_lsn m + 1" using e(5) by simp
  have "\<forall>r \<in> set rs. well_sized r" "in_range 4 (global_lsn m1)" "in_range 4 (global_lsn m1 + int (length rs))"
    using Cons.prems(2,4) g rg by (simp_all add: algebra_simps)
  note ih = Cons.IH [OF e(3) this b]
  have "rs' ! i = ((r # rs) ! i)\<lparr>lsn := global_lsn m + int i\<rparr>" if "i < length (r # rs)" for i
    using ih e(2) rs' g that by (cases i) (auto simp: algebra_simps)
  with ih e(4) rs' g show ?case by (simp add: algebra_simps)
qed

text \<open>
  Property C12. A log record survives its byte format: what \<open>serialize\<close> writes into a buffer of
  the record's length, followed by anything, is read back by \<open>deserialize\<close> as the same record,
  and the type and length fields can be read at their offsets.
\<close>

theorem log_record_roundtrip:
  assumes "log_ok r"
  shows "let src = serialize r (replicate (log_tot_len r) 0) @ c in
     get_int (read_at OFFSET_LOG_TYPE 4 src) = log_type_code (log_type r) \<and>
     le_val (read_at OFFSET_LOG_TOT_LEN 4 src) = log_tot_len r \<and>
     deserialize (log_type r) src = Some r"
proof -
  have s: "serialize r (replicate (log_tot_len r) 0) = log_bytes r"
    using assms by (intro serialize_log_bytes) (simp add: log_ok_def)
  have "in_range 4 (log_type_code (log_type r))" by (cases "log_type r") (simp_all add: in_range_def)
  then show ?thesis
    using deserialize_log_bytes [OF assms, of c] assms
    by (simp add: s Let_def) (simp add: log_bytes_def log_ok_def log_offsets read_at_skip read_at_first le_val_le_bytes)
qed

theorem log_record_roundtrip_witness:
  "let r = (UpdateLogRecord 3 [1, 2] [5, 6] (Rid 1 7) [116])\<lparr>lsn := 12\<rparr> in
     deserialize UPDATE (serialize r (replicate (log_tot_len r) 0) @ [9]) = Some r"
proof -
  let ?r = "(UpdateLogRecord 3 [1, 2] [5, 6] (Rid 1 7) [116])\<lparr>lsn := 12\<rparr>"
  have "log_ok ?r"
    by (simp add: log_ok_def UpdateLogRecord_def new_LogRecord_def in_range_def INVALID_LSN_def LOG_HEADER_SIZE_def OFFSET_LOG_DATA_def)
  from log_record_roundtrip [OF this, of "[9]"] show ?thesis
    by (simp add: Let_def UpdateLogRecord_def new_LogRecord_def)
qed

text \<open>
  Property C13. Write-ahead logging: records added one after another get consecutive log
  sequence numbers, and when the calls have returned the log file has grown by exactly their
  byte images, in that order: each record is on disk before its number is handed back, and the
  other files are untouched.
\<close>

theorem log_file_is_the_log:
  assumes "log_inv (m, d)" and "\<forall>r \<in> set rs. well_sized r" and "in_range 4 (global_lsn m)"
    and "in_range 4 (global_lsn m + int (length rs))" and "add_logs rs (m, d) = (Inr rs', (m', d'))"
  shows "os_files (dm_os d') LOG_FILE_NAME = Some (log_file d @ concat (map log_bytes rs')) \<and>
     map lsn rs' = map (\<lambda>i. global_lsn m + int i) [0..<length rs] \<and>
     (\<forall>i < length rs. rs' ! i = (rs ! i)\<lparr>lsn := global_lsn m + int i\<rparr>) \<and> log_inv (m', d')"
proof -
  note e = add_logs_effect [OF assms]
  then have "map lsn rs' = map (\<lambda>i. global_lsn m + int i) [0..<length rs]" by (auto intro!: nth_equalityI)
  with e show ?thesis by blast
qed

lemma write_log_disk: "length bs \<le> 1000 \<Longrightarrow> \<exists>d. write_log bs log_disk = (Inr (), d)"
  by (auto simp: write_log_def open_log_def bindc_def log_disk_def os_file_def os_write_def Let_def LOG_FILE_NAME_def)

theorem log_file_is_the_log_witness:
  "\<exists>m' d'. add_logs [BeginLogRecord 5] (LogManager 0, log_disk) = (Inr [(BeginLogRecord 5)\<lparr>lsn := 0\<rparr>], (m', d')) \<and>
     os_files (dm_os d') LOG_FILE_NAME = Some ([7, 8] @ log_bytes ((BeginLogRecord 5)\<lparr>lsn := 0\<rparr>))"
proof -
  let ?r = "(BeginLogRecord 5)\<lparr>lsn := 0\<rparr>"
  have b: "log_bytes ?r = serialize ?r (replicate 20 0)" "length (log_bytes ?r) = 20"
    by (simp_all add: serialize_log_bytes length_log_bytes BeginLogRecord_def new_LogRecord_def log_offsets)
  from b(2) obtain d where d: "write_log (log_bytes ?r) log_disk = (Inr (), d)" using write_log_disk [of "log_bytes ?r"] by auto
  have t: "log_tot_len (BeginLogRecord 5) = 20" by (simp add: BeginLogRecord_def new_LogRecord_def log_offsets)
  have rd: "log_ready log_disk" using log_disk_wf by (simp add: log_ready_def) (simp add: log_disk_def)
  have L: "20 \<le> LOG_BUFFER_SIZE" by (simp add: LOG_BUFFER_SIZE_def PAGE_SIZE_def)
  obtain m' where a: "add_logs [BeginLogRecord 5] (LogManager 0, log_disk) = (Inr [?r], (m', d))"
    using d L b by (auto simp: add_log_to_buffer_def bindc_def LogManager_def is_full_def Let_def t flush_log_to_disk_def write_at_def)
  have "log_inv (LogManager 0, log_disk)" "\<forall>r \<in> set [BeginLogRecord 5]. well_sized r"
    "in_range 4 (global_lsn (LogManager 0))" "in_range 4 (global_lsn (LogManager 0) + int (length [BeginLogRecord 5]))"
    using log_disk_wf L t constructors_well_sized(1) [of 5] rd
    by (simp_all add: log_inv_def LogManager_def well_sized_def in_range_def)
  note p = log_file_is_the_log [OF this a, THEN conjunct1]
  have "log_file log_disk = [7, 8]" by (simp add: log_disk_def LOG_FILE_NAME_def)
  with p have "os_files (dm_os d) LOG_FILE_NAME = Some ([7, 8] @ log_bytes ?r)" by simp
  with a show ?thesis by blast
qed

end
