(* ===== verification/Replacer.thy ===== *)
theory Replacer
  imports Common
begin

text \<open>
  The replacement policy of the buffer pool: \<open>src/src/replacer/lru_replacer.h\<close> and
  \<open>lru_replacer.cpp\<close>. \<open>LRUlist_\<close> is a doubly linked list and \<open>LRUhash_\<close> maps a frame
  to an iterator into it, so the list is modelled with the address of every node, and
  \<open>erase(it)\<close> removes the node at that address. The locale \<open>replacer\<close> is the interface
  \<open>src/src/replacer/replacer.h\<close> promises its client in terms of the queue of evictable
  frames, most recently released first; its interpretation is the correctness of the two
  structures working together.
\<close>

section \<open>The code\<close>

type_synonym frame_id = nat

record lru =
  LRUlist :: "(nat \<times> frame_id) list"
  LRUhash :: "(frame_id, nat) hmap"
  max_size :: nat
  next_node :: nat

definition LRUReplacer :: "nat \<Rightarrow> lru" where
  "LRUReplacer num_pages = \<lparr>LRUlist = [], LRUhash = [], max_size = num_pages, next_node = 0\<rparr>"

definition list_erase :: "nat \<Rightarrow> (nat \<times> frame_id) list \<Rightarrow> (nat \<times> frame_id) list" where
  "list_erase it l = filter (\<lambda>n. fst n \<noteq> it) l"

definition victim :: "lru \<Rightarrow> frame_id option \<times> lru" where
  "victim r =
     (if LRUlist r = [] then (None, r)
      else let f = snd (last (LRUlist r))
           in (Some f, r\<lparr>LRUhash := herase f (LRUhash r), LRUlist := butlast (LRUlist r)\<rparr>))"

definition pin :: "frame_id \<Rightarrow> lru \<Rightarrow> lru" where
  "pin f r =
     (case hfind (LRUhash r) f of
        None \<Rightarrow> r
      | Some it \<Rightarrow> r\<lparr>LRUlist := list_erase it (LRUlist r), LRUhash := herase f (LRUhash r)\<rparr>)"

definition unpin :: "frame_id \<Rightarrow> lru \<Rightarrow> lru" where
  "unpin f r =
     (case hfind (LRUhash r) f of
        None \<Rightarrow> r\<lparr>LRUlist := (next_node r, f) # LRUlist r,
                   LRUhash := hput f (next_node r) (LRUhash r),
                   next_node := Suc (next_node r)\<rparr>
      | Some _ \<Rightarrow> r)"

definition Size :: "lru \<Rightarrow> nat" where
  "Size r = length (LRUlist r)"

section \<open>The interface\<close>

locale replacer =
  fixes new :: "nat \<Rightarrow> 'r"
    and vict :: "'r \<Rightarrow> frame_id option \<times> 'r"
    and pinf :: "frame_id \<Rightarrow> 'r \<Rightarrow> 'r"
    and unpinf :: "frame_id \<Rightarrow> 'r \<Rightarrow> 'r"
    and sz :: "'r \<Rightarrow> nat"
    and queue :: "'r \<Rightarrow> frame_id list"
    and inv :: "'r \<Rightarrow> bool"
  assumes inv_new: "inv (new n)" and queue_new: "queue (new n) = []"
    and inv_distinct: "inv r \<Longrightarrow> distinct (queue r)"
    and vict_empty: "inv r \<Longrightarrow> queue r = [] \<Longrightarrow> vict r = (None, r)"
    and vict_nonempty: "inv r \<Longrightarrow> queue r \<noteq> [] \<Longrightarrow>
      fst (vict r) = Some (last (queue r)) \<and> queue (snd (vict r)) = butlast (queue r)"
    and inv_vict: "inv r \<Longrightarrow> inv (snd (vict r))"
    and inv_pin: "inv r \<Longrightarrow> inv (pinf f r)"
    and queue_pin: "inv r \<Longrightarrow> queue (pinf f r) = filter (\<lambda>g. g \<noteq> f) (queue r)"
    and inv_unpin: "inv r \<Longrightarrow> inv (unpinf f r)"
    and queue_unpin: "inv r \<Longrightarrow> queue (unpinf f r) = (if f \<in> set (queue r) then queue r else f # queue r)"
    and sz_queue: "inv r \<Longrightarrow> sz r = length (queue r)"
begin

text \<open>What a client concludes from the interface alone.\<close>

lemma vict_set:
  assumes "inv r" and "vict r = (Some f, r')"
  shows "f \<in> set (queue r)" and "set (queue r') = set (queue r) - {f}" and "inv r'"
proof -
  have ne: "queue r \<noteq> []" using assms vict_empty [of r] by auto
  have q: "f = last (queue r)" "queue r' = butlast (queue r)"
    using vict_nonempty [OF assms(1) ne] assms(2) by auto
  show "f \<in> set (queue r)" using ne q by simp
  have "queue r = queue r' @ [f]" using ne q by simp
  moreover have "distinct (queue r)" by (rule inv_distinct [OF assms(1)])
  ultimately show "set (queue r') = set (queue r) - {f}" by auto
  show "inv r'" using inv_vict [OF assms(1)] assms(2) by simp
qed

lemma vict_None: "inv r \<Longrightarrow> vict r = (None, r') \<Longrightarrow> queue r = [] \<and> r' = r"
  using vict_nonempty [of r] vict_empty [of r] by (cases "queue r = []") auto

lemma set_pin: "inv r \<Longrightarrow> set (queue (pinf f r)) = set (queue r) - {f}"
  by (auto simp: queue_pin)

lemma set_unpin: "inv r \<Longrightarrow> set (queue (unpinf f r)) = insert f (set (queue r))"
  by (auto simp: queue_unpin)

text \<open>
  First released, first evicted: a frame released into an empty replacer is the victim after
  any frames released later, as long as it is not pinned in between.
\<close>

lemma first_unpinned_is_victim:
  assumes "inv r" and "queue r = []"
  shows "fst (vict (fold unpinf fs (unpinf f r))) = Some f"
proof -
  have "inv s \<Longrightarrow> queue s = qs @ [f] \<Longrightarrow> \<exists>qs'. queue (fold unpinf fs s) = qs' @ [f] \<and> inv (fold unpinf fs s)" for s qs
  proof (induction fs arbitrary: s qs)
    case (Cons g fs)
    have "\<exists>qs'. queue (unpinf g s) = qs' @ [f]"
      using Cons.prems by (auto simp: queue_unpin intro: exI [of _ "g # qs"])
    then show ?case using Cons.IH [OF inv_unpin [OF Cons.prems(1)]] by auto
  qed auto
  from this [of "unpinf f r" "[]"] show ?thesis
    using assms vict_nonempty by (fastforce simp: queue_unpin inv_unpin)
qed

end

section \<open>The list and the hash table implement it\<close>

definition lru_queue :: "lru \<Rightarrow> frame_id list" where
  "lru_queue r = map snd (LRUlist r)"

definition lru_inv :: "lru \<Rightarrow> bool" where
  "lru_inv r \<longleftrightarrow> distinct (map fst (LRUlist r)) \<and> distinct (map snd (LRUlist r)) \<and>
     (\<forall>n \<in> set (LRUlist r). fst n < next_node r) \<and>
     map_of (LRUhash r) = map_of (map prod.swap (LRUlist r))"

lemma hash_at:
  "lru_inv r \<Longrightarrow> hfind (LRUhash r) f = Some it \<longleftrightarrow> (it, f) \<in> set (LRUlist r)"
  by (auto simp: lru_inv_def hfind_in_set [symmetric] comp_def)

lemma hash_absent: "lru_inv r \<Longrightarrow> hfind (LRUhash r) f = None \<longleftrightarrow> f \<notin> set (lru_queue r)"
  by (simp add: lru_inv_def lru_queue_def map_of_eq_None_iff image_image)

lemma erase_node:
  assumes "distinct (map fst l)" "distinct (map snd l)" "(it, f) \<in> set l"
  shows "list_erase it l = filter (\<lambda>n. snd n \<noteq> f) l"
  unfolding list_erase_def
proof (rule filter_cong [OF refl])
  fix n assume "n \<in> set l"
  with assms show "fst n \<noteq> it \<longleftrightarrow> snd n \<noteq> f"
    by (metis distinct_map inj_on_contraD fst_conv snd_conv)
qed

lemma map_of_swap_filter:
  "distinct (map snd l) \<Longrightarrow>
   map_of (map prod.swap (filter (\<lambda>n. snd n \<noteq> f) l)) = (map_of (map prod.swap l))(f := None)"
  by (induction l) (auto simp: fun_eq_iff map_of_eq_None_iff)

lemma filter_snd_butlast:
  "l \<noteq> [] \<Longrightarrow> distinct (map snd l) \<Longrightarrow> filter (\<lambda>n. snd n \<noteq> snd (last l)) l = butlast l"
proof (induction l rule: rev_induct)
  case (snoc x xs)
  then have "snd x \<notin> snd ` set xs" by simp
  then have "\<forall>n \<in> set xs. snd n \<noteq> snd x" by (metis imageI)
  then have "filter (\<lambda>n. snd n \<noteq> snd x) xs = xs" by (simp add: filter_id_conv)
  then show ?case by simp
qed simp

lemma lru_inv_filter:
  "lru_inv r \<Longrightarrow>
   lru_inv (r\<lparr>LRUlist := filter (\<lambda>n. snd n \<noteq> f) (LRUlist r), LRUhash := herase f (LRUhash r)\<rparr>)"
  by (auto simp: lru_inv_def map_of_swap_filter distinct_map_filter)

lemma pin_eq:
  "lru_inv r \<Longrightarrow>
   pin f r = r\<lparr>LRUlist := filter (\<lambda>n. snd n \<noteq> f) (LRUlist r), LRUhash := LRUhash (pin f r)\<rparr>"
proof (cases "hfind (LRUhash r) f")
  case None
  assume "lru_inv r"
  with None have "filter (\<lambda>n. snd n \<noteq> f) (LRUlist r) = LRUlist r"
    by (auto simp: filter_id_conv hash_absent lru_queue_def)
  with None show ?thesis by (simp add: pin_def)
next
  case (Some it)
  assume i: "lru_inv r"
  with Some have "(it, f) \<in> set (LRUlist r)" by (simp add: hash_at)
  with Some i show ?thesis by (auto simp: pin_def lru_inv_def erase_node)
qed

lemma lru_inv_pin: "lru_inv r \<Longrightarrow> lru_inv (pin f r)"
proof (cases "hfind (LRUhash r) f")
  case (Some it)
  assume i: "lru_inv r"
  with Some have "(it, f) \<in> set (LRUlist r)" by (simp add: hash_at)
  then have "list_erase it (LRUlist r) = filter (\<lambda>n. snd n \<noteq> f) (LRUlist r)"
    using i by (auto simp: lru_inv_def intro: erase_node)
  then show ?thesis using Some lru_inv_filter [OF i, of f] by (simp add: pin_def)
qed (simp add: pin_def)

lemma lru_inv_unpin: "lru_inv r \<Longrightarrow> lru_inv (unpin f r)"
proof (cases "hfind (LRUhash r) f")
  case None
  assume i: "lru_inv r"
  with None have "f \<notin> set (lru_queue r)" by (simp add: hash_absent)
  with None i show ?thesis by (fastforce simp: unpin_def lru_inv_def lru_queue_def)
qed (simp add: unpin_def)

lemma lru_inv_victim: "lru_inv r \<Longrightarrow> lru_inv (snd (victim r))"
proof (cases "LRUlist r = []")
  case False
  assume i: "lru_inv r"
  with False have "filter (\<lambda>n. snd n \<noteq> snd (last (LRUlist r))) (LRUlist r) = butlast (LRUlist r)"
    by (simp add: lru_inv_def filter_snd_butlast)
  then show ?thesis
    using False lru_inv_filter [OF i, of "snd (last (LRUlist r))"] by (cases r) (simp add: victim_def Let_def)
qed (simp add: victim_def)

interpretation lru: replacer LRUReplacer victim pin unpin Size lru_queue lru_inv
proof unfold_locales
  fix r f n assume i: "lru_inv r"
  show "distinct (lru_queue r)" using i by (simp add: lru_inv_def lru_queue_def)
  show "lru_queue (pin f r) = filter (\<lambda>g. g \<noteq> f) (lru_queue r)"
    by (subst pin_eq [OF i]) (simp add: lru_queue_def filter_map comp_def)
  show "lru_queue (unpin f r) = (if f \<in> set (lru_queue r) then lru_queue r else f # lru_queue r)"
    using hash_absent [OF i, of f] by (auto simp: unpin_def lru_queue_def split: option.split)
  show "lru_inv (snd (victim r))" using i by (rule lru_inv_victim)
qed (auto simp: LRUReplacer_def lru_inv_def [of "\<lparr>LRUlist = [], LRUhash = [], max_size = n, next_node = 0\<rparr>" for n]
       lru_queue_def victim_def Size_def Let_def last_map map_butlast intro: lru_inv_pin lru_inv_unpin)

section \<open>Properties\<close>

text \<open>The victims of successive calls.\<close>

fun victims :: "nat \<Rightarrow> lru \<Rightarrow> frame_id option list" where
  "victims 0 r = []"
| "victims (Suc k) r = fst (victim r) # victims k (snd (victim r))"

lemma victims_queue:
  "lru_inv r \<Longrightarrow> lru_queue r = rev fs \<Longrightarrow> victims (length fs) r = map Some fs"
proof (induction fs arbitrary: r)
  case (Cons f fs)
  then have ne: "lru_queue r \<noteq> []" by simp
  from Cons.IH [OF lru.inv_vict [OF Cons.prems(1)]] lru.vict_nonempty [OF Cons.prems(1) ne] Cons.prems(2)
  show ?case by simp
qed simp

lemma unpin_all: "lru_inv r \<Longrightarrow> distinct (fs @ lru_queue r) \<Longrightarrow>
   lru_inv (fold unpin fs r) \<and> lru_queue (fold unpin fs r) = rev fs @ lru_queue r"
  by (induction fs arbitrary: r) (auto simp: lru.queue_unpin lru.inv_unpin)

text \<open>
  Property C7. Eviction order: frames released one after another into a new replacer are its
  victims in that order, each once, and then there is no victim; a frame pinned before its
  turn is passed over.
\<close>

theorem lru_evicts_in_release_order:
  assumes "distinct fs"
  shows "victims (length fs) (fold unpin fs (LRUReplacer n)) = map Some fs \<and>
     Size (fold unpin fs (LRUReplacer n)) = length fs \<and>
     victims (length (filter (\<lambda>f. f \<noteq> g) fs)) (pin g (fold unpin fs (LRUReplacer n))) =
       map Some (filter (\<lambda>f. f \<noteq> g) fs)"
proof -
  have r: "lru_inv (fold unpin fs (LRUReplacer n))" "lru_queue (fold unpin fs (LRUReplacer n)) = rev fs"
    using unpin_all [of "LRUReplacer n" fs] assms by (simp_all add: lru.inv_new lru.queue_new)
  show ?thesis
    using victims_queue [OF r] victims_queue [OF lru.inv_pin [OF r(1)], of g "filter (\<lambda>f. f \<noteq> g) fs"] lru.sz_queue [OF r(1)]
    by (simp add: r lru.queue_pin [OF r(1)] rev_filter)
qed

theorem lru_evicts_in_release_order_witness:
  "victims 3 (fold unpin [4, 2, 7] (LRUReplacer 9)) = [Some 4, Some 2, Some 7]"
  using lru_evicts_in_release_order [of "[4, 2, 7]" 9 0] by (simp add: numeral_3_eq_3)

end
