(* ===== verification/Buffer_Pool.thy ===== *)
theory Buffer_Pool
  imports Replacer Disk
begin

text \<open>
  The buffer pool: \<open>src/src/storage/page.h\<close>, \<open>buffer_pool_manager.h\<close> and
  \<open>buffer_pool_manager.cpp\<close>. A \<open>Page*\<close> is the index of a frame, \<open>nullptr\<close> is \<open>None\<close>,
  and so is \<open>INVALID_FRAME_ID\<close>. Every public operation takes the pool's latch for its whole
  duration, so an operation is one atomic step; the read-write latch inside a page is not
  modelled. After the code come the invariant of the pool, the effect of each operation on
  the abstract contents (what a reader of a page sees, in the pool or on disk), and the two
  ways in which the code can leave the invariant.
\<close>

section \<open>State\<close>

text \<open>The pin count is not bounded: more than \<open>2 ^ 31 - 1\<close> pins of one page at a time are not modelled.\<close>

record page =
  p_id :: page_id
  p_data :: "byte list"
  p_dirty :: bool
  p_pin :: int

record bpm =
  pool_size :: nat
  pages :: "page list"
  page_table :: "(page_id, frame_id) hmap"
  free_list :: "frame_id list"
  bp_replacer :: lru
  bp_disk :: disk

text \<open>
  The constructor of a page leaves the file descriptor of its identifier uninitialised:
  \<open>fd0\<close> stands for whatever is found there.
\<close>

definition new_Page :: "int \<Rightarrow> page" where
  "new_Page fd0 = \<lparr>p_id = PageId fd0 INVALID_PAGE_ID, p_data = replicate PAGE_SIZE 0, p_dirty = False, p_pin = 0\<rparr>"

definition BufferPoolManager :: "int \<Rightarrow> nat \<Rightarrow> disk \<Rightarrow> bpm" where
  "BufferPoolManager fd0 n d =
     \<lparr>pool_size = n, pages = replicate n (new_Page fd0), page_table = [], free_list = [0..<n],
      bp_replacer = LRUReplacer n, bp_disk = d\<rparr>"

definition upd_page :: "frame_id \<Rightarrow> (page \<Rightarrow> page) \<Rightarrow> bpm \<Rightarrow> bpm" where
  "upd_page f g s = s\<lparr>pages := (pages s)[f := g (pages s ! f)]\<rparr>"

definition on_disk :: "(disk, 'a) rcmd \<Rightarrow> (bpm, 'a) rcmd" where
  "on_disk = zoom bp_disk (\<lambda>d s. s\<lparr>bp_disk := d\<rparr>)"

section \<open>Operations\<close>

definition mark_dirty :: "frame_id \<Rightarrow> bpm \<Rightarrow> bpm" where
  "mark_dirty f = upd_page f (\<lambda>p. p\<lparr>p_dirty := True\<rparr>)"

definition find_victim_page :: "bpm \<Rightarrow> frame_id option \<times> bpm" where
  "find_victim_page s =
     (case free_list s of
        f # fs \<Rightarrow> (Some f, s\<lparr>free_list := fs\<rparr>)
      | [] \<Rightarrow> (let (v, r) = victim (bp_replacer s) in (v, s\<lparr>bp_replacer := r\<rparr>)))"

definition update_page :: "frame_id \<Rightarrow> page_id \<Rightarrow> frame_id option \<Rightarrow> (bpm, unit) rcmd" where
  "update_page f new_page_id new_frame_id s =
     (let pg = pages s ! f in
      bindc (if p_dirty pg
             then bindc (on_disk (write_page (pid_fd (p_id pg)) (pid_page_no (p_id pg)) (p_data pg)))
                        (\<lambda>_. modify (upd_page f (\<lambda>p. p\<lparr>p_dirty := False\<rparr>)))
             else ret ())
        (\<lambda>_. bindc (modify (\<lambda>s. s\<lparr>page_table := herase (p_id pg) (page_table s)\<rparr>))
        (\<lambda>_. case new_frame_id of
               None \<Rightarrow> ret ()
             | Some nf \<Rightarrow>
                 bindc (modify (upd_page f (\<lambda>p. p\<lparr>p_id := new_page_id\<rparr>)))
                   (\<lambda>_. modify (\<lambda>s. s\<lparr>page_table := emplace new_page_id nf (page_table s)\<rparr>)))) s)"

definition pin_frame :: "frame_id \<Rightarrow> bpm \<Rightarrow> bpm" where
  "pin_frame f s = upd_page f (\<lambda>p. p\<lparr>p_pin := p_pin p + 1\<rparr>) (s\<lparr>bp_replacer := pin f (bp_replacer s)\<rparr>)"

definition read_into :: "frame_id \<Rightarrow> page_id \<Rightarrow> (bpm, unit) rcmd" where
  "read_into f pid s =
     (case read_page (pid_fd pid) (pid_page_no pid) (p_data (pages s ! f)) PAGE_SIZE (bp_disk s) of
        (r, buf) \<Rightarrow> (r, upd_page f (\<lambda>p. p\<lparr>p_data := buf\<rparr>) s))"

definition fetch_page :: "page_id \<Rightarrow> (bpm, frame_id option) rcmd" where
  "fetch_page pid s =
     (case hfind (page_table s) pid of
        Some f \<Rightarrow> (Inr (Some f), pin_frame f s)
      | None \<Rightarrow>
          (case find_victim_page s of
             (None, s) \<Rightarrow> (Inr None, s)
           | (Some f, s) \<Rightarrow>
               bindc (update_page f pid (Some f))
                 (\<lambda>_. bindc (read_into f pid)
                 (\<lambda>_. bindc (modify (pin_frame f))
                 (\<lambda>_. ret (Some f)))) s))"

definition unpin_page :: "page_id \<Rightarrow> bool \<Rightarrow> bpm \<Rightarrow> bool \<times> bpm" where
  "unpin_page pid is_dirty s =
     (case hfind (page_table s) pid of
        None \<Rightarrow> (False, s)
      | Some f \<Rightarrow>
          if p_pin (pages s ! f) = 0 then (False, s)
          else let s1 = upd_page f (\<lambda>p. p\<lparr>p_pin := p_pin p - 1\<rparr>) s;
                   s2 = (if p_pin (pages s1 ! f) = 0 then s1\<lparr>bp_replacer := unpin f (bp_replacer s1)\<rparr> else s1)
               in (True, upd_page f (\<lambda>p. p\<lparr>p_dirty := p_dirty p \<or> is_dirty\<rparr>) s2))"

definition write_back :: "page_id \<Rightarrow> frame_id \<Rightarrow> (bpm, unit) rcmd" where
  "write_back pid f s =
     bindc (on_disk (write_page (pid_fd pid) (pid_page_no pid) (p_data (pages s ! f))))
       (\<lambda>_. modify (upd_page f (\<lambda>p. p\<lparr>p_dirty := False\<rparr>))) s"

definition flush_page :: "page_id \<Rightarrow> (bpm, bool) rcmd" where
  "flush_page pid s =
     (case hfind (page_table s) pid of
        None \<Rightarrow> (Inr False, s)
      | Some f \<Rightarrow> bindc (write_back pid f) (\<lambda>_. ret True) s)"

text \<open>\<open>new_page\<close> returns the frame and, through its argument, the page's identifier.\<close>

definition new_page :: "int \<Rightarrow> (bpm, (frame_id \<times> page_id) option) rcmd" where
  "new_page fd s =
     (case find_victim_page s of
        (None, s) \<Rightarrow> (Inr None, s)
      | (Some f, s) \<Rightarrow>
          bindc (on_disk (allocate_page fd))
            (\<lambda>no. bindc (update_page f (PageId fd no) (Some f))
            (\<lambda>_. bindc (modify (upd_page f (\<lambda>p. p\<lparr>p_data := replicate PAGE_SIZE 0\<rparr>)))
            (\<lambda>_. bindc (modify (pin_frame f))
            (\<lambda>_. ret (Some (f, PageId fd no)))))) s)"

definition delete_frame :: "page_id \<Rightarrow> frame_id \<Rightarrow> (bpm, unit) rcmd" where
  "delete_frame pid f =
     bindc (update_page f pid None) (\<lambda>_. modify (\<lambda>s. s\<lparr>free_list := free_list s @ [f]\<rparr>))"

definition delete_page :: "page_id \<Rightarrow> (bpm, bool) rcmd" where
  "delete_page pid s =
     (case hfind (page_table s) pid of
        None \<Rightarrow> (Inr True, s)
      | Some f \<Rightarrow>
          if p_pin (pages s ! f) \<noteq> 0 then (Inr False, s)
          else bindc (delete_frame pid f) (\<lambda>_. ret True) s)"

text \<open>The first loop of \<open>delete_all_page\<close>: \<open>None\<close> when a page of the file is pinned.\<close>

fun target_frames :: "int \<Rightarrow> page list \<Rightarrow> (page_id \<times> frame_id) list \<Rightarrow> frame_id list option" where
  "target_frames fd ps [] = Some []"
| "target_frames fd ps ((pid, f) # es) =
     (if pid_fd pid \<noteq> fd then target_frames fd ps es
      else if p_pin (ps ! f) \<noteq> 0 then None
      else map_option (\<lambda>fs. f # fs) (target_frames fd ps es))"

fun delete_frames :: "frame_id list \<Rightarrow> (bpm, unit) rcmd" where
  "delete_frames [] = ret ()"
| "delete_frames (f # fs) = (\<lambda>s. bindc (delete_frame (p_id (pages s ! f)) f) (\<lambda>_. delete_frames fs) s)"

definition delete_all_page :: "int \<Rightarrow> (bpm, bool) rcmd" where
  "delete_all_page fd s =
     (case target_frames fd (pages s) (page_table s) of
        None \<Rightarrow> (Inr False, s)
      | Some fs \<Rightarrow> bindc (delete_frames fs) (\<lambda>_. ret True) s)"

fun flush_entries :: "(page_id \<Rightarrow> page \<Rightarrow> bool) \<Rightarrow> (page_id \<times> frame_id) list \<Rightarrow> (bpm, unit) rcmd" where
  "flush_entries sel [] = ret ()"
| "flush_entries sel ((pid, f) # es) =
     (\<lambda>s. if sel pid (pages s ! f) then bindc (write_back pid f) (\<lambda>_. flush_entries sel es) s
          else flush_entries sel es s)"

definition flush_all_pages :: "int \<Rightarrow> (bpm, unit) rcmd" where
  "flush_all_pages fd s = flush_entries (\<lambda>pid _. pid_fd pid = fd) (page_table s) s"

definition flush_all_page :: "(bpm, unit) rcmd" where
  "flush_all_page s = flush_entries (\<lambda>_ p. p_dirty p) (page_table s) s"

text \<open>A client that holds a pinned page changes its bytes through the \<open>Page*\<close>.\<close>

definition store_page :: "frame_id \<Rightarrow> byte list \<Rightarrow> bpm \<Rightarrow> bpm" where
  "store_page f bs = upd_page f (\<lambda>p. p\<lparr>p_data := bs\<rparr>)"

section \<open>Invariant and abstract contents\<close>

abbreviation frame_of :: "bpm \<Rightarrow> page_id \<Rightarrow> frame_id option" where
  "frame_of s \<equiv> hfind (page_table s)"

abbreviation evictable :: "bpm \<Rightarrow> frame_id set" where
  "evictable s \<equiv> set (lru_queue (bp_replacer s))"

abbreviation page_at :: "bpm \<Rightarrow> page_id \<Rightarrow> byte list option" where
  "page_at s pid \<equiv> disk_page (bp_disk s) (pid_fd pid) (pid_page_no pid)"

text \<open>
  A mapped frame carries its page's identifier, is not free, and is evictable exactly when
  nobody has it pinned. A free frame is unpinned and clean, and the identifier it still
  carries is not mapped (the point the code does not protect). An evictable frame is mapped,
  or free: \<open>delete_page\<close> leaves it in the replacer, which is harmless because free frames are
  used first and pinned on use. No frame is lost.
\<close>

definition bp_wf :: "bpm \<Rightarrow> bool" where
  "bp_wf s \<longleftrightarrow>
     length (pages s) = pool_size s \<and> hwf (page_table s) \<and> lru_inv (bp_replacer s) \<and>
     disk_wf (bp_disk s) \<and> distinct (free_list s) \<and>
     (\<forall>pid f. frame_of s pid = Some f \<longrightarrow> f < pool_size s \<and> p_id (pages s ! f) = pid \<and>
        f \<notin> set (free_list s) \<and> (f \<in> evictable s \<longleftrightarrow> p_pin (pages s ! f) = 0)) \<and>
     (\<forall>f \<in> set (free_list s). f < pool_size s \<and> p_pin (pages s ! f) = 0 \<and> \<not> p_dirty (pages s ! f) \<and>
        frame_of s (p_id (pages s ! f)) = None) \<and>
     (\<forall>f \<in> evictable s. f \<in> set (free_list s) \<or> frame_of s (p_id (pages s ! f)) = Some f) \<and>
     (\<forall>f < pool_size s. length (p_data (pages s ! f)) = PAGE_SIZE \<and> 0 \<le> p_pin (pages s ! f) \<and>
        (f \<in> set (free_list s) \<or> frame_of s (p_id (pages s ! f)) = Some f))"

text \<open>A clean page nobody is using is what the disk holds.\<close>

definition coherent :: "bpm \<Rightarrow> bool" where
  "coherent s \<longleftrightarrow> (\<forall>pid f. frame_of s pid = Some f \<longrightarrow> p_pin (pages s ! f) = 0 \<longrightarrow>
     \<not> p_dirty (pages s ! f) \<longrightarrow> page_at s pid = Some (p_data (pages s ! f)))"

text \<open>What a reader of a page gets: the pool's copy if there is one, else the disk's.\<close>

definition content :: "bpm \<Rightarrow> page_id \<Rightarrow> byte list option" where
  "content s pid = (case frame_of s pid of Some f \<Rightarrow> Some (p_data (pages s ! f)) | None \<Rightarrow> page_at s pid)"

text \<open>No free frame but the next one to be used still carries the identifier.\<close>

definition no_stale :: "bpm \<Rightarrow> page_id \<Rightarrow> bool" where
  "no_stale s pid \<longleftrightarrow> (\<forall>f \<in> set (tl (free_list s)). p_id (pages s ! f) \<noteq> pid)"

section \<open>Shared lemmas\<close>

lemma upd_page_fields [simp]:
  "pages (upd_page f g s) = (pages s)[f := g (pages s ! f)]"
  "pool_size (upd_page f g s) = pool_size s" "page_table (upd_page f g s) = page_table s"
  "free_list (upd_page f g s) = free_list s" "bp_replacer (upd_page f g s) = bp_replacer s"
  "bp_disk (upd_page f g s) = bp_disk s"
  by (simp_all add: upd_page_def)

lemma on_disk_run:
  "on_disk m s = (case m (bp_disk s) of (r, d) \<Rightarrow> (r, s\<lparr>bp_disk := d\<rparr>))"
  by (simp add: on_disk_def zoom_def)

lemma bp_wf_mapped:
  assumes "bp_wf s" and "frame_of s pid = Some f"
  shows "f < pool_size s" "p_id (pages s ! f) = pid" "f \<notin> set (free_list s)"
    "f \<in> evictable s \<longleftrightarrow> p_pin (pages s ! f) = 0"
  using assms by (auto simp: bp_wf_def)

lemma bp_wf_free:
  assumes "bp_wf s" and "f \<in> set (free_list s)"
  shows "f < pool_size s" "p_pin (pages s ! f) = 0" "\<not> p_dirty (pages s ! f)"
    "frame_of s (p_id (pages s ! f)) = None"
  using assms by (auto simp: bp_wf_def)

lemma bp_wf_evictable:
  assumes "bp_wf s" and "f \<in> evictable s" and "f \<notin> set (free_list s)"
  shows "frame_of s (p_id (pages s ! f)) = Some f"
  using assms by (auto simp: bp_wf_def)

lemma bp_wf_frame:
  assumes "bp_wf s" and "f < pool_size s"
  shows "length (p_data (pages s ! f)) = PAGE_SIZE" "0 \<le> p_pin (pages s ! f)"
    "f \<in> set (free_list s) \<or> frame_of s (p_id (pages s ! f)) = Some f"
  using assms by (auto simp: bp_wf_def)

lemma bp_wf_basic:
  assumes "bp_wf s"
  shows "length (pages s) = pool_size s" "hwf (page_table s)" "lru_inv (bp_replacer s)"
    "disk_wf (bp_disk s)" "distinct (free_list s)"
  using assms by (auto simp: bp_wf_def)

lemma frame_unique: "bp_wf s \<Longrightarrow> frame_of s p = Some f \<Longrightarrow> frame_of s q = Some f \<Longrightarrow> p = q"
  using bp_wf_mapped(2) by metis

text \<open>The frame a victim search yields, and what it leaves behind.\<close>

definition victim_of :: "bpm \<Rightarrow> frame_id \<Rightarrow> frame_id list \<Rightarrow> lru \<Rightarrow> bool" where
  "victim_of s f fl r \<longleftrightarrow>
     f < pool_size s \<and> p_pin (pages s ! f) = 0 \<and> distinct fl \<and> set fl = set (free_list s) - {f} \<and>
     fl = tl (free_list s) \<and> lru_inv (pin f r) \<and> set (lru_queue (pin f r)) = evictable s - {f} \<and>
     (p_dirty (pages s ! f) \<longrightarrow> frame_of s (p_id (pages s ! f)) = Some f)"

lemma victim_dirty: "victim_of s f fl r \<Longrightarrow> p_dirty (pages s ! f) \<Longrightarrow> frame_of s (p_id (pages s ! f)) = Some f"
  by (simp add: victim_of_def)

lemma find_victim_Some:
  assumes w: "bp_wf s" and v: "find_victim_page s = (Some f, s1)"
  obtains fl r where "victim_of s f fl r" "s1 = s\<lparr>free_list := fl, bp_replacer := r\<rparr>"
proof (cases "free_list s")
  case (Cons g fs)
  then have eq: "f = g" "s1 = s\<lparr>free_list := fs, bp_replacer := bp_replacer s\<rparr>"
    using v by (auto simp: find_victim_page_def)
  have "f \<in> set (free_list s)" using Cons eq by simp
  from bp_wf_free [OF w this] have "victim_of s f fs (bp_replacer s)"
    using bp_wf_basic [OF w] Cons eq
    by (auto simp: victim_of_def lru.set_pin lru.inv_pin)
  then show thesis using eq(2) by (rule that)
next
  case Nil
  then obtain r where r: "victim (bp_replacer s) = (Some f, r)" "s1 = s\<lparr>free_list := [], bp_replacer := r\<rparr>"
    using v by (auto simp: find_victim_page_def split: prod.splits)
  note vs = lru.vict_set [OF bp_wf_basic(3) [OF w] r(1)]
  from bp_wf_evictable [OF w vs(1)] Nil have m: "frame_of s (p_id (pages s ! f)) = Some f" by simp
  from bp_wf_mapped [OF w m] vs Nil m have "victim_of s f [] r"
    by (auto simp: victim_of_def lru.set_pin lru.inv_pin)
  then show thesis using r(2) by (rule that)
qed

lemma find_victim_None:
  "bp_wf s \<Longrightarrow> find_victim_page s = (None, s1) \<Longrightarrow> s1 = s \<and> free_list s = [] \<and> evictable s = {}"
  using lru.vict_None [OF bp_wf_basic(3)]
  by (fastforce simp: find_victim_page_def split: list.splits prod.splits)

text \<open>
  \<open>update_page\<close> writes the old page back if it is dirty, then moves the frame over to the
  new page. \<open>evict_to d s f d'\<close>: \<open>d'\<close> is the disk after that write.
\<close>

definition evict_to :: "bpm \<Rightarrow> frame_id \<Rightarrow> disk \<Rightarrow> disk \<Rightarrow> bool" where
  "evict_to s f d d' \<longleftrightarrow> (let pg = pages s ! f in
     if p_dirty pg then write_page (pid_fd (p_id pg)) (pid_page_no (p_id pg)) (p_data pg) d = (Inr (), d')
     else d' = d)"

lemma update_page_ok:
  assumes "f < length (pages s)" and "update_page f pid (Some f) s = (Inr (), s2)"
  obtains d' where "evict_to s f (bp_disk s) d'"
    "s2 = s\<lparr>bp_disk := d', pages := (pages s)[f := (pages s ! f)\<lparr>p_dirty := False, p_id := pid\<rparr>],
            page_table := emplace pid f (herase (p_id (pages s ! f)) (page_table s))\<rparr>"
proof (cases "p_dirty (pages s ! f)")
  case True
  with assms that show thesis
    by (auto simp: evict_to_def update_page_def Let_def bindc_eq_Inr on_disk_run upd_page_def split: prod.splits)
next
  case False
  then have eq: "(pages s ! f)\<lparr>p_dirty := False, p_id := pid\<rparr> = (pages s ! f)\<lparr>p_id := pid\<rparr>"
    by (cases "pages s ! f") simp
  show thesis
    using assms False by (intro that [of "bp_disk s"])
      (auto simp: evict_to_def update_page_def Let_def upd_page_def eq)
qed

text \<open>The state in which \<open>fetch_page\<close> (on a miss) and \<open>new_page\<close> leave the pool.\<close>

definition install :: "frame_id \<Rightarrow> page_id \<Rightarrow> byte list \<Rightarrow> disk \<Rightarrow> frame_id list \<Rightarrow> lru \<Rightarrow> bpm \<Rightarrow> bpm" where
  "install f pid buf d fl r s =
     s\<lparr>pages := (pages s)[f := \<lparr>p_id = pid, p_data = buf, p_dirty = False, p_pin = 1\<rparr>],
       page_table := emplace pid f (herase (p_id (pages s ! f)) (page_table s)),
       free_list := fl, bp_replacer := pin f r, bp_disk := d\<rparr>"

lemma install_fields [simp]:
  "pool_size (install f pid buf d fl r s) = pool_size s" "free_list (install f pid buf d fl r s) = fl"
  "bp_replacer (install f pid buf d fl r s) = pin f r" "bp_disk (install f pid buf d fl r s) = d"
  "pages (install f pid buf d fl r s) = (pages s)[f := \<lparr>p_id = pid, p_data = buf, p_dirty = False, p_pin = 1\<rparr>]"
  by (simp_all add: install_def)

lemma install_frame_of:
  assumes "frame_of s pid = None"
  shows "frame_of (install f pid buf d fl r s) q =
     (if q = pid then Some f else if q = p_id (pages s ! f) then None else frame_of s q)"
  using assms by (simp add: install_def split: option.split)

lemma victim_other:
  assumes w: "bp_wf s" and v: "victim_of s f fl r" and m: "frame_of s q = Some g" and ne: "q \<noteq> p_id (pages s ! f)"
  shows "g \<noteq> f"
  using bp_wf_mapped(2) [OF w m] ne by auto

lemma victim_id:
  assumes w: "bp_wf s" and v: "victim_of s f fl r" and "frame_of s (p_id (pages s ! f)) = Some g"
  shows "g = f"
proof -
  from v have "f < pool_size s" by (simp add: victim_of_def)
  with bp_wf_frame(3) [OF w this] bp_wf_free(4) [OF w, of f] assms(3) show ?thesis by auto
qed

lemma install_wf:
  assumes w: "bp_wf s" and v: "victim_of s f fl r" and m: "frame_of s pid = None"
    and st: "no_stale s pid" and l: "length buf = PAGE_SIZE" and d: "disk_wf d"
  shows "bp_wf (install f pid buf d fl r s)"
proof -
  let ?s = "install f pid buf d fl r s"
  note b = bp_wf_basic [OF w]
  have f: "f < pool_size s" "distinct fl" "set fl = set (free_list s) - {f}" "lru_inv (pin f r)"
    "set (lru_queue (pin f r)) = evictable s - {f}" "set fl = set (tl (free_list s))"
    using v by (auto simp: victim_of_def)
  have other: "frame_of ?s (p_id (pages s ! g)) = frame_of s (p_id (pages s ! g)) \<and> p_id (pages s ! g) \<noteq> pid"
    if "frame_of s (p_id (pages s ! g)) = Some g" "g \<noteq> f" for g
    using that m victim_id [OF w v, of g] by (auto simp: install_frame_of [OF m])
  have fr: "g < pool_size s \<and> p_pin (pages s ! g) = 0 \<and> \<not> p_dirty (pages s ! g) \<and>
      p_id (pages s ! g) \<noteq> pid \<and> frame_of s (p_id (pages s ! g)) = None \<and> g \<noteq> f" if "g \<in> set fl" for g
    using bp_wf_free [OF w, of g] that f(3,6) st by (auto simp: no_stale_def)
  have mapped: "g < pool_size s \<and> p_id (pages ?s ! g) = q \<and> g \<notin> set fl \<and>
      (g \<in> evictable s - {f} \<longleftrightarrow> p_pin (pages ?s ! g) = 0)" if "frame_of ?s q = Some g" for q g
  proof (cases "q = pid")
    case True
    with that f(1) b(1) show ?thesis by (auto simp: install_frame_of [OF m] dest: fr)
  next
    case False
    with that have q: "frame_of s q = Some g" "q \<noteq> p_id (pages s ! f)"
      by (auto simp: install_frame_of [OF m] split: if_splits)
    from bp_wf_mapped [OF w q(1)] victim_other [OF w v q] f(3) show ?thesis by auto
  qed
  have all: "length (p_data (pages ?s ! g)) = PAGE_SIZE \<and> 0 \<le> p_pin (pages ?s ! g) \<and>
      (g \<in> set fl \<or> frame_of ?s (p_id (pages ?s ! g)) = Some g)" if "g < pool_size s" for g
  proof (cases "g = f")
    case True
    then show ?thesis using l b(1) f(1) by (simp add: install_frame_of [OF m])
  next
    case False
    with bp_wf_frame [OF w that] other [of g] show ?thesis by (auto simp: f(3))
  qed
  have ev: "g \<in> set fl \<or> frame_of ?s (p_id (pages ?s ! g)) = Some g" if "g \<in> evictable s - {f}" for g
    using bp_wf_evictable [OF w, of g] that other [of g] by (auto simp: f(3))
  have "hwf (page_table ?s)" using b(2) by (simp add: install_def)
  moreover have "\<forall>g \<in> set fl. g < pool_size s \<and> p_pin (pages ?s ! g) = 0 \<and> \<not> p_dirty (pages ?s ! g) \<and>
      frame_of ?s (p_id (pages ?s ! g)) = None"
    by (auto simp: install_frame_of [OF m] dest!: fr)
  moreover have "\<forall>q g. frame_of ?s q = Some g \<longrightarrow> g < pool_size s \<and> p_id (pages ?s ! g) = q \<and> g \<notin> set fl \<and>
      (g \<in> evictable s - {f} \<longleftrightarrow> p_pin (pages ?s ! g) = 0)" using mapped by blast
  moreover have "\<forall>g \<in> evictable s - {f}. g \<in> set fl \<or> frame_of ?s (p_id (pages ?s ! g)) = Some g"
    using ev by blast
  moreover have "\<forall>g < pool_size s. length (p_data (pages ?s ! g)) = PAGE_SIZE \<and> 0 \<le> p_pin (pages ?s ! g) \<and>
      (g \<in> set fl \<or> frame_of ?s (p_id (pages ?s ! g)) = Some g)" using all by blast
  moreover note b(1) f(2,4) d
  ultimately show ?thesis
    unfolding bp_wf_def install_fields f(5) length_list_update by (intro conjI)
qed

text \<open>
  Changing a mapped frame in place: its pin count, dirty flag and bytes, with the replacer
  adjusted to the pin count and the disk replaced by a well-formed one.
\<close>

definition adjust :: "frame_id \<Rightarrow> page \<Rightarrow> lru \<Rightarrow> disk \<Rightarrow> bpm \<Rightarrow> bpm" where
  "adjust f pg r d s = s\<lparr>pages := (pages s)[f := pg], bp_replacer := r, bp_disk := d\<rparr>"

lemma adjust_wf:
  assumes w: "bp_wf s" and m: "frame_of s pid = Some f" and i: "p_id pg = pid"
    and l: "length (p_data pg) = PAGE_SIZE" and k: "0 \<le> p_pin pg" and d: "disk_wf d"
    and r: "lru_inv r" "set (lru_queue r) = (if p_pin pg = 0 then insert f (evictable s) else evictable s - {f})"
  shows "bp_wf (adjust f pg r d s)"
proof -
  note b = bp_wf_basic [OF w] and mf = bp_wf_mapped [OF w m]
  have id: "p_id ((pages s)[f := pg] ! g) = p_id (pages s ! g)" if "g < pool_size s" for g
    using that i mf(2) b(1) by (cases "g = f") auto
  have fr: "g \<noteq> f" if "g \<in> set (free_list s)" for g using that mf(3) by auto
  have "g \<in> set (lru_queue r) \<Longrightarrow> g < pool_size s" for g
    using r(2) mf(1) bp_wf_free(1) [OF w, of g] bp_wf_evictable [OF w, of g] bp_wf_mapped(1) [OF w]
    by (auto split: if_splits)
  then have ev: "\<forall>g \<in> set (lru_queue r). g \<in> set (free_list s) \<or> frame_of s (p_id ((pages s)[f := pg] ! g)) = Some g"
    using r(2) id m mf(1,2) bp_wf_evictable [OF w] by (auto split: if_splits)
  have mp: "\<forall>q g. frame_of s q = Some g \<longrightarrow> g < pool_size s \<and> p_id ((pages s)[f := pg] ! g) = q \<and>
      g \<notin> set (free_list s) \<and> (g \<in> set (lru_queue r) \<longleftrightarrow> p_pin ((pages s)[f := pg] ! g) = 0)"
  proof (intro allI impI)
    fix q g assume "frame_of s q = Some g"
    from bp_wf_mapped [OF w this] id [of g] r(2) mf(1) b(1)
    show "g < pool_size s \<and> p_id ((pages s)[f := pg] ! g) = q \<and> g \<notin> set (free_list s) \<and>
      (g \<in> set (lru_queue r) \<longleftrightarrow> p_pin ((pages s)[f := pg] ! g) = 0)" by (cases "g = f") auto
  qed
  have al: "\<forall>g < pool_size s. length (p_data ((pages s)[f := pg] ! g)) = PAGE_SIZE \<and>
      0 \<le> p_pin ((pages s)[f := pg] ! g) \<and>
      (g \<in> set (free_list s) \<or> frame_of s (p_id ((pages s)[f := pg] ! g)) = Some g)"
  proof (intro allI impI)
    fix g assume g: "g < pool_size s"
    from bp_wf_frame [OF w g] id [OF g] l k b(1) mf(1)
    show "length (p_data ((pages s)[f := pg] ! g)) = PAGE_SIZE \<and> 0 \<le> p_pin ((pages s)[f := pg] ! g) \<and>
      (g \<in> set (free_list s) \<or> frame_of s (p_id ((pages s)[f := pg] ! g)) = Some g)" by (cases "g = f") auto
  qed
  have "\<forall>g \<in> set (free_list s). g < pool_size s \<and> p_pin ((pages s)[f := pg] ! g) = 0 \<and>
      \<not> p_dirty ((pages s)[f := pg] ! g) \<and> frame_of s (p_id ((pages s)[f := pg] ! g)) = None"
    using bp_wf_free [OF w] fr by fastforce
  with ev mp al b(1,2,5) d r(1) show ?thesis
    unfolding bp_wf_def adjust_def by simp
qed

lemma adjust_content:
  "bp_wf s \<Longrightarrow> frame_of s pid = Some f \<Longrightarrow> q \<noteq> pid \<Longrightarrow>
   (\<And>x. page_at s q = Some x \<Longrightarrow> disk_page d (pid_fd q) (pid_page_no q) = Some x) \<Longrightarrow>
   content s q = Some x \<Longrightarrow> content (adjust f pg r d s) q = Some x"
  using frame_unique [of s pid f q]
  by (cases "frame_of s q") (auto simp: content_def adjust_def, metis nth_list_update_neq)

lemma adjust_content_self:
  "bp_wf s \<Longrightarrow> frame_of s pid = Some f \<Longrightarrow> content (adjust f pg r d s) pid = Some (p_data pg)"
  using bp_wf_basic(1) [of s] bp_wf_mapped(1) [of s pid f] by (simp add: content_def adjust_def)

lemma adjust_coherent:
  assumes "bp_wf s" and "coherent s" and "frame_of s pid = Some f" and "p_id pg = pid"
    and "\<And>q x. q \<noteq> pid \<Longrightarrow> page_at s q = Some x \<Longrightarrow> disk_page d (pid_fd q) (pid_page_no q) = Some x"
    and "p_pin pg = 0 \<Longrightarrow> \<not> p_dirty pg \<Longrightarrow> disk_page d (pid_fd pid) (pid_page_no pid) = Some (p_data pg)"
  shows "coherent (adjust f pg r d s)"
  unfolding coherent_def
proof (intro allI impI)
  fix q g
  let ?s = "adjust f pg r d s"
  assume a: "frame_of ?s q = Some g" "p_pin (pages ?s ! g) = 0" "\<not> p_dirty (pages ?s ! g)"
  then have q: "frame_of s q = Some g" by (simp add: adjust_def)
  show "page_at ?s q = Some (p_data (pages ?s ! g))"
  proof (cases "g = f")
    case True
    with q assms(1,3) have "q = pid" by (auto dest: frame_unique)
    with True a assms(6) bp_wf_basic(1) [OF assms(1)] bp_wf_mapped(1) [OF assms(1,3)] show ?thesis
      by (simp add: adjust_def)
  next
    case False
    with q assms(3) have "q \<noteq> pid" by auto
    with False q a assms(2,5) show ?thesis by (simp add: adjust_def coherent_def)
  qed
qed

section \<open>Each operation\<close>

lemma evict_view:
  assumes w: "bp_wf s" and v: "victim_of s f fl r" and e: "evict_to s f (bp_disk s) d"
  shows "disk_wf d"
    and "q \<noteq> p_id (pages s ! f) \<or> \<not> p_dirty (pages s ! f) \<Longrightarrow> page_at s q = Some x \<Longrightarrow>
      disk_page d (pid_fd q) (pid_page_no q) = Some x"
    and "p_dirty (pages s ! f) \<Longrightarrow>
      disk_page d (pid_fd (p_id (pages s ! f))) (pid_page_no (p_id (pages s ! f))) = Some (p_data (pages s ! f))"
proof -
  let ?pg = "pages s ! f"
  have l: "length (p_data ?pg) = PAGE_SIZE"
    using v bp_wf_frame(1) [OF w] by (simp add: victim_of_def)
  note dw = bp_wf_basic(4) [OF w]
  have wr: "write_page (pid_fd (p_id ?pg)) (pid_page_no (p_id ?pg)) (p_data ?pg) (bp_disk s) = (Inr (), d)"
    if "p_dirty ?pg" using that e by (simp add: evict_to_def Let_def)
  have cl: "d = bp_disk s" if "\<not> p_dirty ?pg" using that e by (simp add: evict_to_def Let_def)
  show "disk_wf d" using dw cl ds.wr_inv [OF dw wr] by (cases "p_dirty ?pg") auto
  show "disk_page d (pid_fd (p_id ?pg)) (pid_page_no (p_id ?pg)) = Some (p_data ?pg)" if "p_dirty ?pg"
    by (rule ds.view_same [OF dw l wr [OF that]])
  show "disk_page d (pid_fd q) (pid_page_no q) = Some x"
    if "q \<noteq> p_id ?pg \<or> \<not> p_dirty ?pg" "page_at s q = Some x"
  proof (cases "p_dirty ?pg")
    case True
    with that have "(pid_fd q, pid_page_no q) \<noteq> (pid_fd (p_id ?pg), pid_page_no (p_id ?pg))"
      by (metis page_id.collapse prod.inject)
    then show ?thesis using ds.view_other [OF dw _ wr [OF True] _ that(2)] l by simp
  qed (use that cl in simp)
qed

text \<open>Evicting a page and installing another loses nothing.\<close>

lemma install_content:
  assumes w: "bp_wf s" and c: "coherent s" and v: "victim_of s f fl r" and e: "evict_to s f (bp_disk s) d"
    and m: "frame_of s pid = None" and q: "q \<noteq> pid" and x: "content s q = Some x"
  shows "content (install f pid buf d fl r s) q = Some x"
proof (cases "q = p_id (pages s ! f)")
  case True
  have d: "disk_page d (pid_fd q) (pid_page_no q) = Some x"
  proof (cases "frame_of s q")
    case None
    then have "\<not> p_dirty (pages s ! f)" using v True by (auto simp: victim_of_def)
    then show ?thesis using evict_view(2) [OF w v e, of q x] None x by (simp add: content_def)
  next
    case (Some g)
    then have g: "g = f" using victim_id [OF w v] True by simp
    have "p_pin (pages s ! f) = 0" using v by (simp add: victim_of_def)
    then show ?thesis
      using evict_view(2,3) [OF w v e] c Some g x True by (auto simp: content_def coherent_def)
  qed
  with True q m show ?thesis by (simp add: content_def install_frame_of)
next
  case False
  have n: "g \<noteq> f" if "frame_of s q = Some g" for g using victim_other [OF w v that False] .
  show ?thesis
    using False q x n evict_view(2) [OF w v e, of q x]
    by (cases "frame_of s q") (auto simp: content_def install_frame_of [OF m])
qed

lemma install_coherent:
  assumes w: "bp_wf s" and c: "coherent s" and v: "victim_of s f fl r" and e: "evict_to s f (bp_disk s) d"
    and m: "frame_of s pid = None"
  shows "coherent (install f pid buf d fl r s)"
  unfolding coherent_def
proof (intro allI impI)
  fix q g
  let ?s = "install f pid buf d fl r s"
  assume a: "frame_of ?s q = Some g" "p_pin (pages ?s ! g) = 0" "\<not> p_dirty (pages ?s ! g)"
  have f: "f < length (pages s)" using v bp_wf_basic(1) [OF w] by (simp add: victim_of_def)
  have q: "q \<noteq> pid" using a f by (auto simp: install_frame_of [OF m] split: if_splits)
  with a have q': "frame_of s q = Some g" "q \<noteq> p_id (pages s ! f)"
    by (auto simp: install_frame_of [OF m] split: if_splits)
  then have g: "g \<noteq> f" using victim_other [OF w v] by auto
  with a q' c have "page_at s q = Some (p_data (pages s ! g))" by (simp add: coherent_def)
  then show "page_at ?s q = Some (p_data (pages ?s ! g))" using evict_view(2) [OF w v e] q'(2) g by simp
qed

lemma fetch_page_hit: "frame_of s pid = Some f \<Longrightarrow> fetch_page pid s = (Inr (Some f), pin_frame f s)"
  by (simp add: fetch_page_def)

lemma pin_frame_adjust:
  "pin_frame f s = adjust f ((pages s ! f)\<lparr>p_pin := p_pin (pages s ! f) + 1\<rparr>) (pin f (bp_replacer s)) (bp_disk s) s"
  by (simp add: pin_frame_def adjust_def upd_page_def)

lemma fetch_page_miss:
  assumes w: "bp_wf s" and m: "frame_of s pid = None" and ft: "fetch_page pid s = (Inr (Some f), s')"
  obtains fl r d buf where "victim_of s f fl r" "evict_to s f (bp_disk s) d"
    "disk_page d (pid_fd pid) (pid_page_no pid) = Some buf" "s' = install f pid buf d fl r s"
proof -
  obtain s1 where v1: "find_victim_page s = (Some f, s1)"
    using ft m by (auto simp: fetch_page_def bindc_eq_Inr split: prod.splits option.splits)
  obtain fl r where v: "victim_of s f fl r" and s1: "s1 = s\<lparr>free_list := fl, bp_replacer := r\<rparr>"
    using w v1 by (rule find_victim_Some)
  have f: "f < length (pages s)" and pin0: "p_pin (pages s ! f) = 0"
    using v bp_wf_basic(1) [OF w] by (auto simp: victim_of_def)
  from ft m v1 obtain s2 s3 where u: "update_page f pid (Some f) s1 = (Inr (), s2)"
    and r3: "read_into f pid s2 = (Inr (), s3)" and s': "s' = pin_frame f s3"
    by (auto simp: fetch_page_def bindc_eq_Inr)
  from f s1 have "f < length (pages s1)" by simp
  then obtain d where e: "evict_to s1 f (bp_disk s1) d"
    and s2: "s2 = s1\<lparr>bp_disk := d, pages := (pages s1)[f := (pages s1 ! f)\<lparr>p_dirty := False, p_id := pid\<rparr>],
            page_table := emplace pid f (herase (p_id (pages s1 ! f)) (page_table s1))\<rparr>"
    using u by (rule update_page_ok)
  have "f < pool_size s" using f bp_wf_basic(1) [OF w] by simp
  then have l: "length (p_data (pages s ! f)) = PAGE_SIZE" by (rule bp_wf_frame(1) [OF w])
  obtain buf where b: "read_page (pid_fd pid) (pid_page_no pid) (p_data (pages s ! f)) PAGE_SIZE d = (Inr (), buf)"
    and s3: "s3 = upd_page f (\<lambda>p. p\<lparr>p_data := buf\<rparr>) s2"
    using r3 s1 s2 f by (auto simp: read_into_def split: prod.splits)
  have "s' = install f pid buf d fl r s"
    using s' s3 s2 s1 f pin0 by (simp add: pin_frame_def upd_page_def install_def) (cases "pages s ! f"; simp)
  then show thesis
    using that v e b read_page_disk_page [OF l] s1 by (simp add: evict_to_def)
qed

lemma pin_frame_keeps:
  assumes w: "bp_wf s" and m: "frame_of s pid = Some f"
  shows "bp_wf (pin_frame f s)" "coherent s \<Longrightarrow> coherent (pin_frame f s)" "content (pin_frame f s) = content s"
    "page_table (pin_frame f s) = page_table s" "0 < p_pin (pages (pin_frame f s) ! f)"
proof -
  note mf = bp_wf_mapped [OF w m] and b = bp_wf_basic [OF w]
  note fr = bp_wf_frame [OF w mf(1)]
  show "bp_wf (pin_frame f s)"
    unfolding pin_frame_adjust using fr mf b
    by (intro adjust_wf [OF w m]) (auto simp: lru.set_pin lru.inv_pin)
  show "coherent (pin_frame f s)" if "coherent s"
    unfolding pin_frame_adjust using that fr mf by (intro adjust_coherent [OF w that m]) auto
  show "content (pin_frame f s) = content s"
    using mf(1) b(1) by (auto simp: fun_eq_iff content_def pin_frame_def upd_page_def nth_list_update split: option.splits)
  show "page_table (pin_frame f s) = page_table s" by (simp add: pin_frame_def)
  show "0 < p_pin (pages (pin_frame f s) ! f)" using mf(1) b(1) fr(2) by (simp add: pin_frame_def)
qed

lemma fetch_keeps:
  assumes w: "bp_wf s" and c: "coherent s" and st: "no_stale s pid" and ft: "fetch_page pid s = (Inr (Some f), s')"
  shows "bp_wf s'" "coherent s'" "frame_of s' pid = Some f" "0 < p_pin (pages s' ! f)"
    "content s q = Some x \<Longrightarrow> content s' q = Some x"
proof -
  have "bp_wf s' \<and> coherent s' \<and> frame_of s' pid = Some f \<and> 0 < p_pin (pages s' ! f) \<and>
     (content s q = Some x \<longrightarrow> content s' q = Some x)"
  proof (cases "frame_of s pid")
    case (Some g)
    then have "g = f" "s' = pin_frame f s" using ft by (auto simp: fetch_page_hit)
    with pin_frame_keeps [OF w Some] c Some show ?thesis by simp
  next
    case None
    from w None ft obtain fl r d buf where v: "victim_of s f fl r" and e: "evict_to s f (bp_disk s) d"
      and b: "disk_page d (pid_fd pid) (pid_page_no pid) = Some buf" and s': "s' = install f pid buf d fl r s"
      by (rule fetch_page_miss)
    note ev = evict_view [OF w v e]
    have f: "f < length (pages s)" using v bp_wf_basic(1) [OF w] by (simp add: victim_of_def)
    have "pid \<noteq> p_id (pages s ! f) \<or> \<not> p_dirty (pages s ! f)" using victim_dirty [OF v] None by auto
    then have pc: "content s pid = Some x \<Longrightarrow> buf = x" for x
      using ev(2) [of pid x] b None by (simp add: content_def)
    have "content s q = Some x \<longrightarrow> content s' q = Some x"
    proof (cases "q = pid")
      case True
      then show ?thesis using pc [of x] s' f by (simp add: content_def install_frame_of [OF None])
    next
      case False
      then show ?thesis using install_content [OF w c v e None False, of x buf] s' by blast
    qed
    then show ?thesis
      using install_wf [OF w v None st disk_page_length [OF b] ev(1)] install_coherent [OF w c v e None, of buf] s' f
      by (simp add: install_frame_of [OF None])
  qed
  then show "bp_wf s'" "coherent s'" "frame_of s' pid = Some f" "0 < p_pin (pages s' ! f)"
    "content s q = Some x \<Longrightarrow> content s' q = Some x" by auto
qed

text \<open>A page just fetched by its only user is what the disk holds, or is marked dirty.\<close>

lemma fetch_clean:
  assumes w: "bp_wf s" and c: "coherent s" and ft: "fetch_page pid s = (Inr (Some f), s')" and one: "p_pin (pages s' ! f) = 1"
  shows "p_dirty (pages s' ! f) \<or> page_at s' pid = Some (p_data (pages s' ! f))"
proof (cases "frame_of s pid")
  case (Some g)
  then have s': "g = f" "s' = pin_frame f s" using ft by (auto simp: fetch_page_hit)
  have "f < length (pages s)" using bp_wf_mapped(1) [OF w Some] bp_wf_basic(1) [OF w] s' by simp
  with one c Some s' show ?thesis by (auto simp: pin_frame_def upd_page_def coherent_def)
next
  case None
  from w None ft obtain fl r d buf where v: "victim_of s f fl r"
    and b: "disk_page d (pid_fd pid) (pid_page_no pid) = Some buf" and s': "s' = install f pid buf d fl r s"
    by (rule fetch_page_miss)
  have "f < length (pages s)" using v bp_wf_basic(1) [OF w] by (simp add: victim_of_def)
  with b s' show ?thesis by simp
qed

lemma new_page_cases:
  assumes w: "bp_wf s" and np: "new_page fd s = (Inr (Some (f, pid)), s')"
    and fresh: "frame_of s (PageId fd (fd2pageno (bp_disk s) fd)) = None"
  obtains fl r d0 d where "pid = PageId fd (fd2pageno (bp_disk s) fd)" "0 \<le> fd" "fd < MAX_FD"
    "d0 = (bp_disk s)\<lparr>fd2pageno := (fd2pageno (bp_disk s))(fd := fd2pageno (bp_disk s) fd + 1)\<rparr>"
    "victim_of s f fl r" "evict_to s f d0 d" "s' = install f pid (replicate PAGE_SIZE 0) d fl r s"
proof -
  let ?d0 = "(bp_disk s)\<lparr>fd2pageno := (fd2pageno (bp_disk s))(fd := fd2pageno (bp_disk s) fd + 1)\<rparr>"
  obtain s1 where v1: "find_victim_page s = (Some f, s1)"
    using np by (auto simp: new_page_def bindc_eq_Inr split: prod.splits option.splits)
  obtain fl r where v: "victim_of s f fl r" and s1: "s1 = s\<lparr>free_list := fl, bp_replacer := r\<rparr>"
    using w v1 by (rule find_victim_Some)
  have f: "f < length (pages s)" and pin0: "p_pin (pages s ! f) = 0"
    using v bp_wf_basic(1) [OF w] by (auto simp: victim_of_def)
  let ?no = "fd2pageno (bp_disk s) fd"
  have al: "on_disk (allocate_page fd) s1 =
      (if fd < 0 \<or> MAX_FD \<le> fd then (Inl (AssertionFailure ''fd >= 0 && fd < MAX_FD''), s1)
       else if \<not> in_range 4 (?no + 1) then (Inl (UndefinedBehaviour ''fd2pageno_[fd]++''), s1)
       else (Inr ?no, s1\<lparr>bp_disk := ?d0\<rparr>))"
    using s1 by (simp add: on_disk_run allocate_page_def)
  from np v1 have run: "bindc (on_disk (allocate_page fd)) (\<lambda>no. bindc (update_page f (PageId fd no) (Some f))
      (\<lambda>_. bindc (modify (upd_page f (\<lambda>p. p\<lparr>p_data := replicate PAGE_SIZE 0\<rparr>)))
      (\<lambda>_. bindc (modify (pin_frame f)) (\<lambda>_. ret (Some (f, PageId fd no)))))) s1 = (Inr (Some (f, pid)), s')"
    by (simp only: new_page_def prod.case option.case)
  then have fd: "0 \<le> fd" "fd < MAX_FD" and no: "in_range 4 (?no + 1)" by (auto simp: bindc_def al split: if_splits)
  with run al no obtain s2 where pid: "pid = PageId fd ?no"
    and u: "update_page f pid (Some f) (s1\<lparr>bp_disk := ?d0\<rparr>) = (Inr (), s2)"
    and s': "s' = pin_frame f (upd_page f (\<lambda>p. p\<lparr>p_data := replicate PAGE_SIZE 0\<rparr>) s2)"
    by (subst (asm) bindc_Inr [where a = ?no and s' = "s1\<lparr>bp_disk := ?d0\<rparr>"]) (auto simp: bindc_eq_Inr)
  from f s1 have "f < length (pages (s1\<lparr>bp_disk := ?d0\<rparr>))" by simp
  then obtain d where e: "evict_to (s1\<lparr>bp_disk := ?d0\<rparr>) f (bp_disk (s1\<lparr>bp_disk := ?d0\<rparr>)) d"
    and s2: "s2 = (s1\<lparr>bp_disk := ?d0\<rparr>)\<lparr>bp_disk := d,
      pages := (pages (s1\<lparr>bp_disk := ?d0\<rparr>))[f := (pages (s1\<lparr>bp_disk := ?d0\<rparr>) ! f)\<lparr>p_dirty := False, p_id := pid\<rparr>],
      page_table := emplace pid f (herase (p_id (pages (s1\<lparr>bp_disk := ?d0\<rparr>) ! f)) (page_table (s1\<lparr>bp_disk := ?d0\<rparr>)))\<rparr>"
    using u by (rule update_page_ok)
  have "s' = install f pid (replicate PAGE_SIZE 0) d fl r s"
    using s' s2 s1 f pin0 by (simp add: pin_frame_def upd_page_def install_def) (cases "pages s ! f"; simp)
  then show thesis using that [OF pid fd refl v] e s1 by (simp add: evict_to_def)
qed

text \<open>The page counters of the disk manager play no role in the invariant or the contents.\<close>

lemma disk_page_os: "dm_os d = dm_os d' \<Longrightarrow> disk_page d = disk_page d'"
  by (simp add: fun_eq_iff disk_page_def)

lemma recount:
  assumes "dm_os d = dm_os (bp_disk s)" and "disk_wf d"
  shows "bp_wf s \<Longrightarrow> bp_wf (s\<lparr>bp_disk := d\<rparr>)" "coherent (s\<lparr>bp_disk := d\<rparr>) \<longleftrightarrow> coherent s"
    "content (s\<lparr>bp_disk := d\<rparr>) = content s" "victim_of (s\<lparr>bp_disk := d\<rparr>) f fl r \<longleftrightarrow> victim_of s f fl r"
    "evict_to (s\<lparr>bp_disk := d\<rparr>) f = evict_to s f"
    "install f pid buf d' fl r (s\<lparr>bp_disk := d\<rparr>) = install f pid buf d' fl r s"
    "no_stale (s\<lparr>bp_disk := d\<rparr>) pid \<longleftrightarrow> no_stale s pid"
  using disk_page_os [OF assms(1)] assms(2)
  by (simp_all add: bp_wf_def coherent_def content_def victim_of_def evict_to_def fun_eq_iff install_def no_stale_def
      split: option.split)

lemma new_page_keeps:
  assumes w: "bp_wf s" and c: "coherent s" and np: "new_page fd s = (Inr (Some (f, pid)), s')"
    and fresh: "frame_of s (PageId fd (fd2pageno (bp_disk s) fd)) = None"
    and st: "no_stale s (PageId fd (fd2pageno (bp_disk s) fd))"
  shows "bp_wf s'" "coherent s'" "frame_of s' pid = Some f" "0 < p_pin (pages s' ! f)"
    "content s' pid = Some (replicate PAGE_SIZE 0)"
    "q \<noteq> pid \<Longrightarrow> content s q = Some x \<Longrightarrow> content s' q = Some x"
proof -
  from w np fresh obtain fl r d0 d where pid: "pid = PageId fd (fd2pageno (bp_disk s) fd)"
    and d0: "d0 = (bp_disk s)\<lparr>fd2pageno := (fd2pageno (bp_disk s))(fd := fd2pageno (bp_disk s) fd + 1)\<rparr>"
    and v: "victim_of s f fl r" and e: "evict_to s f d0 d" and s': "s' = install f pid (replicate PAGE_SIZE 0) d fl r s"
    by (rule new_page_cases)
  have o: "dm_os d0 = dm_os (bp_disk s)" "disk_wf d0"
    using bp_wf_basic(4) [OF w] by (auto simp: d0 disk_wf_def)
  note rc = recount [OF o]
  let ?s = "s\<lparr>bp_disk := d0\<rparr>"
  have w0: "bp_wf ?s" and c0: "coherent ?s" and v0: "victim_of ?s f fl r" and e0: "evict_to ?s f (bp_disk ?s) d"
    and m0: "frame_of ?s pid = None" and s0: "no_stale ?s pid"
    using w c v e st fresh pid by (simp_all add: rc)
  have f: "f < length (pages s)" using v bp_wf_basic(1) [OF w] by (simp add: victim_of_def)
  have i: "s' = install f pid (replicate PAGE_SIZE 0) d fl r ?s" by (simp add: s' rc)
  show "bp_wf s'" unfolding i by (rule install_wf [OF w0 v0 m0 s0]) (simp_all add: evict_view(1) [OF w0 v0 e0])
  show "coherent s'" unfolding i by (rule install_coherent [OF w0 c0 v0 e0 m0])
  show "frame_of s' pid = Some f" "0 < p_pin (pages s' ! f)" "content s' pid = Some (replicate PAGE_SIZE 0)"
    unfolding i using f by (simp_all add: install_frame_of [OF m0] content_def)
  show "content s' q = Some x" if "q \<noteq> pid" "content s q = Some x"
    unfolding i by (rule install_content [OF w0 c0 v0 e0 m0 that(1)]) (simp add: that rc)
qed

section \<open>Releasing, flushing, deleting\<close>

lemma unpin_page_adjust:
  assumes w: "bp_wf s" and m: "frame_of s pid = Some f" and p: "p_pin (pages s ! f) \<noteq> 0"
  shows "unpin_page pid dirty s =
     (True, adjust f ((pages s ! f)\<lparr>p_pin := p_pin (pages s ! f) - 1, p_dirty := p_dirty (pages s ! f) \<or> dirty\<rparr>)
        (if p_pin (pages s ! f) = 1 then unpin f (bp_replacer s) else bp_replacer s) (bp_disk s) s)"
  using bp_wf_mapped(1) [OF w m] bp_wf_basic(1) [OF w] m p
  by (simp add: unpin_page_def adjust_def upd_page_def Let_def)

lemma unpin_keeps:
  assumes w: "bp_wf s" and c: "coherent s" and m: "frame_of s pid = Some f" and p: "p_pin (pages s ! f) \<noteq> 0"
    and cl: "p_pin (pages s ! f) = 1 \<Longrightarrow> dirty \<or> p_dirty (pages s ! f) \<or> page_at s pid = Some (p_data (pages s ! f))"
  shows "bp_wf (snd (unpin_page pid dirty s))" "coherent (snd (unpin_page pid dirty s))"
    "content (snd (unpin_page pid dirty s)) = content s"
proof -
  note mf = bp_wf_mapped [OF w m] and b = bp_wf_basic [OF w]
  note fr = bp_wf_frame [OF w mf(1)] and u = unpin_page_adjust [OF w m p, of dirty]
  show "bp_wf (snd (unpin_page pid dirty s))"
    unfolding u snd_conv using mf b fr p
    by (intro adjust_wf [OF w m]) (auto simp: lru.set_unpin lru.inv_unpin)
  show "coherent (snd (unpin_page pid dirty s))"
    unfolding u snd_conv using mf cl by (intro adjust_coherent [OF w c m]) auto
  show "content (snd (unpin_page pid dirty s)) = content s"
    unfolding u snd_conv using mf(1) b(1)
    by (auto simp: fun_eq_iff content_def adjust_def nth_list_update split: option.splits)
qed

lemma store_page_adjust: "store_page f bs s = adjust f ((pages s ! f)\<lparr>p_data := bs\<rparr>) (bp_replacer s) (bp_disk s) s"
  by (simp add: store_page_def adjust_def upd_page_def)

lemma store_keeps:
  assumes w: "bp_wf s" and c: "coherent s" and m: "frame_of s pid = Some f" and p: "p_pin (pages s ! f) \<noteq> 0"
    and l: "length bs = PAGE_SIZE"
  shows "bp_wf (store_page f bs s)" "coherent (store_page f bs s)"
    "content (store_page f bs s) = (content s)(pid \<mapsto> bs)"
proof -
  note mf = bp_wf_mapped [OF w m] and b = bp_wf_basic [OF w]
  note fr = bp_wf_frame [OF w mf(1)]
  show "bp_wf (store_page f bs s)"
    unfolding store_page_adjust using mf b fr p l by (intro adjust_wf [OF w m]) auto
  show "coherent (store_page f bs s)"
    unfolding store_page_adjust using mf p by (intro adjust_coherent [OF w c m]) auto
  show "content (store_page f bs s) = (content s)(pid \<mapsto> bs)"
  proof
    fix q
    have "g \<noteq> f" if "frame_of s q = Some g" "q \<noteq> pid" for g using frame_unique [OF w m, of q] that by auto
    then show "content (store_page f bs s) q = ((content s)(pid \<mapsto> bs)) q"
      using mf(1) b(1) m by (cases "q = pid"; cases "frame_of s q") (auto simp: content_def store_page_def)
  qed
qed

text \<open>\<open>delete_page\<close> gives the frame back; it keeps the identifier and stays in the replacer.\<close>

definition remove :: "frame_id \<Rightarrow> disk \<Rightarrow> bpm \<Rightarrow> bpm" where
  "remove f d s =
     s\<lparr>bp_disk := d, pages := (pages s)[f := (pages s ! f)\<lparr>p_dirty := False\<rparr>],
       page_table := herase (p_id (pages s ! f)) (page_table s), free_list := free_list s @ [f]\<rparr>"

lemma delete_frame_remove:
  assumes "f < length (pages s)" and "delete_frame pid f s = (Inr (), s')"
  obtains d where "evict_to s f (bp_disk s) d" "s' = remove f d s"
proof (cases "p_dirty (pages s ! f)")
  case True
  with assms that show thesis
    by (auto simp: evict_to_def delete_frame_def update_page_def remove_def Let_def bindc_eq_Inr on_disk_run
        upd_page_def split: prod.splits)
next
  case False
  then have eq: "(pages s ! f)\<lparr>p_dirty := False\<rparr> = pages s ! f" by (cases "pages s ! f") simp
  show thesis
    using False assms by (intro that [of "bp_disk s"])
      (auto simp: evict_to_def delete_frame_def update_page_def remove_def Let_def bindc_eq_Inr eq)
qed

lemma remove_fields [simp]:
  "free_list (remove f d s) = free_list s @ [f]" "pool_size (remove f d s) = pool_size s"
  "bp_replacer (remove f d s) = bp_replacer s" "bp_disk (remove f d s) = d"
  "pages (remove f d s) = (pages s)[f := (pages s ! f)\<lparr>p_dirty := False\<rparr>]"
  by (simp_all add: remove_def)

lemma nth_upd: "xs[i := x] ! j = (if i = j \<and> j < length xs then x else xs ! j)"
  by (cases "i < length xs") (auto simp: nth_list_update list_update_beyond)

lemma remove_page: "p_id (pages (remove f d s) ! g) = p_id (pages s ! g)"
  "p_pin (pages (remove f d s) ! g) = p_pin (pages s ! g)" "p_data (pages (remove f d s) ! g) = p_data (pages s ! g)"
  by (auto simp: nth_upd)

lemma remove_frame_of:
  "bp_wf s \<Longrightarrow> frame_of s pid = Some f \<Longrightarrow> frame_of (remove f d s) = (frame_of s)(pid := None)"
  using bp_wf_mapped(2) [of s pid f] by (simp add: remove_def)

lemma removed_disk:
  assumes w: "bp_wf s" and c: "coherent s" and m: "frame_of s pid = Some f" and p: "p_pin (pages s ! f) = 0"
    and e: "evict_to s f (bp_disk s) d"
  shows "disk_wf d" "disk_page d (pid_fd pid) (pid_page_no pid) = Some (p_data (pages s ! f))"
    "q \<noteq> pid \<Longrightarrow> page_at s q = Some x \<Longrightarrow> disk_page d (pid_fd q) (pid_page_no q) = Some x"
proof -
  note mf = bp_wf_mapped [OF w m] and b = bp_wf_basic [OF w]
  have l: "length (p_data (pages s ! f)) = PAGE_SIZE" using bp_wf_frame(1) [OF w mf(1)] .
  have wr: "write_page (pid_fd pid) (pid_page_no pid) (p_data (pages s ! f)) (bp_disk s) = (Inr (), d)"
    if "p_dirty (pages s ! f)" using e that mf(2) by (simp add: evict_to_def Let_def)
  have cl: "d = bp_disk s" if "\<not> p_dirty (pages s ! f)" using e that by (simp add: evict_to_def Let_def)
  show "disk_wf d" using b(4) cl ds.wr_inv [OF b(4) wr] by (cases "p_dirty (pages s ! f)") auto
  show "disk_page d (pid_fd pid) (pid_page_no pid) = Some (p_data (pages s ! f))"
    using ds.view_same [OF b(4) l wr] cl c m p by (cases "p_dirty (pages s ! f)") (auto simp: coherent_def)
  show "disk_page d (pid_fd q) (pid_page_no q) = Some x" if "q \<noteq> pid" "page_at s q = Some x"
  proof (cases "p_dirty (pages s ! f)")
    case True
    from that(1) have "(pid_fd q, pid_page_no q) \<noteq> (pid_fd pid, pid_page_no pid)"
      by (metis page_id.collapse prod.inject)
    then show ?thesis using ds.view_other [OF b(4) _ wr [OF True] _ that(2)] l by simp
  qed (use that cl in simp)
qed

lemma remove_content:
  assumes w: "bp_wf s" and c: "coherent s" and m: "frame_of s pid = Some f" and p: "p_pin (pages s ! f) = 0"
    and e: "evict_to s f (bp_disk s) d" and x: "content s q = Some x"
  shows "content (remove f d s) q = Some x"
  using removed_disk(2) [OF w c m p e] removed_disk(3) [OF w c m p e, of q x] x m
  by (cases "q = pid"; cases "frame_of s q")
     (auto simp: content_def remove_frame_of [OF w m] remove_page simp del: remove_fields(5))

lemma remove_coherent:
  assumes w: "bp_wf s" and c: "coherent s" and m: "frame_of s pid = Some f" and p: "p_pin (pages s ! f) = 0"
    and e: "evict_to s f (bp_disk s) d"
  shows "coherent (remove f d s)"
  unfolding coherent_def remove_frame_of [OF w m]
proof (intro allI impI)
  fix q g let ?s = "remove f d s"
  assume a: "((frame_of s)(pid := None)) q = Some g" "p_pin (pages ?s ! g) = 0" "\<not> p_dirty (pages ?s ! g)"
  then have q: "q \<noteq> pid" "frame_of s q = Some g" by (auto split: if_splits)
  then have "g \<noteq> f" using frame_unique [OF w m, of q] by auto
  with a q c have "page_at s q = Some (p_data (pages s ! g))" by (simp add: coherent_def)
  with removed_disk(3) [OF w c m p e q(1)] show "page_at ?s q = Some (p_data (pages ?s ! g))"
    by (simp add: remove_page del: remove_fields(5))
qed

lemma remove_wf:
  assumes w: "bp_wf s" and m: "frame_of s pid = Some f" and p: "p_pin (pages s ! f) = 0" and d: "disk_wf d"
  shows "bp_wf (remove f d s)"
proof -
  let ?s = "remove f d s" and ?F = "(frame_of s)(pid := None)"
  note mf = bp_wf_mapped [OF w m] and b = bp_wf_basic [OF w]
  have kept: "?F (p_id (pages s ! g)) = Some g" if "g \<noteq> f" "frame_of s (p_id (pages s ! g)) = Some g" for g
    using that m by auto
  have "\<forall>g \<in> set (free_list ?s). g < pool_size s \<and> p_pin (pages s ! g) = 0 \<and> \<not> p_dirty (pages ?s ! g) \<and>
      ?F (p_id (pages s ! g)) = None"
  proof
    fix g assume "g \<in> set (free_list ?s)"
    then show "g < pool_size s \<and> p_pin (pages s ! g) = 0 \<and> \<not> p_dirty (pages ?s ! g) \<and> ?F (p_id (pages s ! g)) = None"
      using mf p b(1) bp_wf_free [OF w, of g] by (cases "g = f") auto
  qed
  moreover have "\<forall>q g. ?F q = Some g \<longrightarrow> g < pool_size s \<and> p_id (pages s ! g) = q \<and> g \<notin> set (free_list ?s) \<and>
      (g \<in> evictable s \<longleftrightarrow> p_pin (pages s ! g) = 0)"
  proof (intro allI impI)
    fix q g assume "?F q = Some g"
    then have q: "q \<noteq> pid" "frame_of s q = Some g" by (auto split: if_splits)
    from bp_wf_mapped [OF w q(2)] frame_unique [OF w m, of q] q
    show "g < pool_size s \<and> p_id (pages s ! g) = q \<and> g \<notin> set (free_list ?s) \<and>
      (g \<in> evictable s \<longleftrightarrow> p_pin (pages s ! g) = 0)" by auto
  qed
  moreover have "\<forall>g \<in> evictable s. g \<in> set (free_list ?s) \<or> ?F (p_id (pages s ! g)) = Some g"
    using bp_wf_evictable [OF w] kept by fastforce
  moreover have "\<forall>g < pool_size s. length (p_data (pages s ! g)) = PAGE_SIZE \<and> 0 \<le> p_pin (pages s ! g) \<and>
      (g \<in> set (free_list ?s) \<or> ?F (p_id (pages s ! g)) = Some g)"
    using bp_wf_frame [OF w] kept by fastforce
  moreover have "hwf (page_table ?s)" "distinct (free_list ?s)" using b mf(3) by (auto simp: remove_def)
  moreover have "length (pages ?s) = pool_size s" using b(1) by simp
  ultimately show ?thesis
    unfolding bp_wf_def remove_fields(2,3,4) remove_frame_of [OF w m] remove_page using b(3) d by (intro conjI)
qed

text \<open>What a successful deletion of an unpinned, mapped frame keeps.\<close>

lemma delete_frame_keeps:
  assumes w: "bp_wf s" and c: "coherent s" and m: "frame_of s pid = Some f" and p: "p_pin (pages s ! f) = 0"
    and dl: "delete_frame pid' f s = (Inr (), s')"
  shows "bp_wf s'" "coherent s'" "frame_of s' = (frame_of s)(pid := None)" "content s q = Some x \<Longrightarrow> content s' q = Some x"
    "page_at s' pid = Some (p_data (pages s ! f))" "free_list s' = free_list s @ [f]"
    "p_id (pages s' ! g) = p_id (pages s ! g)" "p_pin (pages s' ! g) = p_pin (pages s ! g)"
proof -
  from w m have "f < length (pages s)" using bp_wf_mapped(1) bp_wf_basic(1) by metis
  then obtain d where e: "evict_to s f (bp_disk s) d" and s': "s' = remove f d s"
    using dl by (rule delete_frame_remove)
  note rd = removed_disk [OF w c m p e]
  show "bp_wf s'" unfolding s' by (rule remove_wf [OF w m p rd(1)])
  show "coherent s'" unfolding s' by (rule remove_coherent [OF w c m p e])
  show "frame_of s' = (frame_of s)(pid := None)" unfolding s' by (rule remove_frame_of [OF w m])
  show "content s' q = Some x" if "content s q = Some x" unfolding s' by (rule remove_content [OF w c m p e that])
  show "page_at s' pid = Some (p_data (pages s ! f))" using rd(2) by (simp add: s')
  show "free_list s' = free_list s @ [f]" by (simp add: s')
  show "p_id (pages s' ! g) = p_id (pages s ! g)" "p_pin (pages s' ! g) = p_pin (pages s ! g)"
    unfolding s' by (rule remove_page)+
qed

lemma target_frames_Some:
  "target_frames fd ps es = Some fs \<Longrightarrow>
   fs = map snd (filter (\<lambda>(pid, f). pid_fd pid = fd) es) \<and> (\<forall>f \<in> set fs. p_pin (ps ! f) = 0)"
  by (induction fd ps es arbitrary: fs rule: target_frames.induct) (auto split: if_splits)

text \<open>Deleting a list of distinct mapped, unpinned frames.\<close>

lemma delete_frames_keeps:
  assumes "bp_wf s" and "coherent s" and "distinct fs"
    and "\<forall>f \<in> set fs. frame_of s (p_id (pages s ! f)) = Some f \<and> p_pin (pages s ! f) = 0"
    and "delete_frames fs s = (Inr (), s')"
  shows "bp_wf s' \<and> coherent s' \<and> (\<forall>q x. content s q = Some x \<longrightarrow> content s' q = Some x) \<and>
    (\<forall>q. frame_of s' q = (case frame_of s q of Some f \<Rightarrow> if f \<in> set fs then None else Some f | None \<Rightarrow> None))"
  using assms
proof (induction fs arbitrary: s)
  case Nil
  then show ?case by (auto split: option.splits)
next
  case (Cons f fs)
  let ?pid = "p_id (pages s ! f)"
  from Cons.prems(5) obtain s1 where d: "delete_frame ?pid f s = (Inr (), s1)" "delete_frames fs s1 = (Inr (), s')"
    by (auto simp: bindc_eq_Inr)
  from Cons.prems(4) have m: "frame_of s ?pid = Some f" "p_pin (pages s ! f) = 0" by auto
  note k = delete_frame_keeps [OF Cons.prems(1,2) m d(1)]
  have other: "p_id (pages s ! g) \<noteq> ?pid" if "g \<in> set fs" for g
  proof
    assume "p_id (pages s ! g) = ?pid"
    with Cons.prems(4) that m have "g = f" by (metis list.set_intros(2) option.inject)
    with Cons.prems(3) that show False by simp
  qed
  have "\<forall>g \<in> set fs. frame_of s1 (p_id (pages s1 ! g)) = Some g \<and> p_pin (pages s1 ! g) = 0"
    using Cons.prems(4) other by (simp add: k(3,7,8))
  with Cons.IH [OF k(1,2) _ _ d(2)] Cons.prems(3)
  have ih: "bp_wf s'" "coherent s'" "\<forall>q x. content s1 q = Some x \<longrightarrow> content s' q = Some x"
    "\<forall>q. frame_of s' q = (case frame_of s1 q of Some f \<Rightarrow> if f \<in> set fs then None else Some f | None \<Rightarrow> None)"
    by auto
  have "g \<noteq> f" if "frame_of s q = Some g" "q \<noteq> ?pid" for q g
    using frame_unique [OF Cons.prems(1) m(1), of q] that by auto
  then have "frame_of s' q = (case frame_of s q of Some g \<Rightarrow> if g \<in> set (f # fs) then None else Some g | None \<Rightarrow> None)" for q
    using ih(4) m(1) by (cases "q = ?pid"; cases "frame_of s q") (auto simp: k(3))
  with ih k(4) show ?case by simp
qed

lemma table_frames_distinct:
  assumes w: "bp_wf s"
  shows "distinct (map snd (filter P (page_table s)))"
proof -
  have h: "distinct (map fst (page_table s))" using bp_wf_basic(2) [OF w] by simp
  have "inj_on snd (set (page_table s))"
  proof (rule inj_onI)
    fix x y assume a: "x \<in> set (page_table s)" "y \<in> set (page_table s)" "snd x = snd y"
    then have "frame_of s (fst x) = Some (snd x)" "frame_of s (fst y) = Some (snd x)"
      using h by (metis map_of_is_SomeI prod.collapse)+
    then show "x = y" using frame_unique [OF w] a(3) by (metis prod_eqI)
  qed
  then show ?thesis using h by (simp add: distinct_map inj_on_def distinct_filter)
qed

lemma table_entry: "bp_wf s \<Longrightarrow> (pid, f) \<in> set (page_table s) \<longleftrightarrow> frame_of s pid = Some f"
  using bp_wf_basic(2) [of s] by (auto dest: map_of_SomeD)

lemma delete_all_page_keeps:
  assumes w: "bp_wf s" and c: "coherent s" and dl: "delete_all_page fd s = (Inr True, s')"
  shows "bp_wf s'" "coherent s'" "content s q = Some x \<Longrightarrow> content s' q = Some x"
    "frame_of s' q = (if pid_fd q = fd then None else frame_of s q)"
proof -
  obtain fs where t: "target_frames fd (pages s) (page_table s) = Some fs" "delete_frames fs s = (Inr (), s')"
    using dl by (auto simp: delete_all_page_def bindc_eq_Inr split: option.splits)
  note ft = target_frames_Some [OF t(1)]
  have ds: "distinct fs" using ft table_frames_distinct [OF w] by simp
  have mem: "frame_of s q = Some f \<Longrightarrow> f \<in> set fs \<longleftrightarrow> pid_fd q = fd" for q f
  proof -
    assume m: "frame_of s q = Some f"
    have "f \<in> set fs \<longleftrightarrow> (\<exists>p. frame_of s p = Some f \<and> pid_fd p = fd)"
      using ft by (auto simp: table_entry [OF w] image_iff)
    then show "f \<in> set fs \<longleftrightarrow> pid_fd q = fd" using m frame_unique [OF w m] by blast
  qed
  have "\<forall>f \<in> set fs. frame_of s (p_id (pages s ! f)) = Some f \<and> p_pin (pages s ! f) = 0"
    using ft bp_wf_mapped(2) [OF w] by (auto simp: table_entry [OF w])
  note k = delete_frames_keeps [OF w c ds this t(2)]
  show "bp_wf s'" "coherent s'" "content s q = Some x \<Longrightarrow> content s' q = Some x" using k by auto
  show "frame_of s' q = (if pid_fd q = fd then None else frame_of s q)"
    using k mem by (auto split: option.splits)
qed

lemma write_back_adjust:
  assumes w: "bp_wf s" and m: "frame_of s pid = Some f" and wb: "write_back pid f s = (Inr (), s')"
  obtains d where "write_page (pid_fd pid) (pid_page_no pid) (p_data (pages s ! f)) (bp_disk s) = (Inr (), d)"
    "s' = adjust f ((pages s ! f)\<lparr>p_dirty := False\<rparr>) (bp_replacer s) d s"
  using wb that by (auto simp: write_back_def bindc_eq_Inr on_disk_run adjust_def upd_page_def split: prod.splits)

lemma write_back_keeps:
  assumes w: "bp_wf s" and c: "coherent s" and m: "frame_of s pid = Some f" and wb: "write_back pid f s = (Inr (), s')"
  shows "bp_wf s'" "coherent s'" "page_table s' = page_table s" "page_at s' pid = Some (p_data (pages s ! f))"
    "page_at s q = Some x \<Longrightarrow> q \<noteq> pid \<Longrightarrow> page_at s' q = Some x"
    "pages s' = (pages s)[f := (pages s ! f)\<lparr>p_dirty := False\<rparr>]" "content s q = Some x \<Longrightarrow> content s' q = Some x"
    "free_list s' = free_list s"
proof -
  obtain d where wr: "write_page (pid_fd pid) (pid_page_no pid) (p_data (pages s ! f)) (bp_disk s) = (Inr (), d)"
    and s': "s' = adjust f ((pages s ! f)\<lparr>p_dirty := False\<rparr>) (bp_replacer s) d s"
    using w m wb by (rule write_back_adjust)
  note mf = bp_wf_mapped [OF w m] and b = bp_wf_basic [OF w]
  note fr = bp_wf_frame [OF w mf(1)]
  note same = ds.view_same [OF b(4) fr(1) wr]
  have other: "disk_page d (pid_fd q) (pid_page_no q) = Some x" if "q \<noteq> pid" "page_at s q = Some x" for q x
  proof -
    from that(1) have "(pid_fd q, pid_page_no q) \<noteq> (pid_fd pid, pid_page_no pid)"
      by (metis page_id.collapse prod.inject)
    then show ?thesis using ds.view_other [OF b(4) _ wr _ that(2)] fr(1) by simp
  qed
  show "bp_wf s'"
    unfolding s' using mf b fr ds.wr_inv [OF b(4) wr] by (intro adjust_wf [OF w m]) auto
  show "coherent s'"
    unfolding s' using mf(2) other same by (intro adjust_coherent [OF w c m]) auto
  show "page_table s' = page_table s" "page_at s' pid = Some (p_data (pages s ! f))" "free_list s' = free_list s"
    "pages s' = (pages s)[f := (pages s ! f)\<lparr>p_dirty := False\<rparr>]" "page_at s q = Some x \<Longrightarrow> q \<noteq> pid \<Longrightarrow> page_at s' q = Some x"
    using same other [of q x] by (simp_all add: s' adjust_def)
  show "content s' q = Some x" if x: "content s q = Some x"
  proof (cases "q = pid")
    case True
    then have "x = p_data (pages s ! f)" using x m by (simp add: content_def)
    with True show ?thesis unfolding s' by (simp add: adjust_content_self [OF w m])
  next
    case False
    show ?thesis unfolding s' by (rule adjust_content [OF w m False other [OF False] x])
  qed
qed

text \<open>A flush loop over entries of the page table.\<close>

lemma flush_entries_keeps:
  assumes "bp_wf s" and "coherent s" and "distinct (map fst es)" and "\<forall>(pid, f) \<in> set es. frame_of s pid = Some f"
    and "flush_entries sel es s = (Inr (), s')"
  shows "bp_wf s' \<and> coherent s' \<and> page_table s' = page_table s \<and>
    (\<forall>q x. content s q = Some x \<longrightarrow> content s' q = Some x) \<and>
    (\<forall>q x. page_at s q = Some x \<longrightarrow> q \<notin> fst ` set es \<longrightarrow> page_at s' q = Some x) \<and>
    (\<forall>f. f \<notin> snd ` set es \<longrightarrow> pages s' ! f = pages s ! f) \<and>
    (\<forall>f. p_data (pages s' ! f) = p_data (pages s ! f)) \<and>
    (\<forall>(pid, f) \<in> set es. if sel pid (pages s ! f)
       then page_at s' pid = Some (p_data (pages s ! f)) \<and> \<not> p_dirty (pages s' ! f)
       else pages s' ! f = pages s ! f)"
  using assms
proof (induction sel es arbitrary: s rule: flush_entries.induct)
  case (1 sel)
  then show ?case by simp
next
  case (2 sel pid f es)
  have m: "frame_of s pid = Some f" using "2.prems"(4) by simp
  have nf: "g \<noteq> f \<and> q \<noteq> pid" if "(q, g) \<in> set es" for q g
  proof -
    have "q \<noteq> pid" using that "2.prems"(3) by force
    then show ?thesis using frame_unique [OF "2.prems"(1) m, of q] "2.prems"(4) that by auto
  qed
  show ?case
  proof (cases "sel pid (pages s ! f)")
    case False
    have e: "flush_entries sel es s = (Inr (), s')" "distinct (map fst es)" "\<forall>(pid, f) \<in> set es. frame_of s pid = Some f"
      using "2.prems"(3,4,5) False by auto
    have "f \<notin> snd ` set es" using nf by fastforce
    with "2.IH"(2) [OF False "2.prems"(1,2) e(2,3,1)] False show ?thesis by auto
  next
    case True
    then obtain s1 where wb: "write_back pid f s = (Inr (), s1)" and fl: "flush_entries sel es s1 = (Inr (), s')"
      using "2.prems"(5) by (auto simp: bindc_eq_Inr)
    note k = write_back_keeps [OF "2.prems"(1,2) m wb]
    have pg: "pages s1 ! g = pages s ! g" if "g \<noteq> f" for g using that by (simp add: k(6))
    have dt: "p_data (pages s1 ! g) = p_data (pages s ! g)" for g by (simp add: k(6) nth_upd)
    have cl: "\<not> p_dirty (pages s1 ! f)"
      using bp_wf_mapped(1) [OF "2.prems"(1) m] bp_wf_basic(1) [OF "2.prems"(1)] by (simp add: k(6))
    have np: "pid \<notin> fst ` set es" "f \<notin> snd ` set es" using nf by fastforce+
    have "distinct (map fst es)" "\<forall>(pid, f) \<in> set es. frame_of s1 pid = Some f"
      using "2.prems"(3,4) k(3) by auto
    from "2.IH"(1) [OF True k(1,2) this fl]
    have ih: "bp_wf s'" "coherent s'" "page_table s' = page_table s1"
      "\<forall>q x. content s1 q = Some x \<longrightarrow> content s' q = Some x"
      "\<forall>q x. page_at s1 q = Some x \<longrightarrow> q \<notin> fst ` set es \<longrightarrow> page_at s' q = Some x"
      "\<forall>f. f \<notin> snd ` set es \<longrightarrow> pages s' ! f = pages s1 ! f" "\<forall>f. p_data (pages s' ! f) = p_data (pages s1 ! f)"
      "\<forall>(pid, f) \<in> set es. if sel pid (pages s1 ! f)
       then page_at s' pid = Some (p_data (pages s1 ! f)) \<and> \<not> p_dirty (pages s' ! f)
       else pages s' ! f = pages s1 ! f" by auto
    have es: "\<forall>(pid, f) \<in> set es. if sel pid (pages s ! f)
       then page_at s' pid = Some (p_data (pages s ! f)) \<and> \<not> p_dirty (pages s' ! f)
       else pages s' ! f = pages s ! f"
      using ih(8) nf pg by fastforce
    have "page_at s' pid = Some (p_data (pages s ! f)) \<and> \<not> p_dirty (pages s' ! f)"
      using ih(5,6) k(4) cl np by simp
    with ih(1-7) es k(3,5,7) pg dt True show ?thesis by auto
  qed
qed

end
