(* ===== verification/Buffer_Pool_Spec.thy ===== *)
theory Buffer_Pool_Spec
  imports Buffer_Pool
begin

text \<open>
  What the buffer pool promises its clients. A run is any sequence of operations that return,
  with the client's rules for changing and unpinning pages. The pool is a memory along the
  \<open>disciplined\<close> runs, in which no page is brought in again after it was deleted from the pool:
  the bytes last stored in a page are the bytes a later \<open>fetch_page\<close> returns and a flush puts
  on disk, whatever was evicted, deleted or flushed in between. Outside them it is not, and the
  last section shows what an old page identifier and a failed read do.
\<close>

section \<open>Runs of the pool\<close>

text \<open>What an operation did, as the client sees it.\<close>

datatype bp_label =
  Quiet
| Fetched page_id
| Created page_id
| Stored page_id "byte list"
| Deleted "page_id set"

text \<open>The pages an operation took out of the pool.\<close>

definition dropped :: "bpm \<Rightarrow> bpm \<Rightarrow> page_id set" where
  "dropped s s' = {pid \<in> fst ` set (page_table s). frame_of s' pid = None}"

text \<open>
  One operation that returned. The side conditions are the client's part: who changed a page
  unpins it dirty, and the bytes of a page change only while it is pinned. \<open>env\<close> is any
  action of the other clients of the disk manager (creating and opening files, the log) that
  leaves the pages readable now as they are.
\<close>

inductive bp_step :: "bpm \<Rightarrow> bp_label \<Rightarrow> bpm \<Rightarrow> bool" where
  fetch: "fetch_page pid s = (Inr (Some f), s') \<Longrightarrow> bp_step s (Fetched pid) s'"
| fetch_full: "fetch_page pid s = (Inr None, s') \<Longrightarrow> bp_step s Quiet s'"
| new: "new_page fd s = (Inr (Some (f, pid)), s') \<Longrightarrow> bp_step s (Created pid) s'"
| new_full: "new_page fd s = (Inr None, s') \<Longrightarrow> bp_step s Quiet s'"
| unpin: "(\<And>f. frame_of s pid = Some f \<Longrightarrow> dirty \<or> p_dirty (pages s ! f) \<or> page_at s pid = Some (p_data (pages s ! f))) \<Longrightarrow>
     unpin_page pid dirty s = (b, s') \<Longrightarrow> bp_step s Quiet s'"
| store: "frame_of s pid = Some f \<Longrightarrow> p_pin (pages s ! f) \<noteq> 0 \<Longrightarrow> length bs = PAGE_SIZE \<Longrightarrow>
     bp_step s (Stored pid bs) (store_page f bs s)"
| delete: "delete_page pid s = (Inr b, s') \<Longrightarrow> bp_step s (Deleted (dropped s s')) s'"
| delete_all: "delete_all_page fd s = (Inr b, s') \<Longrightarrow> bp_step s (Deleted (dropped s s')) s'"
| flush: "flush_page pid s = (Inr b, s') \<Longrightarrow> bp_step s Quiet s'"
| flush_file: "flush_all_pages fd s = (Inr (), s') \<Longrightarrow> bp_step s Quiet s'"
| flush_all: "flush_all_page s = (Inr (), s') \<Longrightarrow> bp_step s Quiet s'"
| env: "disk_wf d \<Longrightarrow> (\<And>q x. page_at s q = Some x \<Longrightarrow> disk_page d (pid_fd q) (pid_page_no q) = Some x) \<Longrightarrow>
     bp_step s Quiet (s\<lparr>bp_disk := d\<rparr>)"

inductive bp_run :: "bpm \<Rightarrow> bp_label list \<Rightarrow> bpm \<Rightarrow> bool" where
  start: "bp_run s [] s"
| step: "bp_run s ls t \<Longrightarrow> bp_step t l u \<Longrightarrow> bp_run s (ls @ [l]) u"

text \<open>The abstract memory: the last bytes stored in each page.\<close>

fun apply_label :: "bp_label \<Rightarrow> (page_id \<rightharpoonup> byte list) \<Rightarrow> (page_id \<rightharpoonup> byte list)" where
  "apply_label (Created pid) m = m(pid \<mapsto> replicate PAGE_SIZE 0)"
| "apply_label (Stored pid bs) m = m(pid \<mapsto> bs)"
| "apply_label _ m = m"

definition memory :: "bp_label list \<Rightarrow> (page_id \<rightharpoonup> byte list) \<Rightarrow> (page_id \<rightharpoonup> byte list)" where
  "memory ls m = fold apply_label ls m"

text \<open>
  The discipline the code relies on without ensuring it. A page deleted from the pool is not
  brought in again, a page number handed out by \<open>new_page\<close> is one the client has not used, and
  nobody asks for the number \<open>INVALID_PAGE_ID\<close>, which the frames carry at first.
\<close>

definition deleted :: "bp_label list \<Rightarrow> page_id set" where
  "deleted ls = (\<Union>l \<in> set ls. case l of Deleted ps \<Rightarrow> ps | _ \<Rightarrow> {})"

definition used :: "bp_label list \<Rightarrow> page_id set" where
  "used ls = (\<Union>l \<in> set ls. case l of Fetched pid \<Rightarrow> {pid} | Created pid \<Rightarrow> {pid} | _ \<Rightarrow> {})"

definition allowed :: "bp_label list \<Rightarrow> bp_label \<Rightarrow> bool" where
  "allowed ls l \<longleftrightarrow>
     (case l of
        Fetched pid \<Rightarrow> pid_page_no pid \<noteq> INVALID_PAGE_ID \<and> pid \<notin> deleted ls
      | Created pid \<Rightarrow> pid_page_no pid \<noteq> INVALID_PAGE_ID \<and> pid \<notin> deleted ls \<and> pid \<notin> used ls
      | _ \<Rightarrow> True)"

definition disciplined :: "bp_label list \<Rightarrow> bool" where
  "disciplined ls \<longleftrightarrow> (\<forall>i < length ls. allowed (take i ls) (ls ! i))"

lemma disciplined_Nil: "disciplined []"
  by (simp add: disciplined_def)

lemma disciplined_snoc: "disciplined (ls @ [l]) \<longleftrightarrow> disciplined ls \<and> allowed ls l"
  by (auto simp: disciplined_def less_Suc_eq nth_append)

lemma deleted_used_snoc:
  "deleted [] = {}" "deleted (ls @ [l]) = deleted ls \<union> deleted [l]"
  "used [] = {}" "used (ls @ [l]) = used ls \<union> used [l]"
  by (auto simp: deleted_def used_def)

section \<open>Every operation refines the abstract memory\<close>

definition bp_ok :: "bpm \<Rightarrow> bool" where
  "bp_ok s \<longleftrightarrow> bp_wf s \<and> coherent s"

lemma map_leI: "(\<And>k x. m k = Some x \<Longrightarrow> m' k = Some x) \<Longrightarrow> m \<subseteq>\<^sub>m m'"
  by (auto simp: map_le_def)

lemma map_leD: "m \<subseteq>\<^sub>m m' \<Longrightarrow> m k = Some x \<Longrightarrow> m' k = Some x"
  by (force simp: map_le_def dom_def)

lemma initial_ok: "disk_wf d \<Longrightarrow> bp_ok (BufferPoolManager fd0 n d)"
  using lru.inv_new
  by (auto simp: bp_ok_def bp_wf_def coherent_def BufferPoolManager_def new_Page_def lru.queue_new)

lemma delete_page_ok:
  assumes "bp_ok s" and "delete_page pid s = (Inr b, s')"
  shows "bp_ok s' \<and> content s \<subseteq>\<^sub>m content s'"
proof (cases "frame_of s pid")
  case None
  then show ?thesis using assms by (simp add: delete_page_def)
next
  case (Some f)
  show ?thesis
  proof (cases "p_pin (pages s ! f) = 0")
    case True
    with Some assms(2) have "delete_frame pid f s = (Inr (), s')" by (auto simp: delete_page_def bindc_eq_Inr)
    with delete_frame_keeps [OF _ _ Some True] assms(1) show ?thesis by (auto simp: bp_ok_def intro!: map_leI)
  qed (use Some assms in \<open>simp add: delete_page_def\<close>)
qed

lemma delete_all_page_ok:
  assumes "bp_ok s" and "delete_all_page fd s = (Inr b, s')"
  shows "bp_ok s' \<and> content s \<subseteq>\<^sub>m content s'"
proof (cases b)
  case True
  with assms have "bp_wf s" "coherent s" "delete_all_page fd s = (Inr True, s')" by (auto simp: bp_ok_def)
  note k = delete_all_page_keeps [OF this]
  have "content s \<subseteq>\<^sub>m content s'" by (rule map_leI) (rule k(3))
  with k(1,2) show ?thesis by (simp add: bp_ok_def)
next
  case False
  with assms have "s' = s" by (auto simp: delete_all_page_def bindc_eq_Inr split: option.splits)
  with assms show ?thesis by simp
qed

lemma flush_page_ok:
  assumes "bp_ok s" and "flush_page pid s = (Inr b, s')"
  shows "bp_ok s' \<and> content s \<subseteq>\<^sub>m content s'"
proof (cases "frame_of s pid")
  case None
  then show ?thesis using assms by (simp add: flush_page_def)
next
  case (Some f)
  with assms(2) have "write_back pid f s = (Inr (), s')" by (auto simp: flush_page_def bindc_eq_Inr)
  with write_back_keeps [OF _ _ Some] assms(1) show ?thesis by (auto simp: bp_ok_def intro!: map_leI)
qed

lemma flush_table:
  assumes "bp_ok s" and "flush_entries sel (page_table s) s = (Inr (), s')"
  shows "bp_ok s'" "content s \<subseteq>\<^sub>m content s'" "page_table s' = page_table s"
    "frame_of s pid = Some f \<Longrightarrow> p_data (pages s' ! f) = p_data (pages s ! f)"
    "frame_of s pid = Some f \<Longrightarrow> sel pid (pages s ! f) \<Longrightarrow>
       page_at s' pid = Some (p_data (pages s ! f)) \<and> \<not> p_dirty (pages s' ! f)"
    "frame_of s pid = Some f \<Longrightarrow> \<not> sel pid (pages s ! f) \<Longrightarrow> pages s' ! f = pages s ! f"
proof -
  have w: "bp_wf s" "coherent s" using assms(1) by (auto simp: bp_ok_def)
  have e: "\<forall>(pid, f) \<in> set (page_table s). frame_of s pid = Some f" using table_entry [OF w(1)] by auto
  note k = flush_entries_keeps [OF w bp_wf_basic(2) [OF w(1)] e assms(2)]
  then show "bp_ok s'" "content s \<subseteq>\<^sub>m content s'" "page_table s' = page_table s"
    "frame_of s pid = Some f \<Longrightarrow> p_data (pages s' ! f) = p_data (pages s ! f)"
    by (auto simp: bp_ok_def intro!: map_leI)
  show "page_at s' pid = Some (p_data (pages s ! f)) \<and> \<not> p_dirty (pages s' ! f)"
    if "frame_of s pid = Some f" "sel pid (pages s ! f)" using k that table_entry [OF w(1), of pid f] by auto
  show "pages s' ! f = pages s ! f"
    if "frame_of s pid = Some f" "\<not> sel pid (pages s ! f)" using k that table_entry [OF w(1), of pid f] by auto
qed

lemma unpin_ok:
  assumes "bp_ok s" and "unpin_page pid dirty s = (b, s')"
    and "\<And>f. frame_of s pid = Some f \<Longrightarrow> dirty \<or> p_dirty (pages s ! f) \<or> page_at s pid = Some (p_data (pages s ! f))"
  shows "bp_ok s' \<and> content s \<subseteq>\<^sub>m content s'"
proof (cases "\<exists>f. frame_of s pid = Some f \<and> p_pin (pages s ! f) \<noteq> 0")
  case True
  then obtain f where f: "frame_of s pid = Some f" "p_pin (pages s ! f) \<noteq> 0" by blast
  from unpin_keeps [OF _ _ f assms(3) [OF f(1)]] assms(1,2) show ?thesis by (simp add: bp_ok_def)
next
  case False
  then have "s' = s" using assms(2) by (auto simp: unpin_page_def split: option.splits)
  then show ?thesis using assms(1) by simp
qed

lemma no_frame_ok:
  assumes "bp_ok s" and "fetch_page pid s = (Inr None, s') \<or> new_page fd s = (Inr None, s')"
  shows "s' = s"
  using assms find_victim_None [of s s']
  by (auto simp: bp_ok_def fetch_page_def new_page_def bindc_eq_Inr split: option.splits prod.splits)

lemma env_ok:
  assumes "bp_ok s" and "disk_wf d" and "\<And>q x. page_at s q = Some x \<Longrightarrow> disk_page d (pid_fd q) (pid_page_no q) = Some x"
  shows "bp_ok (s\<lparr>bp_disk := d\<rparr>) \<and> content s \<subseteq>\<^sub>m content (s\<lparr>bp_disk := d\<rparr>)"
  using assms by (auto simp: bp_ok_def bp_wf_def coherent_def content_def intro!: map_leI split: option.splits)

lemma map_le_upd_same: "m' p = Some b \<Longrightarrow> (\<And>q x. q \<noteq> p \<Longrightarrow> m q = Some x \<Longrightarrow> m' q = Some x) \<Longrightarrow> m(p \<mapsto> b) \<subseteq>\<^sub>m m'"
  by (auto simp: map_le_def)

section \<open>Identifiers left in free frames\<close>

text \<open>
  What the discipline buys: the free frames carry identifiers of deleted pages (or the initial
  one), and the mapped pages are pages the client has used.
\<close>

definition tracked :: "bp_label list \<Rightarrow> bpm \<Rightarrow> bool" where
  "tracked ls s \<longleftrightarrow>
     (\<forall>f \<in> set (free_list s). p_id (pages s ! f) \<in> deleted ls \<or> pid_page_no (p_id (pages s ! f)) = INVALID_PAGE_ID) \<and>
     (\<forall>pid f. frame_of s pid = Some f \<longrightarrow> pid \<in> used ls)"

lemma tracked_no_stale:
  "tracked ls s \<Longrightarrow> pid \<notin> deleted ls \<Longrightarrow> pid_page_no pid \<noteq> INVALID_PAGE_ID \<Longrightarrow> no_stale s pid"
  unfolding tracked_def no_stale_def by (metis list.sel(2) list.set_sel(2))

lemma initial_tracked: "tracked [] (BufferPoolManager fd0 n d)"
  by (auto simp: tracked_def BufferPoolManager_def new_Page_def)

lemma same_ids: "p_id x = p_id (ps ! f) \<Longrightarrow> map p_id (ps[f := x]) = map p_id ps"
  by (cases "f < length ps") (simp_all add: map_update list_update_same_conv list_update_beyond)

text \<open>An operation that keeps the identifiers of the frames.\<close>

definition same_frames :: "bpm \<Rightarrow> bpm \<Rightarrow> bool" where
  "same_frames s s' \<longleftrightarrow> map p_id (pages s') = map p_id (pages s) \<and> pool_size s' = pool_size s"

lemma same_frames_refl [simp]: "same_frames s s"
  by (simp add: same_frames_def)

lemma same_frames_id:
  assumes "same_frames s s'" and "bp_wf s" "bp_wf s'" and "f < pool_size s'"
  shows "p_id (pages s' ! f) = p_id (pages s ! f)"
proof -
  have f: "f < length (pages s')" "f < length (pages s)"
    using assms bp_wf_basic(1) [OF assms(2)] bp_wf_basic(1) [OF assms(3)] by (simp_all add: same_frames_def)
  have "map p_id (pages s') ! f = map p_id (pages s) ! f" using assms(1) by (simp add: same_frames_def)
  with f show ?thesis by simp
qed

lemma delete_frame_ids:
  assumes "delete_frame pid f s = (Inr (), s')"
  shows "same_frames s s'"
proof (cases "p_dirty (pages s ! f)")
  case True
  with assms show ?thesis
    by (auto simp: delete_frame_def update_page_def bindc_eq_Inr on_disk_run same_frames_def same_ids Let_def split: prod.splits)
next
  case False
  with assms show ?thesis
    by (auto simp: delete_frame_def update_page_def bindc_eq_Inr same_frames_def Let_def)
qed

lemma delete_frames_ids: "delete_frames fs s = (Inr (), s') \<Longrightarrow> same_frames s s'"
proof (induction fs arbitrary: s)
  case (Cons f fs)
  then obtain s1 where "delete_frame (p_id (pages s ! f)) f s = (Inr (), s1)" "delete_frames fs s1 = (Inr (), s')"
    by (auto simp: bindc_eq_Inr)
  with Cons.IH [of s1] delete_frame_ids [of _ f s s1] show ?case by (simp add: same_frames_def)
qed simp

lemma flush_entries_ids:
  "flush_entries sel es s = (Inr (), s') \<Longrightarrow> same_frames s s' \<and> free_list s' = free_list s \<and> page_table s' = page_table s"
proof (induction sel es arbitrary: s rule: flush_entries.induct)
  case (2 sel pid f es)
  have "same_frames s s1 \<and> free_list s1 = free_list s \<and> page_table s1 = page_table s"
    if "write_back pid f s = (Inr (), s1)" for s1
    using that by (auto simp: write_back_def bindc_eq_Inr on_disk_run same_frames_def same_ids split: prod.splits)
  note wb = this
  show ?case
  proof (cases "sel pid (pages s ! f)")
    case True
    then obtain s1 where s1: "write_back pid f s = (Inr (), s1)" "flush_entries sel es s1 = (Inr (), s')"
      using "2.prems" by (auto simp: bindc_eq_Inr)
    from wb [OF s1(1)] "2.IH"(1) [OF True s1(2)] show ?thesis by (simp add: same_frames_def)
  qed (use 2 in simp)
qed simp

text \<open>Operations that free no frame and map no page.\<close>

lemma tracked_quiet:
  assumes t: "tracked ls s" and w: "bp_wf s" "bp_wf s'"
    and k: "same_frames s s'" "set (free_list s') \<subseteq> set (free_list s)" "\<And>q g. frame_of s' q = Some g \<Longrightarrow> q \<in> used ls \<union> used [l]"
  shows "tracked (ls @ [l]) s'"
proof -
  have "p_id (pages s' ! f) = p_id (pages s ! f)" if "f \<in> set (free_list s')" for f
    by (rule same_frames_id [OF k(1) w bp_wf_free(1) [OF w(2) that]])
  with t k(2) k(3) show ?thesis unfolding tracked_def deleted_used_snoc by (metis Un_iff subsetD)
qed

text \<open>Operations that free frames: what they free is what they took out of the pool.\<close>

lemma tracked_delete:
  assumes t: "tracked ls s" and w: "bp_wf s" "bp_wf s'" and k: "same_frames s s'"
    and m: "\<And>q g. frame_of s' q = Some g \<Longrightarrow> frame_of s q = Some g"
  shows "tracked (ls @ [Deleted (dropped s s')]) s'"
proof -
  have "p_id (pages s' ! f) \<in> deleted ls \<union> dropped s s' \<or> pid_page_no (p_id (pages s' ! f)) = INVALID_PAGE_ID"
    if f: "f \<in> set (free_list s')" for f
  proof -
    note b = bp_wf_free [OF w(2) f]
    have id: "p_id (pages s' ! f) = p_id (pages s ! f)" by (rule same_frames_id [OF k w b(1)])
    have "f < pool_size s" using b(1) k by (simp add: same_frames_def)
    from bp_wf_frame(3) [OF w(1) this] show ?thesis
    proof
      assume "frame_of s (p_id (pages s ! f)) = Some f"
      then have "(p_id (pages s ! f), f) \<in> set (page_table s)" by (simp add: table_entry [OF w(1)])
      then have "p_id (pages s ! f) \<in> fst ` set (page_table s)" by force
      then have "p_id (pages s ! f) \<in> dropped s s'" using b(4) id by (simp add: dropped_def)
      then show ?thesis using id by simp
    qed (use t id in \<open>auto simp: tracked_def\<close>)
  qed
  moreover have "deleted [Deleted (dropped s s')] = dropped s s'" by (simp add: deleted_def)
  ultimately show ?thesis using t m unfolding tracked_def deleted_used_snoc by (metis Un_iff)
qed

lemma tracked_install:
  assumes t: "tracked ls s" and v: "victim_of s f fl r" and n: "frame_of s pid = None" and l: "used [l] = {pid}"
  shows "tracked (ls @ [l]) (install f pid buf d fl r s)"
proof -
  have "set fl = set (free_list s) - {f}" using v unfolding victim_of_def by blast
  with t l show ?thesis by (auto simp: tracked_def install_frame_of [OF n] deleted_used_snoc split: if_splits)
qed

lemma new_page_id: "new_page fd s = (Inr (Some (f, pid)), s') \<Longrightarrow> pid = PageId fd (fd2pageno (bp_disk s) fd)"
  by (auto simp: new_page_def find_victim_page_def allocate_page_def on_disk_run bindc_eq_Inr
      split: prod.splits option.splits list.splits if_splits)

lemma fetch_step:
  assumes k: "bp_ok s" "tracked ls s" "allowed ls (Fetched pid)" and ft: "fetch_page pid s = (Inr (Some f), s')"
  shows "bp_ok s'" "content s \<subseteq>\<^sub>m content s'" "tracked (ls @ [Fetched pid]) s'" "frame_of s' pid = Some f" "0 < p_pin (pages s' ! f)"
proof -
  have w: "bp_wf s" "coherent s" "no_stale s pid"
    using k tracked_no_stale [OF k(2), of pid] by (auto simp: bp_ok_def allowed_def)
  note f = fetch_keeps [OF w ft]
  show "bp_ok s'" "content s \<subseteq>\<^sub>m content s'" "frame_of s' pid = Some f" "0 < p_pin (pages s' ! f)"
    using f by (auto simp: bp_ok_def intro!: map_leI)
  show "tracked (ls @ [Fetched pid]) s'"
  proof (cases "frame_of s pid")
    case (Some g)
    then have "s' = pin_frame f s" using ft by (auto simp: fetch_page_hit)
    then have "same_frames s s'" "free_list s' = free_list s" "page_table s' = page_table s"
      by (auto simp: pin_frame_def same_frames_def same_ids)
    with k(2) show ?thesis by (intro tracked_quiet [OF k(2) w(1) f(1)]) (auto simp: tracked_def)
  next
    case None
    have u: "used [Fetched pid] = {pid}" by (simp add: used_def)
    from w(1) None ft obtain fl r d buf where "victim_of s f fl r" "s' = install f pid buf d fl r s" by (rule fetch_page_miss)
    with tracked_install [OF k(2) _ None u] show ?thesis by simp
  qed
qed

lemma new_step:
  assumes k: "bp_ok s" "tracked ls s" "allowed ls (Created pid)" and np: "new_page fd s = (Inr (Some (f, pid)), s')"
  shows "bp_ok s'" "(content s)(pid \<mapsto> replicate PAGE_SIZE 0) \<subseteq>\<^sub>m content s'" "tracked (ls @ [Created pid]) s'"
proof -
  note pid = new_page_id [OF np]
  have w: "bp_wf s" "coherent s" "frame_of s pid = None" "no_stale s pid"
    using k tracked_no_stale [OF k(2), of pid] by (auto simp: bp_ok_def allowed_def tracked_def)
  note n = new_page_keeps [OF w(1,2) np w(3,4) [unfolded pid]]
  show "(content s)(pid \<mapsto> replicate PAGE_SIZE 0) \<subseteq>\<^sub>m content s'" by (rule map_le_upd_same) (rule n(5,6); assumption)+
  show "bp_ok s'" using n(1,2) by (simp add: bp_ok_def)
  have u: "used [Created pid] = {pid}" by (simp add: used_def)
  from w(1) np w(3) [unfolded pid] obtain fl r d where "victim_of s f fl r" "s' = install f pid (replicate PAGE_SIZE 0) d fl r s"
    by (rule new_page_cases)
  with tracked_install [OF k(2) _ w(3) u] show "tracked (ls @ [Created pid]) s'" by simp
qed

text \<open>An operation that changes neither the identifiers nor the page table.\<close>

lemma quiet_step:
  assumes "bp_ok s" "tracked ls s" and "bp_ok s' \<and> content s \<subseteq>\<^sub>m content s'"
    and "same_frames s s'" "free_list s' = free_list s" "page_table s' = page_table s"
  shows "bp_ok s' \<and> content s \<subseteq>\<^sub>m content s' \<and> tracked (ls @ [l]) s'"
  using assms tracked_quiet [of ls s s' l] by (auto simp: bp_ok_def tracked_def)

lemma delete_page_step:
  assumes k: "bp_ok s" "tracked ls s" and d: "bp_ok s' \<and> content s \<subseteq>\<^sub>m content s'" and "same_frames s s'"
    and "\<And>q g. frame_of s' q = Some g \<Longrightarrow> frame_of s q = Some g"
  shows "bp_ok s' \<and> content s \<subseteq>\<^sub>m content s' \<and> tracked (ls @ [Deleted (dropped s s')]) s'"
  using d tracked_delete [OF k(2) _ _ assms(4,5)] k(1) by (auto simp: bp_ok_def)

lemma delete_page_unmaps:
  assumes "bp_ok s" and "delete_page pid s = (Inr b, s')"
  shows "same_frames s s'" "frame_of s' q = Some g \<Longrightarrow> frame_of s q = Some g"
proof -
  consider "s' = s" | f where "frame_of s pid = Some f" "p_pin (pages s ! f) = 0" "delete_frame pid f s = (Inr (), s')"
    using assms(2) by (auto simp: delete_page_def bindc_eq_Inr split: option.splits if_splits)
  then have "same_frames s s' \<and> (frame_of s' q = Some g \<longrightarrow> frame_of s q = Some g)"
  proof cases
    case 2
    have "bp_wf s" "coherent s" using assms(1) by (simp_all add: bp_ok_def)
    from delete_frame_keeps(3) [OF this 2] delete_frame_ids [OF 2(3)] show ?thesis by (simp split: if_splits)
  qed simp
  then show "same_frames s s'" "frame_of s' q = Some g \<Longrightarrow> frame_of s q = Some g" by simp_all
qed

lemma delete_all_page_unmaps:
  assumes "bp_ok s" and "delete_all_page fd s = (Inr b, s')"
  shows "same_frames s s'" "frame_of s' q = Some g \<Longrightarrow> frame_of s q = Some g"
proof -
  have w: "bp_wf s" "coherent s" using assms(1) by (simp_all add: bp_ok_def)
  consider "s' = s" | fs where "b" "delete_frames fs s = (Inr (), s')"
    using assms(2) by (auto simp: delete_all_page_def bindc_eq_Inr split: option.splits)
  then have "same_frames s s' \<and> (frame_of s' q = Some g \<longrightarrow> frame_of s q = Some g)"
  proof cases
    case 2
    from delete_all_page_keeps(4) [OF w, of fd s' q] assms(2) 2(1) delete_frames_ids [OF 2(2)] show ?thesis
      by (simp split: if_splits)
  qed simp
  then show "same_frames s s'" "frame_of s' q = Some g \<Longrightarrow> frame_of s q = Some g" by simp_all
qed

lemma step_ok:
  "bp_step s l s' \<Longrightarrow> bp_ok s \<Longrightarrow> tracked ls s \<Longrightarrow> allowed ls l \<Longrightarrow>
   bp_ok s' \<and> apply_label l (content s) \<subseteq>\<^sub>m content s' \<and> tracked (ls @ [l]) s'"
proof (induction rule: bp_step.induct)
  case (fetch pid s f s')
  from fetch_step(1-3) [OF fetch.prems fetch.hyps] show ?case by simp
next
  case (new fd s f pid s')
  from new_step [OF new.prems new.hyps] show ?case unfolding apply_label.simps by blast
next
  case (store s pid f bs)
  then have "bp_wf s" "coherent s" by (simp_all add: bp_ok_def)
  note k = store_keeps [OF this store.hyps]
  have "same_frames s (store_page f bs s)" by (simp add: store_page_def same_frames_def same_ids)
  with tracked_quiet [OF store.prems(2) _ k(1)] store.prems k show ?case by (auto simp: bp_ok_def tracked_def store_page_def)
next
  case (fetch_full pid s s')
  from no_frame_ok [of s pid s'] fetch_full quiet_step [OF fetch_full.prems(1,2)] show ?case by simp
next
  case (new_full fd s s')
  from no_frame_ok [of s _ s' fd] new_full quiet_step [OF new_full.prems(1,2)] show ?case by simp
next
  case (unpin s pid dirty b s')
  have "same_frames s s' \<and> free_list s' = free_list s \<and> page_table s' = page_table s"
    using unpin.hyps(2) by (auto simp: unpin_page_def Let_def same_frames_def same_ids nth_upd split: option.splits if_splits)
  with quiet_step [OF unpin.prems(1,2) unpin_ok [OF unpin.prems(1) unpin.hyps(2,1)]] show ?case by simp
next
  case (delete pid s b s')
  from delete_page_step [OF delete.prems(1,2) delete_page_ok [OF delete.prems(1) delete.hyps]]
    delete_page_unmaps [OF delete.prems(1) delete.hyps] show ?case by simp
next
  case (delete_all fd s b s')
  from delete_page_step [OF delete_all.prems(1,2) delete_all_page_ok [OF delete_all.prems(1) delete_all.hyps]]
    delete_all_page_unmaps [OF delete_all.prems(1) delete_all.hyps] show ?case by simp
next
  case (flush pid s b s')
  have "same_frames s s' \<and> free_list s' = free_list s \<and> page_table s' = page_table s"
    using flush.hyps by (auto simp: flush_page_def write_back_def bindc_eq_Inr on_disk_run same_frames_def same_ids
        split: prod.splits option.splits)
  with quiet_step [OF flush.prems(1,2) flush_page_ok [OF flush.prems(1) flush.hyps]] show ?case by simp
next
  case (flush_file fd s s')
  note h = flush_file.hyps [unfolded flush_all_pages_def]
  show ?case using flush_table(1,2) [OF flush_file.prems(1) h] flush_entries_ids [OF h] quiet_step [OF flush_file.prems(1,2)] by simp
next
  case (flush_all s s')
  note h = flush_all.hyps [unfolded flush_all_page_def]
  show ?case using flush_table(1,2) [OF flush_all.prems(1) h] flush_entries_ids [OF h] quiet_step [OF flush_all.prems(1,2)] by simp
next
  case (env d s)
  show ?case using quiet_step [OF env.prems(1,2) env_ok [OF env.prems(1) env.hyps]] by (simp add: same_frames_def)
qed

lemma run_ok:
  "bp_run s ls t \<Longrightarrow> bp_ok s \<Longrightarrow> tracked [] s \<Longrightarrow> disciplined ls \<Longrightarrow>
   bp_ok t \<and> memory ls (content s) \<subseteq>\<^sub>m content t \<and> tracked ls t"
proof (induction rule: bp_run.induct)
  case (step s ls t l u)
  have d: "disciplined ls" "allowed ls l" using step.prems(3) by (simp_all add: disciplined_snoc)
  have "m \<subseteq>\<^sub>m m' \<Longrightarrow> apply_label l m \<subseteq>\<^sub>m apply_label l m'" for m m' by (cases l) (auto simp: map_le_def)
  with step.IH [OF step.prems(1,2) d(1)] step_ok [OF step.hyps(2) _ _ d(2)] show ?case
    by (auto simp: memory_def intro: map_le_trans)
qed (simp add: memory_def)

lemmas run_from_start = run_ok [OF _ initial_ok initial_tracked]

section \<open>Pinned pages\<close>






section \<open>Properties\<close>

text \<open>A disk with one file of zero bytes open as descriptor 0, for concrete runs.\<close>

definition zero_disk :: "nat \<Rightarrow> disk" where
  "zero_disk k =
     \<lparr>dm_os = \<lparr>os_files = [''t'' \<mapsto> replicate (k * PAGE_SIZE) 0], os_fds = [(0, ''t'')], os_other = [],
               os_denied = (\<lambda>_. False), os_limit = 1000000\<rparr>,
      path2fd = [(''t'', 0)], fd2path = [(0, ''t'')], log_fd = - 1, fd2pageno = (\<lambda>_. int k)\<rparr>"

lemma zero_disk_wf: "disk_wf (zero_disk k)"
  by (simp add: disk_wf_def zero_disk_def)

lemma zero_disk_page:
  "0 \<le> p \<Longrightarrow> p < int k \<Longrightarrow> p < 1000 \<Longrightarrow> disk_page (zero_disk k) 0 p = Some (replicate PAGE_SIZE 0)"
proof -
  assume p: "0 \<le> p" "p < int k" "p < 1000"
  then have "Suc (nat p) * PAGE_SIZE \<le> k * PAGE_SIZE" by (intro mult_le_mono1) simp
  moreover have "in_range 4 (p * int PAGE_SIZE)" using p by (intro in_range_small(1)) (simp_all add: PAGE_SIZE_def)
  ultimately show ?thesis using p
    by (auto simp: disk_page_def zero_disk_def os_file_def read_at_def min_def PAGE_SIZE_def)
qed

lemma zero_disk_read:
  "0 \<le> p \<Longrightarrow> p < int k \<Longrightarrow> p < 1000 \<Longrightarrow> length buf = PAGE_SIZE \<Longrightarrow>
   read_page 0 p buf PAGE_SIZE (zero_disk k) = (Inr (), replicate PAGE_SIZE 0)"
  by (simp add: read_page_disk_page zero_disk_page)

abbreviation pool_over :: "nat \<Rightarrow> nat \<Rightarrow> bpm" where
  "pool_over n k \<equiv> BufferPoolManager 0 n (zero_disk k)"

lemmas pool_run = fetch_page_def find_victim_page_def update_page_def read_into_def pin_frame_def upd_page_def
  unpin_page_def delete_page_def delete_frame_def BufferPoolManager_def new_Page_def LRUReplacer_def
  pin_def unpin_def emplace_def herase_def zero_disk_read list_erase_def bindc_def

text \<open>
  A client that fetches a page, lets go of it, deletes it and fetches it again.
\<close>

definition refetched :: "bpm \<Rightarrow> bpm" where
  "refetched s =
     (let pid = PageId 0 0; s = snd (fetch_page pid s); s = snd (unpin_page pid False s); s = snd (delete_page pid s)
      in snd (fetch_page pid s))"

lemma refetched_pool:
  "refetched (pool_over 2 2) =
     \<lparr>pool_size = 2,
      pages = [\<lparr>p_id = PageId 0 0, p_data = replicate PAGE_SIZE 0, p_dirty = False, p_pin = 0\<rparr>,
               \<lparr>p_id = PageId 0 0, p_data = replicate PAGE_SIZE 0, p_dirty = False, p_pin = 1\<rparr>],
      page_table = [(PageId 0 0, 1)], free_list = [0],
      bp_replacer = unpin 0 (LRUReplacer 2), bp_disk = zero_disk 2\<rparr>"
  by (simp add: refetched_def pool_run numeral_2_eq_2 Let_def)

text \<open>A client that fetches page 0, and one that then fills it with ones.\<close>

definition fetched :: bpm where "fetched = snd (fetch_page (PageId 0 0) (pool_over 1 1))"
definition stored :: bpm where "stored = store_page 0 (replicate PAGE_SIZE 1) fetched"

lemma fetched_pool:
  "fetched = \<lparr>pool_size = 1, pages = [\<lparr>p_id = PageId 0 0, p_data = replicate PAGE_SIZE 0, p_dirty = False, p_pin = 1\<rparr>],
      page_table = [(PageId 0 0, 0)], free_list = [], bp_replacer = LRUReplacer 1, bp_disk = zero_disk 1\<rparr>"
  "fetch_page (PageId 0 0) (pool_over 1 1) = (Inr (Some 0), fetched)"
  by (simp_all add: fetched_def pool_run)

lemma stored_pool:
  "stored = \<lparr>pool_size = 1, pages = [\<lparr>p_id = PageId 0 0, p_data = replicate PAGE_SIZE 1, p_dirty = False, p_pin = 1\<rparr>],
      page_table = [(PageId 0 0, 0)], free_list = [], bp_replacer = LRUReplacer 1, bp_disk = zero_disk 1\<rparr>"
  by (simp add: stored_def fetched_pool store_page_def upd_page_def)

abbreviation stored_labels :: "bp_label list" where
  "stored_labels \<equiv> [Fetched (PageId 0 0), Stored (PageId 0 0) (replicate PAGE_SIZE 1)]"

lemma stored_run: "bp_run (pool_over 1 1) stored_labels stored"
proof -
  have "bp_run (pool_over 1 1) ([] @ [Fetched (PageId 0 0)]) fetched"
    by (rule bp_run.step [OF bp_run.start bp_step.fetch]) (rule fetched_pool(2))
  moreover have "bp_step fetched (Stored (PageId 0 0) (replicate PAGE_SIZE 1)) stored"
    unfolding stored_def by (rule bp_step.store) (simp_all add: fetched_pool)
  ultimately show ?thesis by (auto dest: bp_run.step)
qed

lemma stored_disciplined:
  "disciplined stored_labels" "disciplined (stored_labels @ [Fetched (PageId 0 0)])"
  by (simp_all add: disciplined_def less_Suc_eq all_conj_distrib allowed_def deleted_def INVALID_PAGE_ID_def)

lemma zero_disk_write:
  "length bs = PAGE_SIZE \<Longrightarrow> \<exists>d. write_page 0 0 bs (zero_disk k) = (Inr (), d)"
  by (simp add: write_page_def zero_disk_def os_lseek_def os_file_def os_write_def in_range_def Let_def PAGE_SIZE_def)

text \<open>
  Property C1. The pool is a memory for a disciplined client. Take any run from the construction
  of the pool in which every call returns, changed pages are unpinned dirty, only pinned pages
  are written to, no page is fetched again after it was deleted from the pool, and \<open>new_page\<close>
  hands out numbers not used before. Then the bytes \<open>fetch_page\<close> presents for a page are the
  bytes last stored in it (or, if none were, the bytes the disk held at the start), however often
  it was evicted, flushed and read back in between; the page is mapped to the frame returned
  and pinned.
\<close>

theorem pool_is_memory:
  assumes "disk_wf d" and "bp_run (BufferPoolManager fd0 n d) ls s" and "disciplined (ls @ [Fetched pid])"
    and "memory ls (content (BufferPoolManager fd0 n d)) pid = Some bs"
    and "fetch_page pid s = (Inr (Some f), s')"
  shows "p_data (pages s' ! f) = bs \<and> frame_of s' pid = Some f \<and> 0 < p_pin (pages s' ! f)"
proof -
  have d: "disciplined ls" "allowed ls (Fetched pid)" using assms(3) by (simp_all add: disciplined_snoc)
  have r: "bp_ok s" "tracked ls s" "content s pid = Some bs"
    using run_from_start [OF assms(2,1) d(1)] assms(4) by (auto dest: map_leD)
  note k = fetch_step [OF r(1,2) d(2) assms(5)]
  from map_leD [OF k(2) r(3)] k(4,5) show ?thesis by (simp add: content_def)
qed

theorem pool_is_memory_witness:
  "p_data (pages (snd (fetch_page (PageId 0 0) stored)) ! 0) = replicate PAGE_SIZE 1"
  using pool_is_memory [OF zero_disk_wf stored_run stored_disciplined(2),
      of "replicate PAGE_SIZE 1" 0 "snd (fetch_page (PageId 0 0) stored)"]
  by (simp add: memory_def stored_pool fetch_page_hit)



text \<open>
  Property C2. Flushing a file makes it durable: when \<open>flush_all_pages\<close> returns after a
  disciplined run of returning calls, every page of the file has on disk the bytes last stored
  in it.
\<close>

theorem flush_all_pages_durable:
  assumes "disk_wf d" and "bp_run (BufferPoolManager fd0 n d) ls s" and "disciplined ls"
    and "memory ls (content (BufferPoolManager fd0 n d)) pid = Some bs"
    and "flush_all_pages (pid_fd pid) s = (Inr (), s')"
  shows "page_at s' pid = Some bs"
proof -
  have r: "bp_ok s" "content s pid = Some bs"
    using run_from_start [OF assms(2,1,3)] assms(4) by (auto dest: map_leD)
  note k = flush_table [OF r(1) assms(5) [unfolded flush_all_pages_def]]
  show ?thesis
  proof (cases "frame_of s pid")
    case None
    with k(3) map_leD [OF k(2) r(2)] show ?thesis by (simp add: content_def)
  next
    case (Some f)
    with k(5) [OF Some] r(2) show ?thesis by (simp add: content_def)
  qed
qed

theorem flush_all_pages_durable_witness:
  "page_at (snd (flush_all_pages 0 stored)) (PageId 0 0) = Some (replicate PAGE_SIZE 1)"
proof (rule flush_all_pages_durable [OF zero_disk_wf stored_run stored_disciplined(1)])
  show "memory stored_labels (content (pool_over 1 1)) (PageId 0 0) = Some (replicate PAGE_SIZE 1)"
    by (simp add: memory_def)
  show "flush_all_pages (pid_fd (PageId 0 0)) stored = (Inr (), snd (flush_all_pages 0 stored))"
    using zero_disk_write [of "replicate PAGE_SIZE 1" 1]
    by (auto simp: stored_pool flush_all_pages_def write_back_def bindc_def on_disk_run)
qed



text \<open>
  Property C5. \<open>fetch_page\<close> returns \<open>nullptr\<close> for a page that is not in the pool exactly
  when every frame of the pool is pinned, and then it has changed nothing.
\<close>

theorem fetch_full_iff_all_pinned:
  assumes w: "bp_wf s" and m: "frame_of s pid = None"
  shows "fetch_page pid s = (Inr None, s) \<longleftrightarrow> (\<forall>f < pool_size s. p_pin (pages s ! f) \<noteq> 0)"
proof
  assume "fetch_page pid s = (Inr None, s)"
  with m obtain s1 where "find_victim_page s = (None, s1)"
    by (auto simp: fetch_page_def bindc_eq_Inr split: prod.splits option.splits)
  with find_victim_None [OF w] have n: "free_list s = []" "evictable s = {}" by auto
  then show "\<forall>f < pool_size s. p_pin (pages s ! f) \<noteq> 0"
    using bp_wf_frame(3) [OF w] bp_wf_mapped(4) [OF w] by fastforce
next
  assume p: "\<forall>f < pool_size s. p_pin (pages s ! f) \<noteq> 0"
  have fl: "free_list s = []" using bp_wf_free(1,2) [OF w] p by (metis list.set_sel(1))
  have "f \<notin> evictable s" for f
    using bp_wf_evictable [OF w, of f] bp_wf_mapped(1,4) [OF w, of "p_id (pages s ! f)" f] p fl by auto
  then have "lru_queue (bp_replacer s) = []" by (metis list.set_sel(1))
  from lru.vict_empty [OF bp_wf_basic(3) [OF w] this] fl m show "fetch_page pid s = (Inr None, s)"
    by (simp add: fetch_page_def find_victim_page_def)
qed

theorem fetch_full_iff_all_pinned_witness: "fetch_page (PageId 0 5) stored = (Inr None, stored)"
proof -
  have "bp_wf stored" using run_from_start [OF stored_run zero_disk_wf stored_disciplined(1)] by (simp add: bp_ok_def)
  from fetch_full_iff_all_pinned [OF this, of "PageId 0 5"] show ?thesis by (simp add: stored_pool)
qed

text \<open>
  Property C6. The identifier a deleted page leaves in its free frame can unmap a page in use.
  Whenever the next free frame still carries the identifier of a page that has been fetched
  again into another frame, bringing in any absent page that can be read makes \<open>update_page\<close>
  erase the entry of the other page: that page is in the page table no more, although its frame
  and pin count are as before, and unpinning it fails. (The witness is a client that fetches
  page 0, unpins, deletes and fetches it again, and then fetches page 1.)
\<close>

theorem stale_id_unmaps_pinned_page:
  assumes "free_list s = f # fs" and "f < length (pages s)" and "\<not> p_dirty (pages s ! f)" and "p_id (pages s ! f) = q"
    and "frame_of s q = Some g" and "g \<noteq> f" and "frame_of s pid = None" and "pid \<noteq> q"
    and "length (p_data (pages s ! f)) = PAGE_SIZE" and "page_at s pid = Some bs"
  shows "fst (fetch_page pid s) = Inr (Some f) \<and> frame_of (snd (fetch_page pid s)) q = None \<and>
     pages (snd (fetch_page pid s)) ! g = pages s ! g \<and>
     unpin_page q dirty (snd (fetch_page pid s)) = (False, snd (fetch_page pid s))"
proof -
  let ?p = "\<lparr>p_id = pid, p_data = bs, p_dirty = False, p_pin = p_pin (pages s ! f) + 1\<rparr>"
  have "fetch_page pid s = (Inr (Some f), s\<lparr>free_list := fs, pages := (pages s)[f := ?p],
      page_table := emplace pid f (herase q (page_table s)), bp_replacer := pin f (bp_replacer s)\<rparr>)"
    using assms iffD2 [OF read_page_disk_page [OF assms(9)] assms(10)]
    by (cases "pages s ! f")
      (simp add: fetch_page_def find_victim_page_def update_page_def read_into_def pin_frame_def upd_page_def bindc_def)
  with assms(5-8) show ?thesis by (simp add: unpin_page_def split: option.splits)
qed

theorem stale_id_unmaps_pinned_page_witness:
  "let s = refetched (pool_over 2 2); s' = snd (fetch_page (PageId 0 1) s) in
     frame_of s (PageId 0 0) = Some 1 \<and> p_pin (pages s ! 1) = 1 \<and>
     frame_of s' (PageId 0 0) = None \<and> unpin_page (PageId 0 0) True s' = (False, s')"
  using stale_id_unmaps_pinned_page [of "refetched (pool_over 2 2)" 0 "[]" "PageId 0 0" 1 "PageId 0 1" "replicate PAGE_SIZE 0" True]
  unfolding refetched_pool Let_def by (simp add: zero_disk_page)

text \<open>
  A fetch that fails is not undone. Fetching a page past the end of its file
  throws, but the page is mapped by then, so fetching it again succeeds and hands out a frame
  whose bytes were never read from disk.
\<close>

theorem failed_fetch_leaves_mapping:
  "let s = pool_over 1 1; s' = snd (fetch_page (PageId 0 7) s) in
     fst (fetch_page (PageId 0 7) s) = Inl (InternalError ''DiskManager::read_page Error'') \<and>
     page_at s' (PageId 0 7) = None \<and> fst (fetch_page (PageId 0 7) s') = Inr (Some 0)"
  by (simp add: Let_def pool_run read_page_def in_range_def PAGE_SIZE_def zero_disk_def os_lseek_def os_file_def
     os_read_def read_at_def disk_page_def)

end
