(* ===== verification/Transaction.thy ===== *)
theory Transaction
  imports Common
begin

text \<open>
  The data of a transaction: \<open>src/src/transaction/txn_defs.h\<close> and \<open>transaction.h\<close>. A record
  value (\<open>RmRecord\<close>) is its byte list; the write set is the list of its entries in the order
  they were appended, the lock set is kept without repetition in some order, which stands for
  the unspecified order of the hash set. The thread identifier and the unused page sets are
  left out.
\<close>

datatype TransactionState = DEFAULT | GROWING | SHRINKING | COMMITTED | ABORTED

datatype WType = INSERT_TUPLE | DELETE_TUPLE | UPDATE_TUPLE

record WriteRecord =
  wr_type :: WType
  wr_tab_name :: string
  wr_rid :: rid
  wr_record :: "byte list"

datatype LockDataType = TABLE | RECORD

datatype LockDataId = LockDataId (ld_fd: int) (ld_rid: rid) (ld_type: LockDataType)

definition table_lock_id :: "int \<Rightarrow> LockDataId" where
  "table_lock_id fd = LockDataId fd (Rid (- 1) (- 1)) TABLE"

definition record_lock_id :: "int \<Rightarrow> rid \<Rightarrow> LockDataId" where
  "record_lock_id fd r = LockDataId fd r RECORD"

record txn =
  txn_id :: int
  txn_state :: TransactionState
  txn_mode :: bool
  prev_lsn :: int
  write_set :: "WriteRecord list"
  lock_set :: "LockDataId list"

definition new_Transaction :: "int \<Rightarrow> txn" where
  "new_Transaction tid =
     \<lparr>txn_id = tid, txn_state = DEFAULT, txn_mode = False, prev_lsn = INVALID_LSN, write_set = [], lock_set = []\<rparr>"

definition append_write_record :: "WriteRecord \<Rightarrow> txn \<Rightarrow> txn" where
  "append_write_record w t = t\<lparr>write_set := write_set t @ [w]\<rparr>"

definition lock_set_emplace :: "LockDataId \<Rightarrow> txn \<Rightarrow> txn" where
  "lock_set_emplace l t = t\<lparr>lock_set := List.insert l (lock_set t)\<rparr>"

lemma lock_ids_distinct [simp]: "table_lock_id fd \<noteq> record_lock_id fd' r" "record_lock_id fd' r \<noteq> table_lock_id fd"
  by (simp_all add: table_lock_id_def record_lock_id_def)

end
