(* ===== verification/Lock_Manager.thy ===== *)
theory Lock_Manager
  imports Transaction
begin

text \<open>
  The lock manager, \<open>src/src/transaction/concurrency/lock_manager.{h,cpp}\<close>: multi-granularity
  locks under two-phase locking with the no-wait policy (a request that cannot be granted at
  once aborts its transaction). Each operation holds the manager's latch throughout, so it is
  one atomic step on the lock table and the calling transaction. The theory gives the six
  lock requests and \<open>unlock\<close>, the invariant of the lock table, when exactly a request is
  granted, and what two-phase locking adds across the transactions of a system.
\<close>

section \<open>State\<close>

datatype LockMode = SHARED | EXCLUSIVE | INTENTION_SHARED | INTENTION_EXCLUSIVE | S_IX

datatype GroupLockMode = NON_LOCK | IS_GROUP | IX_GROUP | S_GROUP | X_GROUP | SIX_GROUP

record LockRequest =
  lr_txn_id :: int
  lr_mode :: LockMode
  lr_granted :: bool

record LockRequestQueue =
  request_queue :: "LockRequest list"
  group_lock_mode :: GroupLockMode

type_synonym lock_table = "(LockDataId, LockRequestQueue) hmap"

text \<open>The state an operation works on: the calling transaction and the lock table.\<close>

type_synonym lock_state = "txn \<times> lock_table"

definition empty_queue :: LockRequestQueue where
  "empty_queue = \<lparr>request_queue = [], group_lock_mode = NON_LOCK\<rparr>"

definition queue_at :: "lock_table \<Rightarrow> LockDataId \<Rightarrow> LockRequestQueue" where
  "queue_at tab l = (case hfind tab l of Some q \<Rightarrow> q | None \<Rightarrow> empty_queue)"

section \<open>Operations\<close>

definition check_lock :: "(lock_state, bool) rcmd" where
  "check_lock s = (case s of (t, tab) \<Rightarrow>
     (case txn_state t of
        ABORTED \<Rightarrow> (Inr False, s)
      | COMMITTED \<Rightarrow> (Inr False, s)
      | GROWING \<Rightarrow> (Inr True, s)
      | SHRINKING \<Rightarrow> (Inl (TransactionAbortException (txn_id t) LOCK_ON_SHIRINKING), s)
      | DEFAULT \<Rightarrow> (Inr True, (t\<lparr>txn_state := GROWING\<rparr>, tab))))"

text \<open>\<open>std::find_if\<close> for the caller's request, and changing or erasing the request found.\<close>

definition own_request :: "int \<Rightarrow> LockRequest list \<Rightarrow> LockRequest option" where
  "own_request tid q = find (\<lambda>r. lr_txn_id r = tid) q"

fun set_own_mode :: "int \<Rightarrow> LockMode \<Rightarrow> LockRequest list \<Rightarrow> LockRequest list" where
  "set_own_mode tid m [] = []"
| "set_own_mode tid m (r # q) = (if lr_txn_id r = tid then r\<lparr>lr_mode := m\<rparr> # q else r # set_own_mode tid m q)"

fun erase_own :: "int \<Rightarrow> LockRequest list \<Rightarrow> LockRequest list" where
  "erase_own tid [] = []"
| "erase_own tid (r # q) = (if lr_txn_id r = tid then q else r # erase_own tid q)"

definition mode_count :: "LockMode \<Rightarrow> LockRequest list \<Rightarrow> nat" where
  "mode_count m q = length (filter (\<lambda>r. lr_mode r = m) q)"

text \<open>
  The frame all six requests share: check the transaction's phase, make sure the queue
  exists, look for the caller's own request. What differs is the decision when the caller
  already holds a lock (\<open>held\<close>, on its mode and the queue) and when it does not (\<open>fresh\<close>,
  on the group mode: the new group mode, or \<open>None\<close> to refuse).
\<close>

datatype lock_decision = Keep | Upgrade LockMode GroupLockMode | Refuse

definition grant_in_queue ::
  "LockDataId \<Rightarrow> LockMode \<Rightarrow> (LockMode \<Rightarrow> LockRequestQueue \<Rightarrow> lock_decision) \<Rightarrow>
   (GroupLockMode \<Rightarrow> GroupLockMode option) \<Rightarrow> (lock_state, bool) rcmd" where
  "grant_in_queue l mode held fresh s = (case s of (t, tab0) \<Rightarrow>
     let tid = txn_id t; tab = emplace l empty_queue tab0; q = queue_at tab l;
         refuse = (Inl (TransactionAbortException tid DEADLOCK_PREVENTION), (t, tab))
     in (case own_request tid (request_queue q) of
           Some r \<Rightarrow>
             (case held (lr_mode r) q of
                Keep \<Rightarrow> (Inr True, (t, tab))
              | Upgrade m g \<Rightarrow>
                  (Inr True, (t, hput l \<lparr>request_queue = set_own_mode tid m (request_queue q), group_lock_mode = g\<rparr> tab))
              | Refuse \<Rightarrow> refuse)
         | None \<Rightarrow>
             (case fresh (group_lock_mode q) of
                None \<Rightarrow> refuse
              | Some g \<Rightarrow>
                  (Inr True, (lock_set_emplace l t,
                     hput l \<lparr>request_queue = request_queue q @ [\<lparr>lr_txn_id = tid, lr_mode = mode, lr_granted = True\<rparr>],
                             group_lock_mode = g\<rparr> tab)))))"

definition request_lock ::
  "LockDataId \<Rightarrow> LockMode \<Rightarrow> (LockMode \<Rightarrow> LockRequestQueue \<Rightarrow> lock_decision) \<Rightarrow>
   (GroupLockMode \<Rightarrow> GroupLockMode option) \<Rightarrow> (lock_state, bool) rcmd" where
  "request_lock l mode held fresh =
     bindc check_lock (\<lambda>ok. if \<not> ok then ret False else grant_in_queue l mode held fresh)"

definition lock_shared_on_record :: "rid \<Rightarrow> int \<Rightarrow> (lock_state, bool) rcmd" where
  "lock_shared_on_record r fd = request_lock (record_lock_id fd r) SHARED
     (\<lambda>_ _. Keep)
     (\<lambda>g. if g \<noteq> NON_LOCK \<and> g \<noteq> S_GROUP then None else Some S_GROUP)"

definition lock_exclusive_on_record :: "rid \<Rightarrow> int \<Rightarrow> (lock_state, bool) rcmd" where
  "lock_exclusive_on_record r fd = request_lock (record_lock_id fd r) EXCLUSIVE
     (\<lambda>m q. if m = EXCLUSIVE then Keep
            else if group_lock_mode q = S_GROUP \<and> length (request_queue q) = 1 then Upgrade EXCLUSIVE X_GROUP
            else Refuse)
     (\<lambda>g. if g \<noteq> NON_LOCK then None else Some X_GROUP)"

definition lock_shared_on_table :: "int \<Rightarrow> (lock_state, bool) rcmd" where
  "lock_shared_on_table fd = request_lock (table_lock_id fd) SHARED
     (\<lambda>m q. if m = SHARED \<or> m = S_IX \<or> m = EXCLUSIVE then Keep
            else if m = INTENTION_SHARED then
              (if group_lock_mode q \<noteq> IS_GROUP \<and> group_lock_mode q \<noteq> S_GROUP then Refuse else Upgrade SHARED S_GROUP)
            else if mode_count INTENTION_EXCLUSIVE (request_queue q) \<noteq> 1 then Refuse
            else Upgrade S_IX SIX_GROUP)
     (\<lambda>g. if g \<noteq> NON_LOCK \<and> g \<noteq> S_GROUP \<and> g \<noteq> IS_GROUP then None else Some S_GROUP)"

definition lock_exclusive_on_table :: "int \<Rightarrow> (lock_state, bool) rcmd" where
  "lock_exclusive_on_table fd = request_lock (table_lock_id fd) EXCLUSIVE
     (\<lambda>m q. if m = EXCLUSIVE then Keep
            else if length (request_queue q) \<noteq> 1 then Refuse else Upgrade EXCLUSIVE X_GROUP)
     (\<lambda>g. if g \<noteq> NON_LOCK then None else Some X_GROUP)"

definition lock_IS_on_table :: "int \<Rightarrow> (lock_state, bool) rcmd" where
  "lock_IS_on_table fd = request_lock (table_lock_id fd) INTENTION_SHARED
     (\<lambda>_ _. Keep)
     (\<lambda>g. if g = X_GROUP then None else Some (if g = NON_LOCK then IS_GROUP else g))"

definition lock_IX_on_table :: "int \<Rightarrow> (lock_state, bool) rcmd" where
  "lock_IX_on_table fd = request_lock (table_lock_id fd) INTENTION_EXCLUSIVE
     (\<lambda>m q. if m = INTENTION_EXCLUSIVE \<or> m = S_IX \<or> m = EXCLUSIVE then Keep
            else if m = SHARED then
              (if mode_count SHARED (request_queue q) \<noteq> 1 then Refuse else Upgrade S_IX SIX_GROUP)
            else if group_lock_mode q \<noteq> IS_GROUP \<and> group_lock_mode q \<noteq> IX_GROUP then Refuse
            else Upgrade INTENTION_EXCLUSIVE IX_GROUP)
     (\<lambda>g. if g \<noteq> NON_LOCK \<and> g \<noteq> IS_GROUP \<and> g \<noteq> IX_GROUP then None else Some IX_GROUP)"

definition group_of :: "LockRequest list \<Rightarrow> GroupLockMode" where
  "group_of q =
     (if mode_count EXCLUSIVE q \<noteq> 0 then X_GROUP
      else if mode_count S_IX q \<noteq> 0 then SIX_GROUP
      else if mode_count INTENTION_EXCLUSIVE q \<noteq> 0 then IX_GROUP
      else if mode_count SHARED q \<noteq> 0 then S_GROUP
      else if mode_count INTENTION_SHARED q \<noteq> 0 then IS_GROUP
      else NON_LOCK)"

definition unlock :: "LockDataId \<Rightarrow> (lock_state, bool) rcmd" where
  "unlock l s = (case s of (t0, tab) \<Rightarrow>
     if txn_state t0 = ABORTED \<or> txn_state t0 = COMMITTED then (Inr False, s)
     else let t = (if txn_state t0 = GROWING then t0\<lparr>txn_state := SHRINKING\<rparr> else t0) in
       (case hfind tab l of
          None \<Rightarrow> (Inr True, (t, tab))
        | Some q \<Rightarrow>
            let rq = erase_own (txn_id t) (request_queue q)
            in (Inr True, (t, hput l \<lparr>request_queue = rq, group_lock_mode = group_of rq\<rparr> tab))))"

section \<open>Compatibility and the invariant of the lock table\<close>

text \<open>The compatibility matrix of multi-granularity locking.\<close>

fun compatible :: "LockMode \<Rightarrow> LockMode \<Rightarrow> bool" where
  "compatible EXCLUSIVE _ = False"
| "compatible _ EXCLUSIVE = False"
| "compatible INTENTION_SHARED _ = True"
| "compatible _ INTENTION_SHARED = True"
| "compatible SHARED SHARED = True"
| "compatible INTENTION_EXCLUSIVE INTENTION_EXCLUSIVE = True"
| "compatible _ _ = False"

text \<open>The weakest mode at least as strong as two given ones.\<close>

fun mode_join :: "LockMode \<Rightarrow> LockMode \<Rightarrow> LockMode" where
  "mode_join EXCLUSIVE _ = EXCLUSIVE"
| "mode_join _ EXCLUSIVE = EXCLUSIVE"
| "mode_join INTENTION_SHARED m = m"
| "mode_join m INTENTION_SHARED = m"
| "mode_join SHARED SHARED = SHARED"
| "mode_join INTENTION_EXCLUSIVE INTENTION_EXCLUSIVE = INTENTION_EXCLUSIVE"
| "mode_join _ _ = S_IX"

lemma compatible_sym: "compatible a b = compatible b a"
  by (cases a; cases b) simp_all

definition queue_ok :: "LockRequestQueue \<Rightarrow> bool" where
  "queue_ok q \<longleftrightarrow>
     distinct (map lr_txn_id (request_queue q)) \<and>
     (\<forall>a \<in> set (request_queue q). \<forall>b \<in> set (request_queue q). lr_txn_id a \<noteq> lr_txn_id b \<longrightarrow> compatible (lr_mode a) (lr_mode b)) \<and>
     (\<forall>a \<in> set (request_queue q). lr_granted a) \<and> group_lock_mode q = group_of (request_queue q)"

text \<open>Records are locked in mode S or X only.\<close>

fun allowed_modes :: "LockDataType \<Rightarrow> LockMode set" where
  "allowed_modes RECORD = {SHARED, EXCLUSIVE}"
| "allowed_modes TABLE = UNIV"

abbreviation modes :: "LockRequest list \<Rightarrow> LockMode set" where
  "modes q \<equiv> lr_mode ` set q"

definition table_ok :: "lock_table \<Rightarrow> bool" where
  "table_ok tab \<longleftrightarrow> hwf tab \<and> (\<forall>l. queue_ok (queue_at tab l) \<and> modes (request_queue (queue_at tab l)) \<subseteq> allowed_modes (ld_type l))"

text \<open>The mode in which a transaction holds a lock.\<close>

definition held_mode :: "lock_table \<Rightarrow> LockDataId \<Rightarrow> int \<Rightarrow> LockMode option" where
  "held_mode tab l tid = map_option lr_mode (own_request tid (request_queue (queue_at tab l)))"

section \<open>Queues\<close>

text \<open>The requests of the other transactions, and the modes present in a queue.\<close>

definition others :: "int \<Rightarrow> LockRequest list \<Rightarrow> LockRequest list" where
  "others tid q = filter (\<lambda>r. lr_txn_id r \<noteq> tid) q"

definition group_of_modes :: "LockMode set \<Rightarrow> GroupLockMode" where
  "group_of_modes M =
     (if EXCLUSIVE \<in> M then X_GROUP else if S_IX \<in> M then SIX_GROUP else if INTENTION_EXCLUSIVE \<in> M then IX_GROUP
      else if SHARED \<in> M then S_GROUP else if INTENTION_SHARED \<in> M then IS_GROUP else NON_LOCK)"

lemma mode_count_0: "mode_count m q = 0 \<longleftrightarrow> m \<notin> modes q"
  by (auto simp: mode_count_def filter_empty_conv)

lemma group_of_modes: "group_of q = group_of_modes (modes q)"
  by (simp add: group_of_def group_of_modes_def mode_count_0)

lemma own_request_None: "own_request tid q = None \<longleftrightarrow> tid \<notin> lr_txn_id ` set q"
  by (auto simp: own_request_def find_None_iff)

lemma own_request_None_others: "own_request tid q = None \<Longrightarrow> others tid q = q"
  by (auto simp: own_request_None others_def intro!: filter_True)

lemma own_request_Some: "own_request tid q = Some r \<Longrightarrow> r \<in> set q \<and> lr_txn_id r = tid"
  by (auto simp: own_request_def find_Some_iff)

lemma own_request_Cons:
  "own_request tid (r # q) = (if lr_txn_id r = tid then Some r else own_request tid q)"
  by (simp add: own_request_def)

lemma own_request_unique: "distinct (map lr_txn_id q) \<Longrightarrow> x \<in> set q \<Longrightarrow> own_request (lr_txn_id x) q = Some x"
  by (induction q) (auto simp: own_request_Cons)

text \<open>A queue in which each transaction has one request is the caller's and the others'.\<close>

lemma own_split:
  assumes "distinct (map lr_txn_id q)" and "own_request tid q = Some r"
  shows "modes q = insert (lr_mode r) (modes (others tid q))"
    and "mode_count m q = mode_count m (others tid q) + (if lr_mode r = m then 1 else 0)"
    and "length q = length (others tid q) + 1"
    and "modes (set_own_mode tid m' q) = insert m' (modes (others tid q))"
    and "others tid (set_own_mode tid m' q) = others tid q"
    and "own_request tid (set_own_mode tid m' q) = Some (r\<lparr>lr_mode := m'\<rparr>)"
proof -
  have o: "others tid q = q" if "tid \<notin> lr_txn_id ` set q" for q
    using that by (auto simp: others_def intro!: filter_True)
  have "modes q = insert (lr_mode r) (modes (others tid q)) \<and>
    mode_count m q = mode_count m (others tid q) + (if lr_mode r = m then 1 else 0) \<and>
    length q = length (others tid q) + 1 \<and>
    modes (set_own_mode tid m' q) = insert m' (modes (others tid q)) \<and>
    others tid (set_own_mode tid m' q) = others tid q \<and>
    own_request tid (set_own_mode tid m' q) = Some (r\<lparr>lr_mode := m'\<rparr>)"
    using assms
  proof (induction q)
    case (Cons x q)
    show ?case
    proof (cases "lr_txn_id x = tid")
      case True
      then have "x = r" "others tid (x # q) = q" "others tid q = q"
        using Cons.prems o [of q] by (auto simp: own_request_Cons others_def)
      with True show ?thesis by (auto simp: mode_count_def own_request_Cons others_def)
    next
      case False
      then have "others tid (x # q) = x # others tid q" "own_request tid q = Some r"
        using Cons.prems by (auto simp: own_request_Cons others_def)
      with False Cons show ?thesis by (auto simp: mode_count_def own_request_Cons others_def)
    qed
  qed (simp add: own_request_def)
  then show "modes q = insert (lr_mode r) (modes (others tid q))"
    "mode_count m q = mode_count m (others tid q) + (if lr_mode r = m then 1 else 0)"
    "length q = length (others tid q) + 1"
    "modes (set_own_mode tid m' q) = insert m' (modes (others tid q))"
    "others tid (set_own_mode tid m' q) = others tid q"
    "own_request tid (set_own_mode tid m' q) = Some (r\<lparr>lr_mode := m'\<rparr>)" by simp_all
qed

lemma set_own_mode_ids: "map lr_txn_id (set_own_mode tid m q) = map lr_txn_id q"
  by (induction q) auto

lemma set_own_mode_granted: "\<forall>a \<in> set q. lr_granted a \<Longrightarrow> \<forall>a \<in> set (set_own_mode tid m q). lr_granted a"
  by (induction q) auto

lemma set_own_mode_other: "a \<in> set (set_own_mode tid m q) \<Longrightarrow> lr_txn_id a \<noteq> tid \<Longrightarrow> a \<in> set q"
  by (induction q) (auto split: if_splits)

lemma erase_own_others: "distinct (map lr_txn_id q) \<Longrightarrow> erase_own tid q = others tid q"
proof (induction q)
  case (Cons r q)
  then show ?case using own_request_None_others [of tid q] by (auto simp: own_request_None others_def)
qed (simp add: others_def)

lemma queue_ok_empty: "queue_ok empty_queue"
  by (simp add: queue_ok_def empty_queue_def group_of_def mode_count_def)

text \<open>A well-formed queue: the caller's mode is compatible with every other mode in it.\<close>

lemma queue_ok_own:
  "queue_ok q \<Longrightarrow> own_request tid (request_queue q) = Some r \<Longrightarrow> a \<in> set (others tid (request_queue q)) \<Longrightarrow>
   compatible (lr_mode r) (lr_mode a)"
  by (auto simp: queue_ok_def others_def dest!: own_request_Some)

definition modes_ok :: "LockMode set \<Rightarrow> bool" where
  "modes_ok M \<longleftrightarrow> (\<forall>a \<in> M. \<forall>b \<in> M. a \<noteq> b \<longrightarrow> compatible a b)"

lemma queue_modes_ok:
  assumes "queue_ok q"
  shows "modes_ok (modes (request_queue q))"
  unfolding modes_ok_def
proof (intro ballI impI)
  fix a b assume ab: "a \<in> modes (request_queue q)" "b \<in> modes (request_queue q)" "a \<noteq> b"
  then obtain x y where xy: "x \<in> set (request_queue q)" "y \<in> set (request_queue q)" "a = lr_mode x" "b = lr_mode y"
    by auto
  then have "lr_txn_id x \<noteq> lr_txn_id y" using assms ab(3) by (metis distinct_map inj_onD queue_ok_def)
  with xy assms show "compatible a b" by (simp add: queue_ok_def)
qed

section \<open>The lock table\<close>

lemma queue_at_emplace [simp]: "queue_at (emplace l empty_queue tab) = queue_at tab"
  by (auto simp: fun_eq_iff queue_at_def split: option.splits)

lemma queue_at_hput [simp]: "queue_at (hput l q tab) k = (if k = l then q else queue_at tab k)"
  by (simp add: queue_at_def)

lemma held_mode_emplace [simp]: "held_mode (emplace l empty_queue tab) = held_mode tab"
  by (simp add: fun_eq_iff held_mode_def)

lemma table_ok_emplace [simp]: "table_ok tab \<Longrightarrow> table_ok (emplace l empty_queue tab)"
  by (simp add: table_ok_def)

lemma table_ok_at:
  "table_ok tab \<Longrightarrow> queue_ok (queue_at tab l)"
  "table_ok tab \<Longrightarrow> modes (request_queue (queue_at tab l)) \<subseteq> allowed_modes (ld_type l)"
  by (simp_all add: table_ok_def)

lemma table_ok_hput:
  "table_ok tab \<Longrightarrow> queue_ok q \<Longrightarrow> modes (request_queue q) \<subseteq> allowed_modes (ld_type l) \<Longrightarrow> table_ok (hput l q tab)"
  by (simp add: table_ok_def)

lemma table_ok_ids: "table_ok tab \<Longrightarrow> distinct (map lr_txn_id (request_queue (queue_at tab l)))"
  using table_ok_at(1) by (simp add: queue_ok_def)

text \<open>Two transactions that hold a lock on the same object hold it in compatible modes.\<close>

lemma holders_compatible:
  assumes "table_ok tab" and "held_mode tab l a = Some ma" and "held_mode tab l b = Some mb" and "a \<noteq> b"
  shows "compatible ma mb"
  using table_ok_at(1) [OF assms(1), of l] assms(2-4)
  by (auto simp: held_mode_def queue_ok_def dest!: own_request_Some)

lemma held_others:
  assumes "table_ok tab"
  shows "m \<in> modes (others tid (request_queue (queue_at tab l))) \<longleftrightarrow> (\<exists>k. k \<noteq> tid \<and> held_mode tab l k = Some m)"
proof -
  note u = own_request_unique [OF table_ok_ids [OF assms, of l]]
  show ?thesis
    using u by (fastforce simp: held_mode_def others_def dest: own_request_Some)
qed

lemma held_mode_set_own:
  "k \<noteq> tid \<Longrightarrow> own_request k (set_own_mode tid m q) = own_request k q"
  by (induction q) (auto simp: own_request_def)

lemma own_request_append:
  "own_request k (q @ [r]) = (case own_request k q of Some x \<Rightarrow> Some x | None \<Rightarrow> if lr_txn_id r = k then Some r else None)"
  by (induction q) (auto simp: own_request_def)

lemma own_request_others: "own_request k (others tid q) = (if k = tid then None else own_request k q)"
  by (induction q) (auto simp: own_request_def others_def)

section \<open>The contract of a lock request\<close>

text \<open>The mode the caller has if a request for \<open>mode\<close> is granted, and when it can be.\<close>

definition wanted_mode :: "LockMode \<Rightarrow> lock_table \<Rightarrow> LockDataId \<Rightarrow> int \<Rightarrow> LockMode" where
  "wanted_mode mode tab l tid = (case held_mode tab l tid of None \<Rightarrow> mode | Some m \<Rightarrow> mode_join m mode)"

definition grantable :: "LockMode \<Rightarrow> lock_table \<Rightarrow> LockDataId \<Rightarrow> int \<Rightarrow> bool" where
  "grantable mode tab l tid \<longleftrightarrow>
     (\<forall>k m. k \<noteq> tid \<longrightarrow> held_mode tab l k = Some m \<longrightarrow> compatible (wanted_mode mode tab l tid) m)"

text \<open>
  The effect a request should have: exactly if the wanted mode is compatible with the other
  holders, the caller now holds it; otherwise it is aborted and nobody's locks have changed.
  The locks of all other transactions, and the caller's other locks, are untouched.
\<close>

definition outcome :: "LockMode \<Rightarrow> lock_table \<Rightarrow> LockDataId \<Rightarrow> txn \<Rightarrow> (rmdb_error + bool) \<times> lock_state \<Rightarrow> bool" where
  "outcome mode tab l t res \<longleftrightarrow> (case res of (r, t', tab') \<Rightarrow> table_ok tab' \<and>
     (if grantable mode tab l (txn_id t)
      then r = Inr True \<and>
        held_mode tab' = (held_mode tab)(l := (held_mode tab l)(txn_id t \<mapsto> wanted_mode mode tab l (txn_id t))) \<and>
        t' = (if held_mode tab l (txn_id t) = None then lock_set_emplace l t else t)
      else r = Inl (TransactionAbortException (txn_id t) DEADLOCK_PREVENTION) \<and> held_mode tab' = held_mode tab \<and> t' = t))"

text \<open>
  What makes the two decisions of a request right: with no lock of its own the caller gets
  one exactly when the mode it asks for is compatible with every mode in the queue; with a
  lock of its own it ends up with the join of the two modes, or is refused exactly when the
  join is incompatible with some other transaction's mode; the group mode is kept exact.
  \<open>kind\<close> is the kind of object concerned.
\<close>

locale lock_policy =
  fixes mode :: LockMode
    and held :: "LockMode \<Rightarrow> LockRequestQueue \<Rightarrow> lock_decision"
    and fresh :: "GroupLockMode \<Rightarrow> GroupLockMode option"
    and kind :: LockDataType
  assumes mode_allowed: "mode \<in> allowed_modes kind"
    and fresh_None: "M \<subseteq> allowed_modes kind \<Longrightarrow> modes_ok M \<Longrightarrow> fresh (group_of_modes M) = None \<Longrightarrow> \<exists>m \<in> M. \<not> compatible mode m"
    and fresh_Some: "M \<subseteq> allowed_modes kind \<Longrightarrow> modes_ok M \<Longrightarrow> fresh (group_of_modes M) = Some g \<Longrightarrow>
      (\<forall>m \<in> M. compatible mode m) \<and> g = group_of_modes (insert mode M)"
    and held_Keep: "m \<in> allowed_modes kind \<Longrightarrow> held m q = Keep \<Longrightarrow> mode_join m mode = m"
    and held_Upgrade: "queue_ok q \<Longrightarrow> modes (request_queue q) \<subseteq> allowed_modes kind \<Longrightarrow>
      own_request tid (request_queue q) = Some r \<Longrightarrow> held (lr_mode r) q = Upgrade m g \<Longrightarrow>
      m = mode_join (lr_mode r) mode \<and> (\<forall>a \<in> modes (others tid (request_queue q)). compatible m a) \<and>
      g = group_of_modes (insert m (modes (others tid (request_queue q))))"
    and held_Refuse: "queue_ok q \<Longrightarrow> modes (request_queue q) \<subseteq> allowed_modes kind \<Longrightarrow>
      own_request tid (request_queue q) = Some r \<Longrightarrow> held (lr_mode r) q = Refuse \<Longrightarrow>
      \<exists>a \<in> modes (others tid (request_queue q)). \<not> compatible (mode_join (lr_mode r) mode) a"

begin

lemma queue_upgrade:
  assumes q: "queue_ok q" and a: "modes (request_queue q) \<subseteq> allowed_modes kind"
    and r: "own_request tid (request_queue q) = Some r" and h: "held (lr_mode r) q = Upgrade m g"
  shows "queue_ok \<lparr>request_queue = set_own_mode tid m (request_queue q), group_lock_mode = g\<rparr>"
    and "m \<in> allowed_modes kind"
proof -
  let ?rq = "set_own_mode tid m (request_queue q)"
  have d: "distinct (map lr_txn_id (request_queue q))" using q by (simp add: queue_ok_def)
  note u = held_Upgrade [OF q a r h] and sp = own_split [OF d r]
  have c: "compatible (lr_mode x) (lr_mode y)" if xy: "x \<in> set ?rq" "y \<in> set ?rq" "lr_txn_id x \<noteq> lr_txn_id y" "lr_txn_id y \<noteq> tid" for x y
  proof -
    have y: "y \<in> set (others tid (request_queue q))" using xy set_own_mode_other [OF xy(2,4)] by (simp add: others_def)
    show ?thesis
    proof (cases "lr_txn_id x = tid")
      case True
      have "own_request tid ?rq = Some x"
        using own_request_unique [OF _ xy(1)] d True by (simp add: set_own_mode_ids)
      then have "lr_mode x = m" using sp(6) [of m] by auto
      then show ?thesis using u y by auto
    next
      case False
      from set_own_mode_other [OF xy(1) False] set_own_mode_other [OF xy(2,4)] xy(3) q show ?thesis
        by (simp add: queue_ok_def)
    qed
  qed
  have "compatible (lr_mode x) (lr_mode y)" if "x \<in> set ?rq" "y \<in> set ?rq" "lr_txn_id x \<noteq> lr_txn_id y" for x y
    using c [OF that] c [OF that(2,1)] that(3) compatible_sym [of "lr_mode x" "lr_mode y"] by metis
  moreover have "\<forall>x \<in> set ?rq. lr_granted x" using q by (intro set_own_mode_granted) (simp add: queue_ok_def)
  ultimately show "queue_ok \<lparr>request_queue = ?rq, group_lock_mode = g\<rparr>"
    using d u by (auto simp: queue_ok_def set_own_mode_ids group_of_modes sp(4))
  have "lr_mode r \<in> allowed_modes kind" using a own_request_Some [OF r] by auto
  with mode_allowed u show "m \<in> allowed_modes kind" by (cases kind; cases "lr_mode r"; cases mode) auto
qed

lemma queue_append:
  assumes q: "queue_ok q" and a: "modes (request_queue q) \<subseteq> allowed_modes kind"
    and r: "own_request tid (request_queue q) = None" and f: "fresh (group_lock_mode q) = Some g"
  shows "queue_ok \<lparr>request_queue = request_queue q @ [\<lparr>lr_txn_id = tid, lr_mode = mode, lr_granted = True\<rparr>], group_lock_mode = g\<rparr>"
    and "\<forall>m \<in> modes (request_queue q). compatible mode m"
proof -
  have g: "group_lock_mode q = group_of_modes (modes (request_queue q))" using q by (simp add: queue_ok_def group_of_modes)
  from fresh_Some [OF a queue_modes_ok [OF q]] f g have s: "\<forall>m \<in> modes (request_queue q). compatible mode m"
    "g = group_of_modes (insert mode (modes (request_queue q)))" by simp_all
  show "\<forall>m \<in> modes (request_queue q). compatible mode m" by (rule s(1))
  from s q r compatible_sym show "queue_ok \<lparr>request_queue = request_queue q @ [\<lparr>lr_txn_id = tid, lr_mode = mode, lr_granted = True\<rparr>],
      group_lock_mode = g\<rparr>"
    by (auto simp: queue_ok_def group_of_modes own_request_None)
qed

lemma grantable_others:
  "table_ok tab \<Longrightarrow> grantable mode tab l tid \<longleftrightarrow>
     (\<forall>m \<in> modes (others tid (request_queue (queue_at tab l))). compatible (wanted_mode mode tab l tid) m)"
  using held_others [of tab _ tid l] unfolding grantable_def by blast

lemma grant_fresh:
  assumes w: "table_ok tab" and k: "ld_type l = kind" and n: "own_request (txn_id t) (request_queue (queue_at tab l)) = None"
  shows "outcome mode tab l t (grant_in_queue l mode held fresh (t, tab))"
proof -
  let ?q = "queue_at tab l" and ?tid = "txn_id t"
  note qk = table_ok_at(1) [OF w, of l] and al = table_ok_at(2) [OF w, of l, unfolded k]
  note gr = grantable_others [OF w, of l ?tid]
  have wm: "wanted_mode mode tab l ?tid = mode" "held_mode tab l ?tid = None" using n by (simp_all add: wanted_mode_def held_mode_def)
  have gq: "group_lock_mode ?q = group_of_modes (modes (request_queue ?q))" using qk by (simp add: queue_ok_def group_of_modes)
  show ?thesis
  proof (cases "fresh (group_lock_mode ?q)")
    case (Some gm)
    note ap = queue_append [OF qk al n Some]
    have "grantable mode tab l ?tid" using ap(2) gr wm own_request_None_others [OF n] by simp
    moreover have "table_ok (hput l \<lparr>request_queue = request_queue ?q @ [\<lparr>lr_txn_id = ?tid, lr_mode = mode, lr_granted = True\<rparr>],
        group_lock_mode = gm\<rparr> (emplace l empty_queue tab))"
      by (rule table_ok_hput) (use w ap(1) al mode_allowed k in simp_all)
    ultimately show ?thesis
      using n Some wm
      by (auto simp: outcome_def grant_in_queue_def Let_def held_mode_def fun_eq_iff own_request_append split: option.splits)
  next
    case None
    from fresh_None [OF al queue_modes_ok [OF qk]] None gq have "\<not> grantable mode tab l ?tid"
      using gr wm own_request_None_others [OF n] by auto
    then show ?thesis using n None w by (simp add: outcome_def grant_in_queue_def Let_def)
  qed
qed

lemma grant_held:
  assumes w: "table_ok tab" and k: "ld_type l = kind" and x: "own_request (txn_id t) (request_queue (queue_at tab l)) = Some x"
  shows "outcome mode tab l t (grant_in_queue l mode held fresh (t, tab))"
proof -
  let ?q = "queue_at tab l" and ?tid = "txn_id t"
  note qk = table_ok_at(1) [OF w, of l] and al = table_ok_at(2) [OF w, of l, unfolded k]
  note ids = table_ok_ids [OF w, of l] and gr = grantable_others [OF w, of l ?tid]
  have hm: "held_mode tab l ?tid = Some (lr_mode x)" using x by (simp add: held_mode_def)
  have wm: "wanted_mode mode tab l ?tid = mode_join (lr_mode x) mode" by (simp add: wanted_mode_def hm)
  have xa: "lr_mode x \<in> allowed_modes kind" using al own_request_Some [OF x] by auto
  show ?thesis
  proof (cases "held (lr_mode x) ?q")
    case Keep
    have e: "mode_join (lr_mode x) mode = lr_mode x" by (rule held_Keep [OF xa Keep])
    have "grantable mode tab l ?tid" using gr wm e queue_ok_own [OF qk x] by auto
    then show ?thesis using x Keep w hm wm e by (auto simp: outcome_def grant_in_queue_def Let_def fun_eq_iff)
  next
    case (Upgrade m gm)
    note u = held_Upgrade [OF qk al x Upgrade] and up = queue_upgrade [OF qk al x Upgrade]
    have "modes (set_own_mode ?tid m (request_queue ?q)) \<subseteq> allowed_modes (ld_type l)"
      using own_split(1,4) [OF ids x] al up(2) k by auto
    then have "table_ok (hput l \<lparr>request_queue = set_own_mode ?tid m (request_queue ?q), group_lock_mode = gm\<rparr> (emplace l empty_queue tab))"
      by (intro table_ok_hput) (use w up(1) in simp_all)
    moreover have "grantable mode tab l ?tid" using gr wm u by auto
    ultimately show ?thesis
      using x Upgrade hm wm u own_split(6) [OF ids x, of m]
      by (auto simp: outcome_def grant_in_queue_def Let_def held_mode_def fun_eq_iff held_mode_set_own)
  next
    case Refuse
    then have "\<not> grantable mode tab l ?tid" using held_Refuse [OF qk al x Refuse] gr wm by auto
    then show ?thesis using x Refuse w by (simp add: outcome_def grant_in_queue_def Let_def)
  qed
qed

text \<open>The whole request, by the phase of the transaction.\<close>

lemma request:
  assumes w: "table_ok tab" and k: "ld_type l = kind"
  shows "request_lock l mode held fresh (t, tab) =
     (if txn_state t = ABORTED \<or> txn_state t = COMMITTED then (Inr False, (t, tab))
      else if txn_state t = SHRINKING then (Inl (TransactionAbortException (txn_id t) LOCK_ON_SHIRINKING), (t, tab))
      else grant_in_queue l mode held fresh (t\<lparr>txn_state := GROWING\<rparr>, tab))"
    and "outcome mode tab l (t\<lparr>txn_state := GROWING\<rparr>) (grant_in_queue l mode held fresh (t\<lparr>txn_state := GROWING\<rparr>, tab))"
proof -
  show "outcome mode tab l (t\<lparr>txn_state := GROWING\<rparr>) (grant_in_queue l mode held fresh (t\<lparr>txn_state := GROWING\<rparr>, tab))"
    using grant_fresh [OF w k, of "t\<lparr>txn_state := GROWING\<rparr>"] grant_held [OF w k, of "t\<lparr>txn_state := GROWING\<rparr>"]
    by (cases "own_request (txn_id (t\<lparr>txn_state := GROWING\<rparr>)) (request_queue (queue_at tab l))") auto
  have e: "grant_in_queue l mode held fresh (t, tab) = grant_in_queue l mode held fresh (t\<lparr>txn_state := GROWING\<rparr>, tab)"
    if "txn_state t = GROWING" using that by (cases t) simp
  show "request_lock l mode held fresh (t, tab) =
     (if txn_state t = ABORTED \<or> txn_state t = COMMITTED then (Inr False, (t, tab))
      else if txn_state t = SHRINKING then (Inl (TransactionAbortException (txn_id t) LOCK_ON_SHIRINKING), (t, tab))
      else grant_in_queue l mode held fresh (t\<lparr>txn_state := GROWING\<rparr>, tab))"
    by (cases "txn_state t") (simp_all add: request_lock_def bindc_def check_lock_def e)
qed

end

text \<open>All six requests satisfy it.\<close>

lemma ball_modes:
  "(\<forall>m \<in> M. P m) \<longleftrightarrow> (SHARED \<in> M \<longrightarrow> P SHARED) \<and> (EXCLUSIVE \<in> M \<longrightarrow> P EXCLUSIVE) \<and>
     (INTENTION_SHARED \<in> M \<longrightarrow> P INTENTION_SHARED) \<and> (INTENTION_EXCLUSIVE \<in> M \<longrightarrow> P INTENTION_EXCLUSIVE) \<and>
     (S_IX \<in> M \<longrightarrow> P S_IX)" (is "?l \<longleftrightarrow> ?r")
proof
  assume r: ?r
  show ?l
  proof
    fix m assume "m \<in> M"
    with r show "P m" by (cases m) simp_all
  qed
qed simp

lemma bex_modes:
  "(\<exists>m \<in> M. P m) \<longleftrightarrow> SHARED \<in> M \<and> P SHARED \<or> EXCLUSIVE \<in> M \<and> P EXCLUSIVE \<or>
     INTENTION_SHARED \<in> M \<and> P INTENTION_SHARED \<or> INTENTION_EXCLUSIVE \<in> M \<and> P INTENTION_EXCLUSIVE \<or>
     S_IX \<in> M \<and> P S_IX"
  using ball_modes [of M "\<lambda>m. \<not> P m"] by blast

lemma modes_empty: "M = {} \<longleftrightarrow> SHARED \<notin> M \<and> EXCLUSIVE \<notin> M \<and> INTENTION_SHARED \<notin> M \<and> INTENTION_EXCLUSIVE \<notin> M \<and> S_IX \<notin> M"
  using ball_modes [of M "\<lambda>_. False"] by auto

lemma modes_subset: "M \<subseteq> A \<longleftrightarrow> (\<forall>m \<in> M. m \<in> A)"
  by auto

lemmas mode_logic = group_of_modes_def ball_modes bex_modes modes_subset

text \<open>What a well-formed queue says of the others' modes, given the caller's.\<close>

lemma own_facts:
  assumes "queue_ok q" and "own_request tid (request_queue q) = Some r"
  shows "group_lock_mode q = group_of_modes (insert (lr_mode r) (modes (others tid (request_queue q))))"
    and "\<forall>a \<in> modes (others tid (request_queue q)). compatible (lr_mode r) a"
    and "length (request_queue q) = 1 \<longleftrightarrow> modes (others tid (request_queue q)) = {}"
    and "mode_count m (request_queue q) = 1 \<longleftrightarrow>
      (if lr_mode r = m then m \<notin> modes (others tid (request_queue q)) else mode_count m (others tid (request_queue q)) = 1)"
    and "modes (request_queue q) = insert (lr_mode r) (modes (others tid (request_queue q)))"
    and "a \<in> modes (others tid (request_queue q)) \<Longrightarrow> b \<in> modes (others tid (request_queue q)) \<Longrightarrow> a \<noteq> b \<Longrightarrow> compatible a b"
proof -
  have d: "distinct (map lr_txn_id (request_queue q))" and g: "group_lock_mode q = group_of (request_queue q)"
    using assms(1) by (simp_all add: queue_ok_def)
  note sp = own_split [OF d assms(2)]
  show "group_lock_mode q = group_of_modes (insert (lr_mode r) (modes (others tid (request_queue q))))"
    by (simp add: g group_of_modes sp(1))
  show "\<forall>a \<in> modes (others tid (request_queue q)). compatible (lr_mode r) a"
    using queue_ok_own [OF assms] by auto
  show "length (request_queue q) = 1 \<longleftrightarrow> modes (others tid (request_queue q)) = {}" by (simp add: sp(3))
  show "mode_count m (request_queue q) = 1 \<longleftrightarrow>
      (if lr_mode r = m then m \<notin> modes (others tid (request_queue q)) else mode_count m (others tid (request_queue q)) = 1)"
    by (simp add: sp(2) mode_count_0)
  show "modes (request_queue q) = insert (lr_mode r) (modes (others tid (request_queue q)))" by (rule sp(1))
  show "a \<in> modes (others tid (request_queue q)) \<Longrightarrow> b \<in> modes (others tid (request_queue q)) \<Longrightarrow> a \<noteq> b \<Longrightarrow> compatible a b"
    using queue_modes_ok [OF assms(1)] unfolding modes_ok_def sp(1) by blast
qed

interpretation S_record: lock_policy SHARED "\<lambda>_ _. Keep"
  "\<lambda>g. if g \<noteq> NON_LOCK \<and> g \<noteq> S_GROUP then None else Some S_GROUP" RECORD
  by unfold_locales (auto simp: mode_logic split: if_splits)

interpretation X_record: lock_policy EXCLUSIVE
  "\<lambda>m q. if m = EXCLUSIVE then Keep
         else if group_lock_mode q = S_GROUP \<and> length (request_queue q) = 1 then Upgrade EXCLUSIVE X_GROUP else Refuse"
  "\<lambda>g. if g \<noteq> NON_LOCK then None else Some X_GROUP" RECORD
proof (unfold_locales, goal_cases)
  case (5 q tid r m g)
  then show ?case using own_facts(1,2,3,5) [OF 5(1,3)] by (simp add: mode_logic split: if_splits)
next
  case (6 q tid r)
  then show ?case using own_facts(1,2,3,5) [OF 6(1,3)] by (cases "lr_mode r") (auto simp: mode_logic split: if_splits)
qed (auto simp: mode_logic modes_empty split: if_splits)

interpretation S_table: lock_policy SHARED
  "\<lambda>m q. if m = SHARED \<or> m = S_IX \<or> m = EXCLUSIVE then Keep
         else if m = INTENTION_SHARED then
           (if group_lock_mode q \<noteq> IS_GROUP \<and> group_lock_mode q \<noteq> S_GROUP then Refuse else Upgrade SHARED S_GROUP)
         else if mode_count INTENTION_EXCLUSIVE (request_queue q) \<noteq> 1 then Refuse
         else Upgrade S_IX SIX_GROUP"
  "\<lambda>g. if g \<noteq> NON_LOCK \<and> g \<noteq> S_GROUP \<and> g \<noteq> IS_GROUP then None else Some S_GROUP" TABLE
proof (unfold_locales, goal_cases)
  case (5 q tid r m g)
  then show ?case using own_facts(1,2) [OF 5(1,3)] own_facts(4) [OF 5(1,3), of INTENTION_EXCLUSIVE] by (cases "lr_mode r") (simp_all add: mode_logic split: if_splits)
next
  case (6 q tid r)
  then show ?case using own_facts(1,2) [OF 6(1,3)] own_facts(4) [OF 6(1,3), of INTENTION_EXCLUSIVE] by (cases "lr_mode r") (auto simp: mode_logic split: if_splits)
qed (auto simp: mode_logic split: if_splits)

interpretation X_table: lock_policy EXCLUSIVE
  "\<lambda>m q. if m = EXCLUSIVE then Keep else if length (request_queue q) \<noteq> 1 then Refuse else Upgrade EXCLUSIVE X_GROUP"
  "\<lambda>g. if g \<noteq> NON_LOCK then None else Some X_GROUP" TABLE
proof (unfold_locales, goal_cases)
  case (5 q tid r m g)
  then show ?case using own_facts(1,2,3) [OF 5(1,3)] by (cases "lr_mode r") (simp_all add: mode_logic split: if_splits)
next
  case (6 q tid r)
  then show ?case using own_facts(1,2,3) [OF 6(1,3)] by (cases "lr_mode r") (auto simp: mode_logic split: if_splits)
qed (auto simp: mode_logic modes_empty split: if_splits)

interpretation IS_table: lock_policy INTENTION_SHARED "\<lambda>_ _. Keep"
  "\<lambda>g. if g = X_GROUP then None else Some (if g = NON_LOCK then IS_GROUP else g)" TABLE
proof (unfold_locales, goal_cases)
  case (4 m q)
  then show ?case by (cases m) simp_all
qed (auto simp: mode_logic split: if_splits)

interpretation IX_table: lock_policy INTENTION_EXCLUSIVE
  "\<lambda>m q. if m = INTENTION_EXCLUSIVE \<or> m = S_IX \<or> m = EXCLUSIVE then Keep
         else if m = SHARED then (if mode_count SHARED (request_queue q) \<noteq> 1 then Refuse else Upgrade S_IX SIX_GROUP)
         else if group_lock_mode q \<noteq> IS_GROUP \<and> group_lock_mode q \<noteq> IX_GROUP then Refuse
         else Upgrade INTENTION_EXCLUSIVE IX_GROUP"
  "\<lambda>g. if g \<noteq> NON_LOCK \<and> g \<noteq> IS_GROUP \<and> g \<noteq> IX_GROUP then None else Some IX_GROUP" TABLE
proof (unfold_locales, goal_cases)
  case (5 q tid r m g)
  then show ?case using own_facts(1,2) [OF 5(1,3)] own_facts(4) [OF 5(1,3), of SHARED] own_facts(6) [OF 5(1,3), of SHARED INTENTION_EXCLUSIVE] by (cases "lr_mode r") (auto simp: mode_logic split: if_splits)
next
  case (6 q tid r)
  then show ?case using own_facts(1,2) [OF 6(1,3)] own_facts(4) [OF 6(1,3), of SHARED] by (cases "lr_mode r") (auto simp: mode_logic split: if_splits)
next
  case (3 M g)
  have "\<not> (SHARED \<in> M \<and> INTENTION_EXCLUSIVE \<in> M)" using 3(2) by (force simp: modes_ok_def)
  with 3 show ?case by (auto simp: mode_logic split: if_splits)
qed (auto simp: mode_logic split: if_splits)

lemmas lock_defs = lock_shared_on_record_def lock_exclusive_on_record_def lock_shared_on_table_def
  lock_exclusive_on_table_def lock_IS_on_table_def lock_IX_on_table_def

section \<open>Releasing\<close>

lemma queue_ok_others:
  "queue_ok q \<Longrightarrow> queue_ok \<lparr>request_queue = others tid (request_queue q), group_lock_mode = group_of (others tid (request_queue q))\<rparr>"
  by (auto simp: queue_ok_def others_def distinct_map inj_on_def)

lemma unlock_effect:
  assumes w: "table_ok tab" and st: "txn_state t \<noteq> ABORTED" "txn_state t \<noteq> COMMITTED"
    and u: "unlock l (t, tab) = (r, (t', tab'))"
  shows "table_ok tab'" "r = Inr True" "held_mode tab' = (held_mode tab)(l := (held_mode tab l)(txn_id t := None))"
    "t' = (if txn_state t = GROWING then t\<lparr>txn_state := SHRINKING\<rparr> else t)"
proof -
  let ?o = "others (txn_id t) (request_queue (queue_at tab l))"
  note e = erase_own_others [OF table_ok_ids [OF w, of l], of "txn_id t"]
  have tk: "table_ok (hput l \<lparr>request_queue = ?o, group_lock_mode = group_of ?o\<rparr> tab)"
    by (rule table_ok_hput [OF w]) (use table_ok_at [OF w, of l] queue_ok_others in \<open>auto simp: others_def\<close>)
  have none: "?o = []" if "hfind tab l = None" using that by (simp add: queue_at_def empty_queue_def others_def)
  show "r = Inr True" "t' = (if txn_state t = GROWING then t\<lparr>txn_state := SHRINKING\<rparr> else t)"
    using u st by (auto simp: unlock_def Let_def split: option.splits if_splits)
  have "tab' = (if hfind tab l = None then tab else hput l \<lparr>request_queue = ?o, group_lock_mode = group_of ?o\<rparr> tab)"
    using u st e by (auto simp: unlock_def Let_def queue_at_def split: option.splits if_splits)
  with tk w show "table_ok tab'" "held_mode tab' = (held_mode tab)(l := (held_mode tab l)(txn_id t := None))"
    using none by (auto simp: held_mode_def fun_eq_iff own_request_others) (auto simp: queue_at_def empty_queue_def own_request_def)
qed

section \<open>A system of transactions\<close>

text \<open>The operations a transaction may call, with the object and the mode a request is for.\<close>

datatype lock_op = LockS rid int | LockX rid int | TableS int | TableX int | TableIS int | TableIX int | Release LockDataId

fun run_op :: "lock_op \<Rightarrow> (lock_state, bool) rcmd" where
  "run_op (LockS r fd) = lock_shared_on_record r fd"
| "run_op (LockX r fd) = lock_exclusive_on_record r fd"
| "run_op (TableS fd) = lock_shared_on_table fd"
| "run_op (TableX fd) = lock_exclusive_on_table fd"
| "run_op (TableIS fd) = lock_IS_on_table fd"
| "run_op (TableIX fd) = lock_IX_on_table fd"
| "run_op (Release l) = unlock l"

fun op_request :: "lock_op \<Rightarrow> (LockDataId \<times> LockMode) option" where
  "op_request (LockS r fd) = Some (record_lock_id fd r, SHARED)"
| "op_request (LockX r fd) = Some (record_lock_id fd r, EXCLUSIVE)"
| "op_request (TableS fd) = Some (table_lock_id fd, SHARED)"
| "op_request (TableX fd) = Some (table_lock_id fd, EXCLUSIVE)"
| "op_request (TableIS fd) = Some (table_lock_id fd, INTENTION_SHARED)"
| "op_request (TableIX fd) = Some (table_lock_id fd, INTENTION_EXCLUSIVE)"
| "op_request (Release l) = None"

lemma lock_kinds [simp]: "ld_type (record_lock_id fd r) = RECORD" "ld_type (table_lock_id fd) = TABLE"
  by (simp_all add: record_lock_id_def table_lock_id_def)

lemma op_request_outcome:
  assumes w: "table_ok tab" and q: "op_request op = Some (l, mode)"
  shows "txn_state t = DEFAULT \<or> txn_state t = GROWING \<Longrightarrow> outcome mode tab l (t\<lparr>txn_state := GROWING\<rparr>) (run_op op (t, tab))"
    and "txn_state t = SHRINKING \<Longrightarrow> run_op op (t, tab) = (Inl (TransactionAbortException (txn_id t) LOCK_ON_SHIRINKING), (t, tab))"
    and "txn_state t = ABORTED \<or> txn_state t = COMMITTED \<Longrightarrow> run_op op (t, tab) = (Inr False, (t, tab))"
proof -
  show "outcome mode tab l (t\<lparr>txn_state := GROWING\<rparr>) (run_op op (t, tab))" if "txn_state t = DEFAULT \<or> txn_state t = GROWING"
    using q that S_record.request [OF w] X_record.request [OF w] S_table.request [OF w] X_table.request [OF w]
      IS_table.request [OF w] IX_table.request [OF w]
    by (cases op) (auto simp: lock_defs)
  show "run_op op (t, tab) = (Inl (TransactionAbortException (txn_id t) LOCK_ON_SHIRINKING), (t, tab))" if "txn_state t = SHRINKING"
    using q that by (cases op) (auto simp: lock_defs request_lock_def bindc_def check_lock_def)
  show "run_op op (t, tab) = (Inr False, (t, tab))" if "txn_state t = ABORTED \<or> txn_state t = COMMITTED"
    using q that by (cases op) (auto simp: lock_defs request_lock_def bindc_def check_lock_def)
qed

text \<open>
  What any operation does to the table and the calling transaction: it keeps the table
  well-formed and the locks of the others, the lock set covers the locks held, and the phase
  only moves forward; past the growing phase the caller's locks only become fewer.
\<close>

definition covers :: "txn \<Rightarrow> lock_table \<Rightarrow> bool" where
  "covers t tab \<longleftrightarrow> (\<forall>l. held_mode tab l (txn_id t) \<noteq> None \<longrightarrow> l \<in> set (lock_set t))"

abbreviation growing :: "txn \<Rightarrow> bool" where
  "growing t \<equiv> txn_state t = DEFAULT \<or> txn_state t = GROWING"

lemma op_effect:
  assumes w: "table_ok tab" and c: "covers t tab" and o: "run_op op (t, tab) = (r, (t', tab'))"
  shows "table_ok tab' \<and> txn_id t' = txn_id t \<and> covers t' tab' \<and>
    (\<forall>l k. k \<noteq> txn_id t \<longrightarrow> held_mode tab' l k = held_mode tab l k) \<and>
    (\<not> growing t \<longrightarrow> \<not> growing t' \<and>
       (\<forall>l m. held_mode tab' l (txn_id t) = Some m \<longrightarrow> held_mode tab l (txn_id t) = Some m))"
proof (cases "op_request op")
  case None
  then obtain l where op: "op = Release l" by (cases op) auto
  show ?thesis
  proof (cases "txn_state t = ABORTED \<or> txn_state t = COMMITTED")
    case True
    then show ?thesis using o op w c by (auto simp: unlock_def)
  next
    case False
    with unlock_effect [OF w _ _ o [unfolded op run_op.simps]] c show ?thesis
      by (cases "txn_state t") (auto simp: covers_def)
  qed
next
  case (Some lm)
  then obtain l mode where q: "op_request op = Some (l, mode)" by (cases lm) simp
  note oc = op_request_outcome [OF w q, of t]
  show ?thesis
  proof (cases "growing t")
    case True
    with oc(1) o have out: "outcome mode tab l (t\<lparr>txn_state := GROWING\<rparr>) (r, (t', tab'))" by simp
    with c True show ?thesis
      by (auto simp: outcome_def covers_def lock_set_emplace_def split: if_splits)
  next
    case False
    then have "t' = t" "tab' = tab" using oc(2,3) o by (cases "txn_state t"; auto)+
    with False w c show ?thesis by simp
  qed
qed

text \<open>The loop over the lock set with which commit and abort release all locks.\<close>

fun unlock_all :: "LockDataId list \<Rightarrow> (lock_state, unit) rcmd" where
  "unlock_all [] = ret ()"
| "unlock_all (l # ls) = bindc (unlock l) (\<lambda>_. unlock_all ls)"

lemma unlock_all_effect:
  assumes "table_ok tab" and "txn_state t \<noteq> ABORTED" "txn_state t \<noteq> COMMITTED" and "unlock_all ls (t, tab) = (r, (t', tab'))"
  shows "table_ok tab' \<and> r = Inr () \<and> txn_id t' = txn_id t \<and> lock_set t' = lock_set t \<and>
    txn_state t' \<noteq> ABORTED \<and> txn_state t' \<noteq> COMMITTED \<and>
    held_mode tab' = (\<lambda>l k. if k = txn_id t \<and> l \<in> set ls then None else held_mode tab l k)"
  using assms
proof (induction ls arbitrary: t tab)
  case (Cons l ls)
  obtain r1 t1 tab1 where u: "unlock l (t, tab) = (r1, (t1, tab1))" by (metis prod.exhaust)
  note e = unlock_effect [OF Cons.prems(1,2,3) u]
  have "unlock_all ls (t1, tab1) = (r, (t', tab'))" using Cons.prems(4) u e(2) by (simp add: bindc_def)
  moreover have "txn_state t1 \<noteq> ABORTED" "txn_state t1 \<noteq> COMMITTED" using e(4) Cons.prems(2,3) by auto
  ultimately show ?case using Cons.IH [OF e(1)] e(3,4) by (auto simp: fun_eq_iff)
qed (auto simp: fun_eq_iff)

text \<open>
  Transactions begin, call operations in any interleaving, and end once they hold no lock.
\<close>

type_synonym lock_sys = "(int \<rightharpoonup> txn) \<times> lock_table"

inductive lock_step :: "lock_sys \<Rightarrow> lock_sys \<Rightarrow> bool" where
  begin_txn: "T tid = None \<Longrightarrow> lock_step (T, tab) (T(tid \<mapsto> new_Transaction tid), tab)"
| call: "T tid = Some t \<Longrightarrow> run_op op (t, tab) = (r, (t', tab')) \<Longrightarrow> lock_step (T, tab) (T(tid \<mapsto> t'), tab')"
| finish: "T tid = Some t \<Longrightarrow> (\<And>l. held_mode tab l tid = None) \<Longrightarrow> st = COMMITTED \<or> st = ABORTED \<Longrightarrow>
     lock_step (T, tab) (T(tid \<mapsto> t\<lparr>txn_state := st, lock_set := ls\<rparr>), tab)"

definition sys_ok :: "lock_sys \<Rightarrow> bool" where
  "sys_ok S \<longleftrightarrow> (case S of (T, tab) \<Rightarrow> table_ok tab \<and>
     (\<forall>tid t. T tid = Some t \<longrightarrow> txn_id t = tid \<and> covers t tab) \<and>
     (\<forall>l tid. held_mode tab l tid \<noteq> None \<longrightarrow> T tid \<noteq> None))"

lemma covers_cong: "(\<And>l. held_mode tab' l (txn_id t) = held_mode tab l (txn_id t)) \<Longrightarrow> covers t tab' \<longleftrightarrow> covers t tab"
  by (simp add: covers_def)

lemma lock_step_ok: "lock_step S S' \<Longrightarrow> sys_ok S \<Longrightarrow> sys_ok S'"
proof (induction rule: lock_step.induct)
  case (begin_txn T tid tab)
  then have "\<forall>l tid. held_mode tab l tid \<noteq> None \<longrightarrow> T tid \<noteq> None" unfolding sys_ok_def prod.case by blast
  with begin_txn.hyps have "held_mode tab l tid = None" for l by blast
  with begin_txn show ?case by (auto simp: sys_ok_def new_Transaction_def covers_def)
next
  case (call T tid t op tab r t' tab')
  then have t: "txn_id t = tid" "covers t tab" "table_ok tab" by (auto simp: sys_ok_def)
  note e = op_effect [OF t(3,2) call.hyps(2), unfolded t(1)]
  have "covers u tab'" if "T k = Some u" "k \<noteq> tid" for k u
    using call.prems that e by (subst covers_cong [of _ _ tab]) (auto simp: sys_ok_def)
  moreover have "k = tid \<or> T k \<noteq> None" if "held_mode tab' l k \<noteq> None" for l k
    using call.prems that e by (cases "k = tid") (auto simp: sys_ok_def)
  ultimately show ?case using call.prems e by (auto simp: sys_ok_def)
next
  case (finish T tid t tab st ls)
  then show ?case by (auto simp: sys_ok_def covers_def)
qed

lemma lock_reach_ok: "lock_step\<^sup>*\<^sup>* S S' \<Longrightarrow> sys_ok S \<Longrightarrow> sys_ok S'"
  by (induction rule: rtranclp_induct) (auto intro: lock_step_ok)

lemma sys_ok_init: "sys_ok (Map.empty, [])"
  using queue_ok_empty by (simp add: sys_ok_def table_ok_def queue_at_def held_mode_def empty_queue_def own_request_def)

text \<open>A transaction that has left the growing phase gains no lock in any later step.\<close>

definition released :: "int \<Rightarrow> lock_sys \<Rightarrow> lock_sys \<Rightarrow> bool" where
  "released tid S S' \<longleftrightarrow> (\<exists>t. fst S' tid = Some t \<and> \<not> growing t) \<and>
     (\<forall>l m. held_mode (snd S') l tid = Some m \<longrightarrow> held_mode (snd S) l tid = Some m)"

lemma lock_step_released:
  "lock_step S S' \<Longrightarrow> sys_ok S \<Longrightarrow> fst S tid = Some t \<Longrightarrow> \<not> growing t \<Longrightarrow> released tid S S'"
proof (induction rule: lock_step.induct)
  case (call T k u op tab r u' tab')
  then have u: "txn_id u = k" "covers u tab" "table_ok tab" by (auto simp: sys_ok_def)
  from op_effect [OF u(3,2) call.hyps(2), unfolded u(1)] call.prems call.hyps(1) show ?case
    by (cases "k = tid") (auto simp: released_def)
qed (auto simp: released_def)

lemma lock_reach_released:
  "lock_step\<^sup>*\<^sup>* S S' \<Longrightarrow> sys_ok S \<Longrightarrow> fst S tid = Some t \<Longrightarrow> \<not> growing t \<Longrightarrow> released tid S S'"
proof (induction rule: rtranclp_induct)
  case (step Y Z)
  then obtain u where "fst Y tid = Some u" "\<not> growing u" by (auto simp: released_def)
  with lock_step_released [OF step.hyps(2) lock_reach_ok [OF step.hyps(1) step.prems(1)]] step
  show ?case by (auto simp: released_def)
qed (auto simp: released_def)

section \<open>Properties\<close>

text \<open>Two transactions that have both read-locked record (1, 0) of file 3.\<close>

definition two_readers :: lock_sys where
  "two_readers =
     (let l = record_lock_id 3 (Rid 1 0); t = (\<lambda>k. (new_Transaction k)\<lparr>txn_state := GROWING, lock_set := [l]\<rparr>)
      in ([0 \<mapsto> t 0, 1 \<mapsto> t 1],
          [(l, \<lparr>request_queue = [\<lparr>lr_txn_id = 0, lr_mode = SHARED, lr_granted = True\<rparr>,
                                  \<lparr>lr_txn_id = 1, lr_mode = SHARED, lr_granted = True\<rparr>],
                group_lock_mode = S_GROUP\<rparr>)]))"

lemmas lock_run = lock_defs request_lock_def bindc_def check_lock_def grant_in_queue_def queue_at_def
  empty_queue_def emplace_def own_request_def lock_set_emplace_def new_Transaction_def Let_def

lemma two_readers_reached: "lock_step\<^sup>*\<^sup>* (Map.empty, []) two_readers"
proof -
  let ?l = "record_lock_id 3 (Rid 1 0)" and ?t = "\<lambda>k. (new_Transaction k)\<lparr>txn_state := GROWING, lock_set := [record_lock_id 3 (Rid 1 0)]\<rparr>"
  let ?q = "[\<lparr>lr_txn_id = 0, lr_mode = SHARED, lr_granted = True\<rparr>]"
  let ?tab = "[(?l, \<lparr>request_queue = ?q, group_lock_mode = S_GROUP\<rparr>)]"
  let ?T0 = "[0 \<mapsto> new_Transaction 0] :: int \<rightharpoonup> txn"
  have a: "lock_step (Map.empty, []) (?T0, [])" by (rule begin_txn) simp
  have b: "lock_step (?T0, []) (?T0(1 \<mapsto> new_Transaction 1), [])" by (rule begin_txn) simp
  have c: "lock_step (?T0(1 \<mapsto> new_Transaction 1), []) ((?T0(1 \<mapsto> new_Transaction 1))(0 \<mapsto> ?t 0), ?tab)"
    by (rule call [where op = "LockS (Rid 1 0) 3" and r = "Inr True" and t = "new_Transaction 0"]) (simp_all add: lock_run)
  have d: "lock_step ((?T0(1 \<mapsto> new_Transaction 1))(0 \<mapsto> ?t 0), ?tab)
      (((?T0(1 \<mapsto> new_Transaction 1))(0 \<mapsto> ?t 0))(1 \<mapsto> ?t 1),
       [(?l, \<lparr>request_queue = ?q @ [\<lparr>lr_txn_id = 1, lr_mode = SHARED, lr_granted = True\<rparr>], group_lock_mode = S_GROUP\<rparr>)])"
    by (rule call [where op = "LockS (Rid 1 0) 3" and r = "Inr True" and t = "new_Transaction 1"]) (simp_all add: lock_run)
  have "two_readers = (((?T0(1 \<mapsto> new_Transaction 1))(0 \<mapsto> ?t 0))(1 \<mapsto> ?t 1),
       [(?l, \<lparr>request_queue = ?q @ [\<lparr>lr_txn_id = 1, lr_mode = SHARED, lr_granted = True\<rparr>], group_lock_mode = S_GROUP\<rparr>)])"
    by (auto simp: two_readers_def fun_eq_iff Let_def)
  with a b c d show ?thesis by (metis (no_types, lifting) rtranclp.simps)
qed

lemma two_readers_held:
  "held_mode (snd two_readers) (record_lock_id 3 (Rid 1 0)) 0 = Some SHARED"
  "held_mode (snd two_readers) (record_lock_id 3 (Rid 1 0)) 1 = Some SHARED"
  by (simp_all add: two_readers_def held_mode_def queue_at_def own_request_def Let_def)

text \<open>
  Property C9. No conflicting locks: in every state the system of transactions reaches,
  whatever the interleaving, two transactions holding a lock on the same record or table hold
  it in compatible modes, and the group mode of every queue is the strongest mode held in it.
\<close>

theorem no_conflicting_locks:
  assumes "lock_step\<^sup>*\<^sup>* (Map.empty, []) (T, tab)"
  shows "(\<forall>l a b ma mb. a \<noteq> b \<and> held_mode tab l a = Some ma \<and> held_mode tab l b = Some mb \<longrightarrow> compatible ma mb) \<and>
     (\<forall>l. group_lock_mode (queue_at tab l) = group_of (request_queue (queue_at tab l)))"
proof -
  have w: "table_ok tab" using lock_reach_ok [OF assms sys_ok_init] by (simp add: sys_ok_def)
  have "group_lock_mode (queue_at tab l) = group_of (request_queue (queue_at tab l))" for l
    using table_ok_at(1) [OF w] by (simp add: queue_ok_def)
  with holders_compatible [OF w] show ?thesis by blast
qed

theorem no_conflicting_locks_witness:
  "compatible SHARED SHARED \<and> group_lock_mode (queue_at (snd two_readers) (record_lock_id 3 (Rid 1 0))) = S_GROUP"
proof -
  note n = no_conflicting_locks [of "fst two_readers" "snd two_readers", unfolded prod.collapse, OF two_readers_reached]
  have "compatible SHARED SHARED" using n two_readers_held by (metis zero_neq_one)
  moreover have "group_of (request_queue (queue_at (snd two_readers) (record_lock_id 3 (Rid 1 0)))) = S_GROUP"
    by (simp add: two_readers_def queue_at_def Let_def group_of_def mode_count_def)
  ultimately show ?thesis using n by metis
qed

text \<open>
  Property C10. A lock request of a transaction that may still acquire locks is decided
  exactly by compatibility: it is granted if and only if the mode the caller would then have
  (the join of the mode it holds, if any, and the mode asked for) is compatible with the mode
  of every other holder; then the caller holds that mode and has the lock in its lock set.
  Otherwise the caller is aborted at once (\<open>DEADLOCK_PREVENTION\<close>, no waiting) and nobody's
  locks have changed. This covers the six kinds of request, upgrades included.
\<close>

theorem lock_request_decided_by_compatibility:
  assumes "table_ok tab" and "op_request op = Some (l, mode)" and "growing t" and "covers t tab"
    and "run_op op (t, tab) = (r, (t', tab'))"
  shows "(r = Inr True \<longleftrightarrow>
        (\<forall>k m. k \<noteq> txn_id t \<longrightarrow> held_mode tab l k = Some m \<longrightarrow> compatible (wanted_mode mode tab l (txn_id t)) m)) \<and>
     (r = Inr True \<longrightarrow> held_mode tab' l (txn_id t) = Some (wanted_mode mode tab l (txn_id t)) \<and> l \<in> set (lock_set t')) \<and>
     (r \<noteq> Inr True \<longrightarrow> r = Inl (TransactionAbortException (txn_id t) DEADLOCK_PREVENTION) \<and> held_mode tab' = held_mode tab)"
proof -
  from op_request_outcome(1) [OF assms(1,2,3)] assms(5)
  have out: "outcome mode tab l (t\<lparr>txn_state := GROWING\<rparr>) (r, (t', tab'))" by simp
  have "covers t' tab'" using op_effect [OF assms(1,4,5)] by simp
  with out show ?thesis
    by (cases "grantable mode tab l (txn_id t)") (auto simp: outcome_def grantable_def covers_def lock_set_emplace_def)
qed

theorem lock_request_decided_by_compatibility_witness:
  "fst (run_op (LockX (Rid 1 0) 3) (the (fst two_readers 1), snd two_readers)) =
     Inl (TransactionAbortException 1 DEADLOCK_PREVENTION)"
proof -
  let ?t = "the (fst two_readers 1)"
  have "sys_ok two_readers" by (rule lock_reach_ok [OF two_readers_reached sys_ok_init])
  then have w: "table_ok (snd two_readers)" "covers ?t (snd two_readers)" "txn_id ?t = 1" "growing ?t"
    by (auto simp: sys_ok_def two_readers_def new_Transaction_def Let_def)
  obtain r t' tab' where o: "run_op (LockX (Rid 1 0) 3) (?t, snd two_readers) = (r, (t', tab'))" by (metis prod.exhaust)
  from lock_request_decided_by_compatibility [OF w(1) op_request.simps(2) w(4,2) o] two_readers_held w(3)
  have "r = Inl (TransactionAbortException 1 DEADLOCK_PREVENTION)"
    by (auto simp: wanted_mode_def)
  with o show ?thesis by simp
qed

text \<open>Who holds a lock is in its growing or its shrinking phase.\<close>

definition holders_active :: "lock_sys \<Rightarrow> bool" where
  "holders_active S \<longleftrightarrow> (\<forall>tid t l. fst S tid = Some t \<longrightarrow> held_mode (snd S) l tid \<noteq> None \<longrightarrow>
     txn_state t = GROWING \<or> txn_state t = SHRINKING)"

lemma op_active:
  assumes w: "table_ok tab" and o: "run_op op (t, tab) = (r, (t', tab'))"
    and a: "\<And>l. held_mode tab l (txn_id t) \<noteq> None \<Longrightarrow> txn_state t = GROWING \<or> txn_state t = SHRINKING"
    and h: "held_mode tab' l (txn_id t) \<noteq> None"
  shows "txn_state t' = GROWING \<or> txn_state t' = SHRINKING"
proof (cases "op_request op")
  case None
  then obtain k where op: "op = Release k" by (cases op) auto
  show ?thesis
  proof (cases "txn_state t = ABORTED \<or> txn_state t = COMMITTED")
    case True
    then have "t' = t" "tab' = tab" using o op by (auto simp: unlock_def)
    with a h show ?thesis by simp
  next
    case False
    from unlock_effect(3,4) [OF w _ _ o [unfolded op run_op.simps]] False a [of l] h show ?thesis by (auto split: if_splits)
  qed
next
  case (Some x)
  then obtain k mode where q: "op_request op = Some (k, mode)" by (cases x) auto
  note oc = op_request_outcome [OF w q, of t]
  show ?thesis
  proof (cases "growing t")
    case True
    with oc(1) o have "outcome mode tab k (t\<lparr>txn_state := GROWING\<rparr>) (r, (t', tab'))" by simp
    then show ?thesis by (auto simp: outcome_def lock_set_emplace_def split: if_splits)
  next
    case False
    then have "t' = t" "tab' = tab" using oc(2,3) o by (cases "txn_state t"; auto)+
    with a h show ?thesis by simp
  qed
qed

lemma lock_step_active: "lock_step S S' \<Longrightarrow> sys_ok S \<Longrightarrow> holders_active S \<Longrightarrow> holders_active S'"
proof (induction rule: lock_step.induct)
  case (begin_txn T tid tab)
  then have "held_mode tab l tid = None" for l unfolding sys_ok_def by fastforce
  with begin_txn show ?case by (auto simp: holders_active_def)
next
  case (call T tid t op tab r t' tab')
  then have t: "txn_id t = tid" "covers t tab" "table_ok tab" by (auto simp: sys_ok_def)
  note e = op_effect [OF t(3,2) call.hyps(2), unfolded t(1)] and a = op_active [OF t(3) call.hyps(2), unfolded t(1)]
  show ?case
    unfolding holders_active_def
  proof (intro allI impI)
    fix k u l assume k: "fst (T(tid \<mapsto> t'), tab') k = Some u" "held_mode (snd (T(tid \<mapsto> t'), tab')) l k \<noteq> None"
    show "txn_state u = GROWING \<or> txn_state u = SHRINKING"
    proof (cases "k = tid")
      case True
      have "txn_state t = GROWING \<or> txn_state t = SHRINKING" if "held_mode tab j tid \<noteq> None" for j
        using call.prems(2) call.hyps(1) that unfolding holders_active_def by force
      from a [OF this] k True show ?thesis by simp
    next
      case False
      then have "T k = Some u" "held_mode tab l k \<noteq> None" using k e by auto
      with call.prems(2) show ?thesis unfolding holders_active_def by force
    qed
  qed
qed (auto simp: holders_active_def)

lemma lock_reach_active:
  assumes "lock_step\<^sup>*\<^sup>* (Map.empty, []) S"
  shows "holders_active S"
proof -
  have "lock_step\<^sup>*\<^sup>* (Map.empty, []) S \<Longrightarrow> sys_ok S \<and> holders_active S"
    by (induction rule: rtranclp_induct) (use sys_ok_init lock_step_ok lock_step_active in \<open>auto simp: holders_active_def\<close>)
  with assms show ?thesis by blast
qed

text \<open>
  Property C11. Two-phase locking. When a transaction releases a lock it holds, the release
  succeeds, and in whatever interleaving of steps of all transactions follows it never again
  holds that lock, gains no other and strengthens none; any lock it requests then is refused
  with the exception \<open>LOCK_ON_SHIRINKING\<close> (after its commit or abort: by returning false), without
  an effect on the lock table.
\<close>

theorem two_phase_locking:
  assumes "lock_step\<^sup>*\<^sup>* (Map.empty, []) (T, tab)" and "T tid = Some t" and "held_mode tab l tid \<noteq> None"
    and "run_op (Release l) (t, tab) = (r, (t', tab'))" and "lock_step\<^sup>*\<^sup>* (T(tid \<mapsto> t'), tab') S'"
  shows "r = Inr True \<and> held_mode (snd S') l tid = None \<and>
     (\<forall>k m. held_mode (snd S') k tid = Some m \<longrightarrow> held_mode tab k tid = Some m) \<and>
     (\<exists>u. fst S' tid = Some u \<and> (\<forall>op. op_request op \<noteq> None \<longrightarrow>
        run_op op (u, snd S') = (if txn_state u = SHRINKING then Inl (TransactionAbortException tid LOCK_ON_SHIRINKING)
                                 else Inr False, (u, snd S'))))"
proof -
  let ?S = "(T(tid \<mapsto> t'), tab')"
  have w: "sys_ok (T, tab)" by (rule lock_reach_ok [OF assms(1) sys_ok_init])
  then have t: "table_ok tab" "txn_id t = tid" using assms(2) by (auto simp: sys_ok_def)
  have "lock_step (T, tab) ?S" using assms(2,4) by (rule call)
  then have w': "sys_ok ?S" using w by (rule lock_step_ok)
  have st: "txn_state t = GROWING \<or> txn_state t = SHRINKING"
    using lock_reach_active [OF assms(1)] assms(2,3) by (auto simp: holders_active_def)
  then have "txn_state t \<noteq> ABORTED" "txn_state t \<noteq> COMMITTED" by auto
  note e = unlock_effect [OF t(1) this assms(4) [unfolded run_op.simps], unfolded t(2)]
  have "\<not> growing t'" using e(4) st by auto
  from lock_reach_released [OF assms(5) w' _ this] have rl: "released tid ?S S'" by simp
  then obtain u where u: "fst S' tid = Some u" "\<not> growing u" by (auto simp: released_def)
  have "sys_ok S'" by (rule lock_reach_ok [OF assms(5) w'])
  then have u': "table_ok (snd S')" "txn_id u = tid" using u(1) by (auto simp: sys_ok_def split: prod.splits)
  have q: "run_op op (u, snd S') = (if txn_state u = SHRINKING then Inl (TransactionAbortException tid LOCK_ON_SHIRINKING)
      else Inr False, (u, snd S'))" if "op_request op \<noteq> None" for op
    using op_request_outcome(2,3) [OF u'(1), of op _ _ u] that u(2) u'(2) by (cases "txn_state u") auto
  have h: "held_mode tab' k tid = Some m" if "held_mode (snd S') k tid = Some m" for k m
    using rl that by (simp add: released_def)
  have "held_mode tab k tid = Some m \<and> k \<noteq> l" if "held_mode (snd S') k tid = Some m" for k m
    using h [OF that] e(3) by (auto split: if_splits)
  then have "held_mode (snd S') l tid = None" "\<forall>k m. held_mode (snd S') k tid = Some m \<longrightarrow> held_mode tab k tid = Some m"
    by (metis not_Some_eq, blast)
  with q u(1) e(2) show ?thesis by blast
qed

text \<open>The second of the two readers lets its lock go.\<close>

definition one_reader :: lock_sys where
  "one_reader = (case run_op (Release (record_lock_id 3 (Rid 1 0))) (the (fst two_readers 1), snd two_readers) of
     (_, (t', tab')) \<Rightarrow> ((fst two_readers)(1 \<mapsto> t'), tab'))"

theorem two_phase_locking_witness:
  "run_op (LockS (Rid 2 0) 3) (the (fst one_reader 1), snd one_reader) =
     (Inl (TransactionAbortException 1 LOCK_ON_SHIRINKING), (the (fst one_reader 1), snd one_reader))"
proof -
  let ?l = "record_lock_id 3 (Rid 1 0)" and ?t = "the (fst two_readers 1)"
  obtain r t' tab' where o: "run_op (Release ?l) (?t, snd two_readers) = (r, (t', tab'))" by (metis prod.exhaust)
  then have s: "one_reader = ((fst two_readers)(1 \<mapsto> t'), tab')" by (simp add: one_reader_def del: run_op.simps)
  have sh: "txn_state (the (fst one_reader 1)) = SHRINKING"
    by (simp add: one_reader_def two_readers_def unlock_def Let_def new_Transaction_def)
  have "lock_step\<^sup>*\<^sup>* (Map.empty, []) (fst two_readers, snd two_readers)" using two_readers_reached by simp
  note p = two_phase_locking [OF this _ _ o rtranclp.rtrancl_refl, of 1]
  have "fst two_readers 1 = Some ?t" "held_mode (snd two_readers) ?l 1 \<noteq> None"
    using two_readers_held by (auto simp: two_readers_def Let_def)
  from p [OF this] sh show ?thesis by (simp add: s del: run_op.simps)
qed

end
