(* ===== verification/Record_Page.thy ===== *)
theory Record_Page
  imports Common
begin

unbundle bit_operations_syntax

text \<open>
  The layout of a page of a table file: the bitmap of \<open>src/src/record/bitmap.h\<close>, the headers
  of \<open>rm_defs.h\<close>, and \<open>RmPageHandle\<close> of \<open>rm_file_handle.h\<close>. A pointer into a page is the
  page's byte list with an offset. A page holds its log sequence number at offset 0, the page
  header at 4, the bitmap at 12, then the slots. The lemmas give the page as a partial map
  from slot numbers to records, and how each write changes it.
\<close>

section \<open>Bitmap\<close>

definition BITMAP_WIDTH :: nat where "BITMAP_WIDTH = 8"
definition BITMAP_HIGHEST_BIT :: byte where "BITMAP_HIGHEST_BIT = 0x80"

definition get_bucket :: "nat \<Rightarrow> nat" where
  "get_bucket pos = pos div BITMAP_WIDTH"

definition get_bit :: "nat \<Rightarrow> byte" where
  "get_bit pos = drop_bit (pos mod BITMAP_WIDTH) BITMAP_HIGHEST_BIT"

text \<open>\<open>bm\<close> is the offset of the bitmap in the buffer.\<close>

definition bitmap_init :: "nat \<Rightarrow> nat \<Rightarrow> byte list \<Rightarrow> byte list" where
  "bitmap_init bm sz buf = write_at bm (replicate sz 0) buf"

definition bitmap_set :: "nat \<Rightarrow> nat \<Rightarrow> byte list \<Rightarrow> byte list" where
  "bitmap_set bm pos buf = (let k = bm + get_bucket pos in buf[k := buf ! k OR get_bit pos])"

definition bitmap_reset :: "nat \<Rightarrow> nat \<Rightarrow> byte list \<Rightarrow> byte list" where
  "bitmap_reset bm pos buf = (let k = bm + get_bucket pos in buf[k := buf ! k AND NOT (get_bit pos)])"

definition is_set :: "nat \<Rightarrow> byte list \<Rightarrow> nat \<Rightarrow> bool" where
  "is_set bm buf pos \<longleftrightarrow> buf ! (bm + get_bucket pos) AND get_bit pos \<noteq> 0"

function next_from :: "bool \<Rightarrow> nat \<Rightarrow> byte list \<Rightarrow> nat \<Rightarrow> nat \<Rightarrow> nat" where
  "next_from b bm buf max_n i =
     (if i < max_n then if is_set bm buf i = b then i else next_from b bm buf max_n (i + 1) else max_n)"
  by pat_completeness auto
termination by (relation "measure (\<lambda>(b, bm, buf, max_n, i). max_n - i)") auto

declare next_from.simps [simp del]

definition next_bit :: "bool \<Rightarrow> nat \<Rightarrow> byte list \<Rightarrow> nat \<Rightarrow> int \<Rightarrow> nat" where
  "next_bit b bm buf max_n cur = next_from b bm buf max_n (nat (cur + 1))"

definition first_bit :: "bool \<Rightarrow> nat \<Rightarrow> byte list \<Rightarrow> nat \<Rightarrow> nat" where
  "first_bit b bm buf max_n = next_bit b bm buf max_n (- 1)"

section \<open>File header and page header\<close>

definition RM_NO_PAGE :: int where "RM_NO_PAGE = - 1"
definition RM_FILE_HDR_PAGE :: int where "RM_FILE_HDR_PAGE = 0"
definition RM_FIRST_RECORD_PAGE :: int where "RM_FIRST_RECORD_PAGE = 1"
definition RM_MAX_RECORD_SIZE :: int where "RM_MAX_RECORD_SIZE = 512"

record RmFileHdr =
  record_size :: nat
  num_pages :: int
  num_records_per_page :: nat
  first_free_page_no :: int
  bitmap_size :: nat

definition hdr_bytes :: "RmFileHdr \<Rightarrow> byte list" where
  "hdr_bytes h =
     put_int 4 (int (record_size h)) @ put_int 4 (num_pages h) @ put_int 4 (int (num_records_per_page h)) @
     put_int 4 (first_free_page_no h) @ put_int 4 (int (bitmap_size h))"

definition hdr_of_bytes :: "byte list \<Rightarrow> RmFileHdr" where
  "hdr_of_bytes bs =
     \<lparr>record_size = nat (get_int (read_at 0 4 bs)), num_pages = get_int (read_at 4 4 bs),
      num_records_per_page = nat (get_int (read_at 8 4 bs)), first_free_page_no = get_int (read_at 12 4 bs),
      bitmap_size = nat (get_int (read_at 16 4 bs))\<rparr>"

definition OFFSET_PAGE_LSN :: nat where "OFFSET_PAGE_LSN = 0"
definition OFFSET_PAGE_HDR :: nat where "OFFSET_PAGE_HDR = 4"

text \<open>\<open>RmPageHandle\<close>: where the parts of a page begin.\<close>

definition next_free_off :: nat where "next_free_off = OFFSET_PAGE_HDR"
definition num_records_off :: nat where "num_records_off = OFFSET_PAGE_HDR + 4"
definition bitmap_off :: nat where "bitmap_off = OFFSET_PAGE_HDR + 8"

definition get_slot :: "RmFileHdr \<Rightarrow> nat \<Rightarrow> nat" where
  "get_slot h slot_no = bitmap_off + bitmap_size h + slot_no * record_size h"

definition next_free_page_no :: "byte list \<Rightarrow> int" where
  "next_free_page_no d = get_int (read_at next_free_off 4 d)"

definition num_records :: "byte list \<Rightarrow> int" where
  "num_records d = get_int (read_at num_records_off 4 d)"

definition set_next_free_page_no :: "int \<Rightarrow> byte list \<Rightarrow> byte list" where
  "set_next_free_page_no i d = write_at next_free_off (put_int 4 i) d"

definition set_num_records :: "int \<Rightarrow> byte list \<Rightarrow> byte list" where
  "set_num_records i d = write_at num_records_off (put_int 4 i) d"

definition page_lsn :: "byte list \<Rightarrow> int" where
  "page_lsn d = get_int (read_at OFFSET_PAGE_LSN 4 d)"

definition set_page_lsn :: "int \<Rightarrow> byte list \<Rightarrow> byte list" where
  "set_page_lsn i d = write_at OFFSET_PAGE_LSN (put_int 4 i) d"

section \<open>Bits\<close>

lemma get_bit_bit: "bit (get_bit pos) n \<longleftrightarrow> n = 7 - pos mod 8"
proof -
  have h: "bit BITMAP_HIGHEST_BIT m \<longleftrightarrow> m = 7" for m
    using bit_exp_iff [where 'a = "8 word", of 7 m] by (auto simp: BITMAP_HIGHEST_BIT_def)
  have "pos mod 8 < 8" by simp
  then have "pos mod 8 + n = 7 \<longleftrightarrow> n = 7 - pos mod 8" by linarith
  then show ?thesis by (simp add: get_bit_def BITMAP_WIDTH_def bit_drop_bit_eq h)
qed

lemma and_get_bit: "(b :: byte) AND get_bit pos \<noteq> 0 \<longleftrightarrow> bit b (7 - pos mod 8)"
proof -
  have "b AND get_bit pos \<noteq> 0 \<longleftrightarrow> (\<exists>n. bit (b AND get_bit pos) n)"
    by (metis bit_0_eq bit_eqI bot2E bot_apply)
  then show ?thesis by (simp add: bit_and_iff get_bit_bit)
qed

lemma is_set_bit: "is_set bm buf pos \<longleftrightarrow> bit (buf ! (bm + pos div 8)) (7 - pos mod 8)"
  by (simp add: is_set_def and_get_bit get_bucket_def BITMAP_WIDTH_def)

lemma bit_index [simp]: "7 - q mod 8 < (8::nat)"
  by (rule le_less_trans [OF diff_le_self]) simp

lemma same_bit: "7 - pos mod 8 = 7 - q mod (8::nat) \<longleftrightarrow> pos mod 8 = q mod 8"
proof -
  have "pos mod 8 < 8" "q mod 8 < 8" by simp_all
  then show ?thesis by linarith
qed

lemma same_pos: "pos div 8 = q div 8 \<and> pos mod 8 = q mod (8::nat) \<longleftrightarrow> pos = q"
  by (metis div_mult_mod_eq)

lemma is_set_set:
  "bm + pos div 8 < length buf \<Longrightarrow> is_set bm (bitmap_set bm pos buf) q \<longleftrightarrow> q = pos \<or> is_set bm buf q"
  using same_bit [of q pos] same_pos [of q pos]
  by (auto simp: is_set_bit bitmap_set_def Let_def get_bucket_def BITMAP_WIDTH_def nth_list_update bit_or_iff get_bit_bit)

lemma is_set_reset:
  "bm + pos div 8 < length buf \<Longrightarrow> is_set bm (bitmap_reset bm pos buf) q \<longleftrightarrow> q \<noteq> pos \<and> is_set bm buf q"
  using same_bit [of q pos] same_pos [of q pos]
  by (auto simp: is_set_bit bitmap_reset_def Let_def get_bucket_def BITMAP_WIDTH_def nth_list_update bit_and_iff bit_not_iff get_bit_bit possible_bit_word)

lemma length_bitmap [simp]: "length (bitmap_set bm pos buf) = length buf" "length (bitmap_reset bm pos buf) = length buf"
  by (simp_all add: bitmap_set_def bitmap_reset_def Let_def)

text \<open>The search finds the first position from \<open>i\<close> on with the bit asked for.\<close>

lemma next_from_spec:
  "next_from b bm buf max_n i = j \<Longrightarrow> i \<le> max_n \<Longrightarrow>
   i \<le> j \<and> j \<le> max_n \<and> (\<forall>k. i \<le> k \<and> k < j \<longrightarrow> is_set bm buf k \<noteq> b) \<and> (j < max_n \<longrightarrow> is_set bm buf j = b)"
proof (induction b bm buf max_n i rule: next_from.induct)
  case (1 b bm buf max_n i)
  show ?case
  proof (cases "i < max_n \<and> is_set bm buf i \<noteq> b")
    case True
    then have n: "next_from b bm buf max_n (i + 1) = j" using 1(2) by (subst (asm) next_from.simps) auto
    have "i + 1 \<le> j \<and> j \<le> max_n \<and> (\<forall>k. i + 1 \<le> k \<and> k < j \<longrightarrow> is_set bm buf k \<noteq> b) \<and> (j < max_n \<longrightarrow> is_set bm buf j = b)"
      by (rule 1(1)) (use True n in auto)
    moreover have "is_set bm buf k \<noteq> b" if "i \<le> k" "k < j" for k
      using that True calculation by (cases "k = i") auto
    ultimately show ?thesis by auto
  next
    case False
    then show ?thesis using 1(2,3) by (subst (asm) next_from.simps) (auto split: if_splits)
  qed
qed

section \<open>A page as a map from slots to records\<close>

text \<open>The layout fits: the bitmap has a bit for every slot and the slots end inside the page.\<close>

definition hdr_ok :: "RmFileHdr \<Rightarrow> bool" where
  "hdr_ok h \<longleftrightarrow> 0 < record_size h \<and> 0 < num_records_per_page h \<and> num_records_per_page h \<le> 8 * bitmap_size h \<and>
     bitmap_off + bitmap_size h + num_records_per_page h * record_size h \<le> PAGE_SIZE"

definition page_view :: "RmFileHdr \<Rightarrow> byte list \<Rightarrow> nat \<rightharpoonup> byte list" where
  "page_view h d i =
     (if i < num_records_per_page h \<and> is_set bitmap_off d i then Some (read_at (get_slot h i) (record_size h) d) else None)"

lemmas page_offs = next_free_off_def num_records_off_def bitmap_off_def OFFSET_PAGE_HDR_def OFFSET_PAGE_LSN_def

lemma slot_inside: "hdr_ok h \<Longrightarrow> i < num_records_per_page h \<Longrightarrow> get_slot h i + record_size h \<le> PAGE_SIZE"
proof -
  assume h: "hdr_ok h" "i < num_records_per_page h"
  then have "Suc i * record_size h \<le> num_records_per_page h * record_size h" by (intro mult_le_mono1) simp
  with h show ?thesis by (simp add: get_slot_def hdr_ok_def)
qed

lemma bit_inside: "hdr_ok h \<Longrightarrow> i < num_records_per_page h \<Longrightarrow> i div 8 < bitmap_size h"
  by (simp add: hdr_ok_def less_mult_imp_div_less mult.commute)

lemma bit_before_slot: "hdr_ok h \<Longrightarrow> i < num_records_per_page h \<Longrightarrow> bitmap_off + i div 8 < get_slot h j"
  using bit_inside [of h i] by (simp add: get_slot_def)

lemma bit_in_page: "hdr_ok h \<Longrightarrow> i < num_records_per_page h \<Longrightarrow> bitmap_off + i div 8 < PAGE_SIZE"
  using bit_before_slot [of h i i] slot_inside [of h i] by simp

lemma slots_disjoint:
  assumes "i \<noteq> j"
  shows "get_slot h i + record_size h \<le> get_slot h j \<or> get_slot h j + record_size h \<le> get_slot h i"
proof -
  have "Suc a * record_size h \<le> b * record_size h" if "a < b" for a b using that by (intro mult_le_mono1) simp
  from this [of i j] this [of j i] assms show ?thesis by (cases "i < j") (auto simp: get_slot_def)
qed

lemma nth_bitmap_set: "k \<noteq> bm + pos div 8 \<Longrightarrow> bitmap_set bm pos d ! k = d ! k"
  and nth_bitmap_reset: "k \<noteq> bm + pos div 8 \<Longrightarrow> bitmap_reset bm pos d ! k = d ! k"
  by (simp_all add: bitmap_set_def bitmap_reset_def Let_def get_bucket_def BITMAP_WIDTH_def)

lemma read_at_cong:
  "length d' = length d \<Longrightarrow> off + n \<le> length d \<Longrightarrow> (\<And>k. off \<le> k \<Longrightarrow> k < off + n \<Longrightarrow> d' ! k = d ! k) \<Longrightarrow>
   read_at off n d' = read_at off n d"
  by (rule nth_equalityI) (auto simp: length_read_at nth_read_at)

text \<open>A bitmap update disturbs neither the headers nor the slots.\<close>

lemma read_bitmap_low:
  assumes "off + n \<le> bitmap_off" and "bitmap_off \<le> length d"
  shows "read_at off n (bitmap_set bitmap_off i d) = read_at off n d" "read_at off n (bitmap_reset bitmap_off i d) = read_at off n d"
  using assms by (auto intro!: read_at_cong nth_bitmap_set nth_bitmap_reset)

lemma read_bitmap_slot:
  assumes "hdr_ok h" and "i < num_records_per_page h" and "j < num_records_per_page h" and "length d = PAGE_SIZE"
  shows "read_at (get_slot h j) (record_size h) (bitmap_set bitmap_off i d) = read_at (get_slot h j) (record_size h) d"
    "read_at (get_slot h j) (record_size h) (bitmap_reset bitmap_off i d) = read_at (get_slot h j) (record_size h) d"
  using assms bit_before_slot [of h i j] slot_inside [of h j]
  by (auto intro!: read_at_cong nth_bitmap_set nth_bitmap_reset)

lemma is_set_write:
  assumes "off + length bs \<le> length d" and "bm + q div 8 < length d" and "bm + q div 8 < off \<or> off + length bs \<le> bm + q div 8"
  shows "is_set bm (write_at off bs d) q = is_set bm d q"
  using assms nth_write_at [OF assms(1,2)] by (auto simp: is_set_bit)

text \<open>The effect of each write on the view of the page.\<close>

lemma page_view_low:
  assumes "hdr_ok h" and "length d = PAGE_SIZE" and "off + length bs \<le> bitmap_off"
  shows "page_view h (write_at off bs d) = page_view h d"
proof
  fix i
  show "page_view h (write_at off bs d) i = page_view h d i"
  proof (cases "i < num_records_per_page h")
    case True
    note b = slot_inside [OF assms(1) True] bit_in_page [OF assms(1) True] bit_before_slot [OF assms(1) True, of i]
    have "read_at (get_slot h i) (record_size h) (write_at off bs d) = read_at (get_slot h i) (record_size h) d"
      by (rule read_write_disj) (use b assms in auto)
    moreover have "is_set bitmap_off (write_at off bs d) i = is_set bitmap_off d i"
      by (rule is_set_write) (use b assms in auto)
    ultimately show ?thesis by (simp add: page_view_def)
  qed (simp add: page_view_def)
qed

lemma page_view_slot:
  assumes "hdr_ok h" and "length d = PAGE_SIZE" and "length bs = record_size h" and "i < num_records_per_page h"
  shows "page_view h (write_at (get_slot h i) bs d) =
     (if is_set bitmap_off d i then (page_view h d)(i \<mapsto> bs) else page_view h d)"
proof
  fix j
  note bi = slot_inside [OF assms(1,4)]
  show "page_view h (write_at (get_slot h i) bs d) j = (if is_set bitmap_off d i then (page_view h d)(i \<mapsto> bs) else page_view h d) j"
  proof (cases "j < num_records_per_page h")
    case True
    note b = slot_inside [OF assms(1) True] bit_in_page [OF assms(1) True] bit_before_slot [OF assms(1) True, of i]
    have "is_set bitmap_off (write_at (get_slot h i) bs d) j = is_set bitmap_off d j"
      by (rule is_set_write) (use b bi assms in auto)
    moreover have "read_at (get_slot h j) (record_size h) (write_at (get_slot h i) bs d) =
        (if j = i then bs else read_at (get_slot h j) (record_size h) d)"
      using bi b assms slots_disjoint [of j i h] by (auto simp: read_write_same intro!: read_write_disj)
    ultimately show ?thesis using True by (simp add: page_view_def)
  next
    case False
    then show ?thesis using assms(4) by (auto simp: page_view_def)
  qed
qed

lemma page_view_set:
  assumes "hdr_ok h" and "length d = PAGE_SIZE" and "i < num_records_per_page h"
  shows "page_view h (bitmap_set bitmap_off i d) = (page_view h d)(i \<mapsto> read_at (get_slot h i) (record_size h) d)"
  using assms bit_in_page [OF assms(1,3)]
  by (auto simp: fun_eq_iff page_view_def is_set_set read_bitmap_slot)

lemma page_view_reset:
  assumes "hdr_ok h" and "length d = PAGE_SIZE" and "i < num_records_per_page h"
  shows "page_view h (bitmap_reset bitmap_off i d) = (page_view h d)(i := None)"
  using assms bit_in_page [OF assms(1,3)]
  by (auto simp: fun_eq_iff page_view_def is_set_reset read_bitmap_slot)

lemma page_view_dom: "page_view h d i \<noteq> None \<longleftrightarrow> i < num_records_per_page h \<and> is_set bitmap_off d i"
  by (simp add: page_view_def)

lemma finite_page_view [simp]: "finite (dom (page_view h d))"
  by (rule finite_subset [of _ "{..<num_records_per_page h}"]) (auto simp: page_view_def split: if_splits)

text \<open>The first free slot of a page that is not full.\<close>

lemma free_slot:
  assumes "card (dom (page_view h d)) < num_records_per_page h"
  defines "i \<equiv> next_bit False bitmap_off d (num_records_per_page h) (- 1)"
  shows "i < num_records_per_page h" "page_view h d i = None" "\<forall>k < i. page_view h d k \<noteq> None"
proof -
  let ?n = "num_records_per_page h"
  have i: "next_from False bitmap_off d ?n 0 = i" by (simp add: i_def next_bit_def)
  note sp = next_from_spec [OF i]
  show lt: "i < ?n"
  proof (rule ccontr)
    assume "\<not> i < ?n"
    with sp have "\<forall>k < ?n. is_set bitmap_off d k" by auto
    then have "dom (page_view h d) = {..<?n}" by (auto simp: page_view_def split: if_splits)
    with assms(1) show False by simp
  qed
  with sp show "page_view h d i = None" "\<forall>k < i. page_view h d k \<noteq> None" by (auto simp: page_view_def)
qed

end
