(* ===== verification/Record_File.thy ===== *)
theory Record_File
  imports Buffer_Pool_Spec Lock_Manager Record_Page
begin

text \<open>
  Table files: \<open>src/src/record/rm_file_handle.{h,cpp}\<close>, \<open>rm_manager.h\<close> and \<open>rm_scan.cpp\<close>.
  An operation of a file handle works on the handle's file header, the buffer pool (with the
  disk below it) and, through the context, the calling transaction and the lock table. A
  context argument is \<open>False\<close> for \<open>nullptr\<close>. A page handle is the frame of its page. Accesses
  the code does not check (a null context or page, a slot outside the page) are undefined
  behaviour, as an error value.
\<close>

section \<open>State\<close>

record rm_world =
  rw_hdr :: RmFileHdr
  rw_bpm :: bpm
  rw_locks :: lock_state

definition in_pool :: "(bpm, 'a) rcmd \<Rightarrow> (rm_world, 'a) rcmd" where
  "in_pool = zoom rw_bpm (\<lambda>b s. s\<lparr>rw_bpm := b\<rparr>)"

definition in_locks :: "(lock_state, 'a) rcmd \<Rightarrow> (rm_world, 'a) rcmd" where
  "in_locks = zoom rw_locks (\<lambda>l s. s\<lparr>rw_locks := l\<rparr>)"

definition unpin_cmd :: "page_id \<Rightarrow> bool \<Rightarrow> (rm_world, bool) rcmd" where
  "unpin_cmd pid dirty = in_pool (\<lambda>s. case unpin_page pid dirty s of (b, s') \<Rightarrow> (Inr b, s'))"

text \<open>The bytes of a page handle, its page number, and writing through its pointers.\<close>

definition data_of :: "frame_id \<Rightarrow> rm_world \<Rightarrow> byte list" where
  "data_of f s = p_data (pages (rw_bpm s) ! f)"

definition page_id_of :: "frame_id \<Rightarrow> rm_world \<Rightarrow> page_id" where
  "page_id_of f s = p_id (pages (rw_bpm s) ! f)"

definition edit :: "frame_id \<Rightarrow> (byte list \<Rightarrow> byte list) \<Rightarrow> rm_world \<Rightarrow> rm_world" where
  "edit f g s = s\<lparr>rw_bpm := store_page f (g (data_of f s)) (rw_bpm s)\<rparr>"

definition slot_ok :: "RmFileHdr \<Rightarrow> int \<Rightarrow> bool" where
  "slot_ok h i \<longleftrightarrow> 0 \<le> i \<and> get_slot h (nat i) + record_size h \<le> PAGE_SIZE \<and> bitmap_off + nat i div 8 < PAGE_SIZE"

text \<open>The bit of a slot lies in the page: all that reading the bitmap needs.\<close>

definition bit_ok :: "int \<Rightarrow> bool" where
  "bit_ok i \<longleftrightarrow> 0 \<le> i \<and> bitmap_off + nat i div 8 < PAGE_SIZE"

definition write_header :: "int \<Rightarrow> (rm_world, unit) rcmd" where
  "write_header fd s = in_pool (on_disk (write_page fd RM_FILE_HDR_PAGE (hdr_bytes (rw_hdr s)))) s"

section \<open>Operations of a file handle\<close>

definition fetch_page_handle :: "int \<Rightarrow> int \<Rightarrow> (rm_world, frame_id) rcmd" where
  "fetch_page_handle fd page_no =
     (if page_no = INVALID_PAGE_ID then throw (PageNotExistError '''' page_no)
      else bindc (in_pool (fetch_page (PageId fd page_no)))
        (\<lambda>r. case r of None \<Rightarrow> throw (UndefinedBehaviour ''page->get_data()'') | Some f \<Rightarrow> ret f))"

definition is_record :: "int \<Rightarrow> rid \<Rightarrow> (rm_world, bool) rcmd" where
  "is_record fd r =
     bindc (fetch_page_handle fd (rid_page_no r)) (\<lambda>f s.
       if bit_ok (rid_slot_no r) then (Inr (is_set bitmap_off (data_of f s) (nat (rid_slot_no r))), s)
       else (Inl (UndefinedBehaviour ''bitmap''), s))"

definition get_record :: "int \<Rightarrow> rid \<Rightarrow> bool \<Rightarrow> (rm_world, byte list) rcmd" where
  "get_record fd r ctx =
     (if \<not> ctx then throw (UndefinedBehaviour ''context->lock_mgr_'')
      else bindc (in_locks (lock_shared_on_record r fd))
        (\<lambda>_. bindc (fetch_page_handle fd (rid_page_no r)) (\<lambda>f s.
           if \<not> slot_ok (rw_hdr s) (rid_slot_no r) then (Inl (UndefinedBehaviour ''slot''), s)
           else let bs = read_at (get_slot (rw_hdr s) (nat (rid_slot_no r))) (record_size (rw_hdr s)) (data_of f s)
                in bindc (unpin_cmd (PageId fd (rid_page_no r)) True) (\<lambda>_. ret bs) s)))"

definition create_new_page_handle :: "int \<Rightarrow> (rm_world, frame_id) rcmd" where
  "create_new_page_handle fd =
     bindc (in_pool (new_page fd)) (\<lambda>r. case r of
       None \<Rightarrow> throw (InternalError ''Create new page handle failed.'')
     | Some (f, pid) \<Rightarrow>
         bindc (modify (edit f (\<lambda>d. set_num_records 0 (set_next_free_page_no RM_NO_PAGE d))))
           (\<lambda>_. bindc (modify (\<lambda>s. edit f (bitmap_init bitmap_off (bitmap_size (rw_hdr s))) s))
           (\<lambda>_. bindc (in_pool (flush_page pid))
           (\<lambda>_. bindc (modify (\<lambda>s. s\<lparr>rw_hdr := (rw_hdr s)\<lparr>num_pages := num_pages (rw_hdr s) + 1,
                                                     first_free_page_no := pid_page_no pid\<rparr>\<rparr>))
           (\<lambda>_. bindc (write_header fd) (\<lambda>_. ret f))))))"

definition create_page_handle :: "int \<Rightarrow> (rm_world, frame_id) rcmd" where
  "create_page_handle fd s =
     (if first_free_page_no (rw_hdr s) = RM_NO_PAGE then create_new_page_handle fd s
      else fetch_page_handle fd (first_free_page_no (rw_hdr s)) s)"

definition release_page_handle :: "int \<Rightarrow> frame_id \<Rightarrow> (rm_world, unit) rcmd" where
  "release_page_handle fd f =
     bindc (modify (\<lambda>s. edit f (set_next_free_page_no (first_free_page_no (rw_hdr s))) s))
       (\<lambda>_. bindc (modify (\<lambda>s. s\<lparr>rw_hdr := (rw_hdr s)\<lparr>first_free_page_no := pid_page_no (page_id_of f s)\<rparr>\<rparr>))
       (\<lambda>_. write_header fd))"

text \<open>Storing the transaction's last log sequence number in the page.\<close>

definition stamp :: "frame_id \<Rightarrow> rm_world \<Rightarrow> rm_world" where
  "stamp f s = edit f (set_page_lsn (prev_lsn (fst (rw_locks s)))) s"

definition insert_record :: "int \<Rightarrow> byte list \<Rightarrow> bool \<Rightarrow> (rm_world, rid) rcmd" where
  "insert_record fd buf ctx =
     bindc (create_page_handle fd) (\<lambda>f s0.
       let h = rw_hdr s0; i = next_bit False bitmap_off (data_of f s0) (num_records_per_page h) (- 1);
           r = Rid (pid_page_no (page_id_of f s0)) (int i) in
       (if \<not> ctx then throw (UndefinedBehaviour ''context->lock_mgr_'')
        else bindc (in_locks (lock_exclusive_on_record r fd))
          (\<lambda>_. if \<not> slot_ok h (int i) \<or> length buf < record_size h then throw (UndefinedBehaviour ''slot'')
               else bindc (modify (edit f (write_at (get_slot h i) (take (record_size h) buf))))
                 (\<lambda>_. bindc (modify (edit f (bitmap_set bitmap_off i)))
                 (\<lambda>_. bindc (modify (edit f (\<lambda>d. set_num_records (num_records d + 1) d)))
                 (\<lambda>_. bindc (\<lambda>s. if num_records (data_of f s) = int (num_records_per_page h)
                            then bindc (modify (\<lambda>s. s\<lparr>rw_hdr := (rw_hdr s)\<lparr>first_free_page_no := next_free_page_no (data_of f s)\<rparr>\<rparr>))
                                   (\<lambda>_. write_header fd) s
                            else (Inr (), s))
                 (\<lambda>_. bindc (modify (stamp f))
                 (\<lambda>_. bindc (unpin_cmd (PageId fd (rid_page_no r)) True) (\<lambda>_. ret r)))))))) s0)"

definition insert_record_at :: "int \<Rightarrow> rid \<Rightarrow> byte list \<Rightarrow> (rm_world, unit) rcmd" where
  "insert_record_at fd r buf =
     bindc (fetch_page_handle fd (rid_page_no r)) (\<lambda>f.
       bindc (is_record fd r) (\<lambda>present.
         bindc (if \<not> present
                then bindc (modify (edit f (bitmap_set bitmap_off (nat (rid_slot_no r)))))
                       (\<lambda>_. modify (edit f (\<lambda>d. set_num_records (num_records d + 1) d)))
                else ret ())
           (\<lambda>_ s. if \<not> slot_ok (rw_hdr s) (rid_slot_no r) then (Inl (UndefinedBehaviour ''slot''), s)
                  else if length buf < record_size (rw_hdr s) then (Inl (UndefinedBehaviour ''buf''), s)
                  else bindc (modify (edit f (write_at (get_slot (rw_hdr s) (nat (rid_slot_no r))) (take (record_size (rw_hdr s)) buf))))
                         (\<lambda>_. bindc (unpin_cmd (PageId fd (rid_page_no r)) True) (\<lambda>_. ret ())) s)))"

definition delete_record :: "int \<Rightarrow> rid \<Rightarrow> bool \<Rightarrow> (rm_world, unit) rcmd" where
  "delete_record fd r ctx =
     (if \<not> ctx then throw (UndefinedBehaviour ''context->lock_mgr_'')
      else bindc (in_locks (lock_exclusive_on_record r fd))
        (\<lambda>_. bindc (fetch_page_handle fd (rid_page_no r))
        (\<lambda>f. bindc (\<lambda>s. if num_records (data_of f s) = int (num_records_per_page (rw_hdr s))
                        then release_page_handle fd f s else (Inr (), s))
        (\<lambda>_ s. if \<not> slot_ok (rw_hdr s) (rid_slot_no r) then (Inl (UndefinedBehaviour ''slot''), s)
               else bindc (modify (edit f (\<lambda>d. set_num_records (num_records d - 1) d)))
                 (\<lambda>_. bindc (modify (edit f (bitmap_reset bitmap_off (nat (rid_slot_no r)))))
                 (\<lambda>_. bindc (modify (stamp f))
                 (\<lambda>_ s. bindc (unpin_cmd (page_id_of f s) True) (\<lambda>_. ret ()) s))) s))))"

definition update_record :: "int \<Rightarrow> rid \<Rightarrow> byte list \<Rightarrow> bool \<Rightarrow> (rm_world, unit) rcmd" where
  "update_record fd r buf ctx =
     (if \<not> ctx then throw (UndefinedBehaviour ''context->lock_mgr_'')
      else bindc (in_locks (lock_exclusive_on_record r fd))
        (\<lambda>_. bindc (fetch_page_handle fd (rid_page_no r))
        (\<lambda>f s. if \<not> slot_ok (rw_hdr s) (rid_slot_no r) \<or> length buf < record_size (rw_hdr s) then (Inl (UndefinedBehaviour ''slot''), s)
               else bindc (modify (edit f (write_at (get_slot (rw_hdr s) (nat (rid_slot_no r))) (take (record_size (rw_hdr s)) buf))))
                 (\<lambda>_. bindc (unpin_cmd (PageId fd (rid_page_no r)) True)
                 (\<lambda>_. modify (stamp f))) s)))"

definition get_page_lsn :: "int \<Rightarrow> int \<Rightarrow> (rm_world, int) rcmd" where
  "get_page_lsn fd page_no =
     bindc (fetch_page_handle fd page_no) (\<lambda>f s.
       let l = page_lsn (data_of f s) in bindc (unpin_cmd (PageId fd page_no) False) (\<lambda>_. ret l) s)"

definition close_all_page :: "int \<Rightarrow> (rm_world, unit) rcmd" where
  "close_all_page fd =
     bindc (in_pool (delete_all_page fd)) (\<lambda>ok. guardc ok (AssertionFailure ''true == buffer_pool_manager_->delete_all_page(fd_)''))"

section \<open>The record manager\<close>

text \<open>\<open>RmFileHandle::RmFileHandle\<close>: the header is read from page 0 and the page counter set.\<close>

definition RmFileHandle :: "int \<Rightarrow> (disk, RmFileHdr) rcmd" where
  "RmFileHandle fd d =
     (case read_page fd RM_FILE_HDR_PAGE (replicate 20 0) 20 d of
        (Inl e, _) \<Rightarrow> (Inl e, d)
      | (Inr _, buf) \<Rightarrow>
          let h = hdr_of_bytes buf in bindc (set_fd2pageno fd (num_pages h)) (\<lambda>_. ret h) d)"

definition new_file_hdr :: "int \<Rightarrow> RmFileHdr" where
  "new_file_hdr rs =
     (let n = (8 * (int PAGE_SIZE - 1 - 20) + 1) div (1 + rs * 8) in
      \<lparr>record_size = nat rs, num_pages = 1, num_records_per_page = nat n, first_free_page_no = RM_NO_PAGE,
       bitmap_size = nat ((n + 8 - 1) div 8)\<rparr>)"

definition rm_create_file :: "string \<Rightarrow> int \<Rightarrow> (disk, unit) rcmd" where
  "rm_create_file filename rs =
     (if rs < 1 \<or> rs > RM_MAX_RECORD_SIZE then throw (InvalidRecordSizeError rs)
      else bindc (create_file filename)
        (\<lambda>_. bindc (open_file filename)
        (\<lambda>fd. bindc (write_page fd RM_FILE_HDR_PAGE (hdr_bytes (new_file_hdr rs)))
        (\<lambda>_. close_file fd))))"

definition rm_destroy_file :: "string \<Rightarrow> (disk, unit) rcmd" where
  "rm_destroy_file filename = destroy_file filename"

definition rm_open_file :: "string \<Rightarrow> (disk, int \<times> RmFileHdr) rcmd" where
  "rm_open_file filename =
     bindc (open_file filename)
       (\<lambda>fd. bindc (RmFileHandle fd) (\<lambda>h. bindc (set_fd2pageno fd (num_pages h)) (\<lambda>_. ret (fd, h))))"

definition rm_close_file :: "int \<Rightarrow> RmFileHdr \<Rightarrow> (bpm, unit) rcmd" where
  "rm_close_file fd h =
     bindc (on_disk (write_page fd RM_FILE_HDR_PAGE (hdr_bytes h)))
       (\<lambda>_. bindc (flush_all_pages fd) (\<lambda>_. on_disk (close_file fd)))"

section \<open>Scans\<close>

text \<open>
  \<open>RmScan\<close>: the loop of \<open>next\<close> goes through the pages from the current position; its number of
  turns is the number of pages left.
\<close>

function scan_from :: "int \<Rightarrow> rid \<Rightarrow> int \<Rightarrow> (rm_world, rid) rcmd" where
  "scan_from fd r npages s =
     (if rid_page_no r < npages then
        bindc (fetch_page_handle fd (rid_page_no r)) (\<lambda>f s.
          let n = num_records_per_page (rw_hdr s); i = next_bit True bitmap_off (data_of f s) n (rid_slot_no r)
          in bindc (unpin_cmd (page_id_of f s) False)
               (\<lambda>_. if i < n then ret (Rid (rid_page_no r) (int i))
                    else scan_from fd (Rid (rid_page_no r + 1) (- 1)) npages) s) s
      else (Inr (Rid RM_NO_PAGE (- 1)), s))"
  by pat_completeness auto
termination by (relation "measure (\<lambda>(fd, r, npages, s). nat (npages - rid_page_no r))") auto

declare scan_from.simps [simp del]

definition scan_next :: "int \<Rightarrow> rid \<Rightarrow> (rm_world, rid) rcmd" where
  "scan_next fd r s = scan_from fd r (num_pages (rw_hdr s)) s"

definition RmScan :: "int \<Rightarrow> (rm_world, rid) rcmd" where
  "RmScan fd = scan_next fd (Rid RM_FIRST_RECORD_PAGE (- 1))"

definition scan_is_end :: "rid \<Rightarrow> bool" where
  "scan_is_end r \<longleftrightarrow> rid_page_no r = RM_NO_PAGE"

end
