(* ===== verification/Record_Spec.thy ===== *)
theory Record_Spec
  imports Record_File
begin

text \<open>
  A table file is a partial map from record identifiers to records. The theory states the
  invariant of a table file (the counters of its pages, the chain of pages with free slots,
  which pages are cached) and shows that inserting, reading, updating and deleting a record
  act on the map as they should and keep the invariant.
\<close>

section \<open>Using a page of the pool\<close>

text \<open>
  The pool is in order and no page was deleted from it: a free frame was never used.
\<close>

definition pool_ok :: "bpm \<Rightarrow> bool" where
  "pool_ok b \<longleftrightarrow> bp_ok b \<and> (\<forall>f \<in> set (free_list b). pid_page_no (p_id (pages b ! f)) = INVALID_PAGE_ID)"

definition pinned_at :: "bpm \<Rightarrow> page_id \<Rightarrow> frame_id \<Rightarrow> bool" where
  "pinned_at b pid f \<longleftrightarrow> pool_ok b \<and> frame_of b pid = Some f \<and> 0 < p_pin (pages b ! f)"

lemma pool_ok_wf: "pool_ok b \<Longrightarrow> bp_wf b" "pool_ok b \<Longrightarrow> coherent b"
  by (simp_all add: pool_ok_def bp_ok_def)

lemma pinned_ok: "pinned_at b pid f \<Longrightarrow> pool_ok b"
  by (simp add: pinned_at_def)

lemma pinned_frame:
  assumes "pinned_at b pid f"
  shows "f < length (pages b)" "p_id (pages b ! f) = pid" "length (p_data (pages b ! f)) = PAGE_SIZE"
    "content b pid = Some (p_data (pages b ! f))" "frame_of b pid = Some f"
proof -
  have w: "bp_wf b" and m: "frame_of b pid = Some f"
    using assms pool_ok_wf by (auto simp: pinned_at_def)
  note mf = bp_wf_mapped [OF w m]
  show "f < length (pages b)" "p_id (pages b ! f) = pid" "length (p_data (pages b ! f)) = PAGE_SIZE"
    "content b pid = Some (p_data (pages b ! f))" "frame_of b pid = Some f"
    using mf bp_wf_basic(1) [OF w] bp_wf_frame(1) [OF w mf(1)] m by (simp_all add: content_def)
qed

lemma clean_no_stale: "pool_ok b \<Longrightarrow> pid_page_no pid \<noteq> INVALID_PAGE_ID \<Longrightarrow> no_stale b pid"
  unfolding pool_ok_def no_stale_def by (metis list.sel(2) list.set_sel(2))

lemma evict_to_counts: "evict_to s f d d' \<Longrightarrow> fd2pageno d' = fd2pageno d"
  by (auto simp: evict_to_def write_page_def Let_def split: if_splits prod.splits)

lemma fetch_session:
  assumes p: "pool_ok b" and n: "pid_page_no pid \<noteq> INVALID_PAGE_ID" and ft: "fetch_page pid b = (Inr (Some f), b')"
  shows "pinned_at b' pid f" "content b \<subseteq>\<^sub>m content b'" "fd2pageno (bp_disk b') = fd2pageno (bp_disk b)"
    "q \<noteq> pid \<Longrightarrow> frame_of b q = None \<Longrightarrow> frame_of b' q = None"
proof -
  note w = pool_ok_wf [OF p] and k = fetch_keeps [OF pool_ok_wf [OF p] clean_no_stale [OF p n] ft]
  have fr: "(\<forall>g \<in> set (free_list b'). pid_page_no (p_id (pages b' ! g)) = INVALID_PAGE_ID) \<and>
    fd2pageno (bp_disk b') = fd2pageno (bp_disk b) \<and> (q \<noteq> pid \<longrightarrow> frame_of b q = None \<longrightarrow> frame_of b' q = None)"
  proof (cases "frame_of b pid")
    case (Some g)
    then have "b' = pin_frame f b" "g = f" using ft by (auto simp: fetch_page_hit)
    with p bp_wf_mapped(3) [OF w(1) Some] show ?thesis
      by (auto simp: pin_frame_def pool_ok_def nth_upd)
  next
    case None
    with w ft obtain fl r d buf where v: "victim_of b f fl r" and e: "evict_to b f (bp_disk b) d"
      and b': "b' = install f pid buf d fl r b"
      using fetch_page_miss by metis
    have "set fl = set (free_list b) - {f}" using v unfolding victim_of_def by blast
    with p evict_to_counts [OF e] None show ?thesis
      by (auto simp: b' pool_ok_def install_frame_of [OF None])
  qed
  with k show "pinned_at b' pid f" "content b \<subseteq>\<^sub>m content b'" "fd2pageno (bp_disk b') = fd2pageno (bp_disk b)"
    "q \<noteq> pid \<Longrightarrow> frame_of b q = None \<Longrightarrow> frame_of b' q = None"
    by (auto simp: pinned_at_def pool_ok_def bp_ok_def intro!: map_leI)
qed

lemma store_session:
  assumes p: "pinned_at b pid f" and l: "length bs = PAGE_SIZE"
  shows "pinned_at (store_page f bs b) pid f" "content (store_page f bs b) = (content b)(pid \<mapsto> bs)"
    "page_table (store_page f bs b) = page_table b" "bp_disk (store_page f bs b) = bp_disk b"
    "p_data (pages (store_page f bs b) ! f) = bs"
proof -
  note w = pool_ok_wf [OF pinned_ok [OF p]] and pf = pinned_frame [OF p]
  have pin: "p_pin (pages b ! f) \<noteq> 0" using p by (simp add: pinned_at_def)
  note k = store_keeps [OF w pf(5) pin l]
  have nf: "f \<notin> set (free_list b)" by (rule bp_wf_mapped(3) [OF w(1) pf(5)])
  show "content (store_page f bs b) = (content b)(pid \<mapsto> bs)" by (rule k(3))
  show "pinned_at (store_page f bs b) pid f"
    using k(1,2) p nf pf(1) by (auto simp: pinned_at_def pool_ok_def bp_ok_def store_page_def nth_upd)
  show "page_table (store_page f bs b) = page_table b" "bp_disk (store_page f bs b) = bp_disk b"
    "p_data (pages (store_page f bs b) ! f) = bs"
    using pf(1) by (simp_all add: store_page_def)
qed

lemma unpin_session_any:
  assumes p: "pinned_at b pid f" and u: "unpin_page pid dirty b = (r, b')"
    and cl: "p_pin (pages b ! f) = 1 \<Longrightarrow> dirty \<or> p_dirty (pages b ! f) \<or> page_at b pid = Some (p_data (pages b ! f))"
  shows "pool_ok b'" "content b' = content b" "page_table b' = page_table b" "bp_disk b' = bp_disk b" "r"
    "p_id (pages b' ! f) = pid" "p_data (pages b' ! f) = p_data (pages b ! f)" "dirty \<Longrightarrow> p_dirty (pages b' ! f)"
proof -
  note w = pool_ok_wf [OF pinned_ok [OF p]] and pf = pinned_frame [OF p]
  have pin: "p_pin (pages b ! f) \<noteq> 0" using p by (simp add: pinned_at_def)
  note a = unpin_page_adjust [OF w(1) pf(5) pin, of dirty]
  have nf: "f \<notin> set (free_list b)" by (rule bp_wf_mapped(3) [OF w(1) pf(5)])
  note k = unpin_keeps [where dirty = dirty, OF w pf(5) pin cl]
  show "r" "page_table b' = page_table b" "bp_disk b' = bp_disk b" "p_id (pages b' ! f) = pid"
    "p_data (pages b' ! f) = p_data (pages b ! f)" "dirty \<Longrightarrow> p_dirty (pages b' ! f)"
    using a u pf(1,2) by (auto simp: adjust_def)
  show "content b' = content b" using k(3) u by simp
  have "free_list b' = free_list b" "\<forall>g. g \<noteq> f \<longrightarrow> pages b' ! g = pages b ! g" using a u by (auto simp: adjust_def)
  then show "pool_ok b'" using k(1,2) u p nf by (auto simp: pool_ok_def bp_ok_def pinned_at_def)
qed

lemmas unpin_session = unpin_session_any [where dirty = True, simplified]

text \<open>Writing the file header straight to disk, past the pool, while page 0 is not cached.\<close>

lemma header_session:
  assumes p: "pinned_at b pid f" and n: "frame_of b (PageId fd 0) = None" and l: "length bs \<le> PAGE_SIZE"
    and wr: "on_disk (write_page fd 0 bs) b = (Inr (), b')"
  shows "pinned_at b' pid f" "q \<noteq> PageId fd 0 \<Longrightarrow> content b q = Some x \<Longrightarrow> content b' q = Some x"
    "page_table b' = page_table b" "pages b' = pages b" "fd2pageno (bp_disk b') = fd2pageno (bp_disk b)"
proof -
  note w = pool_ok_wf [OF pinned_ok [OF p]]
  obtain d where d: "write_page fd 0 bs (bp_disk b) = (Inr (), d)" "b' = b\<lparr>bp_disk := d\<rparr>"
    using wr by (auto simp: on_disk_run split: prod.splits)
  have dw: "disk_wf (bp_disk b)" by (rule bp_wf_basic(4) [OF w(1)])
  have keep: "disk_page d (pid_fd q) (pid_page_no q) = Some x" if "q \<noteq> PageId fd 0" "page_at b q = Some x" for q x
  proof -
    from that(1) have "(pid_fd q, pid_page_no q) \<noteq> (fd, 0)" by (metis page_id.collapse prod.inject)
    then show ?thesis by (rule ds.view_other [OF dw l d(1) _ that(2)])
  qed
  have ok: "bp_wf b'" using w(1) ds.wr_inv [OF dw d(1)] by (simp add: d(2) bp_wf_def)
  have "coherent b'"
    unfolding coherent_def
  proof (intro allI impI)
    fix q g assume a: "frame_of b' q = Some g" "p_pin (pages b' ! g) = 0" "\<not> p_dirty (pages b' ! g)"
    then have "q \<noteq> PageId fd 0" using n d(2) by auto
    with a keep w(2) d(2) show "page_at b' q = Some (p_data (pages b' ! g))" by (simp add: coherent_def)
  qed
  with ok p show "pinned_at b' pid f" by (simp add: pinned_at_def pool_ok_def bp_ok_def d(2))
  show "content b' q = Some x" if "q \<noteq> PageId fd 0" "content b q = Some x"
    using that keep d(2) by (auto simp: content_def split: option.splits)
  show "page_table b' = page_table b" "pages b' = pages b" by (simp_all add: d(2))
  show "fd2pageno (bp_disk b') = fd2pageno (bp_disk b)"
    using d by (auto simp: write_page_def Let_def split: if_splits prod.splits)
qed

section \<open>The table as a map\<close>

text \<open>
  Over the abstract contents \<open>C\<close> of the pages: the record at an identifier, the chain of pages
  with free slots, and the invariant of a file.
\<close>

definition tab_view :: "int \<Rightarrow> RmFileHdr \<Rightarrow> (page_id \<rightharpoonup> byte list) \<Rightarrow> rid \<rightharpoonup> byte list" where
  "tab_view fd h C r =
     (if RM_FIRST_RECORD_PAGE \<le> rid_page_no r \<and> rid_page_no r < num_pages h \<and> 0 \<le> rid_slot_no r
      then Option.bind (C (PageId fd (rid_page_no r))) (\<lambda>d. page_view h d (nat (rid_slot_no r))) else None)"

fun free_chain :: "int \<Rightarrow> (page_id \<rightharpoonup> byte list) \<Rightarrow> int \<Rightarrow> int list \<Rightarrow> bool" where
  "free_chain fd C start [] \<longleftrightarrow> start = RM_NO_PAGE"
| "free_chain fd C start (p # ps) \<longleftrightarrow> start = p \<and> p \<noteq> RM_NO_PAGE \<and>
     (\<exists>d. C (PageId fd p) = Some d \<and> free_chain fd C (next_free_page_no d) ps)"

definition page_used :: "RmFileHdr \<Rightarrow> byte list \<Rightarrow> nat" where
  "page_used h d = card (dom (page_view h d))"

definition page_ok :: "RmFileHdr \<Rightarrow> byte list \<Rightarrow> bool" where
  "page_ok h d \<longleftrightarrow> length d = PAGE_SIZE \<and> num_records d = int (page_used h d)"

definition file_ok :: "int \<Rightarrow> RmFileHdr \<Rightarrow> (page_id \<rightharpoonup> byte list) \<Rightarrow> bool" where
  "file_ok fd h C \<longleftrightarrow> hdr_ok h \<and> RM_FIRST_RECORD_PAGE \<le> num_pages h \<and>
     (\<forall>p. RM_FIRST_RECORD_PAGE \<le> p \<and> p < num_pages h \<longrightarrow> (\<exists>d. C (PageId fd p) = Some d \<and> page_ok h d)) \<and>
     (\<exists>ps. free_chain fd C (first_free_page_no h) ps \<and> distinct ps \<and>
        set ps = {p. RM_FIRST_RECORD_PAGE \<le> p \<and> p < num_pages h \<and>
                     (\<exists>d. C (PageId fd p) = Some d \<and> page_used h d < num_records_per_page h)})"

lemmas rm_consts = RM_FIRST_RECORD_PAGE_def RM_NO_PAGE_def RM_FILE_HDR_PAGE_def

lemma hdr_ok_fields:
  "hdr_ok (h\<lparr>first_free_page_no := x\<rparr>) = hdr_ok h" "hdr_ok (h\<lparr>num_pages := y\<rparr>) = hdr_ok h"
  "page_view (h\<lparr>first_free_page_no := x\<rparr>) = page_view h" "page_view (h\<lparr>num_pages := y\<rparr>) = page_view h"
  by (simp_all add: hdr_ok_def page_view_def fun_eq_iff get_slot_def)

lemma page_used_le: "page_used h d \<le> num_records_per_page h"
proof -
  have "dom (page_view h d) \<subseteq> {..<num_records_per_page h}" by (auto simp: page_view_def split: if_splits)
  from card_mono [OF _ this] show ?thesis by (simp add: page_used_def)
qed

text \<open>Contents that agree on the record pages give the same table and chain.\<close>

lemma free_chain_cong:
  "(\<And>p. p \<in> set ps \<Longrightarrow> C' (PageId fd p) = C (PageId fd p)) \<Longrightarrow> free_chain fd C' s ps = free_chain fd C s ps"
  by (induction ps arbitrary: s) auto

lemma file_ok_cong:
  assumes "file_ok fd h C" and "\<And>p. RM_FIRST_RECORD_PAGE \<le> p \<Longrightarrow> p < num_pages h \<Longrightarrow> C' (PageId fd p) = C (PageId fd p)"
  shows "file_ok fd h C'" "tab_view fd h C' = tab_view fd h C"
proof -
  obtain ps where ps: "free_chain fd C (first_free_page_no h) ps" "distinct ps"
    "set ps = {p. RM_FIRST_RECORD_PAGE \<le> p \<and> p < num_pages h \<and> (\<exists>d. C (PageId fd p) = Some d \<and> page_used h d < num_records_per_page h)}"
    using assms(1) by (auto simp: file_ok_def)
  have "free_chain fd C' (first_free_page_no h) ps"
    using ps by (subst free_chain_cong [of _ _ _ C]) (auto intro: assms(2))
  moreover have "set ps = {p. RM_FIRST_RECORD_PAGE \<le> p \<and> p < num_pages h \<and>
      (\<exists>d. C' (PageId fd p) = Some d \<and> page_used h d < num_records_per_page h)}"
    unfolding ps(3) by (auto simp: assms(2))
  ultimately show "file_ok fd h C'" using assms ps(2) by (auto simp: file_ok_def)
  show "tab_view fd h C' = tab_view fd h C" using assms(2) by (auto simp: tab_view_def fun_eq_iff)
qed

lemma file_ok_mono:
  assumes "file_ok fd h C" and "\<And>p x. RM_FIRST_RECORD_PAGE \<le> p \<Longrightarrow> C (PageId fd p) = Some x \<Longrightarrow> C' (PageId fd p) = Some x"
  shows "file_ok fd h C'" "tab_view fd h C' = tab_view fd h C"
    "\<And>p. RM_FIRST_RECORD_PAGE \<le> p \<Longrightarrow> p < num_pages h \<Longrightarrow> C' (PageId fd p) = C (PageId fd p)"
proof -
  show e: "C' (PageId fd p) = C (PageId fd p)" if "RM_FIRST_RECORD_PAGE \<le> p" "p < num_pages h" for p
    using assms that by (fastforce simp: file_ok_def)
  show "file_ok fd h C'" "tab_view fd h C' = tab_view fd h C" using file_ok_cong [OF assms(1)] e by blast+
qed

lemma tab_view_page:
  assumes "RM_FIRST_RECORD_PAGE \<le> p" and "p < num_pages h" and "C (PageId fd p) = Some d"
  shows "tab_view fd h C (Rid p (int i)) = page_view h d i"
  using assms by (simp add: tab_view_def)

text \<open>Replacing one page.\<close>

lemma tab_view_upd:
  assumes "RM_FIRST_RECORD_PAGE \<le> p" and "p < num_pages h" and "C (PageId fd p) = Some d"
    and "page_view h d' = (page_view h d)(i := v)"
  shows "tab_view fd h (C(PageId fd p \<mapsto> d')) = (tab_view fd h C)(Rid p (int i) := v)"
proof
  fix r
  show "tab_view fd h (C(PageId fd p \<mapsto> d')) r = ((tab_view fd h C)(Rid p (int i) := v)) r"
    using assms by (cases r) (auto simp: tab_view_def)
qed

lemma file_ok_page: "file_ok fd h C \<Longrightarrow> RM_FIRST_RECORD_PAGE \<le> p \<Longrightarrow> p < num_pages h \<Longrightarrow> C (PageId fd p) = Some d \<Longrightarrow> page_ok h d"
  by (auto simp: file_ok_def)

text \<open>The pages with room, under a change of one page.\<close>

definition roomy :: "int \<Rightarrow> RmFileHdr \<Rightarrow> (page_id \<rightharpoonup> byte list) \<Rightarrow> int set" where
  "roomy fd h C = {p. RM_FIRST_RECORD_PAGE \<le> p \<and> p < num_pages h \<and>
     (\<exists>d. C (PageId fd p) = Some d \<and> page_used h d < num_records_per_page h)}"

lemma roomy_upd:
  "RM_FIRST_RECORD_PAGE \<le> p \<Longrightarrow> p < num_pages h \<Longrightarrow>
   roomy fd h (C(PageId fd p \<mapsto> d)) =
     (if page_used h d < num_records_per_page h then insert p (roomy fd h C) else roomy fd h C - {p})"
  by (auto simp: roomy_def)

lemma file_ok_roomy:
  "file_ok fd h C \<longleftrightarrow> hdr_ok h \<and> RM_FIRST_RECORD_PAGE \<le> num_pages h \<and>
     (\<forall>p. RM_FIRST_RECORD_PAGE \<le> p \<and> p < num_pages h \<longrightarrow> (\<exists>d. C (PageId fd p) = Some d \<and> page_ok h d)) \<and>
     (\<exists>ps. free_chain fd C (first_free_page_no h) ps \<and> distinct ps \<and> set ps = roomy fd h C)"
  by (simp add: file_ok_def roomy_def)

lemma free_chain_start: "free_chain fd C s ps \<Longrightarrow> ps \<noteq> [] \<Longrightarrow> s = hd ps"
  by (cases ps) auto

lemma chain_upd_other: "p \<notin> set ps \<Longrightarrow> free_chain fd (C(PageId fd p \<mapsto> d)) s ps = free_chain fd C s ps"
  by (rule free_chain_cong) auto

lemma chain_upd_same:
  "C (PageId fd p) = Some d \<Longrightarrow> next_free_page_no d' = next_free_page_no d \<Longrightarrow>
   free_chain fd (C(PageId fd p \<mapsto> d')) s ps = free_chain fd C s ps"
proof (induction ps arbitrary: s)
  case (Cons q ps)
  then show ?case by (cases "q = p") auto
qed simp

lemma file_ok_upd_same:
  assumes k: "file_ok fd h C" and p: "RM_FIRST_RECORD_PAGE \<le> p" "p < num_pages h" "C (PageId fd p) = Some d"
    and d': "page_ok h d'" "page_used h d' < num_records_per_page h \<longleftrightarrow> page_used h d < num_records_per_page h"
    "next_free_page_no d' = next_free_page_no d"
  shows "file_ok fd h (C(PageId fd p \<mapsto> d'))"
proof -
  obtain ps where ps: "free_chain fd C (first_free_page_no h) ps" "distinct ps" "set ps = roomy fd h C"
    using k by (auto simp: file_ok_roomy)
  have "roomy fd h (C(PageId fd p \<mapsto> d')) = roomy fd h C"
    using p d'(2) by (auto simp: roomy_upd) (auto simp: roomy_def)
  with ps chain_upd_same [of C fd p d d'] p(3) d'(1,3) k show ?thesis
    by (auto simp: file_ok_roomy intro!: exI [of _ ps])
qed

lemma file_ok_fill:
  assumes k: "file_ok fd h C" and p: "first_free_page_no h = p" "p \<noteq> RM_NO_PAGE" "C (PageId fd p) = Some d"
    and d': "page_ok h d'" "page_used h d' = num_records_per_page h" "next_free_page_no d' = next_free_page_no d"
  shows "file_ok fd (h\<lparr>first_free_page_no := next_free_page_no d'\<rparr>) (C(PageId fd p \<mapsto> d'))"
proof -
  obtain ps where ps: "free_chain fd C (first_free_page_no h) ps" "distinct ps" "set ps = roomy fd h C"
    using k by (auto simp: file_ok_roomy)
  then obtain qs where qs: "ps = p # qs" using p by (cases ps) auto
  then have pr: "RM_FIRST_RECORD_PAGE \<le> p" "p < num_pages h" using ps(3) by (auto simp: roomy_def)
  let ?h = "h\<lparr>first_free_page_no := next_free_page_no d'\<rparr>"
  have "free_chain fd (C(PageId fd p \<mapsto> d')) (first_free_page_no ?h) qs"
    using ps(1,2) qs p(3) d'(3) by (simp add: chain_upd_other)
  moreover have "set qs = roomy fd ?h (C(PageId fd p \<mapsto> d'))"
  proof -
    have "roomy fd ?h X = roomy fd h X" for X by (simp add: roomy_def page_used_def hdr_ok_fields)
    then show ?thesis using ps(2,3) qs pr d'(2) by (auto simp: roomy_upd)
  qed
  ultimately show ?thesis
    using k ps(2) qs d'(1)
    by (auto simp: file_ok_roomy hdr_ok_fields page_ok_def page_used_def intro!: exI [of _ qs])
qed

lemma file_ok_release:
  assumes k: "file_ok fd h C" and p: "RM_FIRST_RECORD_PAGE \<le> p" "p < num_pages h" "C (PageId fd p) = Some d"
    "page_used h d = num_records_per_page h"
    and d': "page_ok h d'" "page_used h d' < num_records_per_page h" "next_free_page_no d' = first_free_page_no h"
  shows "file_ok fd (h\<lparr>first_free_page_no := p\<rparr>) (C(PageId fd p \<mapsto> d'))"
proof -
  obtain ps where ps: "free_chain fd C (first_free_page_no h) ps" "distinct ps" "set ps = roomy fd h C"
    using k by (auto simp: file_ok_roomy)
  have np: "p \<notin> set ps" using ps(3) p(3,4) by (auto simp: roomy_def)
  let ?h = "h\<lparr>first_free_page_no := p\<rparr>"
  have "p \<noteq> RM_NO_PAGE" using p(1) by (simp add: rm_consts)
  then have "free_chain fd (C(PageId fd p \<mapsto> d')) (first_free_page_no ?h) (p # ps)"
    using ps(1) np d'(3) by (simp add: chain_upd_other)
  moreover have "set (p # ps) = roomy fd ?h (C(PageId fd p \<mapsto> d'))"
  proof -
    have "roomy fd ?h X = roomy fd h X" for X by (simp add: roomy_def page_used_def hdr_ok_fields)
    then show ?thesis using ps(3) p d'(2) by (simp add: roomy_upd)
  qed
  ultimately show ?thesis
    using k ps(2) np d'(1)
    by (auto simp: file_ok_roomy hdr_ok_fields page_ok_def page_used_def intro!: exI [of _ "p # ps"])
qed

lemma file_ok_new_page:
  assumes k: "file_ok fd h C" and n: "first_free_page_no h = RM_NO_PAGE"
    and d': "page_ok h d'" "page_used h d' = 0" "next_free_page_no d' = RM_NO_PAGE"
  defines "h' \<equiv> h\<lparr>num_pages := num_pages h + 1, first_free_page_no := num_pages h\<rparr>"
  shows "file_ok fd h' (C(PageId fd (num_pages h) \<mapsto> d'))"
    and "page_view h' d' = Map.empty \<Longrightarrow> tab_view fd h' (C(PageId fd (num_pages h) \<mapsto> d')) = tab_view fd h C"
proof -
  let ?p = "num_pages h" and ?C = "C(PageId fd (num_pages h) \<mapsto> d')"
  obtain ps where ps: "free_chain fd C (first_free_page_no h) ps" "set ps = roomy fd h C" using k by (auto simp: file_ok_roomy)
  then have e: "roomy fd h C = {}" using n by (cases ps) auto
  have hk: "hdr_ok h" "RM_FIRST_RECORD_PAGE \<le> ?p" using k by (auto simp: file_ok_def)
  have pu: "page_used h' = page_used h" "hdr_ok h' = hdr_ok h" "page_view h' = page_view h"
    by (simp_all add: h'_def fun_eq_iff page_used_def hdr_ok_fields)
  have "?p \<noteq> RM_NO_PAGE" using hk(2) by (simp add: rm_consts)
  then have c: "free_chain fd ?C (first_free_page_no h') [?p]" using d'(3) by (simp add: h'_def)
  have "q \<in> roomy fd h' ?C \<longleftrightarrow> q = ?p" for q
  proof (cases "q = ?p")
    case True
    then show ?thesis using d'(2) hk by (simp add: roomy_def pu) (simp add: h'_def hdr_ok_def)
  next
    case False
    have "q \<notin> roomy fd h C" using e by simp
    with False show ?thesis by (auto simp: roomy_def pu) (auto simp: h'_def)
  qed
  then have "roomy fd h' ?C = {?p}" by auto
  moreover have "\<exists>d. ?C (PageId fd q) = Some d \<and> page_ok h' d" if q: "RM_FIRST_RECORD_PAGE \<le> q" "q < num_pages h'" for q
  proof (cases "q = ?p")
    case True
    then show ?thesis using d'(1) by (simp add: page_ok_def pu)
  next
    case False
    then have "q < num_pages h" using q(2) by (simp add: h'_def)
    with k q(1) have "\<exists>d. C (PageId fd q) = Some d \<and> page_ok h d" by (auto simp: file_ok_def)
    with False show ?thesis by (simp add: page_ok_def pu)
  qed
  ultimately show "file_ok fd h' ?C"
    using c hk pu by (auto simp: file_ok_roomy h'_def intro!: exI [of _ "[?p]"])
  show "tab_view fd h' ?C = tab_view fd h C" if "page_view h' d' = Map.empty"
    using that pu(3) by (auto simp: tab_view_def fun_eq_iff h'_def)
qed

section \<open>What the code does to the bytes of a page\<close>

definition ins_page :: "RmFileHdr \<Rightarrow> nat \<Rightarrow> byte list \<Rightarrow> byte list \<Rightarrow> byte list" where
  "ins_page h i bs d = (let d1 = bitmap_set bitmap_off i (write_at (get_slot h i) bs d) in set_num_records (num_records d1 + 1) d1)"

definition del_page :: "nat \<Rightarrow> byte list \<Rightarrow> byte list" where
  "del_page i d = bitmap_reset bitmap_off i (set_num_records (num_records d - 1) d)"

lemma low_in_page: "bitmap_off \<le> PAGE_SIZE"
  by (simp add: page_offs PAGE_SIZE_def)

lemma length_page_ops [simp]:
  "length d = PAGE_SIZE \<Longrightarrow> length (set_num_records n d) = PAGE_SIZE"
  "length d = PAGE_SIZE \<Longrightarrow> length (set_next_free_page_no n d) = PAGE_SIZE"
  "length d = PAGE_SIZE \<Longrightarrow> length (set_page_lsn n d) = PAGE_SIZE"
  by (simp_all add: set_num_records_def set_next_free_page_no_def set_page_lsn_def length_write_at page_offs PAGE_SIZE_def)

lemma header_reads:
  assumes "length d = PAGE_SIZE"
  shows "in_range 4 n \<Longrightarrow> num_records (set_num_records n d) = n" "next_free_page_no (set_num_records n d) = next_free_page_no d"
    "num_records (set_next_free_page_no n d) = num_records d"
    "in_range 4 n \<Longrightarrow> next_free_page_no (set_next_free_page_no n d) = n"
    "num_records (set_page_lsn n d) = num_records d" "next_free_page_no (set_page_lsn n d) = next_free_page_no d"
  using assms
  by (simp_all add: num_records_def next_free_page_no_def set_num_records_def set_next_free_page_no_def set_page_lsn_def
      page_offs PAGE_SIZE_def read_write_same read_write_disj)

lemma view_header_ops:
  assumes "hdr_ok h" and "length d = PAGE_SIZE"
  shows "page_view h (set_num_records n d) = page_view h d" "page_view h (set_next_free_page_no n d) = page_view h d"
    "page_view h (set_page_lsn n d) = page_view h d"
  using assms by (auto simp: set_num_records_def set_next_free_page_no_def set_page_lsn_def page_offs intro!: page_view_low)

lemma count_in_range: "i \<le> int PAGE_SIZE \<Longrightarrow> 0 \<le> i \<Longrightarrow> in_range 4 i"
  by (simp add: in_range_def PAGE_SIZE_def)

lemma hdr_ok_count: "hdr_ok h \<Longrightarrow> num_records_per_page h \<le> PAGE_SIZE"
proof -
  assume h: "hdr_ok h"
  then have "num_records_per_page h \<le> num_records_per_page h * record_size h" by (simp add: hdr_ok_def)
  also have "\<dots> \<le> PAGE_SIZE" using h by (simp add: hdr_ok_def)
  finally show ?thesis .
qed

lemma slot_reads:
  assumes "hdr_ok h" and "length d = PAGE_SIZE" and "i < num_records_per_page h" and "length bs = record_size h"
  shows "num_records (write_at (get_slot h i) bs d) = num_records d"
    "next_free_page_no (write_at (get_slot h i) bs d) = next_free_page_no d"
    "length (write_at (get_slot h i) bs d) = PAGE_SIZE"
  using assms slot_inside [OF assms(1,3)]
  by (auto simp: num_records_def next_free_page_no_def page_offs get_slot_def length_write_at intro!: arg_cong [where f = get_int] read_write_disj)

lemma bitmap_reads:
  assumes "length d = PAGE_SIZE"
  shows "num_records (bitmap_set bitmap_off i d) = num_records d" "num_records (bitmap_reset bitmap_off i d) = num_records d"
    "next_free_page_no (bitmap_set bitmap_off i d) = next_free_page_no d"
    "next_free_page_no (bitmap_reset bitmap_off i d) = next_free_page_no d"
proof -
  have "next_free_off + 4 \<le> bitmap_off" "num_records_off + 4 \<le> bitmap_off" by (simp_all add: page_offs)
  then show "num_records (bitmap_set bitmap_off i d) = num_records d" "num_records (bitmap_reset bitmap_off i d) = num_records d"
    "next_free_page_no (bitmap_set bitmap_off i d) = next_free_page_no d"
    "next_free_page_no (bitmap_reset bitmap_off i d) = next_free_page_no d"
    using assms low_in_page by (simp_all add: num_records_def next_free_page_no_def read_bitmap_low)
qed

lemma ins_page_ok:
  assumes h: "hdr_ok h" and d: "page_ok h d" and i: "i < num_records_per_page h" and l: "length bs = record_size h"
    and f: "page_view h d i = None"
  shows "page_ok h (ins_page h i bs d)" "page_view h (ins_page h i bs d) = (page_view h d)(i \<mapsto> bs)"
    "page_used h (ins_page h i bs d) = page_used h d + 1" "next_free_page_no (ins_page h i bs d) = next_free_page_no d"
    "num_records (ins_page h i bs d) = int (page_used h d + 1)"
proof -
  let ?w = "write_at (get_slot h i) bs d" and ?e = "ins_page h i bs d"
  have ld: "length d = PAGE_SIZE" "num_records d = int (page_used h d)" using d by (simp_all add: page_ok_def)
  note sr = slot_reads [OF h ld(1) i l]
  have ns: "\<not> is_set bitmap_off d i" using f i by (simp add: page_view_def split: if_splits)
  have rd: "read_at (get_slot h i) (record_size h) ?w = bs"
    using slot_inside [OF h i] ld l by (simp add: read_write_same)
  have v: "page_view h ?e = (page_view h d)(i \<mapsto> bs)"
    using h i sr(3) ns rd page_view_slot [OF h ld(1) l i] by (simp add: ins_page_def Let_def view_header_ops page_view_set)
  show "page_view h ?e = (page_view h d)(i \<mapsto> bs)" by (rule v)
  then show u: "page_used h ?e = page_used h d + 1" using f by (simp add: page_used_def domIff)
  have "int (page_used h d + 1) \<le> int PAGE_SIZE"
    using page_used_le [of h ?e] hdr_ok_count [OF h] u by simp
  then have r: "in_range 4 (int (page_used h d) + 1)" by (intro count_in_range) simp_all
  show "next_free_page_no ?e = next_free_page_no d"
    using sr by (simp add: ins_page_def Let_def header_reads bitmap_reads)
  show nr: "num_records ?e = int (page_used h d + 1)"
    using sr ld r by (simp add: ins_page_def Let_def header_reads bitmap_reads)
  show "page_ok h ?e" using sr u nr by (simp add: page_ok_def ins_page_def Let_def)
qed

lemma del_page_ok:
  assumes h: "hdr_ok h" and d: "page_ok h d" and i: "i < num_records_per_page h" and f: "page_view h d i \<noteq> None"
  shows "page_ok h (del_page i d)" "page_view h (del_page i d) = (page_view h d)(i := None)"
    "page_used h (del_page i d) + 1 = page_used h d" "next_free_page_no (del_page i d) = next_free_page_no d"
proof -
  let ?e = "del_page i d"
  have ld: "length d = PAGE_SIZE" "num_records d = int (page_used h d)" using d by (simp_all add: page_ok_def)
  show v: "page_view h ?e = (page_view h d)(i := None)"
    using h i ld by (simp add: del_page_def page_view_reset view_header_ops)
  have "page_used h d > 0" using f by (auto simp: page_used_def card_gt_0_iff)
  then show u: "page_used h ?e + 1 = page_used h d"
    using f unfolding page_used_def v by (auto simp: domIff card_Diff_singleton)
  have "in_range 4 (int (page_used h d) - 1)"
    using page_used_le [of h d] hdr_ok_count [OF h] \<open>page_used h d > 0\<close> by (intro count_in_range) simp_all
  then show "next_free_page_no ?e = next_free_page_no d" "page_ok h ?e"
    using ld u by (auto simp: del_page_def header_reads bitmap_reads page_ok_def)
qed

section \<open>A file handle at work\<close>

abbreviation contents :: "rm_world \<Rightarrow> page_id \<rightharpoonup> byte list" where
  "contents s \<equiv> content (rw_bpm s)"

definition table :: "int \<Rightarrow> rm_world \<Rightarrow> rid \<rightharpoonup> byte list" where
  "table fd s = tab_view fd (rw_hdr s) (contents s)"

text \<open>The header page and the pages not yet allocated are not cached; the page counter agrees.\<close>

definition frame_rules :: "int \<Rightarrow> rm_world \<Rightarrow> bool" where
  "frame_rules fd s \<longleftrightarrow>
     (\<forall>p. p = RM_FILE_HDR_PAGE \<or> num_pages (rw_hdr s) \<le> p \<longrightarrow> frame_of (rw_bpm s) (PageId fd p) = None) \<and>
     fd2pageno (bp_disk (rw_bpm s)) fd = num_pages (rw_hdr s)"

definition rm_ok :: "int \<Rightarrow> rm_world \<Rightarrow> bool" where
  "rm_ok fd s \<longleftrightarrow> pool_ok (rw_bpm s) \<and> file_ok fd (rw_hdr s) (contents s) \<and> frame_rules fd s"

text \<open>In the middle of an operation: page \<open>p\<close> of the file is pinned in frame \<open>f\<close>.\<close>

definition session :: "int \<Rightarrow> int \<Rightarrow> frame_id \<Rightarrow> rm_world \<Rightarrow> bool" where
  "session fd p f s \<longleftrightarrow> pinned_at (rw_bpm s) (PageId fd p) f \<and> frame_rules fd s \<and>
     RM_FIRST_RECORD_PAGE \<le> p \<and> p < num_pages (rw_hdr s)"

lemma session_data:
  assumes "session fd p f s"
  shows "contents s (PageId fd p) = Some (data_of f s)" "page_id_of f s = PageId fd p" "length (data_of f s) = PAGE_SIZE"
    "RM_FIRST_RECORD_PAGE \<le> p" "p < num_pages (rw_hdr s)"
  using assms pinned_frame [of "rw_bpm s" "PageId fd p" f] by (auto simp: session_def data_of_def page_id_of_def)

lemma edit_fields [simp]: "rw_hdr (edit f g s) = rw_hdr s" "rw_locks (edit f g s) = rw_locks s"
  by (simp_all add: edit_def)

lemma edit_session:
  assumes "session fd p f s" and "length (g (data_of f s)) = PAGE_SIZE"
  shows "session fd p f (edit f g s)" "contents (edit f g s) = (contents s)(PageId fd p \<mapsto> g (data_of f s))"
    "data_of f (edit f g s) = g (data_of f s)"
proof -
  have "pinned_at (rw_bpm s) (PageId fd p) f" using assms(1) by (simp add: session_def)
  note st = store_session [OF this assms(2)]
  show "session fd p f (edit f g s)" "contents (edit f g s) = (contents s)(PageId fd p \<mapsto> g (data_of f s))"
    "data_of f (edit f g s) = g (data_of f s)"
    using st assms(1) by (simp_all add: edit_def session_def frame_rules_def data_of_def)
qed

lemma in_pool_run: "in_pool m s = (case m (rw_bpm s) of (r, b) \<Rightarrow> (r, s\<lparr>rw_bpm := b\<rparr>))"
  by (simp add: in_pool_def zoom_def)

lemma in_locks_run: "in_locks m s = (case m (rw_locks s) of (r, l) \<Rightarrow> (r, s\<lparr>rw_locks := l\<rparr>))"
  by (simp add: in_locks_def zoom_def)

lemma locks_irrelevant:
  "rm_ok fd (s\<lparr>rw_locks := l\<rparr>) = rm_ok fd s" "table fd (s\<lparr>rw_locks := l\<rparr>) = table fd s"
  by (simp_all add: rm_ok_def frame_rules_def table_def)

lemma fetch_handle_session:
  assumes k: "rm_ok fd s" and p: "RM_FIRST_RECORD_PAGE \<le> p" "p < num_pages (rw_hdr s)"
    and ft: "fetch_page_handle fd p s = (Inr f, s')"
  shows "session fd p f s'" "rw_hdr s' = rw_hdr s" "rw_locks s' = rw_locks s" "contents s \<subseteq>\<^sub>m contents s'"
    "file_ok fd (rw_hdr s) (contents s')" "tab_view fd (rw_hdr s) (contents s') = table fd s" "page_ok (rw_hdr s) (data_of f s')"
proof -
  have n: "p \<noteq> INVALID_PAGE_ID" using p by (simp add: rm_consts INVALID_PAGE_ID_def)
  obtain b where b: "fetch_page (PageId fd p) (rw_bpm s) = (Inr (Some f), b)" "s' = s\<lparr>rw_bpm := b\<rparr>"
    using ft n by (auto simp: fetch_page_handle_def bindc_eq_Inr in_pool_run split: option.splits prod.splits)
  have k': "pool_ok (rw_bpm s)" "file_ok fd (rw_hdr s) (contents s)" "frame_rules fd s" using k by (simp_all add: rm_ok_def)
  note fs = fetch_session [OF k'(1) _ b(1)]
  show "rw_hdr s' = rw_hdr s" "rw_locks s' = rw_locks s" "contents s \<subseteq>\<^sub>m contents s'" using fs n b(2) by simp_all
  have e: "PageId fd q \<noteq> PageId fd p" if "q = RM_FILE_HDR_PAGE \<or> num_pages (rw_hdr s) \<le> q" for q
    using that p by (auto simp: rm_consts)
  show se: "session fd p f s'"
    using fs(1,3) fs(4) [OF _ e] n k'(3) p b(2) by (auto simp: session_def frame_rules_def)
  have mono: "contents s q = Some x \<Longrightarrow> contents s' q = Some x" for q x using fs(2) n b(2) by (auto dest: map_leD)
  note fm = file_ok_mono [OF k'(2), of "contents s'"]
  show fk: "file_ok fd (rw_hdr s) (contents s')" using fm(1) mono by blast
  show "tab_view fd (rw_hdr s) (contents s') = table fd s" using fm(2) mono by (simp add: table_def)
  show "page_ok (rw_hdr s) (data_of f s')" using file_ok_page [OF fk p session_data(1) [OF se]] .
qed

lemma unpin_ends:
  assumes se: "session fd p f s" and fk: "file_ok fd (rw_hdr s) (contents s)"
    and u: "unpin_cmd (PageId fd p) True s = (r, s')"
  shows "rm_ok fd s'" "r = Inr True" "contents s' = contents s" "rw_hdr s' = rw_hdr s" "rw_locks s' = rw_locks s"
    "frame_of (rw_bpm s') (PageId fd p) = Some f" "data_of f s' = data_of f s" "p_dirty (pages (rw_bpm s') ! f)"
proof -
  obtain x b where b: "unpin_page (PageId fd p) True (rw_bpm s) = (x, b)" by fastforce
  with u have s': "s' = s\<lparr>rw_bpm := b\<rparr>" "r = Inr x" by (simp_all add: unpin_cmd_def in_pool_run)
  have pin: "pinned_at (rw_bpm s) (PageId fd p) f" using se by (simp add: session_def)
  note us = unpin_session [OF pin b]
  show "r = Inr True" "contents s' = contents s" "rw_hdr s' = rw_hdr s" "rw_locks s' = rw_locks s"
    "frame_of (rw_bpm s') (PageId fd p) = Some f" "data_of f s' = data_of f s" "p_dirty (pages (rw_bpm s') ! f)"
    using us s' pinned_frame(5) [OF pin] by (simp_all add: data_of_def)
  show "rm_ok fd s'"
    using us fk se s' by (simp add: rm_ok_def session_def frame_rules_def)
qed

lemma header_ends:
  assumes se: "session fd p f s" and w: "write_header fd s = (Inr (), s')"
  shows "session fd p f s'" "rw_hdr s' = rw_hdr s" "rw_locks s' = rw_locks s" "data_of f s' = data_of f s"
    "\<And>q x. pid_page_no q \<noteq> RM_FILE_HDR_PAGE \<Longrightarrow> contents s q = Some x \<Longrightarrow> contents s' q = Some x"
proof -
  obtain b where b: "on_disk (write_page fd 0 (hdr_bytes (rw_hdr s))) (rw_bpm s) = (Inr (), b)" "s' = s\<lparr>rw_bpm := b\<rparr>"
    using w by (auto simp: write_header_def in_pool_run RM_FILE_HDR_PAGE_def split: prod.splits)
  have l: "length (hdr_bytes (rw_hdr s)) \<le> PAGE_SIZE" by (simp add: hdr_bytes_def PAGE_SIZE_def)
  have pin: "pinned_at (rw_bpm s) (PageId fd p) f" "frame_of (rw_bpm s) (PageId fd 0) = None"
    using se by (auto simp: session_def frame_rules_def RM_FILE_HDR_PAGE_def)
  note hs = header_session [OF pin l b(1)]
  show "session fd p f s'" "rw_hdr s' = rw_hdr s" "rw_locks s' = rw_locks s" "data_of f s' = data_of f s"
    using hs se b(2) by (simp_all add: session_def frame_rules_def data_of_def)
  show "contents s' q = Some x" if "pid_page_no q \<noteq> RM_FILE_HDR_PAGE" "contents s q = Some x" for q x
    using hs(2) [of q x] that b(2) by (cases q) (auto simp: RM_FILE_HDR_PAGE_def)
qed

lemma header_change:
  "session fd p f (s\<lparr>rw_hdr := (rw_hdr s)\<lparr>first_free_page_no := x\<rparr>\<rparr>) = session fd p f s"
  "contents (s\<lparr>rw_hdr := h\<rparr>) = contents s" "data_of f (s\<lparr>rw_hdr := h\<rparr>) = data_of f s"
  "page_id_of f (s\<lparr>rw_hdr := h\<rparr>) = page_id_of f s"
  by (simp_all add: session_def frame_rules_def data_of_def page_id_of_def)

lemma slot_in_file: "hdr_ok h \<Longrightarrow> i < num_records_per_page h \<Longrightarrow> slot_ok h (int i)"
  using slot_inside [of h i] bit_in_page [of h i] by (simp add: slot_ok_def)

text \<open>The record at a present identifier.\<close>

lemma table_present:
  assumes "table fd s r = Some x"
  obtains p i d where "r = Rid p (int i)" "RM_FIRST_RECORD_PAGE \<le> p" "p < num_pages (rw_hdr s)" "contents s (PageId fd p) = Some d"
    "page_view (rw_hdr s) d i = Some x" "i < num_records_per_page (rw_hdr s)"
proof -
  from assms obtain d where d: "RM_FIRST_RECORD_PAGE \<le> rid_page_no r" "rid_page_no r < num_pages (rw_hdr s)" "0 \<le> rid_slot_no r"
    "contents s (PageId fd (rid_page_no r)) = Some d" "page_view (rw_hdr s) d (nat (rid_slot_no r)) = Some x"
    by (auto simp: table_def tab_view_def bind_eq_Some_conv split: if_splits)
  have "r = Rid (rid_page_no r) (int (nat (rid_slot_no r)))" using d(3) by (cases r) simp
  moreover have "nat (rid_slot_no r) < num_records_per_page (rw_hdr s)"
    using d(5) page_view_dom [of "rw_hdr s" d "nat (rid_slot_no r)"] by simp
  ultimately show thesis using that d by blast
qed

section \<open>The four operations\<close>

lemma get_record_effect:
  assumes k: "rm_ok fd s" and t: "table fd s r = Some x" and g: "get_record fd r True s = (Inr bs, s')"
  shows "bs = x" "rm_ok fd s'" "table fd s' = table fd s" "rw_hdr s' = rw_hdr s"
proof -
  obtain p i d where r: "r = Rid p (int i)" "RM_FIRST_RECORD_PAGE \<le> p" "p < num_pages (rw_hdr s)"
    "page_view (rw_hdr s) d i = Some x" "i < num_records_per_page (rw_hdr s)"
    using t by (rule table_present)
  obtain l1 a1 where l1: "lock_shared_on_record r fd (rw_locks s) = (Inr a1, l1)"
    using g by (auto simp: get_record_def bindc_eq_Inr in_locks_run split: prod.splits)
  let ?s1 = "s\<lparr>rw_locks := l1\<rparr>"
  have k1: "rm_ok fd ?s1" "p < num_pages (rw_hdr ?s1)" using k r(3) by (simp_all add: locks_irrelevant)
  obtain f s2 where f: "fetch_page_handle fd p ?s1 = (Inr f, s2)"
    and u: "unpin_cmd (PageId fd p) True s2 = (Inr True, s') \<or> (\<exists>y. unpin_cmd (PageId fd p) True s2 = (Inr y, s'))"
    and bs: "bs = read_at (get_slot (rw_hdr s2) i) (record_size (rw_hdr s2)) (data_of f s2)"
    using g l1 r(1) by (auto simp: get_record_def bindc_eq_Inr in_locks_run Let_def split: prod.splits if_splits)
  note fs = fetch_handle_session [OF k1(1) r(2) k1(2) f]
  obtain y where u': "unpin_cmd (PageId fd p) True s2 = (Inr y, s')" using u by blast
  have fk: "file_ok fd (rw_hdr s2) (contents s2)" using fs by simp
  note ue = unpin_ends [OF fs(1) fk u']
  have "tab_view fd (rw_hdr s2) (contents s2) r = Some x" using fs(2,6) t by (simp add: locks_irrelevant)
  then have "page_view (rw_hdr s2) (data_of f s2) i = Some x"
    using session_data(1,4,5) [OF fs(1)] r(1) tab_view_page by metis
  then show "bs = x" using bs by (simp add: page_view_def split: if_splits)
  show "rm_ok fd s'" by (rule ue(1))
  show "table fd s' = table fd s" using ue(3,4) fs(2,6) by (simp add: table_def locks_irrelevant)
  show "rw_hdr s' = rw_hdr s" using ue(4) fs(2) by simp
qed

text \<open>Writing to a frame that is not pinned any more but is marked dirty.\<close>

lemma edit_dirty:
  assumes k: "rm_ok fd s" and m: "frame_of (rw_bpm s) (PageId fd p) = Some f" and dy: "p_dirty (pages (rw_bpm s) ! f)"
    and l: "length (g (data_of f s)) = PAGE_SIZE"
  shows "pool_ok (rw_bpm (edit f g s))" "contents (edit f g s) = (contents s)(PageId fd p \<mapsto> g (data_of f s))"
    "frame_rules fd (edit f g s)"
proof -
  let ?b = "rw_bpm s" and ?bs = "g (data_of f s)"
  have pk: "pool_ok ?b" "frame_rules fd s" using k by (simp_all add: rm_ok_def)
  note w = pool_ok_wf [OF pk(1)]
  note mf = bp_wf_mapped [OF w(1) m] and b = bp_wf_basic [OF w(1)]
  note fr = bp_wf_frame [OF w(1) mf(1)]
  have wf: "bp_wf (store_page f ?bs ?b)"
    unfolding store_page_adjust using mf b fr l by (intro adjust_wf [OF w(1) m]) auto
  have co: "coherent (store_page f ?bs ?b)"
    unfolding store_page_adjust using mf dy by (intro adjust_coherent [OF w m]) auto
  show "pool_ok (rw_bpm (edit f g s))"
    using pk(1) wf co mf(3) by (auto simp: pool_ok_def bp_ok_def edit_def store_page_def nth_upd)
  show "contents (edit f g s) = (contents s)(PageId fd p \<mapsto> ?bs)"
  proof
    fix q
    have "h \<noteq> f" if "frame_of ?b q = Some h" "q \<noteq> PageId fd p" for h using frame_unique [OF w(1) m, of q] that by auto
    then show "contents (edit f g s) q = ((contents s)(PageId fd p \<mapsto> ?bs)) q"
      using mf(1) b(1) m by (cases "q = PageId fd p"; cases "frame_of ?b q") (auto simp: content_def edit_def store_page_def)
  qed
  show "frame_rules fd (edit f g s)" using pk(2) by (simp add: frame_rules_def edit_def store_page_def)
qed

lemma update_record_effect:
  assumes k: "rm_ok fd s" and t: "table fd s r = Some x" and l: "length buf = record_size (rw_hdr s)"
    and u: "update_record fd r buf True s = (Inr (), s')"
  shows "rm_ok fd s'" "table fd s' = (table fd s)(r \<mapsto> buf)" "rw_hdr s' = rw_hdr s"
proof -
  obtain p i where r: "r = Rid p (int i)" "RM_FIRST_RECORD_PAGE \<le> p" "p < num_pages (rw_hdr s)" "i < num_records_per_page (rw_hdr s)"
    using t by (rule table_present)
  obtain l1 a1 where l1: "lock_exclusive_on_record r fd (rw_locks s) = (Inr a1, l1)"
    using u by (auto simp: update_record_def bindc_eq_Inr in_locks_run split: prod.splits)
  let ?s1 = "s\<lparr>rw_locks := l1\<rparr>" and ?h = "rw_hdr s"
  have k1: "rm_ok fd ?s1" "p < num_pages (rw_hdr ?s1)" using k r(3) by (simp_all add: locks_irrelevant)
  obtain f s2 where f: "fetch_page_handle fd p ?s1 = (Inr f, s2)"
    using u l1 r(1) by (auto simp: update_record_def bindc_eq_Inr in_locks_run split: prod.splits)
  note fs = fetch_handle_session [OF k1(1) r(2) k1(2) f]
  have h2: "rw_hdr s2 = ?h" using fs(2) by simp
  have fk2: "file_ok fd ?h (contents s2)" using fs(5) by simp
  have hk: "hdr_ok ?h" using fk2 by (simp add: file_ok_def)
  let ?d = "data_of f s2" and ?g = "write_at (get_slot ?h i) buf"
  have pk: "page_ok ?h ?d" using fs(7) by simp
  then have ld: "length ?d = PAGE_SIZE" by (simp add: page_ok_def)
  obtain s3 y where s3: "unpin_cmd (PageId fd p) True (edit f ?g s2) = (Inr y, s3)" and s': "s' = stamp f s3"
    using u l1 r(1,4) f h2 l slot_in_file [OF hk]
    by (auto simp: update_record_def bindc_eq_Inr in_locks_run split: prod.splits)
  note sr = slot_reads [OF hk ld r(4) l]
  note es = edit_session [OF fs(1), of ?g, OF sr(3)]
  note sd = session_data [OF fs(1)]
  have "tab_view fd ?h (contents s2) r = Some x" using fs(6) t h2 by (simp add: locks_irrelevant)
  then have vi: "page_view ?h ?d i = Some x" using tab_view_page [of p ?h "contents s2"] sd(1,4,5) r(1) h2 by simp
  then have st: "is_set bitmap_off ?d i" by (simp add: page_view_def split: if_splits)
  have v: "page_view ?h (?g ?d) = (page_view ?h ?d)(i \<mapsto> buf)" using page_view_slot [OF hk ld l r(4)] st by simp
  then have us: "page_used ?h (?g ?d) = page_used ?h ?d" using vi by (auto simp: page_used_def insert_absorb domIff)
  then have pk': "page_ok ?h (?g ?d)" using sr pk by (simp add: page_ok_def)
  have fk3: "file_ok fd (rw_hdr (edit f ?g s2)) (contents (edit f ?g s2))"
    using file_ok_upd_same [OF fk2 sd(4) _ sd(1) pk'] us sr(2) es(2) sd(5) h2 by simp
  note ue = unpin_ends [OF es(1) fk3 s3]
  let ?e = "set_page_lsn (prev_lsn (fst (rw_locks s3))) (?g ?d)"
  have d3: "data_of f s3 = ?g ?d" using ue(7) es(3) by simp
  have le: "length (set_page_lsn (prev_lsn (fst (rw_locks s3))) (data_of f s3)) = PAGE_SIZE" using sr(3) d3 by simp
  note ed = edit_dirty [OF ue(1,6,8), of "set_page_lsn (prev_lsn (fst (rw_locks s3)))", OF le]
  have c': "contents s' = (contents s2)(PageId fd p \<mapsto> ?e)" using ed(2) ue(3) es(2) d3 by (simp add: s' stamp_def)
  show h': "rw_hdr s' = ?h" using ue(4) h2 by (simp add: s' stamp_def)
  have ve: "page_view ?h ?e = (page_view ?h ?d)(i \<mapsto> buf)" using v view_header_ops(3) [OF hk sr(3)] by simp
  then have "page_ok ?h ?e" "page_used ?h ?e = page_used ?h ?d" "next_free_page_no ?e = next_free_page_no ?d"
    using pk' us sr header_reads(5,6) [OF sr(3)] v by (auto simp: page_ok_def page_used_def)
  with file_ok_upd_same [OF fk2 sd(4) _ sd(1)] sd(5) h2 have "file_ok fd (rw_hdr s') (contents s')"
    by (simp add: c' h')
  with ed(1,3) show "rm_ok fd s'" by (simp add: rm_ok_def s' stamp_def)
  have "tab_view fd ?h ((contents s2)(PageId fd p \<mapsto> ?e)) = (tab_view fd ?h (contents s2))(Rid p (int i) := Some buf)"
    by (rule tab_view_upd [of p ?h "contents s2" fd ?d]) (use sd(1,4,5) h2 ve in simp_all)
  then show "table fd s' = (table fd s)(r \<mapsto> buf)" using fs(6) r(1) by (simp add: table_def c' h')
qed

text \<open>
  For the operations that also write the header: what happens to the pages other than the one
  being worked on, and the last step, from the bytes of that page to the table.
\<close>

definition others_kept :: "int \<Rightarrow> int \<Rightarrow> rm_world \<Rightarrow> rm_world \<Rightarrow> bool" where
  "others_kept fd p s s' \<longleftrightarrow> (\<forall>q x. q \<noteq> PageId fd p \<longrightarrow> pid_page_no q \<noteq> RM_FILE_HDR_PAGE \<longrightarrow> contents s q = Some x \<longrightarrow> contents s' q = Some x)"

lemma others_kept_trans: "others_kept fd p s t \<Longrightarrow> others_kept fd p t u \<Longrightarrow> others_kept fd p s u"
  by (simp add: others_kept_def)

lemma others_kept_refl: "others_kept fd p s s"
  by (simp add: others_kept_def)

lemma edit_others: "session fd p f s \<Longrightarrow> length (g (data_of f s)) = PAGE_SIZE \<Longrightarrow> others_kept fd p s (edit f g s)"
  by (simp add: others_kept_def edit_session(2))

lemma finish:
  assumes se: "session fd p f s" and ok: "others_kept fd p s2 s" and d: "contents s2 (PageId fd p) = Some d"
    and fk: "file_ok fd (rw_hdr s) ((contents s2)(PageId fd p \<mapsto> data_of f s))"
    and u: "unpin_cmd (PageId fd p) True s = (r, s')"
  shows "rm_ok fd s'" "r = Inr True" "table fd s' = tab_view fd (rw_hdr s) ((contents s2)(PageId fd p \<mapsto> data_of f s))"
    "others_kept fd p s2 s'" "rw_hdr s' = rw_hdr s"
proof -
  have mono: "((contents s2)(PageId fd p \<mapsto> data_of f s)) (PageId fd q) = Some x \<Longrightarrow> contents s (PageId fd q) = Some x"
    if "RM_FIRST_RECORD_PAGE \<le> q" for q x
    using ok session_data(1) [OF se] that by (auto simp: others_kept_def rm_consts split: if_splits)
  note fm = file_ok_mono [OF fk, of "contents s", OF mono]
  note ue = unpin_ends [OF se fm(1) u]
  show "rm_ok fd s'" "r = Inr True" "rw_hdr s' = rw_hdr s" using ue(1,2,4) by simp_all
  show "table fd s' = tab_view fd (rw_hdr s) ((contents s2)(PageId fd p \<mapsto> data_of f s))"
    using fm(2) ue(3,4) by (simp add: table_def)
  show "others_kept fd p s2 s'" using ok ue(3) by (simp add: others_kept_def)
qed

lemma release_effect:
  assumes se: "session fd p f s" and r: "release_page_handle fd f s = (Inr (), s')"
  shows "session fd p f s'" "rw_hdr s' = (rw_hdr s)\<lparr>first_free_page_no := p\<rparr>" "rw_locks s' = rw_locks s"
    "data_of f s' = set_next_free_page_no (first_free_page_no (rw_hdr s)) (data_of f s)" "others_kept fd p s s'"
proof -
  note sd = session_data [OF se]
  let ?g = "set_next_free_page_no (first_free_page_no (rw_hdr s))"
  have l: "length (?g (data_of f s)) = PAGE_SIZE" using sd(3) by simp
  note es = edit_session [OF se, of ?g, OF l]
  let ?s1 = "(edit f ?g s)\<lparr>rw_hdr := (rw_hdr s)\<lparr>first_free_page_no := p\<rparr>\<rparr>"
  have w: "write_header fd ?s1 = (Inr (), s')"
    using r session_data(2) [OF es(1)] by (simp add: release_page_handle_def)
  have "session fd p f ((edit f ?g s)\<lparr>rw_hdr := (rw_hdr (edit f ?g s))\<lparr>first_free_page_no := p\<rparr>\<rparr>)"
    by (simp only: header_change es(1))
  then have se1: "session fd p f ?s1" by simp
  note he = header_ends [OF se1 w]
  show "session fd p f s'" "rw_hdr s' = (rw_hdr s)\<lparr>first_free_page_no := p\<rparr>" "rw_locks s' = rw_locks s"
    "data_of f s' = ?g (data_of f s)"
    using he es(3) by (simp_all add: header_change)
  show "others_kept fd p s s'" using he(5) es(2) by (simp add: others_kept_def)
qed

lemma stamp_session:
  assumes "session fd p f s"
  shows "session fd p f (stamp f s)" "data_of f (stamp f s) = set_page_lsn (prev_lsn (fst (rw_locks s))) (data_of f s)"
    "others_kept fd p s (stamp f s)" "rw_hdr (stamp f s) = rw_hdr s"
  using assms session_data(3) [OF assms]
  by (simp_all add: stamp_def edit_session edit_others)

lemma stamped_page:
  assumes "hdr_ok h" and "length d = PAGE_SIZE"
  shows "page_view h (set_page_lsn l d) = page_view h d" "page_ok h (set_page_lsn l d) = page_ok h d"
    "page_used h (set_page_lsn l d) = page_used h d" "next_free_page_no (set_page_lsn l d) = next_free_page_no d"
  using assms by (simp_all add: view_header_ops page_ok_def page_used_def header_reads)

text \<open>Deleting, once the page has room.\<close>

lemma delete_tail:
  assumes se: "session fd p f s" and hk: "hdr_ok (rw_hdr s)" and i: "i < num_records_per_page (rw_hdr s)"
    and run: "bindc (modify (edit f (\<lambda>d. set_num_records (num_records d - 1) d)))
      (\<lambda>_. bindc (modify (edit f (bitmap_reset bitmap_off i)))
      (\<lambda>_. bindc (modify (stamp f)) (\<lambda>_ s. bindc (unpin_cmd (page_id_of f s) True) (\<lambda>_. ret ()) s))) s = (Inr (), s')"
  obtains t y l where "unpin_cmd (PageId fd p) True t = (Inr y, s')" "session fd p f t" "rw_hdr t = rw_hdr s"
    "data_of f t = set_page_lsn l (del_page i (data_of f s))" "others_kept fd p s t"
proof -
  let ?g1 = "\<lambda>d. set_num_records (num_records d - 1) d" and ?g2 = "bitmap_reset bitmap_off i"
  note sd = session_data [OF se]
  have l1: "length (?g1 (data_of f s)) = PAGE_SIZE" using sd(3) by simp
  note e1 = edit_session [OF se, of ?g1, OF l1]
  have l2: "length (?g2 (data_of f (edit f ?g1 s))) = PAGE_SIZE" using e1(3) l1 by simp
  note e2 = edit_session [OF e1(1), of ?g2, OF l2]
  note st = stamp_session [OF e2(1)]
  let ?t = "stamp f (edit f ?g2 (edit f ?g1 s))"
  have "others_kept fd p s ?t"
    using edit_others [OF se, of ?g1, OF l1] edit_others [OF e1(1), of ?g2, OF l2] st(3) by (blast intro: others_kept_trans)
  moreover obtain y where "unpin_cmd (PageId fd p) True ?t = (Inr y, s')"
    using run session_data(2) [OF st(1)] by (auto simp: bindc_eq_Inr)
  ultimately show thesis
    using that st e2(3) e1(3) by (simp add: del_page_def)
qed

lemma first_free_range:
  assumes "file_ok fd h C" and "in_range 4 (num_pages h)"
  shows "in_range 4 (first_free_page_no h)"
proof -
  obtain ps where ps: "free_chain fd C (first_free_page_no h) ps" "set ps = roomy fd h C"
    using assms(1) by (auto simp: file_ok_roomy)
  show ?thesis
  proof (cases ps)
    case Nil
    then show ?thesis using ps by (simp add: rm_consts in_range_def)
  next
    case (Cons p qs)
    then have "first_free_page_no h \<in> roomy fd h C" using ps by auto
    then have "1 \<le> first_free_page_no h" "first_free_page_no h < num_pages h" by (auto simp: roomy_def rm_consts)
    with assms(2) show ?thesis by (simp add: in_range_def)
  qed
qed

text \<open>The two ways of deleting a record, on the abstract file.\<close>

lemma file_delete:
  fixes l :: int
  assumes fk: "file_ok fd h C" and p: "RM_FIRST_RECORD_PAGE \<le> p" "p < num_pages h" "C (PageId fd p) = Some d"
    and i: "i < num_records_per_page h" "page_view h d i \<noteq> None" and rg: "in_range 4 (num_pages h)"
  defines "full \<equiv> num_records d = int (num_records_per_page h)"
  defines "d' \<equiv> set_page_lsn l (del_page i (if full then set_next_free_page_no (first_free_page_no h) d else d))"
  defines "h' \<equiv> (if full then h\<lparr>first_free_page_no := p\<rparr> else h)"
  shows "file_ok fd h' (C(PageId fd p \<mapsto> d'))"
    and "tab_view fd h' (C(PageId fd p \<mapsto> d')) = (tab_view fd h C)(Rid p (int i) := None)"
proof -
  let ?ff = "first_free_page_no h"
  let ?c = "if full then set_next_free_page_no ?ff d else d"
  have hk: "hdr_ok h" using fk by (simp add: file_ok_def)
  have pk: "page_ok h d" by (rule file_ok_page [OF fk p])
  then have ld: "length d = PAGE_SIZE" "num_records d = int (page_used h d)" by (simp_all add: page_ok_def)
  have c: "page_view h ?c = page_view h d" "page_ok h ?c" "length ?c = PAGE_SIZE"
    using pk ld hk by (simp_all add: view_header_ops page_ok_def page_used_def header_reads)
  have i2: "page_view h ?c i \<noteq> None" using c(1) i(2) by simp
  note dp = del_page_ok [OF hk c(2) i(1) i2]
  have ldp: "length (del_page i ?c) = PAGE_SIZE" using dp(1) by (simp add: page_ok_def)
  note sp = stamped_page [OF hk ldp, of l]
  have u: "page_used h d' + 1 = page_used h d" using sp(3) dp(3) c(1) by (simp add: d'_def page_used_def)
  have ok: "page_ok h d'" using sp(2) dp(1) by (simp add: d'_def)
  have v: "page_view h d' = (page_view h d)(i := None)" using sp(1) dp(2) c(1) by (simp add: d'_def)
  have lt: "page_used h d' < num_records_per_page h" using u page_used_le [of h d] by simp
  have nf: "next_free_page_no d' = (if full then ?ff else next_free_page_no d)"
    using sp(4) dp(4) first_free_range [OF fk rg] ld by (simp add: d'_def header_reads)
  show "file_ok fd h' (C(PageId fd p \<mapsto> d'))"
  proof (cases full)
    case True
    then have "page_used h d = num_records_per_page h" using ld(2) by (simp add: full_def)
    from file_ok_release [OF fk p this ok lt] nf True show ?thesis by (simp add: h'_def)
  next
    case False
    then have "page_used h d < num_records_per_page h" using ld(2) page_used_le [of h d] by (simp add: full_def)
    with file_ok_upd_same [OF fk p ok] lt nf False show ?thesis by (simp add: h'_def)
  qed
  have "tab_view fd h' X = tab_view fd h X" for X by (simp add: h'_def tab_view_def fun_eq_iff hdr_ok_fields)
  then show "tab_view fd h' (C(PageId fd p \<mapsto> d')) = (tab_view fd h C)(Rid p (int i) := None)"
    using tab_view_upd [of p h C fd d d' i None] p v by simp
qed

lemma delete_record_effect:
  assumes k: "rm_ok fd s" and t: "table fd s r = Some x" and rg: "in_range 4 (num_pages (rw_hdr s))"
    and del: "delete_record fd r True s = (Inr (), s')"
  shows "rm_ok fd s'" "table fd s' = (table fd s)(r := None)"
    "num_pages (rw_hdr s') = num_pages (rw_hdr s)" "record_size (rw_hdr s') = record_size (rw_hdr s)"
proof -
  obtain p i where r: "r = Rid p (int i)" "RM_FIRST_RECORD_PAGE \<le> p" "p < num_pages (rw_hdr s)" "i < num_records_per_page (rw_hdr s)"
    using t by (rule table_present)
  obtain l1 a1 where l1: "lock_exclusive_on_record r fd (rw_locks s) = (Inr a1, l1)"
    using del by (auto simp: delete_record_def bindc_eq_Inr in_locks_run split: prod.splits)
  let ?s1 = "s\<lparr>rw_locks := l1\<rparr>" and ?h = "rw_hdr s" and ?n = "num_records_per_page (rw_hdr s)"
  have k1: "rm_ok fd ?s1" "p < num_pages (rw_hdr ?s1)" using k r(3) by (simp_all add: locks_irrelevant)
  obtain f s2 where f: "fetch_page_handle fd p ?s1 = (Inr f, s2)"
    using del l1 r(1) by (auto simp: delete_record_def bindc_eq_Inr in_locks_run split: prod.splits)
  note fs = fetch_handle_session [OF k1(1) r(2) k1(2) f]
  have h2: "rw_hdr s2 = ?h" and fk2: "file_ok fd ?h (contents s2)" using fs(2,5) by simp_all
  note sd = session_data [OF fs(1)]
  let ?d = "data_of f s2" and ?full = "num_records (data_of f s2) = int ?n"
  obtain s3 where s3: "(if ?full then release_page_handle fd f s2 else (Inr (), s2)) = (Inr (), s3)"
    and tail: "bindc (modify (edit f (\<lambda>d. set_num_records (num_records d - 1) d)))
      (\<lambda>_. bindc (modify (edit f (bitmap_reset bitmap_off i)))
      (\<lambda>_. bindc (modify (stamp f)) (\<lambda>_ s. bindc (unpin_cmd (page_id_of f s) True) (\<lambda>_. ret ()) s))) s3 = (Inr (), s')"
    using del l1 r(1) f h2
    by (auto simp: delete_record_def bindc_eq_Inr in_locks_run split: prod.splits if_splits)
  let ?h3 = "if ?full then ?h\<lparr>first_free_page_no := p\<rparr> else ?h"
  have se3: "session fd p f s3" "rw_hdr s3 = ?h3" "others_kept fd p s2 s3"
    "data_of f s3 = (if ?full then set_next_free_page_no (first_free_page_no ?h) ?d else ?d)"
  proof -
    have "session fd p f s3 \<and> rw_hdr s3 = ?h3 \<and> others_kept fd p s2 s3 \<and>
      data_of f s3 = (if ?full then set_next_free_page_no (first_free_page_no ?h) ?d else ?d)"
    proof (cases ?full)
      case True
      with s3 have "release_page_handle fd f s2 = (Inr (), s3)" by simp
      from release_effect [OF fs(1) this] True h2 show ?thesis by simp
    next
      case False
      with s3 fs(1) h2 others_kept_refl show ?thesis by simp
    qed
    then show "session fd p f s3" "rw_hdr s3 = ?h3" "others_kept fd p s2 s3"
      "data_of f s3 = (if ?full then set_next_free_page_no (first_free_page_no ?h) ?d else ?d)" by blast+
  qed
  have "hdr_ok ?h" using fk2 by (simp add: file_ok_def)
  then have "hdr_ok ?h3" "i < num_records_per_page ?h3" using r(4) by (simp_all add: hdr_ok_fields)
  then have "hdr_ok (rw_hdr s3)" "i < num_records_per_page (rw_hdr s3)" unfolding se3(2) by simp_all
  from se3(1) this tail obtain u y l where un: "unpin_cmd (PageId fd p) True u = (Inr y, s')" and su: "session fd p f u"
    "rw_hdr u = rw_hdr s3" "data_of f u = set_page_lsn l (del_page i (data_of f s3))" "others_kept fd p s3 u"
    by (rule delete_tail)
  have "tab_view fd ?h (contents s2) r = Some x" using fs(6) t by (simp add: locks_irrelevant)
  then have "page_view ?h ?d i \<noteq> None" using tab_view_page [of p ?h "contents s2"] sd(1,4,5) r(1) h2 by simp
  note fd' = file_delete [OF fk2 sd(4) sd(5) [unfolded h2] sd(1) r(4) this rg, of l]
  note fin = finish [OF su(1) others_kept_trans [OF se3(3) su(4)] sd(1) _ un]
  have "file_ok fd (rw_hdr u) ((contents s2)(PageId fd p \<mapsto> data_of f u))"
    unfolding su(2,3) se3(2,4) by (rule fd'(1))
  note fin' = fin [OF this]
  show "rm_ok fd s'" by (rule fin'(1))
  show "num_pages (rw_hdr s') = num_pages (rw_hdr s)" "record_size (rw_hdr s') = record_size (rw_hdr s)"
    using fin'(5) unfolding su(2) se3(2) by simp_all
  show "table fd s' = (table fd s)(r := None)"
    using fin'(3) fs(6) r(1) unfolding su(2,3) se3(2,4) fd'(2) by (simp add: locks_irrelevant)
qed

text \<open>Inserting a record, on the abstract file.\<close>

lemma file_insert:
  fixes l :: int
  assumes fk: "file_ok fd h C" and p: "first_free_page_no h = p" "p \<noteq> RM_NO_PAGE" "C (PageId fd p) = Some d"
    and bs: "length bs = record_size h"
  defines "i \<equiv> next_bit False bitmap_off d (num_records_per_page h) (- 1)"
  defines "e \<equiv> ins_page h i bs d"
  defines "h' \<equiv> (if num_records e = int (num_records_per_page h) then h\<lparr>first_free_page_no := next_free_page_no e\<rparr> else h)"
  shows "file_ok fd h' (C(PageId fd p \<mapsto> set_page_lsn l e))"
    and "tab_view fd h' (C(PageId fd p \<mapsto> set_page_lsn l e)) = (tab_view fd h C)(Rid p (int i) \<mapsto> bs)"
    and "tab_view fd h C (Rid p (int i)) = None" "i < num_records_per_page h" "RM_FIRST_RECORD_PAGE \<le> p" "p < num_pages h"
proof -
  obtain ps where ps: "free_chain fd C (first_free_page_no h) ps" "set ps = roomy fd h C" using fk by (auto simp: file_ok_roomy)
  then have "p \<in> roomy fd h C" using p by (cases ps) auto
  then have pr: "RM_FIRST_RECORD_PAGE \<le> p" "p < num_pages h" "page_used h d < num_records_per_page h"
    using p(3) by (auto simp: roomy_def)
  then show "RM_FIRST_RECORD_PAGE \<le> p" "p < num_pages h" by simp_all
  have hk: "hdr_ok h" using fk by (simp add: file_ok_def)
  have pk: "page_ok h d" by (rule file_ok_page [OF fk pr(1,2) p(3)])
  note fsl = free_slot [OF pr(3) [unfolded page_used_def], folded i_def]
  show "i < num_records_per_page h" by (rule fsl(1))
  note ip = ins_page_ok [OF hk pk fsl(1) bs fsl(2), folded e_def]
  have le: "length e = PAGE_SIZE" using ip(1) by (simp add: page_ok_def)
  note sp = stamped_page [OF hk le, of l]
  let ?d' = "set_page_lsn l e"
  have ok: "page_ok h ?d'" "next_free_page_no ?d' = next_free_page_no d" "page_used h ?d' = page_used h d + 1"
    "page_view h ?d' = (page_view h d)(i \<mapsto> bs)" using ip sp by simp_all
  show "tab_view fd h C (Rid p (int i)) = None" using tab_view_page [of p h C fd d i] pr p(3) fsl(2) by simp
  have tv: "tab_view fd h' X = tab_view fd h X" for X by (simp add: h'_def tab_view_def fun_eq_iff hdr_ok_fields)
  show "tab_view fd h' (C(PageId fd p \<mapsto> ?d')) = (tab_view fd h C)(Rid p (int i) \<mapsto> bs)"
    unfolding tv by (rule tab_view_upd [of p h C fd d]) (use pr p(3) ok(4) in simp_all)
  show "file_ok fd h' (C(PageId fd p \<mapsto> ?d'))"
  proof (cases "num_records e = int (num_records_per_page h)")
    case True
    then have "page_used h ?d' = num_records_per_page h" using ip(5) ok(3) by simp
    from file_ok_fill [OF fk p ok(1) this ok(2)] True sp(4) ip(4) ok(2) show ?thesis by (simp add: h'_def)
  next
    case False
    then have "page_used h ?d' < num_records_per_page h" using ip(5) ok(3) pr(3) by simp
    with file_ok_upd_same [OF fk pr(1,2) p(3) ok(1) _ ok(2)] pr(3) False show ?thesis by (simp add: h'_def)
  qed
qed

section \<open>Extending the file\<close>

lemma new_session:
  assumes p: "pool_ok b" and np: "new_page fd b = (Inr (Some (f, pid)), b')"
    and fresh: "frame_of b (PageId fd (fd2pageno (bp_disk b) fd)) = None" and pos: "fd2pageno (bp_disk b) fd \<noteq> INVALID_PAGE_ID"
  shows "pid = PageId fd (fd2pageno (bp_disk b) fd)" "pinned_at b' pid f" "p_data (pages b' ! f) = replicate PAGE_SIZE 0"
    "q \<noteq> pid \<Longrightarrow> content b q = Some x \<Longrightarrow> content b' q = Some x"
    "q \<noteq> pid \<Longrightarrow> frame_of b q = None \<Longrightarrow> frame_of b' q = None"
    "fd2pageno (bp_disk b') fd = fd2pageno (bp_disk b) fd + 1"
proof -
  note w = pool_ok_wf [OF p]
  have st: "no_stale b (PageId fd (fd2pageno (bp_disk b) fd))" by (rule clean_no_stale [OF p]) (simp add: pos)
  note k = new_page_keeps [OF w np fresh st]
  from w(1) np fresh obtain fl r d0 d where pid: "pid = PageId fd (fd2pageno (bp_disk b) fd)"
    and d0: "d0 = (bp_disk b)\<lparr>fd2pageno := (fd2pageno (bp_disk b))(fd := fd2pageno (bp_disk b) fd + 1)\<rparr>"
    and v: "victim_of b f fl r" and e: "evict_to b f d0 d" and b': "b' = install f pid (replicate PAGE_SIZE 0) d fl r b"
    by (rule new_page_cases)
  show "pid = PageId fd (fd2pageno (bp_disk b) fd)" by (rule pid)
  have m: "frame_of b pid = None" using fresh pid by simp
  have fl: "set fl = set (free_list b) - {f}" and f: "f < length (pages b)"
    using v bp_wf_basic(1) [OF w(1)] unfolding victim_of_def by auto
  then have "\<forall>g \<in> set (free_list b'). pid_page_no (p_id (pages b' ! g)) = INVALID_PAGE_ID"
    using p by (auto simp: b' pool_ok_def)
  with k(1-4) show "pinned_at b' pid f" by (simp add: pinned_at_def pool_ok_def bp_ok_def)
  show "p_data (pages b' ! f) = replicate PAGE_SIZE 0" using f by (simp add: b')
  show "content b' q = Some x" if "q \<noteq> pid" "content b q = Some x" using k(6) that .
  show "frame_of b' q = None" if "q \<noteq> pid" "frame_of b q = None" using that by (simp add: b' install_frame_of [OF m])
  show "fd2pageno (bp_disk b') fd = fd2pageno (bp_disk b) fd + 1" using evict_to_counts [OF e] by (simp add: b' d0)
qed

lemma flush_session:
  assumes p: "pinned_at b pid f" and fl: "flush_page pid b = (Inr r, b')"
  shows "pinned_at b' pid f" "content b \<subseteq>\<^sub>m content b'" "page_table b' = page_table b"
    "p_data (pages b' ! f) = p_data (pages b ! f)" "fd2pageno (bp_disk b') = fd2pageno (bp_disk b)"
proof -
  note w = pool_ok_wf [OF pinned_ok [OF p]] and pf = pinned_frame [OF p]
  have wb: "write_back pid f b = (Inr (), b')" using fl pf(5) by (auto simp: flush_page_def bindc_eq_Inr)
  note k = write_back_keeps [OF w pf(5) wb]
  have nf: "f \<notin> set (free_list b)" by (rule bp_wf_mapped(3) [OF w(1) pf(5)])
  show "content b \<subseteq>\<^sub>m content b'" by (rule map_leI) (rule k(7))
  show "page_table b' = page_table b" "p_data (pages b' ! f) = p_data (pages b ! f)" using k(3,6) pf(1) by simp_all
  show "pinned_at b' pid f"
    using k(1,2,3,6,8) p nf pf(1) by (auto simp: pinned_at_def pool_ok_def bp_ok_def nth_upd)
  show "fd2pageno (bp_disk b') = fd2pageno (bp_disk b)"
    using wb by (auto simp: write_back_def bindc_eq_Inr on_disk_run write_page_def Let_def split: prod.splits if_splits)
qed

end
