(* ===== verification/Record_Table.thy ===== *)
theory Record_Table
  imports Record_Spec
begin

text \<open>
  Inserting a record, also when the file grows by a page, and the statements about table files
  as a whole: the four operations act on a map from record identifiers to records.
\<close>

section \<open>A new page\<close>

lemma pinned_edit:
  assumes "pinned_at (rw_bpm s) pid f" and "length (g (data_of f s)) = PAGE_SIZE"
  shows "pinned_at (rw_bpm (edit f g s)) pid f" "contents (edit f g s) = (contents s)(pid \<mapsto> g (data_of f s))"
    "data_of f (edit f g s) = g (data_of f s)" "page_table (rw_bpm (edit f g s)) = page_table (rw_bpm s)"
    "bp_disk (rw_bpm (edit f g s)) = bp_disk (rw_bpm s)"
  using store_session [OF assms] by (simp_all add: edit_def data_of_def)

definition blank_page :: "RmFileHdr \<Rightarrow> byte list \<Rightarrow> byte list" where
  "blank_page h d = bitmap_init bitmap_off (bitmap_size h) (set_num_records 0 (set_next_free_page_no RM_NO_PAGE d))"

lemma blank_page_ok:
  assumes h: "hdr_ok h" and d: "length d = PAGE_SIZE"
  shows "page_view h (blank_page h d) = Map.empty" "page_ok h (blank_page h d)" "page_used h (blank_page h d) = 0"
    "next_free_page_no (blank_page h d) = RM_NO_PAGE" "length (blank_page h d) = PAGE_SIZE"
proof -
  let ?e = "set_num_records 0 (set_next_free_page_no RM_NO_PAGE d)"
  have le: "length ?e = PAGE_SIZE" using d by simp
  have fits: "bitmap_off + bitmap_size h \<le> PAGE_SIZE" using h by (simp add: hdr_ok_def)
  show v: "page_view h (blank_page h d) = Map.empty"
  proof
    fix i
    show "page_view h (blank_page h d) i = None"
    proof (cases "i < num_records_per_page h")
      case True
      have "blank_page h d ! (bitmap_off + i div 8) = 0"
        using bit_inside [OF h True] bit_in_page [OF h True] fits le
        by (simp add: blank_page_def bitmap_init_def nth_write_at)
      then show ?thesis by (simp add: page_view_def is_set_bit)
    qed (simp add: page_view_def)
  qed
  show l: "length (blank_page h d) = PAGE_SIZE" using fits le by (simp add: blank_page_def bitmap_init_def length_write_at)
  have r: "read_at off 4 (blank_page h d) = read_at off 4 ?e" if "off + 4 \<le> bitmap_off" for off
    unfolding blank_page_def bitmap_init_def by (rule read_write_disj) (use that fits le in auto)
  have "num_records (blank_page h d) = num_records ?e" "next_free_page_no (blank_page h d) = next_free_page_no ?e"
    by (simp_all add: num_records_def next_free_page_no_def r page_offs)
  moreover have "in_range 4 0" "in_range 4 RM_NO_PAGE" by (simp_all add: in_range_def RM_NO_PAGE_def)
  ultimately have n: "num_records (blank_page h d) = 0" "next_free_page_no (blank_page h d) = RM_NO_PAGE"
    using d by (simp_all add: header_reads)
  then show "next_free_page_no (blank_page h d) = RM_NO_PAGE" by simp
  show u: "page_used h (blank_page h d) = 0" by (simp add: page_used_def v)
  show "page_ok h (blank_page h d)" using l n u by (simp add: page_ok_def)
qed

lemma create_new_run:
  assumes "create_new_page_handle fd s = (Inr f, s')"
  obtains pid b1 s3 x b4 where "new_page fd (rw_bpm s) = (Inr (Some (f, pid)), b1)"
    "s3 = edit f (bitmap_init bitmap_off (bitmap_size (rw_hdr s)))
       (edit f (\<lambda>d. set_num_records 0 (set_next_free_page_no RM_NO_PAGE d)) (s\<lparr>rw_bpm := b1\<rparr>))"
    "flush_page pid (rw_bpm s3) = (Inr x, b4)"
    "write_header fd (s3\<lparr>rw_bpm := b4, rw_hdr := (rw_hdr s)\<lparr>num_pages := num_pages (rw_hdr s) + 1,
       first_free_page_no := pid_page_no pid\<rparr>\<rparr>) = (Inr (), s')"
proof -
  obtain r b1 where n: "new_page fd (rw_bpm s) = (r, b1)" by fastforce
  from assms n obtain g pid where r: "r = Inr (Some (g, pid))"
    by (cases r; cases "projr r") (auto simp: create_new_page_handle_def bindc_eq_Inr in_pool_run)
  let ?s3 = "edit g (bitmap_init bitmap_off (bitmap_size (rw_hdr s)))
       (edit g (\<lambda>d. set_num_records 0 (set_next_free_page_no RM_NO_PAGE d)) (s\<lparr>rw_bpm := b1\<rparr>))"
  obtain y b4 where f: "flush_page pid (rw_bpm ?s3) = (y, b4)" by fastforce
  with assms n r obtain x where g: "g = f" "y = Inr x" and
    w: "write_header fd (?s3\<lparr>rw_bpm := b4, rw_hdr := (rw_hdr s)\<lparr>num_pages := num_pages (rw_hdr s) + 1,
       first_free_page_no := pid_page_no pid\<rparr>\<rparr>) = (Inr (), s')"
    by (auto simp: create_new_page_handle_def bindc_eq_Inr in_pool_run)
  show thesis by (rule that [OF n [unfolded r g] refl f [unfolded g] w [unfolded g]])
qed

lemma create_new_effect:
  assumes k: "rm_ok fd s" and nf: "first_free_page_no (rw_hdr s) = RM_NO_PAGE"
    and c: "create_new_page_handle fd s = (Inr f, s')"
  defines "p \<equiv> num_pages (rw_hdr s)"
  shows "session fd p f s'" "rw_hdr s' = (rw_hdr s)\<lparr>num_pages := p + 1, first_free_page_no := p\<rparr>"
    "rw_locks s' = rw_locks s" "file_ok fd (rw_hdr s') (contents s')" "tab_view fd (rw_hdr s') (contents s') = table fd s"
proof -
  let ?h = "rw_hdr s" and ?b = "rw_bpm s"
  have k': "pool_ok ?b" "file_ok fd ?h (contents s)" "frame_rules fd s" using k by (simp_all add: rm_ok_def)
  have hk: "hdr_ok ?h" "RM_FIRST_RECORD_PAGE \<le> p" using k'(2) by (simp_all add: file_ok_def p_def)
  obtain pid b1 s3 x b4 where n: "new_page fd ?b = (Inr (Some (f, pid)), b1)"
    and s3: "s3 = edit f (bitmap_init bitmap_off (bitmap_size ?h))
       (edit f (\<lambda>d. set_num_records 0 (set_next_free_page_no RM_NO_PAGE d)) (s\<lparr>rw_bpm := b1\<rparr>))"
    and fl: "flush_page pid (rw_bpm s3) = (Inr x, b4)"
    and w: "write_header fd (s3\<lparr>rw_bpm := b4, rw_hdr := ?h\<lparr>num_pages := num_pages ?h + 1,
       first_free_page_no := pid_page_no pid\<rparr>\<rparr>) = (Inr (), s')"
    using c by (rule create_new_run)
  have cnt: "fd2pageno (bp_disk ?b) fd = p" and un: "\<And>q. q = RM_FILE_HDR_PAGE \<or> p \<le> q \<Longrightarrow> frame_of ?b (PageId fd q) = None"
    using k'(3) by (auto simp: frame_rules_def p_def)
  have fresh: "frame_of ?b (PageId fd (fd2pageno (bp_disk ?b) fd)) = None" "fd2pageno (bp_disk ?b) fd \<noteq> INVALID_PAGE_ID"
    using un cnt hk(2) by (simp_all add: rm_consts INVALID_PAGE_ID_def)
  note ns = new_session [OF k'(1) n fresh]
  have pid: "pid = PageId fd p" using ns(1) cnt by simp
  let ?s1 = "s\<lparr>rw_bpm := b1\<rparr>" and ?g1 = "\<lambda>d. set_num_records 0 (set_next_free_page_no RM_NO_PAGE d)"
    and ?g2 = "bitmap_init bitmap_off (bitmap_size ?h)"
  have p1: "pinned_at (rw_bpm ?s1) pid f" and l0: "length (data_of f ?s1) = PAGE_SIZE" using ns(2,3) by (simp_all add: data_of_def)
  have l1: "length (?g1 (data_of f ?s1)) = PAGE_SIZE" using l0 by simp
  note e1 = pinned_edit [OF p1, of ?g1, OF l1]
  note bl = blank_page_ok [OF hk(1) l0]
  have l2: "length (?g2 (data_of f (edit f ?g1 ?s1))) = PAGE_SIZE" using bl(5) e1(3) by (simp add: blank_page_def)
  note e2 = pinned_edit [OF e1(1), of ?g2, OF l2, folded s3]
  let ?d = "blank_page ?h (data_of f ?s1)" and ?h' = "?h\<lparr>num_pages := p + 1, first_free_page_no := p\<rparr>"
  have d3: "data_of f s3 = ?d" "contents s3 = (content b1)(pid \<mapsto> ?d)"
    using e2(2,3) e1(2,3) by (simp_all add: blank_page_def)
  have pt: "page_table (rw_bpm s3) = page_table b1" "bp_disk (rw_bpm s3) = bp_disk b1" using e1(4,5) e2(4,5) by simp_all
  note fs = flush_session [OF e2(1) fl]
  let ?s4 = "s3\<lparr>rw_bpm := b4, rw_hdr := ?h'\<rparr>"
  have q: "PageId fd q \<noteq> pid" if "q = RM_FILE_HDR_PAGE \<or> p + 1 \<le> q" for q
    using that hk(2) by (auto simp: pid rm_consts)
  have fr4: "frame_of b4 (PageId fd q) = None" if "q = RM_FILE_HDR_PAGE \<or> p + 1 \<le> q" for q
    using ns(5) [OF q [OF that] un] that fs(3) pt(1) by auto
  have se4: "session fd p f ?s4"
    using fs(1,5) fr4 pt(2) ns(6) cnt hk(2) by (simp add: session_def frame_rules_def pid)
  have w4: "write_header fd ?s4 = (Inr (), s')" using w pid by (simp add: p_def)
  note he = header_ends [OF se4 w4]
  show "session fd p f s'" by (rule he(1))
  show h': "rw_hdr s' = ?h'" using he(2) by simp
  show "rw_locks s' = rw_locks s" using he(3) s3 by simp
  have C: "file_ok fd ?h' ((contents s)(PageId fd p \<mapsto> ?d))" "tab_view fd ?h' ((contents s)(PageId fd p \<mapsto> ?d)) = table fd s"
    using file_ok_new_page [OF k'(2) nf bl(2,3,4)] bl(1) by (simp_all add: p_def table_def hdr_ok_fields)
  have mono: "contents s' (PageId fd q) = Some y"
    if "RM_FIRST_RECORD_PAGE \<le> q" "((contents s)(PageId fd p \<mapsto> ?d)) (PageId fd q) = Some y" for q y
  proof -
    have "contents s3 (PageId fd q) = Some y" using that ns(4) [of "PageId fd q"] d3(2) pid by (auto split: if_splits)
    then have "contents ?s4 (PageId fd q) = Some y" using fs(2) by (auto dest: map_leD)
    with he(5) that(1) show ?thesis by (simp add: rm_consts)
  qed
  note fm = file_ok_mono [OF C(1), of "contents s'", OF mono]
  show "file_ok fd (rw_hdr s') (contents s')" "tab_view fd (rw_hdr s') (contents s') = table fd s"
    using fm(1,2) C(2) h' by simp_all
qed

lemma create_page_effect:
  assumes k: "rm_ok fd s" and c: "create_page_handle fd s = (Inr f, s')"
  obtains p where "session fd p f s'" "first_free_page_no (rw_hdr s') = p" "p \<noteq> RM_NO_PAGE"
    "rw_locks s' = rw_locks s" "file_ok fd (rw_hdr s') (contents s')" "tab_view fd (rw_hdr s') (contents s') = table fd s"
    "record_size (rw_hdr s') = record_size (rw_hdr s)" "num_pages (rw_hdr s') \<le> num_pages (rw_hdr s) + 1"
proof (cases "first_free_page_no (rw_hdr s) = RM_NO_PAGE")
  case True
  with c have "create_new_page_handle fd s = (Inr f, s')" by (simp add: create_page_handle_def)
  note e = create_new_effect [OF k True this]
  have "num_pages (rw_hdr s) \<noteq> RM_NO_PAGE" using session_data(4) [OF e(1)] by (simp add: rm_consts)
  with e that show thesis by simp
next
  case False
  let ?p = "first_free_page_no (rw_hdr s)"
  from c False have f: "fetch_page_handle fd ?p s = (Inr f, s')" by (simp add: create_page_handle_def)
  obtain ps where ps: "free_chain fd (contents s) ?p ps" "set ps = roomy fd (rw_hdr s) (contents s)"
    using k by (auto simp: rm_ok_def file_ok_roomy)
  then have "?p \<in> roomy fd (rw_hdr s) (contents s)" using False by (cases ps) auto
  then have p: "RM_FIRST_RECORD_PAGE \<le> ?p" "?p < num_pages (rw_hdr s)" by (auto simp: roomy_def)
  note e = fetch_handle_session [OF k p f]
  from e that False show thesis by simp
qed

section \<open>Inserting\<close>

lemma insert_edits:
  assumes se: "session fd p f s" and hk: "hdr_ok h" and i: "i < num_records_per_page h" and bs: "length bs = record_size h"
  defines "t \<equiv> edit f (\<lambda>d. set_num_records (num_records d + 1) d) (edit f (bitmap_set bitmap_off i) (edit f (write_at (get_slot h i) bs) s))"
  shows "session fd p f t" "data_of f t = ins_page h i bs (data_of f s)" "others_kept fd p s t" "rw_hdr t = rw_hdr s"
proof -
  let ?g1 = "write_at (get_slot h i) bs" and ?g2 = "bitmap_set bitmap_off i" and ?g3 = "\<lambda>d. set_num_records (num_records d + 1) d"
  have l1: "length (?g1 (data_of f s)) = PAGE_SIZE" using slot_reads(3) [OF hk session_data(3) [OF se] i bs] .
  note e1 = edit_session [OF se, of ?g1, OF l1]
  have l2: "length (?g2 (data_of f (edit f ?g1 s))) = PAGE_SIZE" using l1 e1(3) by simp
  note e2 = edit_session [OF e1(1), of ?g2, OF l2]
  have l3: "length (?g3 (data_of f (edit f ?g2 (edit f ?g1 s)))) = PAGE_SIZE" using l2 e2(3) by simp
  note e3 = edit_session [OF e2(1), of ?g3, OF l3]
  show "session fd p f t" "rw_hdr t = rw_hdr s" using e3(1) by (simp_all add: t_def)
  show "data_of f t = ins_page h i bs (data_of f s)" using e1(3) e2(3) e3(3) by (simp add: t_def ins_page_def Let_def)
  show "others_kept fd p s t"
    unfolding t_def using edit_others [OF se, of ?g1, OF l1] edit_others [OF e1(1), of ?g2, OF l2]
      edit_others [OF e2(1), of ?g3, OF l3] by (blast intro: others_kept_trans)
qed

text \<open>The chain head moves on when the page is full.\<close>

lemma chain_head_step:
  assumes se: "session fd p f t"
    and run: "(if full then bindc (modify (\<lambda>s. s\<lparr>rw_hdr := (rw_hdr s)\<lparr>first_free_page_no := next_free_page_no (data_of f s)\<rparr>\<rparr>))
        (\<lambda>_. write_header fd) t else (Inr (), t)) = (Inr (), u)"
  shows "session fd p f u" "data_of f u = data_of f t" "others_kept fd p t u" "rw_locks u = rw_locks t"
    "rw_hdr u = (if full then (rw_hdr t)\<lparr>first_free_page_no := next_free_page_no (data_of f t)\<rparr> else rw_hdr t)"
proof -
  have "session fd p f u \<and> data_of f u = data_of f t \<and> others_kept fd p t u \<and> rw_locks u = rw_locks t \<and>
    rw_hdr u = (if full then (rw_hdr t)\<lparr>first_free_page_no := next_free_page_no (data_of f t)\<rparr> else rw_hdr t)"
  proof (cases full)
    case True
    let ?t = "t\<lparr>rw_hdr := (rw_hdr t)\<lparr>first_free_page_no := next_free_page_no (data_of f t)\<rparr>\<rparr>"
    have w: "write_header fd ?t = (Inr (), u)" using run True by simp
    have st: "session fd p f ?t" by (simp only: header_change se)
    note he = header_ends [OF st w]
    from he True show ?thesis by (simp add: header_change others_kept_def)
  next
    case False
    with run se show ?thesis by (simp add: others_kept_refl)
  qed
  then show "session fd p f u" "data_of f u = data_of f t" "others_kept fd p t u" "rw_locks u = rw_locks t"
    "rw_hdr u = (if full then (rw_hdr t)\<lparr>first_free_page_no := next_free_page_no (data_of f t)\<rparr> else rw_hdr t)" by blast+
qed

lemma insert_record_run:
  assumes "insert_record fd buf True s = (Inr r, s')"
  obtains f s1 a l i t u where "create_page_handle fd s = (Inr f, s1)"
    "i = next_bit False bitmap_off (data_of f s1) (num_records_per_page (rw_hdr s1)) (- 1)"
    "r = Rid (pid_page_no (page_id_of f s1)) (int i)"
    "lock_exclusive_on_record r fd (rw_locks s1) = (Inr a, l)"
    "record_size (rw_hdr s1) \<le> length buf"
    "t = edit f (\<lambda>d. set_num_records (num_records d + 1) d) (edit f (bitmap_set bitmap_off i)
           (edit f (write_at (get_slot (rw_hdr s1) i) (take (record_size (rw_hdr s1)) buf)) (s1\<lparr>rw_locks := l\<rparr>)))"
    "(if num_records (data_of f t) = int (num_records_per_page (rw_hdr s1))
      then bindc (modify (\<lambda>s. s\<lparr>rw_hdr := (rw_hdr s)\<lparr>first_free_page_no := next_free_page_no (data_of f s)\<rparr>\<rparr>))
        (\<lambda>_. write_header fd) t else (Inr (), t)) = (Inr (), u)"
    "\<exists>y. unpin_cmd (PageId fd (rid_page_no r)) True (stamp f u) = (Inr y, s')"
proof -
  obtain f s1 where c: "create_page_handle fd s = (Inr f, s1)"
    using assms by (auto simp: insert_record_def bindc_eq_Inr)
  define i where "i = next_bit False bitmap_off (data_of f s1) (num_records_per_page (rw_hdr s1)) (- 1)"
  let ?r = "Rid (pid_page_no (page_id_of f s1)) (int i)"
  obtain a l where al: "lock_exclusive_on_record ?r fd (rw_locks s1) = (a, l)"
    by (cases "lock_exclusive_on_record ?r fd (rw_locks s1)")
  define t where "t = edit f (\<lambda>d. set_num_records (num_records d + 1) d) (edit f (bitmap_set bitmap_off i)
           (edit f (write_at (get_slot (rw_hdr s1) i) (take (record_size (rw_hdr s1)) buf)) (s1\<lparr>rw_locks := l\<rparr>)))"
  obtain b where b: "a = Inr b" using assms c al
    by (cases a) (auto simp: insert_record_def bindc_eq_Inr Let_def in_locks_run i_def)
  have run: "record_size (rw_hdr s1) \<le> length buf \<and> r = ?r \<and>
    (\<exists>u. (if num_records (data_of f t) = int (num_records_per_page (rw_hdr s1))
      then bindc (modify (\<lambda>s. s\<lparr>rw_hdr := (rw_hdr s)\<lparr>first_free_page_no := next_free_page_no (data_of f s)\<rparr>\<rparr>))
        (\<lambda>_. write_header fd) t else (Inr (), t)) = (Inr (), u) \<and>
      (\<exists>y. unpin_cmd (PageId fd (rid_page_no ?r)) True (stamp f u) = (Inr y, s')))"
    using assms al b unfolding insert_record_def
    by (auto simp: c bindc_eq_Inr Let_def in_locks_run t_def i_def split: if_splits)
  then show thesis using that [OF c i_def _ _ _ t_def] al b by auto
qed

lemma insert_record_effect:
  assumes k: "rm_ok fd s" and ins: "insert_record fd buf True s = (Inr r, s')" and l: "length buf = record_size (rw_hdr s)"
  shows "rm_ok fd s'" "table fd s r = None" "table fd s' = (table fd s)(r \<mapsto> buf)"
    "record_size (rw_hdr s') = record_size (rw_hdr s)" "num_pages (rw_hdr s') \<le> num_pages (rw_hdr s) + 1"
proof -
  obtain f s1 a lk i t u where c: "create_page_handle fd s = (Inr f, s1)"
    and i: "i = next_bit False bitmap_off (data_of f s1) (num_records_per_page (rw_hdr s1)) (- 1)"
    and r: "r = Rid (pid_page_no (page_id_of f s1)) (int i)"
    and t: "t = edit f (\<lambda>d. set_num_records (num_records d + 1) d) (edit f (bitmap_set bitmap_off i)
           (edit f (write_at (get_slot (rw_hdr s1) i) (take (record_size (rw_hdr s1)) buf)) (s1\<lparr>rw_locks := lk\<rparr>)))"
    and u: "(if num_records (data_of f t) = int (num_records_per_page (rw_hdr s1))
      then bindc (modify (\<lambda>s. s\<lparr>rw_hdr := (rw_hdr s)\<lparr>first_free_page_no := next_free_page_no (data_of f s)\<rparr>\<rparr>))
        (\<lambda>_. write_header fd) t else (Inr (), t)) = (Inr (), u)"
    and un: "\<exists>y. unpin_cmd (PageId fd (rid_page_no r)) True (stamp f u) = (Inr y, s')"
    using ins by (rule insert_record_run)
  let ?s1 = "s1\<lparr>rw_locks := lk\<rparr>" and ?h = "rw_hdr s1"
  from k c obtain p where se: "session fd p f s1" and p: "first_free_page_no ?h = p" "p \<noteq> RM_NO_PAGE"
    and fk: "file_ok fd ?h (contents s1)" and tv: "tab_view fd ?h (contents s1) = table fd s"
    and rs: "record_size ?h = record_size (rw_hdr s)" and np: "num_pages ?h \<le> num_pages (rw_hdr s) + 1"
    by (rule create_page_effect)
  have tk: "take (record_size ?h) buf = buf" "length buf = record_size ?h" using l rs by simp_all
  have se1: "session fd p f ?s1" "data_of f ?s1 = data_of f s1" "contents ?s1 = contents s1"
    using se by (simp_all add: session_def frame_rules_def data_of_def)
  note sd = session_data [OF se]
  have rp: "r = Rid p (int i)" using r sd(2) by simp
  have hk: "hdr_ok ?h" using fk by (simp add: file_ok_def)
  note fi = file_insert [OF fk p sd(1) tk(2), folded i]
  note ie = insert_edits [OF se1(1) hk fi(4) tk(2), folded t [unfolded tk(1)]]
  note cs = chain_head_step [OF ie(1) u]
  note st = stamp_session [OF cs(1)]
  let ?e = "ins_page ?h i buf (data_of f s1)" and ?l = "prev_lsn (fst (rw_locks u))"
  have dt: "data_of f t = ?e" using ie(2) se1(2) by simp
  have d': "data_of f (stamp f u) = set_page_lsn ?l ?e" using st(2) cs(2) dt by simp
  have h': "rw_hdr (stamp f u) =
      (if num_records ?e = int (num_records_per_page ?h) then ?h\<lparr>first_free_page_no := next_free_page_no ?e\<rparr> else ?h)"
    using st(4) cs(5) ie(4) dt by simp
  have ok: "others_kept fd p ?s1 (stamp f u)" using ie(3) cs(3) st(3) by (blast intro: others_kept_trans)
  obtain y where un': "unpin_cmd (PageId fd p) True (stamp f u) = (Inr y, s')" using un rp by auto
  have d1: "contents ?s1 (PageId fd p) = Some (data_of f s1)" using sd(1) se1(3) by simp
  have "file_ok fd (rw_hdr (stamp f u)) ((contents ?s1)(PageId fd p \<mapsto> data_of f (stamp f u)))"
    unfolding d' h' se1(3) by (rule fi(1))
  note fin = finish [OF st(1) ok d1 this un']
  show "rm_ok fd s'" by (rule fin(1))
  show "table fd s r = None" using fi(3) tv rp by simp
  show "table fd s' = (table fd s)(r \<mapsto> buf)" unfolding fin(3) unfolding d' h' se1(3) fi(2) using tv rp by simp
  show "record_size (rw_hdr s') = record_size (rw_hdr s)" "num_pages (rw_hdr s') \<le> num_pages (rw_hdr s) + 1"
    using fin(5) h' np rs by simp_all
qed

section \<open>A record store\<close>

text \<open>
  What a client of a table file may rely on: an operation that returns has answered from the
  map of records and changed it as asked, and keeps the store in order. The client must name
  present records and bring records of the right size.
\<close>

datatype rec_op = RGet rid | RInsert "byte list" | RUpdate rid "byte list" | RDelete rid

datatype rec_res = RBytes "byte list" | RRid rid | RDone

type_synonym rec_map = "rid \<rightharpoonup> byte list"

fun legal_op :: "nat \<Rightarrow> rec_map \<Rightarrow> rec_op \<Rightarrow> bool" where
  "legal_op n m (RGet r) \<longleftrightarrow> r \<in> dom m"
| "legal_op n m (RInsert bs) \<longleftrightarrow> length bs = n"
| "legal_op n m (RUpdate r bs) \<longleftrightarrow> r \<in> dom m \<and> length bs = n"
| "legal_op n m (RDelete r) \<longleftrightarrow> r \<in> dom m"

fun spec_op :: "rec_op \<Rightarrow> rec_res \<Rightarrow> rec_map \<Rightarrow> rec_map option" where
  "spec_op (RGet r) (RBytes bs) m = (if m r = Some bs then Some m else None)"
| "spec_op (RInsert bs) (RRid r) m = (if m r = None then Some (m(r \<mapsto> bs)) else None)"
| "spec_op (RUpdate r bs) RDone m = Some (m(r \<mapsto> bs))"
| "spec_op (RDelete r) RDone m = Some (m(r := None))"
| "spec_op _ _ _ = None"

fun spec_run :: "rec_op list \<Rightarrow> rec_res list \<Rightarrow> rec_map \<Rightarrow> rec_map option" where
  "spec_run [] [] m = Some m"
| "spec_run (op # ops) (r # rs) m = Option.bind (spec_op op r m) (spec_run ops rs)"
| "spec_run _ _ m = None"

text \<open>The run of the specification along given results stays within what a client may ask.\<close>

fun legal_run :: "nat \<Rightarrow> rec_op list \<Rightarrow> rec_res list \<Rightarrow> rec_map \<Rightarrow> bool" where
  "legal_run n (op # ops) (r # rs) m \<longleftrightarrow>
     legal_op n m op \<and> (case spec_op op r m of None \<Rightarrow> True | Some m' \<Rightarrow> legal_run n ops rs m')"
| "legal_run n _ _ m \<longleftrightarrow> True"

fun run_ops :: "('o \<Rightarrow> ('s, 'e, 'r) cmd) \<Rightarrow> 'o list \<Rightarrow> ('s, 'e, 'r list) cmd" where
  "run_ops ex [] = ret []"
| "run_ops ex (op # ops) = bindc (ex op) (\<lambda>r. bindc (run_ops ex ops) (\<lambda>rs. ret (r # rs)))"

locale record_store =
  fixes ok :: "'s \<Rightarrow> bool" and tab :: "'s \<Rightarrow> rec_map" and size :: "'s \<Rightarrow> nat" and room :: "nat \<Rightarrow> 's \<Rightarrow> bool"
    and exec :: "rec_op \<Rightarrow> ('s, 'e, rec_res) cmd"
  assumes exec_ok: "ok s \<Longrightarrow> room (Suc n) s \<Longrightarrow> legal_op (size s) (tab s) op \<Longrightarrow> exec op s = (Inr res, s') \<Longrightarrow>
      ok s' \<and> room n s' \<and> size s' = size s \<and> spec_op op res (tab s) = Some (tab s')"
begin

lemma run_refines:
  "run_ops exec ops s = (Inr rs, s') \<Longrightarrow> ok s \<Longrightarrow> room (length ops) s \<Longrightarrow> legal_run (size s) ops rs (tab s) \<Longrightarrow>
   ok s' \<and> size s' = size s \<and> spec_run ops rs (tab s) = Some (tab s')"
proof (induction ops arbitrary: s rs)
  case (Cons op ops)
  obtain r s1 rs1 where e: "exec op s = (Inr r, s1)" and r: "run_ops exec ops s1 = (Inr rs1, s')" and rs: "rs = r # rs1"
    using Cons.prems(1) by (auto simp: bindc_eq_Inr)
  have lg: "legal_op (size s) (tab s) op" using Cons.prems(4) rs by simp
  have rm: "room (Suc (length ops)) s" using Cons.prems(3) by simp
  have e': "ok s1 \<and> room (length ops) s1 \<and> size s1 = size s \<and> spec_op op r (tab s) = Some (tab s1)"
    by (rule exec_ok [OF Cons.prems(2) rm lg e])
  then have "legal_run (size s1) ops rs1 (tab s1)" using Cons.prems(4) rs by simp
  with Cons.IH [OF r] e' rs show ?case by simp
qed simp

end

text \<open>The operations of a table file, with the caller's context.\<close>

fun exec_op :: "int \<Rightarrow> rec_op \<Rightarrow> (rm_world, rec_res) rcmd" where
  "exec_op fd (RGet r) = bindc (get_record fd r True) (\<lambda>bs. ret (RBytes bs))"
| "exec_op fd (RInsert bs) = bindc (insert_record fd bs True) (\<lambda>r. ret (RRid r))"
| "exec_op fd (RUpdate r bs) = bindc (update_record fd r bs True) (\<lambda>_. ret RDone)"
| "exec_op fd (RDelete r) = bindc (delete_record fd r True) (\<lambda>_. ret RDone)"

definition room :: "nat \<Rightarrow> rm_world \<Rightarrow> bool" where
  "room n s \<longleftrightarrow> in_range 4 (num_pages (rw_hdr s) + int n)"

lemma room_step: "room (Suc n) s \<Longrightarrow> rm_ok fd s' \<Longrightarrow> num_pages (rw_hdr s') \<le> num_pages (rw_hdr s) + 1 \<Longrightarrow> room n s'"
  by (simp add: room_def in_range_def rm_consts rm_ok_def file_ok_def)

interpretation tables: record_store "rm_ok fd" "table fd" "\<lambda>s. record_size (rw_hdr s)" room "exec_op fd"
proof
  fix s n op res s'
  assume k: "rm_ok fd s" and rm: "room (Suc n) s" and lg: "legal_op (record_size (rw_hdr s)) (table fd s) op"
    and ex: "exec_op fd op s = (Inr res, s')"
  show "rm_ok fd s' \<and> room n s' \<and> record_size (rw_hdr s') = record_size (rw_hdr s) \<and> spec_op op res (table fd s) = Some (table fd s')"
  proof (cases op)
    case (RGet r)
    then obtain x bs where "table fd s r = Some x" "get_record fd r True s = (Inr bs, s')" "res = RBytes bs"
      using lg ex by (auto simp: bindc_eq_Inr)
    with get_record_effect [OF k this(1,2)] RGet room_step [OF rm, of fd s'] show ?thesis by simp
  next
    case (RInsert bs)
    then obtain r where i: "insert_record fd bs True s = (Inr r, s')" "res = RRid r" "length bs = record_size (rw_hdr s)"
      using lg ex by (auto simp: bindc_eq_Inr)
    with insert_record_effect [OF k i(1,3)] RInsert room_step [OF rm, of fd s'] show ?thesis by simp
  next
    case (RUpdate r bs)
    then obtain x where u: "table fd s r = Some x" "length bs = record_size (rw_hdr s)"
      "update_record fd r bs True s = (Inr (), s')" "res = RDone"
      using lg ex by (auto simp: bindc_eq_Inr)
    with update_record_effect [OF k u(1,2,3)] RUpdate room_step [OF rm, of fd s'] show ?thesis by simp
  next
    case (RDelete r)
    then obtain x where d: "table fd s r = Some x" "delete_record fd r True s = (Inr (), s')" "res = RDone"
      using lg ex by (auto simp: bindc_eq_Inr)
    moreover have "in_range 4 (num_pages (rw_hdr s))" using rm k by (simp add: room_def in_range_def rm_consts rm_ok_def file_ok_def)
    ultimately show ?thesis using delete_record_effect [OF k d(1) _ d(2)] RDelete room_step [OF rm, of fd s'] by simp
  qed
qed

section \<open>When the operations return\<close>

lemma fetch_handle_returns:
  assumes "fetch_page (PageId fd p) (rw_bpm s) = (Inr (Some f), b)" and "p \<noteq> INVALID_PAGE_ID"
  shows "fetch_page_handle fd p s = (Inr f, s\<lparr>rw_bpm := b\<rparr>)"
  using assms by (simp add: fetch_page_handle_def bindc_def in_pool_run)

lemma unpin_cmd_returns: "\<exists>y s'. unpin_cmd pid d s = (Inr y, s')"
  by (auto simp: unpin_cmd_def in_pool_run split: prod.splits)

lemma present_slot:
  assumes "rm_ok fd s" and "table fd s r = Some x"
  shows "slot_ok (rw_hdr s) (rid_slot_no r)" "rid_page_no r \<noteq> INVALID_PAGE_ID"
proof -
  obtain p i where r: "r = Rid p (int i)" "RM_FIRST_RECORD_PAGE \<le> p" "i < num_records_per_page (rw_hdr s)"
    using assms(2) by (rule table_present)
  moreover have "hdr_ok (rw_hdr s)" using assms(1) by (simp add: rm_ok_def file_ok_def)
  ultimately show "slot_ok (rw_hdr s) (rid_slot_no r)" "rid_page_no r \<noteq> INVALID_PAGE_ID"
    using slot_in_file by (simp_all add: rm_consts INVALID_PAGE_ID_def)
qed

lemma insert_record_returns:
  assumes k: "rm_ok fd s" and c: "create_page_handle fd s = (Inr f, s1)" and l: "length buf = record_size (rw_hdr s)"
    and lk: "lock_exclusive_on_record (Rid (pid_page_no (page_id_of f s1))
        (int (next_bit False bitmap_off (data_of f s1) (num_records_per_page (rw_hdr s1)) (- 1)))) fd (rw_locks s1) = (Inr a, lt)"
    and nf: "num_records (data_of f s1) + 1 < int (num_records_per_page (rw_hdr s1))"
  shows "\<exists>s'. insert_record fd buf True s = (Inr (Rid (pid_page_no (page_id_of f s1))
        (int (next_bit False bitmap_off (data_of f s1) (num_records_per_page (rw_hdr s1)) (- 1)))), s')"
proof -
  let ?h = "rw_hdr s1" and ?d = "data_of f s1" and ?s1 = "s1\<lparr>rw_locks := lt\<rparr>"
  define i where "i = next_bit False bitmap_off ?d (num_records_per_page ?h) (- 1)"
  from k c obtain p where se: "session fd p f s1" and p: "first_free_page_no ?h = p" "p \<noteq> RM_NO_PAGE"
    and fk: "file_ok fd ?h (contents s1)" and rs: "record_size ?h = record_size (rw_hdr s)"
    by (rule create_page_effect)
  note sd = session_data [OF se]
  have hk: "hdr_ok ?h" using fk by (simp add: file_ok_def)
  have lb: "length buf = record_size ?h" using l rs by simp
  note fi = file_insert(3,4) [OF fk p sd(1) lb, folded i_def]
  have pv: "page_view ?h ?d i = None" using fi(1) tab_view_page [of p ?h "contents s1" fd ?d i] sd(1,4,5) by simp
  have se1: "session fd p f ?s1" "data_of f ?s1 = ?d" using se by (simp_all add: session_def frame_rules_def data_of_def)
  define t where "t = edit f (\<lambda>d. set_num_records (num_records d + 1) d) (edit f (bitmap_set bitmap_off i)
           (edit f (write_at (get_slot ?h i) buf) ?s1))"
  note ie = insert_edits [OF se1(1) hk fi(2) lb, folded t_def]
  note ip = ins_page_ok [OF hk file_ok_page [OF fk sd(4,5,1)] fi(2) lb pv]
  have "num_records ?d = int (page_used ?h ?d)" using file_ok_page [OF fk sd(4,5,1)] by (simp add: page_ok_def)
  then have nfull: "num_records (data_of f t) \<noteq> int (num_records_per_page ?h)" using ip(5) ie(2) nf se1(2) by simp
  obtain y s' where u: "unpin_cmd (PageId fd (pid_page_no (page_id_of f s1))) True (stamp f t) = (Inr y, s')"
    using unpin_cmd_returns by blast
  have "insert_record fd buf True s = (Inr (Rid (pid_page_no (page_id_of f s1)) (int i)), s')"
    unfolding insert_record_def bindc_Inr [where m = "create_page_handle fd", OF c] Let_def i_def [symmetric]
    using lk [folded i_def] slot_in_file [OF hk fi(2)] lb nfull u
    by (simp add: bindc_def in_locks_run t_def [symmetric])
  then show ?thesis unfolding i_def by blast
qed

section \<open>A table of one page\<close>

definition page_disk :: "byte list \<Rightarrow> disk" where
  "page_disk d =
     \<lparr>dm_os = \<lparr>os_files = [LOG_FILE_NAME \<mapsto> [], ''t'' \<mapsto> replicate PAGE_SIZE 0 @ d], os_fds = [(0, ''t'')], os_other = [],
               os_denied = (\<lambda>_. False), os_limit = 1000000\<rparr>,
      path2fd = [(''t'', 0)], fd2path = [(0, ''t'')], log_fd = - 1, fd2pageno = (\<lambda>_. 2)\<rparr>"

definition page_world :: "RmFileHdr \<Rightarrow> byte list \<Rightarrow> rm_world" where
  "page_world h d = \<lparr>rw_hdr = h, rw_bpm = BufferPoolManager 0 2 (page_disk d), rw_locks = (new_Transaction 1, [])\<rparr>"

lemma page_disk_page: "length d = PAGE_SIZE \<Longrightarrow> disk_page (page_disk d) 0 1 = Some d"
  by (simp add: disk_page_def page_disk_def os_file_def read_at_def PAGE_SIZE_def in_range_def)

lemma page_world_content: "contents (page_world h d) pid = disk_page (page_disk d) (pid_fd pid) (pid_page_no pid)"
  by (simp add: page_world_def content_def BufferPoolManager_def)

lemma one_page_file:
  assumes h: "hdr_ok h" "num_pages h = 2" and d: "page_ok h d" and pd: "C (PageId fd 1) = Some d"
    and c: "if page_used h d < num_records_per_page h then first_free_page_no h = 1 \<and> next_free_page_no d = RM_NO_PAGE
            else first_free_page_no h = RM_NO_PAGE"
  shows "file_ok fd h C" "tab_view fd h C (Rid 1 (int i)) = page_view h d i"
proof -
  have one: "RM_FIRST_RECORD_PAGE \<le> p \<and> p < num_pages h \<longleftrightarrow> p = 1" for p using h(2) by (auto simp: rm_consts)
  have "roomy fd h C = (if page_used h d < num_records_per_page h then {1} else {})"
    unfolding roomy_def conj_assoc [symmetric] one using pd by auto
  then have "\<exists>ps. free_chain fd C (first_free_page_no h) ps \<and> distinct ps \<and> set ps = roomy fd h C"
    using c pd by (intro exI [of _ "if page_used h d < num_records_per_page h then [1] else []"]) (auto simp: rm_consts split: if_splits)
  moreover have "\<exists>e. C (PageId fd p) = Some e \<and> page_ok h e" if "RM_FIRST_RECORD_PAGE \<le> p \<and> p < num_pages h" for p
    using that [unfolded one] pd d by simp
  ultimately show "file_ok fd h C" using h unfolding file_ok_roomy by (simp add: rm_consts)
  show "tab_view fd h C (Rid 1 (int i)) = page_view h d i"
    using tab_view_page [of 1 h C fd d i] pd h(2) by (simp add: rm_consts)
qed

lemma page_world_ok:
  assumes h: "hdr_ok h" "num_pages h = 2" and d: "page_ok h d"
    and c: "if page_used h d < num_records_per_page h then first_free_page_no h = 1 \<and> next_free_page_no d = RM_NO_PAGE
            else first_free_page_no h = RM_NO_PAGE"
  shows "rm_ok 0 (page_world h d)" "table 0 (page_world h d) (Rid 1 (int i)) = page_view h d i"
proof -
  have pd: "contents (page_world h d) (PageId 0 1) = Some d" using d page_disk_page by (simp add: page_world_content page_ok_def)
  note op = one_page_file [where C = "contents (page_world h d)", OF h d pd c]
  have "disk_wf (page_disk d)" by (simp add: disk_wf_def page_disk_def)
  then have "pool_ok (rw_bpm (page_world h d))"
    using initial_ok by (auto simp: pool_ok_def page_world_def BufferPoolManager_def new_Page_def)
  with op(1) show "rm_ok 0 (page_world h d)"
    using h(2) by (simp add: rm_ok_def frame_rules_def page_world_def BufferPoolManager_def page_disk_def)
  show "table 0 (page_world h d) (Rid 1 (int i)) = page_view h d i"
    using op(2) by (simp add: table_def page_world_def)
qed

definition demo_hdr :: RmFileHdr where
  "demo_hdr = \<lparr>record_size = 2, num_pages = 2, num_records_per_page = 8, first_free_page_no = 1, bitmap_size = 1\<rparr>"

definition demo_page :: "byte list" where
  "demo_page = blank_page demo_hdr (replicate PAGE_SIZE 0)"

abbreviation demo :: rm_world where "demo \<equiv> page_world demo_hdr demo_page"

lemma demo_hdr_ok: "hdr_ok demo_hdr"
  by (simp add: hdr_ok_def demo_hdr_def page_offs PAGE_SIZE_def)

lemmas demo_blank = blank_page_ok [OF demo_hdr_ok, of "replicate PAGE_SIZE 0", simplified, folded demo_page_def]

lemma demo_ok: "rm_ok 0 demo" "table 0 demo (Rid 1 (int i)) = None"
proof -
  have h: "num_pages demo_hdr = 2" by (simp add: demo_hdr_def)
  have "if page_used demo_hdr demo_page < num_records_per_page demo_hdr
        then first_free_page_no demo_hdr = 1 \<and> next_free_page_no demo_page = RM_NO_PAGE else first_free_page_no demo_hdr = RM_NO_PAGE"
    using demo_blank by (simp add: demo_hdr_def)
  note w = page_world_ok [OF demo_hdr_ok h demo_blank(2) this]
  show "rm_ok 0 demo" by (rule w(1))
  show "table 0 demo (Rid 1 (int i)) = None" using w(2) demo_blank(1) by simp
qed

lemma page_world_fetch_state:
  assumes "length d = PAGE_SIZE"
  obtains b where "fetch_page (PageId 0 1) (rw_bpm (page_world h d)) = (Inr (Some 0), b)"
    "pages b ! 0 = \<lparr>p_id = PageId 0 1, p_data = d, p_dirty = False, p_pin = 1\<rparr>"
    "bp_disk b = page_disk d" "frame_of b (PageId 0 1) = Some 0"
proof -
  have rd: "read_page 0 1 buf PAGE_SIZE (page_disk d) = (Inr (), d)" if "length buf = PAGE_SIZE" for buf
    using that by (simp add: read_page_disk_page page_disk_page [OF assms])
  show thesis
    by (rule that [of "snd (fetch_page (PageId 0 1) (rw_bpm (page_world h d)))"])
      (simp_all add: page_world_def pool_run numeral_2_eq_2 rd)
qed

lemma page_world_fetch:
  assumes "length d = PAGE_SIZE"
  obtains b where "fetch_page (PageId 0 1) (rw_bpm (page_world h d)) = (Inr (Some 0), b)"
    "pages b ! 0 = \<lparr>p_id = PageId 0 1, p_data = d, p_dirty = False, p_pin = 1\<rparr>"
  using assms by (rule page_world_fetch_state)

lemma first_lock:
  "\<exists>lt. lock_shared_on_record r fd (new_Transaction tid, []) = (Inr True, lt)"
  "\<exists>lt. lock_exclusive_on_record r fd (new_Transaction tid, []) = (Inr True, lt)"
  by (simp_all add: lock_shared_on_record_def lock_exclusive_on_record_def request_lock_def check_lock_def bindc_def
      new_Transaction_def Let_def grant_in_queue_def queue_at_def empty_queue_def own_request_def)

lemma demo_insert: "\<exists>s'. insert_record 0 [1, 2] True demo = (Inr (Rid 1 0), s')"
proof -
  have l: "length demo_page = PAGE_SIZE" by (rule demo_blank(5))
  obtain b where b: "fetch_page (PageId 0 1) (rw_bpm demo) = (Inr (Some 0), b)"
    "pages b ! 0 = \<lparr>p_id = PageId 0 1, p_data = demo_page, p_dirty = False, p_pin = 1\<rparr>"
    using l by (rule page_world_fetch)
  let ?s1 = "demo\<lparr>rw_bpm := b\<rparr>"
  have c: "create_page_handle 0 demo = (Inr 0, ?s1)"
    using fetch_handle_returns [OF b(1)]
    by (simp add: create_page_handle_def page_world_def demo_hdr_def rm_consts INVALID_PAGE_ID_def)
  have d: "data_of 0 ?s1 = demo_page" "page_id_of 0 ?s1 = PageId 0 1" using b(2) by (simp_all add: data_of_def page_id_of_def)
  have "\<not> is_set bitmap_off demo_page 0" using demo_blank(1) by (auto simp: page_view_def demo_hdr_def fun_eq_iff split: if_splits)
  then have i: "next_bit False bitmap_off demo_page 8 (- 1) = 0" by (simp add: next_bit_def next_from.simps)
  have n: "num_records demo_page = 0" using demo_blank(2,3) by (simp add: page_ok_def)
  have h: "rw_hdr ?s1 = demo_hdr" "num_records_per_page demo_hdr = 8" "record_size demo_hdr = 2" "rw_locks ?s1 = (new_Transaction 1, [])"
    by (simp_all add: page_world_def demo_hdr_def)
  obtain a lt where lk: "lock_exclusive_on_record (Rid 1 0) 0 (new_Transaction 1, []) = (Inr a, lt)"
    using first_lock(2) [of "Rid 1 0" 0 1] by blast
  show ?thesis
    using insert_record_returns [OF demo_ok(1) c, of "[1, 2]" a lt] lk d i n h by (simp add: page_world_def)
qed

text \<open>
  Property C14. A table file is a map from record identifiers to records. In every sequence of
  reads, inserts, updates and deletes that return, over a file in order and from a caller that
  names present records and brings records of the right size, each read returns the record
  last stored under its identifier, each insert returns an identifier that was free, the file
  ends as the map the operations describe, and it is in order again.
\<close>

theorem table_file_is_a_map:
  assumes "rm_ok fd s" and "run_ops (exec_op fd) ops s = (Inr rs, s')"
    and "in_range 4 (num_pages (rw_hdr s) + int (length ops))"
    and "legal_run (record_size (rw_hdr s)) ops rs (table fd s)"
  shows "rm_ok fd s' \<and> spec_run ops rs (table fd s) = Some (table fd s')"
  using tables.run_refines [OF assms(2,1) _ assms(4)] assms(3) by (simp add: room_def)

theorem table_file_is_a_map_witness:
  "\<exists>s'. run_ops (exec_op 0) [RInsert [1, 2]] demo = (Inr [RRid (Rid 1 0)], s') \<and> rm_ok 0 s' \<and> table 0 s' (Rid 1 0) = Some [1, 2]"
proof -
  obtain s' where i: "insert_record 0 [1, 2] True demo = (Inr (Rid 1 0), s')" using demo_insert by blast
  then have r: "run_ops (exec_op 0) [RInsert [1, 2]] demo = (Inr [RRid (Rid 1 0)], s')" by (simp add: bindc_def)
  have "rm_ok 0 s' \<and> spec_run [RInsert [1, 2]] [RRid (Rid 1 0)] (table 0 demo) = Some (table 0 s')"
    by (rule table_file_is_a_map [OF demo_ok(1) r])
      (simp_all add: page_world_def demo_hdr_def in_range_def split: option.split)
  then have "rm_ok 0 s'" "table 0 s' = (table 0 demo)(Rid 1 0 \<mapsto> [1, 2])"
    using demo_ok(2) [of 0] by (simp_all add: bind_eq_Some_conv)
  with r show ?thesis by auto
qed

text \<open>
  Property C16. A record that is in the table is returned: when its lock is granted and its page
  can be brought into the pool, \<open>get_record\<close> returns the record stored, and the table and the
  invariant are as before.
\<close>

theorem get_record_returns:
  assumes k: "rm_ok fd s" and t: "table fd s r = Some x" and l: "lock_shared_on_record r fd (rw_locks s) = (Inr a, lt)"
    and f: "fetch_page (PageId fd (rid_page_no r)) (rw_bpm s) = (Inr (Some f), b)"
  shows "\<exists>s'. get_record fd r True s = (Inr x, s') \<and> rm_ok fd s' \<and> table fd s' = table fd s"
proof -
  note ps = present_slot [OF k t]
  let ?s1 = "s\<lparr>rw_locks := lt\<rparr>"
  have fh: "fetch_page_handle fd (rid_page_no r) ?s1 = (Inr f, ?s1\<lparr>rw_bpm := b\<rparr>)"
    using fetch_handle_returns [of fd "rid_page_no r" ?s1 f b] f ps(2) by simp
  obtain y s' where "unpin_cmd (PageId fd (rid_page_no r)) True (?s1\<lparr>rw_bpm := b\<rparr>) = (Inr y, s')"
    using unpin_cmd_returns by blast
  then obtain bs where g: "get_record fd r True s = (Inr bs, s')"
    using l fh ps(1) by (simp add: get_record_def bindc_def in_locks_run Let_def)
  from get_record_effect [OF k t g] g show ?thesis by auto
qed

definition used_page :: "byte list" where
  "used_page = ins_page demo_hdr 0 [7, 9] demo_page"

lemma used_page_ok:
  "page_ok demo_hdr used_page" "page_view demo_hdr used_page 0 = Some [7, 9]" "length used_page = PAGE_SIZE"
  "rm_ok 0 (page_world demo_hdr used_page)" "table 0 (page_world demo_hdr used_page) (Rid 1 0) = Some [7, 9]"
proof -
  have pv: "page_view demo_hdr demo_page 0 = None" using demo_blank(1) by simp
  have n: "0 < num_records_per_page demo_hdr" "length [7, 9 :: byte] = record_size demo_hdr" "num_pages demo_hdr = 2"
    by (simp_all add: demo_hdr_def)
  note ip = ins_page_ok [OF demo_hdr_ok demo_blank(2) n(1,2) pv, folded used_page_def]
  show p: "page_ok demo_hdr used_page" "page_view demo_hdr used_page 0 = Some [7, 9]" by (simp_all add: ip)
  then show "length used_page = PAGE_SIZE" by (simp add: page_ok_def)
  have "if page_used demo_hdr used_page < num_records_per_page demo_hdr
        then first_free_page_no demo_hdr = 1 \<and> next_free_page_no used_page = RM_NO_PAGE else first_free_page_no demo_hdr = RM_NO_PAGE"
    using demo_blank(3,4) ip(3,4) by (simp add: demo_hdr_def)
  note w = page_world_ok [OF demo_hdr_ok n(3) p(1) this]
  show "rm_ok 0 (page_world demo_hdr used_page)" "table 0 (page_world demo_hdr used_page) (Rid 1 0) = Some [7, 9]"
    using w(1) w(2) [of 0] p(2) by simp_all
qed

theorem get_record_returns_witness:
  "\<exists>s'. get_record 0 (Rid 1 0) True (page_world demo_hdr used_page) = (Inr [7, 9], s')"
proof -
  obtain b where b: "fetch_page (PageId 0 1) (rw_bpm (page_world demo_hdr used_page)) = (Inr (Some 0), b)"
    using used_page_ok(3) by (rule page_world_fetch)
  obtain lt where "lock_shared_on_record (Rid 1 0) 0 (rw_locks (page_world demo_hdr used_page)) = (Inr True, lt)"
    using first_lock(1) [of "Rid 1 0" 0 1] by (auto simp: page_world_def)
  from get_record_returns [OF used_page_ok(4,5) this, of 0 b] b show ?thesis by auto
qed

end
