(* ===== verification/File_Names.thy ===== *)
theory File_Names
  imports Log Record_Table
begin

text \<open>
  The operations of a table file leave the disk manager's table of open files alone: which
  descriptor is which file, which one is the log, and which files exist. This is what lets
  the log manager and the record files share one disk manager: a log record written between
  two table operations changes no page of a table.
\<close>

section \<open>A condition on the final state\<close>

definition leaves :: "('s \<Rightarrow> bool) \<Rightarrow> 'a \<times> 's \<Rightarrow> bool" where
  "leaves I res \<longleftrightarrow> I (snd res)"

named_theorems leaves_intros

lemma leaves_pair [leaves_intros]: "I s \<Longrightarrow> leaves I (r, s)"
  by (simp add: leaves_def)

lemma leaves_basic [leaves_intros]: "I s \<Longrightarrow> leaves I (ret a s)" "I s \<Longrightarrow> leaves I (throw e s)" "I (g s) \<Longrightarrow> leaves I (modify g s)"
  by (simp_all add: leaves_def)

lemma leaves_bindc [leaves_intros]:
  "leaves I (m s) \<Longrightarrow> (\<And>a t. I t \<Longrightarrow> leaves I (f a t)) \<Longrightarrow> leaves I (bindc m f s)"
  by (simp add: leaves_def bindc_def split: prod.split sum.split) (metis snd_conv)

lemma leaves_if [leaves_intros]: "(P \<Longrightarrow> leaves I x) \<Longrightarrow> (\<not> P \<Longrightarrow> leaves I y) \<Longrightarrow> leaves I (if P then x else y)"
  by simp

lemma leaves_cmd_if [leaves_intros]:
  "(P \<Longrightarrow> leaves I (m s)) \<Longrightarrow> (\<not> P \<Longrightarrow> leaves I (k s)) \<Longrightarrow> leaves I ((if P then m else k) s)"
  by simp

lemma leaves_option [leaves_intros]:
  "leaves I (n s) \<Longrightarrow> (\<And>x. leaves I (f x s)) \<Longrightarrow> leaves I ((case v of None \<Rightarrow> n | Some x \<Rightarrow> f x) s)"
  by (simp split: option.split)

lemma leavesD: "leaves I (m s) \<Longrightarrow> m s = (r, t) \<Longrightarrow> I t"
  by (simp add: leaves_def)

section \<open>The pool\<close>

definition same_files :: "disk \<Rightarrow> disk \<Rightarrow> bool" where
  "same_files d d' \<longleftrightarrow> fd2path d' = fd2path d \<and> log_fd d' = log_fd d \<and> dom (os_files (dm_os d')) = dom (os_files (dm_os d))"

lemma same_files_refl [simp]: "same_files d d"
  by (simp add: same_files_def)

lemma same_files_write_page: "same_files d d1 \<Longrightarrow> same_files d (snd (write_page fd p bs d1))"
  by (auto simp: same_files_def write_page_def os_write_def Let_def split: option.splits prod.splits)

lemma same_files_allocate: "same_files d d1 \<Longrightarrow> same_files d (snd (allocate_page fd d1))"
  by (simp add: same_files_def allocate_page_def)

text \<open>The cached pages are pages of open files other than the log.\<close>

definition apart :: "disk \<Rightarrow> int \<Rightarrow> bool" where
  "apart d fd \<longleftrightarrow> (\<exists>p. hfind (fd2path d) fd = Some p \<and> p \<noteq> LOG_FILE_NAME)"

definition pool_names :: "disk \<Rightarrow> bpm \<Rightarrow> bool" where
  "pool_names d b \<longleftrightarrow> same_files d (bp_disk b) \<and> (\<forall>pid f. frame_of b pid = Some f \<longrightarrow> apart d (pid_fd pid))"

lemma on_disk_names [leaves_intros]:
  "pool_names d b \<Longrightarrow> leaves (pool_names d) (on_disk (write_page fd p bs) b)"
  "pool_names d b \<Longrightarrow> leaves (pool_names d) (on_disk (allocate_page fd) b)"
  using same_files_write_page [of d "bp_disk b" fd p bs] same_files_allocate [of d "bp_disk b" fd]
  by (auto simp: on_disk_def zoom_def leaves_def pool_names_def split: prod.split)

lemma pool_fields [simp]:
  "pool_names d (upd_page f g b) = pool_names d b" "pool_names d (pin_frame f b) = pool_names d b"
  "pool_names d (store_page f bs b) = pool_names d b"
  "pool_names d (snd (find_victim_page b)) = pool_names d b" "pool_names d (snd (unpin_page pid x b)) = pool_names d b"
  by (simp_all add: pool_names_def upd_page_def pin_frame_def store_page_def find_victim_page_def unpin_page_def Let_def
      split: list.split prod.split option.split)

lemma page_table_names:
  "pool_names d b \<Longrightarrow> pool_names d (b\<lparr>page_table := herase pid (page_table b)\<rparr>)"
  "pool_names d b \<Longrightarrow> apart d (pid_fd pid) \<Longrightarrow> pool_names d (b\<lparr>page_table := emplace pid f (page_table b)\<rparr>)"
  by (auto simp: pool_names_def split: if_splits option.splits)

lemma update_page_names [leaves_intros]:
  "pool_names d b \<Longrightarrow> apart d (pid_fd pid) \<Longrightarrow> leaves (pool_names d) (update_page f pid nf b)"
  unfolding update_page_def Let_def by (intro leaves_intros page_table_names) simp_all

lemma read_into_names [leaves_intros]: "pool_names d b \<Longrightarrow> leaves (pool_names d) (read_into f pid b)"
  by (simp add: read_into_def leaves_def split: prod.split)

lemma find_victim_names: "pool_names d b \<Longrightarrow> find_victim_page b = (v, b') \<Longrightarrow> pool_names d b'"
  using pool_fields(4) [of d b] by simp

lemma fetch_page_names [leaves_intros]:
  assumes "pool_names d b" and "apart d (pid_fd pid)"
  shows "leaves (pool_names d) (fetch_page pid b)"
proof (cases "frame_of b pid")
  case None
  obtain v b' where v: "find_victim_page b = (v, b')" by fastforce
  with assms(1) have "pool_names d b'" by (rule find_victim_names)
  with None v assms(2) show ?thesis
    by (auto simp: fetch_page_def split: option.split intro!: leaves_intros)
qed (use assms in \<open>simp add: fetch_page_def leaves_def\<close>)

lemma new_page_names [leaves_intros]:
  assumes "pool_names d b" and "apart d fd"
  shows "leaves (pool_names d) (new_page fd b)"
proof -
  obtain v b' where v: "find_victim_page b = (v, b')" by fastforce
  with assms(1) have "pool_names d b'" by (rule find_victim_names)
  with v assms(2) show ?thesis
    by (auto simp: new_page_def split: option.split intro!: leaves_intros)
qed

lemma flush_page_names [leaves_intros]: "pool_names d b \<Longrightarrow> leaves (pool_names d) (flush_page pid b)"
  by (auto simp: flush_page_def write_back_def split: option.split intro!: leaves_intros)

section \<open>Locks\<close>

text \<open>
  What lock requests leave as it was: the transaction's identity, its write set and the locks
  of the others; the lock set covers the locks held and the transaction
  has not ended.
\<close>

abbreviation ended :: "txn \<Rightarrow> bool" where
  "ended t \<equiv> txn_state t = ABORTED \<or> txn_state t = COMMITTED"

definition locks_kept :: "lock_state \<Rightarrow> lock_state \<Rightarrow> bool" where
  "locks_kept L L' \<longleftrightarrow> table_ok (snd L') \<and> covers (fst L') (snd L') \<and> \<not> ended (fst L') \<and> txn_id (fst L') = txn_id (fst L) \<and>
     write_set (fst L') = write_set (fst L) \<and>
     (\<forall>l k. k \<noteq> txn_id (fst L) \<longrightarrow> held_mode (snd L') l k = held_mode (snd L) l k)"

lemma request_kept:
  assumes k: "locks_kept L (t, tab)" and q: "op_request op \<noteq> None"
  shows "locks_kept L (snd (run_op op (t, tab)))"
proof -
  obtain l mode where lm: "op_request op = Some (l, mode)" using q by auto
  obtain r t' tab' where o: "run_op op (t, tab) = (r, (t', tab'))" by (metis prod.exhaust)
  have w: "table_ok tab" "covers t tab" "\<not> ended t" using k by (simp_all add: locks_kept_def)
  note oc = op_request_outcome [OF w(1) lm, of t]
  have "write_set t' = write_set t \<and> \<not> ended t'"
  proof (cases "growing t")
    case True
    with oc(1) o show ?thesis by (auto simp: outcome_def lock_set_emplace_def split: if_splits)
  next
    case False
    with w(3) have "txn_state t = SHRINKING" by (cases "txn_state t") auto
    with oc(2) o w(3) show ?thesis by simp
  qed
  with op_effect [OF w(1,2) o] k show ?thesis by (simp add: o locks_kept_def)
qed

lemma record_lock_kept:
  "locks_kept L s \<Longrightarrow> locks_kept L (snd (lock_shared_on_record r fd s))"
  "locks_kept L s \<Longrightarrow> locks_kept L (snd (lock_exclusive_on_record r fd s))"
  using request_kept [of L "fst s" "snd s" "LockS r fd"] request_kept [of L "fst s" "snd s" "LockX r fd"] by simp_all

section \<open>Table files\<close>

definition file_names :: "disk \<Rightarrow> lock_state \<Rightarrow> rm_world \<Rightarrow> bool" where
  "file_names d L s \<longleftrightarrow> pool_names d (rw_bpm s) \<and> locks_kept L (rw_locks s)"

lemma in_pool_names [leaves_intros]:
  "file_names d L s \<Longrightarrow> (pool_names d (rw_bpm s) \<Longrightarrow> leaves (pool_names d) (m (rw_bpm s))) \<Longrightarrow> leaves (file_names d L) (in_pool m s)"
  by (auto simp: in_pool_run leaves_def file_names_def split: prod.split)

lemma in_locks_names [leaves_intros]:
  "file_names d L s \<Longrightarrow> leaves (file_names d L) (in_locks (lock_shared_on_record r fd) s)"
  "file_names d L s \<Longrightarrow> leaves (file_names d L) (in_locks (lock_exclusive_on_record r fd) s)"
  using record_lock_kept [of L "rw_locks s" r fd] by (auto simp: in_locks_run leaves_def file_names_def split: prod.split)

lemma edit_names [simp]:
  "file_names d L (edit f g s) = file_names d L s" "file_names d L (stamp f s) = file_names d L s"
  "file_names d L (s\<lparr>rw_hdr := h\<rparr>) = file_names d L s"
  by (simp_all add: edit_def stamp_def file_names_def)

lemma unpin_cmd_names [leaves_intros]: "file_names d L s \<Longrightarrow> leaves (file_names d L) (unpin_cmd pid x s)"
  using pool_fields(5) [of d pid x "rw_bpm s"]
  by (cases "unpin_page pid x (rw_bpm s)") (simp add: unpin_cmd_def in_pool_run leaves_def file_names_def)

lemma write_header_names [leaves_intros]: "file_names d L s \<Longrightarrow> leaves (file_names d L) (write_header fd s)"
  unfolding write_header_def by (intro leaves_intros)

lemma fetch_handle_names [leaves_intros]: "file_names d L s \<Longrightarrow> apart d fd \<Longrightarrow> leaves (file_names d L) (fetch_page_handle fd p s)"
  unfolding fetch_page_handle_def by (intro leaves_intros) simp_all

lemma create_page_names [leaves_intros]: "file_names d L s \<Longrightarrow> apart d fd \<Longrightarrow> leaves (file_names d L) (create_page_handle fd s)"
  unfolding create_page_handle_def create_new_page_handle_def
  by (auto intro!: leaves_intros split: option.split)

lemma release_names [leaves_intros]: "file_names d L s \<Longrightarrow> leaves (file_names d L) (release_page_handle fd f s)"
  unfolding release_page_handle_def by (intro leaves_intros) simp_all

lemma get_record_names: "file_names d L s \<Longrightarrow> apart d fd \<Longrightarrow> leaves (file_names d L) (get_record fd r c s)"
  unfolding get_record_def Let_def by (intro leaves_intros)

lemma update_record_names: "file_names d L s \<Longrightarrow> apart d fd \<Longrightarrow> leaves (file_names d L) (update_record fd r buf c s)"
  unfolding update_record_def by (intro leaves_intros) simp_all

lemma delete_record_names: "file_names d L s \<Longrightarrow> apart d fd \<Longrightarrow> leaves (file_names d L) (delete_record fd r c s)"
  unfolding delete_record_def by (intro leaves_intros) simp_all

lemma insert_record_names: "file_names d L s \<Longrightarrow> apart d fd \<Longrightarrow> leaves (file_names d L) (insert_record fd buf c s)"
  unfolding insert_record_def Let_def by (intro leaves_intros) simp_all

lemmas record_names = get_record_names update_record_names delete_record_names insert_record_names

section \<open>Writing the log\<close>

text \<open>A page of a file other than the log is not touched by a log write.\<close>

lemma write_log_other_file:
  assumes r: "log_ready d" and w: "write_log bs d = (Inr (), d')"
    and a: "apart d fd"
  shows "disk_page d' fd = disk_page d fd" "apart d' fd" "fd2pageno d' = fd2pageno d"
proof -
  obtain p where p: "hfind (fd2path d) fd = Some p" "p \<noteq> LOG_FILE_NAME" using a by (auto simp: apart_def)
  obtain d1 where o: "open_log d = (Inr (), d1)" using w by (auto simp: write_log_def bindc_eq_Inr)
  have e: "fd2path d' = fd2path d1 \<and> fd2pageno d' = fd2pageno d1" using w o
    by (auto simp: write_log_def bindc_def Let_def split: prod.splits if_splits)
  have wf: "disk_wf d" "disk_wf d'" using r write_log_ready(1) [OF r w] by (simp_all add: log_ready_def)
  have "hfind (fd2path d1) fd = hfind (fd2path d) fd \<and> fd2pageno d1 = fd2pageno d"
  proof (cases "log_fd d = - 1")
    case True
    have "lowest_fd (used_fds (dm_os d)) \<noteq> fd"
      using lowest_fd_fresh [of "used_fds (dm_os d)"] p(1) disk_wf_tables [OF wf(1), of fd]
      by (auto simp: used_fds_def dest: map_of_SomeD intro: rev_image_eqI)
    with o True show ?thesis
      by (auto simp: open_log_def bindc_def open_file_def os_open_def Let_def split: if_splits)
  qed (use o in \<open>simp add: open_log_def\<close>)
  with e have f: "hfind (fd2path d') fd = hfind (fd2path d) fd" and c: "fd2pageno d' = fd2pageno d" by simp_all
  show "apart d' fd" "fd2pageno d' = fd2pageno d" using f p c by (auto simp: apart_def)
  have "os_file (dm_os d') fd = os_file (dm_os d) fd"
    using p f disk_wf_tables [OF wf(1), of fd] disk_wf_tables [OF wf(2), of fd] write_log_ready(2) [OF r w]
    by (simp add: os_file_def)
  then show "disk_page d' fd = disk_page d fd" by (simp add: fun_eq_iff disk_page_def)
qed

lemma log_write_keeps_table:
  assumes k: "rm_ok fd s" and r: "log_ready (bp_disk (rw_bpm s))" and n: "pool_names (bp_disk (rw_bpm s)) (rw_bpm s)"
    and o: "apart (bp_disk (rw_bpm s)) fd" and w: "write_log bs (bp_disk (rw_bpm s)) = (Inr (), d')"
  defines "s' \<equiv> s\<lparr>rw_bpm := (rw_bpm s)\<lparr>bp_disk := d'\<rparr>\<rparr>"
  shows "rm_ok fd s'" "table fd s' = table fd s" "pool_names d' (rw_bpm s')" "apart d' fd"
proof -
  let ?b = "rw_bpm s" and ?d = "bp_disk (rw_bpm s)"
  note wo = write_log_other_file [OF r w]
  have pk: "pool_ok ?b" "file_ok fd (rw_hdr s) (contents s)" "frame_rules fd s" using k by (simp_all add: rm_ok_def)
  have ap: "apart ?d (pid_fd pid)" if "frame_of ?b pid = Some f" for pid f
    using that n by (auto simp: pool_names_def)
  have co: "coherent (rw_bpm s')"
    using pool_ok_wf(2) [OF pk(1)] wo(1) [OF ap] by (auto simp: coherent_def s'_def)
  have "disk_wf d'" using write_log_ready(1) [OF r w] by (simp add: log_ready_def)
  then have pk': "pool_ok (rw_bpm s')" using pk(1) co by (simp add: pool_ok_def bp_ok_def bp_wf_def s'_def)
  have c: "contents s' (PageId fd q) = contents s (PageId fd q)" for q
    using wo(1) [OF o] by (simp add: content_def s'_def split: option.split)
  have fk: "file_ok fd (rw_hdr s) (contents s')" "tab_view fd (rw_hdr s) (contents s') = tab_view fd (rw_hdr s) (contents s)"
    by (rule file_ok_mono [OF pk(2)]; simp add: c)+
  show "rm_ok fd s'" using pk' fk(1) pk(3) wo(3) [OF o] by (simp add: rm_ok_def frame_rules_def s'_def)
  show "table fd s' = table fd s" using fk(2) by (simp add: table_def s'_def)
  show "apart d' fd" by (rule wo(2) [OF o])
  show "pool_names d' (rw_bpm s')" using wo(2) [OF ap] by (auto simp: pool_names_def s'_def)
qed

end
