(* ===== verification/Record_Manager.thy ===== *)
theory Record_Manager
  imports Record_Table
begin

text \<open>
  The record manager over whole files: the page layout \<open>create_file\<close> computes fits, the file
  header survives the disk, a created file opens as an empty table, and a scan visits the
  records of a table, each once, in the order of their identifiers.
\<close>

section \<open>The layout of a new file\<close>

lemma new_file_hdr_shape:
  assumes "1 \<le> rs" and "rs \<le> RM_MAX_RECORD_SIZE"
  obtains n where "7 \<le> n" "n \<le> 32601" "n * rs + (n + 8 - 1) div 8 \<le> 4076"
    "new_file_hdr rs = \<lparr>record_size = nat rs, num_pages = 1, num_records_per_page = nat n, first_free_page_no = RM_NO_PAGE,
       bitmap_size = nat ((n + 8 - 1) div 8)\<rparr>"
proof -
  define n where "n = (8 * (int PAGE_SIZE - 1 - 20) + 1) div (1 + rs * 8)"
  have rs: "0 < 1 + rs * 8" "1 + rs * 8 \<le> 4097" using assms by (simp_all add: RM_MAX_RECORD_SIZE_def)
  have n: "n = 32601 div (1 + rs * 8)" by (simp add: n_def PAGE_SIZE_def)
  have u: "n * (1 + rs * 8) \<le> 32601" unfolding n
    using div_mult_mod_eq [of 32601 "1 + rs * 8"] pos_mod_sign [OF rs(1), of 32601] by linarith
  have "32601 div 4097 \<le> n" unfolding n by (rule zdiv_mono2) (use rs in auto)
  then have l: "7 \<le> n" by simp
  have d: "n * (1 + rs * 8) = n + 8 * (n * rs)" by (simp add: algebra_simps)
  have w: "n * rs + (n + 8 - 1) div 8 \<le> 4076" using u unfolding d by linarith
  have "0 \<le> n * rs" using l assms(1) by simp
  with u have "n \<le> 32601" unfolding d by linarith
  with l w show thesis using that by (simp add: new_file_hdr_def Let_def n_def)
qed

lemma new_file_hdr_ok:
  assumes "1 \<le> rs" and "rs \<le> RM_MAX_RECORD_SIZE"
  shows "hdr_ok (new_file_hdr rs)"
proof -
  from assms obtain n where n: "7 \<le> n" "n \<le> 32601" "n * rs + (n + 8 - 1) div 8 \<le> 4076" and
    h: "new_file_hdr rs = \<lparr>record_size = nat rs, num_pages = 1, num_records_per_page = nat n, first_free_page_no = RM_NO_PAGE,
       bitmap_size = nat ((n + 8 - 1) div 8)\<rparr>"
    by (rule new_file_hdr_shape)
  have m: "int (nat n * nat rs) = n * rs" using n(1) assms(1) by simp
  have "12 + nat ((n + 8 - 1) div 8) + nat n * nat rs \<le> 4096" using m n by linarith
  moreover have "nat n \<le> 8 * nat ((n + 8 - 1) div 8)" by linarith
  ultimately show ?thesis using n(1) assms(1) by (simp add: h hdr_ok_def page_offs PAGE_SIZE_def)
qed

definition hdr_fits :: "RmFileHdr \<Rightarrow> bool" where
  "hdr_fits h \<longleftrightarrow> in_range 4 (int (record_size h)) \<and> in_range 4 (num_pages h) \<and> in_range 4 (int (num_records_per_page h)) \<and>
     in_range 4 (first_free_page_no h) \<and> in_range 4 (int (bitmap_size h))"

lemma hdr_roundtrip: "hdr_fits h \<Longrightarrow> hdr_of_bytes (hdr_bytes h) = h"
  by (simp add: hdr_of_bytes_def hdr_bytes_def hdr_fits_def read_at_skip read_at_first read_at_0)

lemma new_hdr_fits:
  assumes "1 \<le> rs" and "rs \<le> RM_MAX_RECORD_SIZE"
  shows "hdr_fits (new_file_hdr rs)"
proof -
  from assms obtain n where n: "7 \<le> n" "n \<le> 32601" and
    h: "new_file_hdr rs = \<lparr>record_size = nat rs, num_pages = 1, num_records_per_page = nat n, first_free_page_no = RM_NO_PAGE,
       bitmap_size = nat ((n + 8 - 1) div 8)\<rparr>"
    by (rule new_file_hdr_shape)
  have "(n + 8 - 1) div 8 \<le> 32601" using n by linarith
  with n assms show ?thesis
    unfolding h hdr_fits_def by (simp add: in_range_def RM_NO_PAGE_def RM_MAX_RECORD_SIZE_def)
qed

section \<open>Creating and opening a file\<close>

lemma create_then_open:
  assumes w: "disk_wf d" and c: "rm_create_file path rs d = (Inr (), d1)"
  shows "1 \<le> rs" "rs \<le> RM_MAX_RECORD_SIZE" "disk_wf d1" "os_files (dm_os d1) path = Some (hdr_bytes (new_file_hdr rs))"
proof -
  show rs: "1 \<le> rs" "rs \<le> RM_MAX_RECORD_SIZE" using c by (auto simp: rm_create_file_def split: if_splits)
  obtain d2 d3 fd d4 where cr: "create_file path d = (Inr (), d2)" and op: "open_file path d2 = (Inr fd, d3)"
    and wr: "write_page fd 0 (hdr_bytes (new_file_hdr rs)) d3 = (Inr (), d4)" and cl: "close_file fd d4 = (Inr (), d1)"
    using c rs by (auto simp: rm_create_file_def bindc_eq_Inr RM_FILE_HDR_PAGE_def)
  have w2: "disk_wf d2" using disk_wf_create_file [OF w, of path] cr by simp
  have w3: "disk_wf d3" using disk_wf_open_file [OF w2, of path] op by simp
  have w4: "disk_wf d4" using disk_wf_write_page [OF w3, of fd] wr by (metis snd_conv)
  show "disk_wf d1" using disk_wf_close_file [OF w4, of fd] cl by simp
  have f2: "os_files (dm_os d2) path = Some []"
    using cr by (auto simp: create_file_def os_creat_def os_close_def Let_def split: if_splits)
  have f3: "os_files (dm_os d3) path = Some []" "hfind (os_fds (dm_os d3)) fd = Some path"
    using op f2 used_fds_None [of "dm_os d2"] by (auto simp: open_file_def os_open_def Let_def split: if_splits)
  obtain n s where ow: "os_write fd 0 (hdr_bytes (new_file_hdr rs)) (dm_os d3) = (n, s)" "n = length (hdr_bytes (new_file_hdr rs))"
    "dm_os d4 = s"
    using wr by (auto simp: write_page_def Let_def split: if_splits prod.splits)
  have "os_files s path = Some (hdr_bytes (new_file_hdr rs))"
    using ow(1,2) f3 by (auto simp: os_write_def Let_def file_write_def write_at_def)
  then show "os_files (dm_os d1) path = Some (hdr_bytes (new_file_hdr rs))"
    using cl ow(3) by (auto simp: close_file_def os_close_def split: option.splits if_splits)
qed

lemma open_reads_header:
  assumes w: "disk_wf d" and f: "os_files (dm_os d) path = Some (hdr_bytes h @ rest)" and h: "hdr_fits h"
    and op: "rm_open_file path d = (Inr (fd, h'), d')"
  shows "h' = h" "fd2pageno d' fd = num_pages h" "disk_wf d'" "0 \<le> fd" "fd < MAX_FD" "dm_os d' = dm_os (snd (open_file path d))"
proof -
  obtain d1 where o: "open_file path d = (Inr fd, d1)" and r: "RmFileHandle fd d1 = (Inr h', snd (RmFileHandle fd d1))"
    and s: "set_fd2pageno fd (num_pages h') (snd (RmFileHandle fd d1)) = (Inr (), d')"
    using op by (auto simp: rm_open_file_def bindc_eq_Inr)
  have w1: "disk_wf d1" using disk_wf_open_file [OF w, of path] o by simp
  have f1: "os_file (dm_os d1) fd = Some (hdr_bytes h @ rest)"
    using o f used_fds_None [of "dm_os d"] by (auto simp: open_file_def os_open_def os_file_def Let_def split: if_splits)
  have l: "length (hdr_bytes h) = 20" by (simp add: hdr_bytes_def)
  have "read_page fd 0 (replicate 20 0) 20 d1 = (Inr (), hdr_bytes h)"
    using f1 l by (simp add: read_page_def in_range_def os_lseek_def os_read_def Let_def read_at_def write_at_def)
  with r show h': "h' = h"
    using h by (auto simp: RmFileHandle_def RM_FILE_HDR_PAGE_def Let_def bindc_eq_Inr hdr_roundtrip)
  have sd: "snd (RmFileHandle fd d1) = d1\<lparr>fd2pageno := (fd2pageno d1)(fd := num_pages h)\<rparr> \<and> 0 \<le> fd \<and> fd < MAX_FD"
    using r \<open>read_page fd 0 (replicate 20 0) 20 d1 = (Inr (), hdr_bytes h)\<close> h
    by (auto simp: RmFileHandle_def RM_FILE_HDR_PAGE_def Let_def bindc_eq_Inr hdr_roundtrip set_fd2pageno_def bindc_def split: if_splits)
  then have d': "d' = d1\<lparr>fd2pageno := (fd2pageno d1)(fd := num_pages h)\<rparr>" using s h' by (auto simp: set_fd2pageno_def)
  show "fd2pageno d' fd = num_pages h" "0 \<le> fd" "fd < MAX_FD" "dm_os d' = dm_os (snd (open_file path d))"
    using sd o by (simp_all add: d')
  show "disk_wf d'" using w1 by (simp add: d' disk_wf_def)
qed

lemma fresh_table_ok:
  fixes fd0 :: int and k :: nat and l :: lock_state
  assumes h: "hdr_ok h" "num_pages h = 1" "first_free_page_no h = RM_NO_PAGE" and w: "disk_wf d" and n: "fd2pageno d fd = 1"
  defines "s \<equiv> \<lparr>rw_hdr = h, rw_bpm = BufferPoolManager fd0 k d, rw_locks = l\<rparr>"
  shows "rm_ok fd s" "table fd s = Map.empty"
proof -
  have "pool_ok (rw_bpm s)"
    using initial_ok [OF w] by (auto simp: s_def pool_ok_def BufferPoolManager_def new_Page_def)
  moreover have "file_ok fd h (contents s)"
    using h by (auto simp: file_ok_def rm_consts intro!: exI [of _ "[]"])
  moreover have "frame_rules fd s" using h n by (simp add: s_def frame_rules_def BufferPoolManager_def)
  ultimately show "rm_ok fd s" by (simp add: rm_ok_def s_def)
  show "table fd s = Map.empty" using h by (auto simp: s_def table_def tab_view_def fun_eq_iff rm_consts)
qed

text \<open>
  Property C17. A created table file opens as an empty table. \<open>create_file\<close> of the record
  manager refuses record sizes outside 1 to 512; otherwise, when it returns, opening the file
  gives the header with the layout it computed, in which bitmap and slots fit into the page,
  and the file, over a buffer pool that holds none of its pages, is an empty table in order.
\<close>

theorem created_file_is_empty_table:
  assumes "disk_wf d" and "rm_create_file path rs d = (Inr (), d1)" and "rm_open_file path d1 = (Inr (fd, h), d2)"
  shows "1 \<le> rs \<and> rs \<le> RM_MAX_RECORD_SIZE \<and> h = new_file_hdr rs \<and> hdr_ok h \<and>
    rm_ok fd \<lparr>rw_hdr = h, rw_bpm = BufferPoolManager fd0 k d2, rw_locks = l\<rparr> \<and>
    table fd \<lparr>rw_hdr = h, rw_bpm = BufferPoolManager fd0 k d2, rw_locks = l\<rparr> = Map.empty"
proof -
  note c = create_then_open [OF assms(1,2)]
  note fits = new_hdr_fits [OF c(1,2)]
  note o = open_reads_header [OF c(3) _ fits assms(3), of "[]"]
  have h: "h = new_file_hdr rs" "fd2pageno d2 fd = 1" "disk_wf d2"
    using o c(4) by (simp_all add: new_file_hdr_def Let_def)
  have k: "hdr_ok h" "num_pages h = 1" "first_free_page_no h = RM_NO_PAGE"
    using new_file_hdr_ok [OF c(1,2)] h(1) by (simp_all add: new_file_hdr_def Let_def)
  from fresh_table_ok [OF k h(3,2)] c(1,2) h(1) k(1) show ?thesis by simp
qed

definition empty_os :: os where
  "empty_os = \<lparr>os_files = Map.empty, os_fds = [], os_other = [0, 1, 2], os_denied = (\<lambda>_. False), os_limit = 1000000\<rparr>"

definition created :: disk where
  "created = snd (rm_create_file ''t'' 4 (DiskManager empty_os))"

lemma create_runs:
  "rm_create_file ''t'' 4 (DiskManager empty_os) = (Inr (), created)"
  by (simp add: created_def rm_create_file_def RM_MAX_RECORD_SIZE_def bindc_def create_file_def os_creat_def empty_os_def
      DiskManager_def Let_def os_close_def open_file_def os_open_def used_fds_def lowest_fd_def write_page_def in_range_def
      os_lseek_def os_file_def os_write_def hdr_bytes_def close_file_def MAX_FD_def RM_FILE_HDR_PAGE_def emplace_def herase_def)

theorem created_file_is_empty_table_witness:
  "\<exists>h d2. rm_open_file ''t'' created = (Inr (3, h), d2) \<and> h = new_file_hdr 4 \<and>
     table 3 \<lparr>rw_hdr = h, rw_bpm = BufferPoolManager 0 8 d2, rw_locks = (new_Transaction 1, [])\<rparr> = Map.empty"
proof -
  obtain h d2 where o: "rm_open_file ''t'' created = (Inr (3, h), d2)"
    by (simp add: created_def rm_create_file_def RM_MAX_RECORD_SIZE_def bindc_def create_file_def os_creat_def empty_os_def
      DiskManager_def Let_def os_close_def open_file_def os_open_def used_fds_def lowest_fd_def write_page_def in_range_def
      os_lseek_def os_file_def os_write_def hdr_bytes_def close_file_def MAX_FD_def RM_FILE_HDR_PAGE_def emplace_def herase_def
      rm_open_file_def RmFileHandle_def read_page_def os_read_def set_fd2pageno_def file_write_def read_at_def write_at_def)
  have "disk_wf (DiskManager empty_os)" by (rule disk_wf_new) (simp add: empty_os_def)
  from created_file_is_empty_table [OF this create_runs o] o show ?thesis by blast
qed

section \<open>Scans\<close>

lemma read_only_session:
  assumes k: "rm_ok fd s" and p: "RM_FIRST_RECORD_PAGE \<le> p" "p < num_pages (rw_hdr s)"
    and ft: "fetch_page_handle fd p s = (Inr f, s1)" and u: "unpin_cmd (page_id_of f s1) False s1 = (r, s2)"
  shows "rm_ok fd s2" "table fd s2 = table fd s" "rw_hdr s2 = rw_hdr s" "rw_locks s2 = rw_locks s"
    "table fd s (Rid p (int i)) = page_view (rw_hdr s) (data_of f s1) i"
proof -
  note fs = fetch_handle_session [OF k p ft]
  note sd = session_data [OF fs(1)]
  obtain x b where b: "unpin_page (PageId fd p) False (rw_bpm s1) = (x, b)" by fastforce
  then have s2: "s2 = s1\<lparr>rw_bpm := b\<rparr>" using u sd(2) by (simp add: unpin_cmd_def in_pool_run)
  have pin: "pinned_at (rw_bpm s1) (PageId fd p) f" using fs(1) by (simp add: session_def)
  have n: "p \<noteq> INVALID_PAGE_ID" using p by (simp add: rm_consts INVALID_PAGE_ID_def)
  obtain c where "fetch_page (PageId fd p) (rw_bpm s) = (Inr (Some f), c)" "s1 = s\<lparr>rw_bpm := c\<rparr>"
    using ft n by (auto simp: fetch_page_handle_def bindc_eq_Inr in_pool_run split: option.splits prod.splits)
  then have "fetch_page (PageId fd p) (rw_bpm s) = (Inr (Some f), rw_bpm s1)" by simp
  note cl = fetch_clean [OF pool_ok_wf this]
  have "pool_ok (rw_bpm s)" using k by (simp add: rm_ok_def)
  with cl have "p_pin (pages (rw_bpm s1) ! f) = 1 \<Longrightarrow>
      False \<or> p_dirty (pages (rw_bpm s1) ! f) \<or> page_at (rw_bpm s1) (PageId fd p) = Some (p_data (pages (rw_bpm s1) ! f))" by simp
  note us = unpin_session_any [OF pin b this]
  show "rm_ok fd s2" using us fs(1,2,5) s2 by (simp add: rm_ok_def session_def frame_rules_def)
  show "rw_hdr s2 = rw_hdr s" "rw_locks s2 = rw_locks s" using fs(2,3) s2 by simp_all
  show "table fd s2 = table fd s" using us(2) fs(2,6) s2 by (simp add: table_def)
  show "table fd s (Rid p (int i)) = page_view (rw_hdr s) (data_of f s1) i"
    using fs(6) tab_view_page [of p "rw_hdr s" "contents s1" fd "data_of f s1" i] sd(1) p by simp
qed

text \<open>The order in which a scan goes through record identifiers.\<close>

definition rid_less :: "rid \<Rightarrow> rid \<Rightarrow> bool" where
  "rid_less a b \<longleftrightarrow> rid_page_no a < rid_page_no b \<or> rid_page_no a = rid_page_no b \<and> rid_slot_no a < rid_slot_no b"

lemma table_range: "table fd s r \<noteq> None \<Longrightarrow> 1 \<le> rid_page_no r \<and> rid_page_no r < num_pages (rw_hdr s) \<and> 0 \<le> rid_slot_no r"
  by (auto simp: table_def tab_view_def rm_consts split: if_splits)

text \<open>The next present identifier after \<open>r\<close>, or the end.\<close>

definition next_present :: "rec_map \<Rightarrow> rid \<Rightarrow> rid \<Rightarrow> bool" where
  "next_present m r r' \<longleftrightarrow>
     (if scan_is_end r' then \<forall>x. rid_less r x \<longrightarrow> m x = None
      else m r' \<noteq> None \<and> rid_less r r' \<and> (\<forall>x. rid_less r x \<longrightarrow> rid_less x r' \<longrightarrow> m x = None))"

lemma page_scan:
  assumes i: "i = next_bit True bitmap_off d (num_records_per_page h) j" and j: "- 1 \<le> j" "j < int (num_records_per_page h)"
  shows "i < num_records_per_page h \<Longrightarrow> page_view h d i \<noteq> None \<and> j < int i"
    "j < int k \<Longrightarrow> k < i \<Longrightarrow> page_view h d k = None" "i \<le> num_records_per_page h"
    "\<not> i < num_records_per_page h \<Longrightarrow> j < int k \<Longrightarrow> page_view h d k = None"
proof -
  let ?n = "num_records_per_page h"
  have "next_from True bitmap_off d ?n (nat (j + 1)) = i" using i by (simp add: next_bit_def)
  from next_from_spec [OF this] j have sp: "nat (j + 1) \<le> i" "i \<le> ?n" "\<And>k. nat (j + 1) \<le> k \<Longrightarrow> k < i \<Longrightarrow> \<not> is_set bitmap_off d k"
    "i < ?n \<Longrightarrow> is_set bitmap_off d i" by auto
  show "i \<le> ?n" by (rule sp(2))
  show "page_view h d i \<noteq> None \<and> j < int i" if "i < ?n" using sp that j by (simp add: page_view_def)
  show *: "page_view h d k = None" if "j < int k" "k < i" for k using sp(3) [of k] that by (simp add: page_view_def)
  show "page_view h d k = None" if "\<not> i < ?n" "j < int k" using * [of k] that sp(2) by (cases "k < i") (auto simp: page_view_def)
qed

lemma next_present_here:
  assumes p: "1 \<le> p" and t: "\<And>k. m (Rid p (int k)) = page_view h d k" and neg: "\<And>x. m x \<noteq> None \<Longrightarrow> 0 \<le> rid_slot_no x"
    and i: "i = next_bit True bitmap_off d (num_records_per_page h) j" "i < num_records_per_page h"
    and j: "- 1 \<le> j" "j < int (num_records_per_page h)"
  shows "next_present m (Rid p j) (Rid p (int i))"
proof -
  note ps = page_scan [OF i(1) j]
  have e: "\<not> scan_is_end (Rid p (int i))" using p by (simp add: scan_is_end_def RM_NO_PAGE_def)
  have "m x = None" if x: "rid_less (Rid p j) x" "rid_less x (Rid p (int i))" for x
  proof (rule ccontr)
    assume a: "m x \<noteq> None"
    then obtain k where k: "x = Rid p (int k)" using x neg [OF a] by (cases x) (auto simp: rid_less_def intro: nonneg_int_cases)
    then show False using x ps(2) [of k] a t by (simp add: rid_less_def)
  qed
  then show ?thesis using ps(1) i(2) t e by (auto simp: next_present_def rid_less_def)
qed

lemma next_present_later:
  assumes t: "\<And>k. j < int k \<Longrightarrow> m (Rid p (int k)) = None" and neg: "\<And>x. m x \<noteq> None \<Longrightarrow> 0 \<le> rid_slot_no x"
    and j: "- 1 \<le> j" and n: "next_present m (Rid (p + 1) (- 1)) r'"
  shows "next_present m (Rid p j) r'"
proof -
  have skip: "rid_less (Rid (p + 1) (- 1)) x" if a: "m x \<noteq> None" and x: "rid_less (Rid p j) x" for x
  proof -
    obtain k where k: "rid_slot_no x = int k" using neg [OF a] nonneg_int_cases by blast
    then have "rid_page_no x \<noteq> p" using x a t [of k] by (cases x) (auto simp: rid_less_def)
    then show ?thesis using x k by (auto simp: rid_less_def)
  qed
  have up: "rid_less (Rid p j) x" if "rid_less (Rid (p + 1) (- 1)) x" for x using that by (auto simp: rid_less_def)
  show ?thesis using n skip up unfolding next_present_def by (metis (no_types, lifting))
qed

lemma scan_from_next:
  assumes "scan_from fd r npages s = (Inr r', s')" and "rm_ok fd s" and "1 \<le> rid_page_no r" and "- 1 \<le> rid_slot_no r"
    and "rid_slot_no r < int (num_records_per_page (rw_hdr s))" and "npages = num_pages (rw_hdr s)"
  shows "rm_ok fd s' \<and> table fd s' = table fd s \<and> rw_hdr s' = rw_hdr s \<and> next_present (table fd s) r r'"
  using assms
proof (induction fd r npages s rule: scan_from.induct)
  case (1 fd r npages s)
  have neg: "0 \<le> rid_slot_no x" if "table fd s x \<noteq> None" for x using table_range [OF that] by simp
  show ?case
  proof (cases "rid_page_no r < npages")
    case False
    have "table fd s x = None" if "rid_less r x" for x
      using that False 1(7) table_range [of fd s x] by (cases "table fd s x = None") (auto simp: rid_less_def)
    with 1(2,3) False show ?thesis by (auto simp: scan_from.simps [of fd r] next_present_def scan_is_end_def)
  next
    case True
    obtain p j where r: "r = Rid p j" by (cases r)
    let ?n = "num_records_per_page (rw_hdr s)"
    have pr: "RM_FIRST_RECORD_PAGE \<le> p" "p < num_pages (rw_hdr s)" using 1(4,7) True r by (simp_all add: rm_consts)
    obtain f s1 y s2 where f: "fetch_page_handle fd p s = (Inr f, s1)" and u: "unpin_cmd (page_id_of f s1) False s1 = (Inr y, s2)"
      and rest: "(if next_bit True bitmap_off (data_of f s1) (num_records_per_page (rw_hdr s1)) j < num_records_per_page (rw_hdr s1)
        then ret (Rid p (int (next_bit True bitmap_off (data_of f s1) (num_records_per_page (rw_hdr s1)) j)))
        else scan_from fd (Rid (p + 1) (- 1)) npages) s2 = (Inr r', s')"
      using 1(2) True unfolding r by (subst (asm) scan_from.simps) (auto simp: bindc_eq_Inr Let_def if_distribR cong: if_cong)
    note ro = read_only_session [OF 1(3) pr f u]
    have h1: "rw_hdr s1 = rw_hdr s" using fetch_handle_session(2) [OF 1(3) pr f] .
    define i where "i = next_bit True bitmap_off (data_of f s1) ?n j"
    have j: "- 1 \<le> j" "j < int ?n" using 1(5,6) r by simp_all
    show ?thesis
    proof (cases "i < ?n")
      case True
      then have "r' = Rid p (int i)" "s' = s2" using rest h1 by (simp_all add: i_def)
      with ro next_present_here [OF _ ro(5) neg i_def True j] pr(1) r show ?thesis by (simp add: rm_consts)
    next
      case False
      have sc: "scan_from fd (Rid (p + 1) (- 1)) npages s2 = (Inr r', s')" using rest h1 False by (simp add: i_def)
      have "rm_ok fd s' \<and> table fd s' = table fd s2 \<and> rw_hdr s' = rw_hdr s2 \<and> next_present (table fd s2) (Rid (p + 1) (- 1)) r'"
        by (rule 1(1) [OF True refl refl, where x = f and xa = s1, unfolded r rid.sel])
          (use False h1 sc ro(1,3) 1(4,7) j r in \<open>simp_all add: i_def\<close>)
      with ro next_present_later [of j "table fd s" p r'] page_scan(4) [OF i_def j False] neg j r show ?thesis by simp
    qed
  qed
qed

text \<open>
  The loop of a client, \<open>for (RmScan scan(\<dots>); !scan.is_end(); scan.next())\<close>, with a bound on
  its turns (\<open>None\<close> when the bound is used up).
\<close>

primrec scan_loop :: "nat \<Rightarrow> int \<Rightarrow> rid \<Rightarrow> (rm_world, rid list option) rcmd" where
  "scan_loop 0 fd r = ret None"
| "scan_loop (Suc k) fd r =
     (if scan_is_end r then ret (Some [])
      else bindc (scan_next fd r) (\<lambda>r'. bindc (scan_loop k fd r') (\<lambda>x. ret (map_option ((#) r) x))))"

definition from_on :: "rec_map \<Rightarrow> rid \<Rightarrow> rid set" where
  "from_on m r = (if scan_is_end r then {} else {x \<in> dom m. x = r \<or> rid_less r x})"

lemma finite_table: "finite (dom (table fd s))"
proof (rule finite_subset)
  let ?h = "rw_hdr s"
  show "dom (table fd s) \<subseteq> (\<lambda>(p, i). Rid p (int i)) ` ({1..<num_pages ?h} \<times> {..<num_records_per_page ?h})"
  proof
    fix r assume "r \<in> dom (table fd s)"
    then obtain x where "table fd s r = Some x" by auto
    then obtain p i where "r = Rid p (int i)" "RM_FIRST_RECORD_PAGE \<le> p" "p < num_pages ?h" "i < num_records_per_page ?h"
      by (rule table_present)
    then show "r \<in> (\<lambda>(p, i). Rid p (int i)) ` ({1..<num_pages ?h} \<times> {..<num_records_per_page ?h})"
      by (auto simp: rm_consts)
  qed
qed simp

lemma rid_less_trans: "rid_less a b \<Longrightarrow> rid_less b c \<Longrightarrow> rid_less a c"
  by (auto simp: rid_less_def)

lemma rid_less_linear: "a = b \<or> rid_less a b \<or> rid_less b a"
  by (cases a; cases b) (auto simp: rid_less_def)

lemma from_on_next:
  assumes n: "next_present m r r'" and r: "m r \<noteq> None" "\<not> scan_is_end r"
  shows "from_on m r = insert r (from_on m r')" "r \<notin> from_on m r'"
proof -
  have e: "\<not> rid_less a a" for a by (simp add: rid_less_def)
  show "from_on m r = insert r (from_on m r')"
  proof (cases "scan_is_end r'")
    case True
    then show ?thesis using n r by (auto simp: from_on_def next_present_def)
  next
    case False
    then have p: "m r' \<noteq> None" "rid_less r r'" "\<And>x. rid_less r x \<Longrightarrow> rid_less x r' \<Longrightarrow> m x = None"
      using n by (auto simp: next_present_def)
    have "rid_less r x \<and> x \<in> dom m \<longleftrightarrow> x \<in> dom m \<and> (x = r' \<or> rid_less r' x)" for x
      using p rid_less_linear [of x r'] rid_less_trans [of r r' x] by auto
    then show ?thesis using r False by (auto simp: from_on_def)
  qed
  show "r \<notin> from_on m r'"
    using n e rid_less_trans [of r r' r] by (auto simp: from_on_def next_present_def split: if_splits)
qed

lemma present_before_end: "table fd s r \<noteq> None \<Longrightarrow> \<not> scan_is_end r"
  using table_range [of fd s r] by (simp add: scan_is_end_def RM_NO_PAGE_def)

lemma scan_next_next:
  assumes "rm_ok fd s" and "scan_next fd r s = (Inr r', s')" and "table fd s r \<noteq> None"
  shows "rm_ok fd s' \<and> table fd s' = table fd s \<and> rw_hdr s' = rw_hdr s \<and> next_present (table fd s) r r'"
proof -
  obtain x where "table fd s r = Some x" using assms(3) by auto
  then obtain p i where "r = Rid p (int i)" "RM_FIRST_RECORD_PAGE \<le> p" "i < num_records_per_page (rw_hdr s)" by (rule table_present)
  then show ?thesis using scan_from_next [of fd r "num_pages (rw_hdr s)" s r' s'] assms by (simp add: scan_next_def rm_consts)
qed

lemma scan_loop_lists:
  "scan_loop k fd r s = (Inr x, s') \<Longrightarrow> rm_ok fd s \<Longrightarrow> scan_is_end r \<or> table fd s r \<noteq> None \<Longrightarrow>
   card (from_on (table fd s) r) < k \<Longrightarrow>
   \<exists>rids. x = Some rids \<and> set rids = from_on (table fd s) r \<and> sorted_wrt rid_less rids \<and> rm_ok fd s' \<and> table fd s' = table fd s"
proof (induction k arbitrary: r s x)
  case (Suc k)
  show ?case
  proof (cases "scan_is_end r")
    case True
    then show ?thesis using Suc.prems by (auto simp: from_on_def)
  next
    case False
    then have t: "table fd s r \<noteq> None" using Suc.prems(3) by simp
    obtain r1 s1 x1 where n: "scan_next fd r s = (Inr r1, s1)" and l: "scan_loop k fd r1 s1 = (Inr x1, s')"
      and x: "x = map_option ((#) r) x1"
      using Suc.prems(1) False by (auto simp: bindc_eq_Inr)
    note sn = scan_next_next [OF Suc.prems(2) n t]
    have np: "next_present (table fd s) r r1" using sn by blast
    note fo = from_on_next [OF np t False]
    have "finite (from_on (table fd s) r1)" using finite_table [of fd s] by (rule finite_subset [rotated]) (auto simp: from_on_def)
    then have "card (from_on (table fd s1) r1) < k" using Suc.prems(4) fo sn by simp
    moreover have "scan_is_end r1 \<or> table fd s1 r1 \<noteq> None" using sn by (auto simp: next_present_def split: if_splits)
    ultimately obtain rids where rids: "x1 = Some rids" "set rids = from_on (table fd s) r1" "sorted_wrt rid_less rids"
      "rm_ok fd s'" "table fd s' = table fd s"
      using Suc.IH [OF l] sn by auto
    have "\<forall>y \<in> set rids. rid_less r y"
      using np rids(2) rid_less_trans [of r r1] by (auto simp: next_present_def from_on_def split: if_splits)
    then show ?thesis using x rids fo by simp
  qed
qed simp

text \<open>
  Property C15. A scan visits every record of a table once, in the order of the record
  identifiers, ends, and leaves the table as it was: the client's loop needs no more turns
  than there are records and one for the end.
\<close>

theorem scan_lists_the_table:
  assumes k: "rm_ok fd s" and run: "bindc (RmScan fd) (scan_loop (Suc (card (dom (table fd s)))) fd) s = (Inr x, s')"
  shows "\<exists>rids. x = Some rids \<and> set rids = dom (table fd s) \<and> sorted_wrt rid_less rids \<and> rm_ok fd s' \<and> table fd s' = table fd s"
proof -
  obtain r s1 where sc: "scan_from fd (Rid 1 (- 1)) (num_pages (rw_hdr s)) s = (Inr r, s1)"
    and l: "scan_loop (Suc (card (dom (table fd s)))) fd r s1 = (Inr x, s')"
    using run unfolding bindc_eq_Inr by (auto simp: RmScan_def scan_next_def RM_FIRST_RECORD_PAGE_def)
  have "0 < num_records_per_page (rw_hdr s)" using k by (simp add: rm_ok_def file_ok_def hdr_ok_def)
  then have sf: "rm_ok fd s1" "table fd s1 = table fd s" "next_present (table fd s) (Rid 1 (- 1)) r"
    using scan_from_next [OF sc k] by simp_all
  have all: "rid_less (Rid 1 (- 1)) y" if "y \<in> dom (table fd s)" for y
    using that table_range [of fd s y] by (auto simp: rid_less_def)
  have fo: "from_on (table fd s) r = dom (table fd s)"
  proof (cases "scan_is_end r")
    case True
    then have "y \<notin> dom (table fd s)" for y using sf(3) all [of y] by (meson next_present_def domIff)
    with True show ?thesis by (auto simp: from_on_def)
  next
    case False
    have "y = r \<or> rid_less r y" if "y \<in> dom (table fd s)" for y
      using sf(3) False all [OF that] that rid_less_linear [of y r] by (auto simp: next_present_def)
    then show ?thesis using False by (auto simp: from_on_def)
  qed
  have "scan_is_end r \<or> table fd s1 r \<noteq> None" using sf(2,3) by (auto simp: next_present_def split: if_splits)
  from scan_loop_lists [OF l sf(1) this] fo sf(2) show ?thesis by simp
qed

text \<open>A page that can be fetched is scanned, and is in the pool afterwards.\<close>

lemma scan_page_returns:
  assumes k: "rm_ok fd s" and p: "RM_FIRST_RECORD_PAGE \<le> p" "p < num_pages (rw_hdr s)"
    and ft: "fetch_page (PageId fd p) (rw_bpm s) = (Inr (Some f), b)"
  obtains s2 where "rm_ok fd s2" "rw_hdr s2 = rw_hdr s" "table fd s2 = table fd s" "frame_of (rw_bpm s2) (PageId fd p) = Some f"
    "p_data (pages (rw_bpm s2) ! f) = p_data (pages b ! f)"
    "scan_from fd (Rid p j) n s =
       (if p < n then let i = next_bit True bitmap_off (p_data (pages b ! f)) (num_records_per_page (rw_hdr s)) j
          in if i < num_records_per_page (rw_hdr s) then (Inr (Rid p (int i)), s2) else scan_from fd (Rid (p + 1) (- 1)) n s2
        else (Inr (Rid RM_NO_PAGE (- 1)), s))"
proof -
  let ?s1 = "s\<lparr>rw_bpm := b\<rparr>"
  have n: "p \<noteq> INVALID_PAGE_ID" using p by (simp add: rm_consts INVALID_PAGE_ID_def)
  have f: "fetch_page_handle fd p s = (Inr f, ?s1)" by (rule fetch_handle_returns [OF ft n])
  obtain y s2 where u: "unpin_cmd (page_id_of f ?s1) False ?s1 = (Inr y, s2)" using unpin_cmd_returns by blast
  note ro = read_only_session [OF k p f u] and fs = fetch_handle_session [OF k p f]
  have pin: "pinned_at b (PageId fd p) f" using fs(1) by (simp add: session_def)
  obtain x c where c: "unpin_page (PageId fd p) False b = (x, c)" by fastforce
  have s2: "s2 = ?s1\<lparr>rw_bpm := c\<rparr>" using u c session_data(2) [OF fs(1)] by (simp add: unpin_cmd_def in_pool_run)
  have "page_table c = page_table b" "p_data (pages c ! f) = p_data (pages b ! f)"
    using c unpin_page_adjust [OF pool_ok_wf(1) [OF pinned_ok [OF pin]] pinned_frame(5) [OF pin], of False] pin pinned_frame(1) [OF pin]
    by (auto simp: adjust_def pinned_at_def)
  then have "frame_of (rw_bpm s2) (PageId fd p) = Some f" "p_data (pages (rw_bpm s2) ! f) = p_data (pages b ! f)"
    using s2 pinned_frame(5) [OF pin] by simp_all
  moreover have "scan_from fd (Rid p j) n s =
       (if p < n then let i = next_bit True bitmap_off (p_data (pages b ! f)) (num_records_per_page (rw_hdr s)) j
          in if i < num_records_per_page (rw_hdr s) then (Inr (Rid p (int i)), s2) else scan_from fd (Rid (p + 1) (- 1)) n s2
        else (Inr (Rid RM_NO_PAGE (- 1)), s))"
    by (subst scan_from.simps) (use f u in \<open>simp add: bindc_def Let_def data_of_def\<close>)
  ultimately show thesis using that ro(1,2,3) by blast
qed

lemma used_page_scan:
  "next_bit True bitmap_off used_page 8 (- 1) = 0" "next_bit True bitmap_off used_page 8 0 = 8"
  "table 0 (page_world demo_hdr used_page) = [Rid 1 0 \<mapsto> [7, 9]]"
proof -
  have n: "0 < num_records_per_page demo_hdr" "length [7, 9 :: byte] = record_size demo_hdr" "page_view demo_hdr demo_page 0 = None"
    "num_records_per_page demo_hdr = 8" using demo_blank(1) by (simp_all add: demo_hdr_def)
  have pv: "page_view demo_hdr used_page = [0 \<mapsto> [7, 9]]"
    using ins_page_ok(2) [OF demo_hdr_ok demo_blank(2) n(1,2,3)] demo_blank(1) by (simp add: used_page_def)
  have st: "is_set bitmap_off used_page i \<longleftrightarrow> i = 0" if "i < 8" for i
    using that page_view_dom [of demo_hdr used_page i] n(4) by (simp add: pv split: if_splits)
  from st [of 0] show "next_bit True bitmap_off used_page 8 (- 1) = 0" by (simp add: next_bit_def next_from.simps)
  have "next_from True bitmap_off used_page 8 1 = 8"
    using next_from_spec [of True bitmap_off used_page 8 1] st by (metis le_less less_one not_less one_le_numeral)
  then show "next_bit True bitmap_off used_page 8 0 = 8" by (simp add: next_bit_def)
  show "table 0 (page_world demo_hdr used_page) = [Rid 1 0 \<mapsto> [7, 9]]"
  proof
    fix r
    show "table 0 (page_world demo_hdr used_page) r = [Rid 1 0 \<mapsto> [7, 9]] r"
    proof (cases "table 0 (page_world demo_hdr used_page) r")
      case None
      then show ?thesis using used_page_ok(5) by auto
    next
      case (Some x)
      then obtain p i d where r: "r = Rid p (int i)" "RM_FIRST_RECORD_PAGE \<le> p" "p < num_pages demo_hdr"
        "contents (page_world demo_hdr used_page) (PageId 0 p) = Some d" "page_view demo_hdr d i = Some x"
        by (rule table_present) (auto simp: page_world_def)
      then have "p = 1" by (simp add: rm_consts demo_hdr_def)
      then have "d = used_page" using r(4) page_disk_page [OF used_page_ok(3)] by (simp add: page_world_content)
      with r(5) pv have "i = 0" "x = [7, 9]" by (auto split: if_splits)
      with Some r(1) \<open>p = 1\<close> show ?thesis by simp
    qed
  qed
qed

theorem scan_lists_the_table_witness:
  "\<exists>s' rids. bindc (RmScan 0) (scan_loop 2 0) (page_world demo_hdr used_page) = (Inr (Some rids), s') \<and> set rids = {Rid 1 0}"
proof -
  let ?w = "page_world demo_hdr used_page"
  have h: "rw_hdr ?w = demo_hdr" "num_pages demo_hdr = 2" "num_records_per_page demo_hdr = 8" "RM_FIRST_RECORD_PAGE \<le> 1"
    by (simp_all add: page_world_def demo_hdr_def rm_consts)
  obtain b where b: "fetch_page (PageId 0 1) (rw_bpm ?w) = (Inr (Some 0), b)"
    "pages b ! 0 = \<lparr>p_id = PageId 0 1, p_data = used_page, p_dirty = False, p_pin = 1\<rparr>"
    using used_page_ok(3) by (rule page_world_fetch)
  obtain s2 where s2: "rm_ok 0 s2" "rw_hdr s2 = demo_hdr" "frame_of (rw_bpm s2) (PageId 0 1) = Some 0" "p_data (pages (rw_bpm s2) ! 0) = used_page"
    and r1: "scan_from 0 (Rid 1 (- 1)) 2 ?w = (Inr (Rid 1 0), s2)"
    using scan_page_returns [OF used_page_ok(4) h(4) _ b(1), of "- 1" 2] h b(2) used_page_scan(1) by (auto simp: Let_def)
  have hit: "fetch_page (PageId 0 1) (rw_bpm s2) = (Inr (Some 0), pin_frame 0 (rw_bpm s2))" using s2(3) by (simp add: fetch_page_hit)
  have p2: "1 < num_pages (rw_hdr s2)" using s2(2) h(2) by simp
  have "bp_wf (rw_bpm s2)" using s2(1) by (simp add: rm_ok_def pool_ok_def bp_ok_def)
  then have "0 < length (pages (rw_bpm s2))" using bp_wf_mapped(1) bp_wf_basic(1) s2(3) by metis
  then have d2: "p_data (pages (pin_frame 0 (rw_bpm s2)) ! 0) = used_page" using s2(4) by (simp add: pin_frame_def upd_page_def)
  obtain s3 where r2: "scan_from 0 (Rid 1 0) 2 s2 = (Inr (Rid RM_NO_PAGE (- 1)), s3)"
    using scan_page_returns [OF s2(1) h(4) p2 hit, of 0 2] h d2 s2(2) used_page_scan(2)
    by (auto simp: Let_def scan_from.simps)
  have run: "bindc (RmScan 0) (scan_loop (Suc (card (dom (table 0 ?w)))) 0) ?w = (Inr (Some [Rid 1 0]), s3)"
    using r1 r2 h s2(2) used_page_scan(3)
    by (simp add: RmScan_def scan_next_def bindc_def RM_FIRST_RECORD_PAGE_def scan_is_end_def RM_NO_PAGE_def)
  from scan_lists_the_table [OF used_page_ok(4) run] run used_page_scan(3) show ?thesis by (auto simp: numeral_2_eq_2)
qed

end
