(* ===== verification/Partial_Commands.thy ===== *)
theory Partial_Commands
  imports Common
begin

text \<open>
  Commands that may also run forever, for code whose loops call operations the loop cannot
  see through: \<open>None\<close> is not returning. \<open>ends m w G Q\<close> says that the command comes to an end:
  with a result and a state that satisfy \<open>Q\<close>, or, only if \<open>G\<close> is false, with an exception. It is
  a weakest precondition and computes through sequences by the simplifier.
\<close>

type_synonym ('w, 'a) pcmd = "'w \<Rightarrow> ((rmdb_error + 'a) \<times> 'w) option"

definition pret :: "'a \<Rightarrow> ('w, 'a) pcmd" where
  "pret a w = Some (Inr a, w)"

definition pbind :: "('w, 'a) pcmd \<Rightarrow> ('a \<Rightarrow> ('w, 'b) pcmd) \<Rightarrow> ('w, 'b) pcmd" where
  "pbind m f w = Option.bind (m w) (\<lambda>(r, w'). case r of Inl e \<Rightarrow> Some (Inl e, w') | Inr a \<Rightarrow> f a w')"

text \<open>A command that always ends, and a result that may be an exception.\<close>

definition plift :: "('w, 'a) rcmd \<Rightarrow> ('w, 'a) pcmd" where
  "plift m w = Some (m w)"

definition pres :: "rmdb_error + 'a \<Rightarrow> ('w, 'a) pcmd" where
  "pres x w = Some (x, w)"

lemma pbind_mono [partial_function_mono]:
  assumes "monotone (fun_ord option_ord) option_ord (\<lambda>f. m f w)"
    and "\<And>a w'. monotone (fun_ord option_ord) option_ord (\<lambda>f. g a f w')"
  shows "monotone (fun_ord option_ord) option_ord (\<lambda>f. pbind (m f) (\<lambda>a. g a f) w)"
  unfolding pbind_def
proof (rule bind_mono [OF assms(1)])
  show "monotone (fun_ord option_ord) option_ord
      (\<lambda>f. case y of (r, w') \<Rightarrow> (case r of Inl e \<Rightarrow> Some (Inl e, w') | Inr a \<Rightarrow> g a f w'))" for y
    using assms(2) by (cases y; cases "fst y") (auto simp: option.const_mono)
qed

lemma if_apply_mono [partial_function_mono]:
  assumes "monotone (fun_ord option_ord) option_ord (\<lambda>f. a f w)" and "monotone (fun_ord option_ord) option_ord (\<lambda>f. b f w)"
  shows "monotone (fun_ord option_ord) option_ord (\<lambda>f. (if e then a f else b f) w)"
  using assms by (cases e) simp_all

lemma prod_apply_mono [partial_function_mono]:
  assumes "\<And>x y. monotone (fun_ord option_ord) option_ord (\<lambda>f. g x y f w)"
  shows "monotone (fun_ord option_ord) option_ord (\<lambda>f. (case p of (x, y) \<Rightarrow> g x y f) w)"
  using assms by (cases p) simp

text \<open>What a command ends with, and that it ends without an exception if \<open>G\<close> holds.\<close>

definition ends :: "('w, 'a) pcmd \<Rightarrow> 'w \<Rightarrow> bool \<Rightarrow> ('a \<Rightarrow> 'w \<Rightarrow> bool) \<Rightarrow> bool" where
  "ends m w G Q \<longleftrightarrow> (\<exists>r w'. m w = Some (r, w') \<and> (case r of Inl e \<Rightarrow> \<not> G | Inr a \<Rightarrow> Q a w'))"

lemma ends_simps [simp]:
  "ends (pret a) w G Q \<longleftrightarrow> Q a w"
  "ends (plift m) w G Q \<longleftrightarrow> (case m w of (Inl e, w') \<Rightarrow> \<not> G | (Inr a, w') \<Rightarrow> Q a w')"
  "ends (pres (Inr a)) w G Q \<longleftrightarrow> Q a w"
  "ends (pres (Inl e)) w G Q \<longleftrightarrow> \<not> G"
  by (auto simp: ends_def pret_def plift_def pres_def split: prod.split sum.splits)

lemma ends_pres: "ends (pres x) w G Q \<longleftrightarrow> (case x of Inl e \<Rightarrow> \<not> G | Inr a \<Rightarrow> Q a w)"
  by (cases x) simp_all

lemma ends_if [simp]: "ends (if e then a else b) w G Q \<longleftrightarrow> (if e then ends a w G Q else ends b w G Q)"
  by simp

lemma ends_bind [simp]: "ends (pbind m f) w G Q \<longleftrightarrow> ends m w G (\<lambda>a w'. ends (f a) w' G Q)"
proof (cases "m w")
  case (Some y)
  then obtain r w' where "m w = Some (r, w')" by (cases y) simp
  then show ?thesis by (cases r) (simp_all add: ends_def pbind_def)
qed (simp add: ends_def pbind_def)

lemma ends_mono: "ends m w G R \<Longrightarrow> (\<And>a w'. R a w' \<Longrightarrow> Q a w') \<Longrightarrow> ends m w G Q"
  unfolding ends_def by (metis (mono_tags, lifting) old.sum.simps(5,6) sum.exhaust)

lemma ends_pbind: "ends m w G R \<Longrightarrow> (\<And>a w'. R a w' \<Longrightarrow> ends (f a) w' G Q) \<Longrightarrow> ends (pbind m f) w G Q"
  by (auto intro: ends_mono)

lemma ends_plift_ok: "m w = (Inr a, w') \<Longrightarrow> Q a w' \<Longrightarrow> ends (plift m) w G Q"
  by simp

text \<open>Without an exception the command has a result.\<close>

lemma ends_True: "ends m w True Q \<longleftrightarrow> (\<exists>a w'. m w = Some (Inr a, w') \<and> Q a w')"
  unfolding ends_def by (metis (no_types, lifting) old.sum.simps(5,6) sum.exhaust)

lemma pbind_run [simp]:
  "pbind (pret a) f w = f a w" "pbind (pres (Inr b)) g w = g b w" "pbind (pres (Inl e)) g w = Some (Inl e, w)"
  by (simp_all add: pbind_def pret_def pres_def)

lemma pbind_pres: "pbind (pres (Inr b)) g = g b"
  by (rule ext) simp

end
