(* ===== verification/Table_Files.thy ===== *)
theory Table_Files
  imports Record_Manager Partial_Commands
begin

text \<open>
  Several open table files over one buffer pool and one lock table: what the file handles in
  \<open>fhs_\<close> of the system manager (\<open>src/src/system/sm_manager.h\<close>) share. Reading one table
  keeps all of them, and raises no exception when the pages of the table are in the pool and no
  other transaction has an exclusive lock on one of its records.
\<close>

section \<open>The open files\<close>

text \<open>The header each handle keeps, by the handle's file descriptor.\<close>

record files_world =
  fw_hdrs :: "int \<Rightarrow> RmFileHdr"
  fw_bpm :: bpm
  fw_locks :: lock_state

definition file_of :: "int \<Rightarrow> files_world \<Rightarrow> rm_world" where
  "file_of fd w = \<lparr>rw_hdr = fw_hdrs w fd, rw_bpm = fw_bpm w, rw_locks = fw_locks w\<rparr>"

text \<open>A call on the handle of a file.\<close>

definition on_file :: "int \<Rightarrow> (rm_world, 'a) rcmd \<Rightarrow> (files_world, 'a) rcmd" where
  "on_file fd = zoom (file_of fd)
     (\<lambda>s w. w\<lparr>fw_hdrs := (fw_hdrs w)(fd := rw_hdr s), fw_bpm := rw_bpm s, fw_locks := rw_locks s\<rparr>)"

lemma file_of_fields [simp]: "rw_hdr (file_of fd w) = fw_hdrs w fd" "rw_bpm (file_of fd w) = fw_bpm w" "rw_locks (file_of fd w) = fw_locks w"
  by (simp_all add: file_of_def)

lemma on_file_run:
  "on_file fd m w = (case m (file_of fd w) of (r, s) \<Rightarrow>
     (r, w\<lparr>fw_hdrs := (fw_hdrs w)(fd := rw_hdr s), fw_bpm := rw_bpm s, fw_locks := rw_locks s\<rparr>))"
  by (simp add: on_file_def zoom_def)

section \<open>Locks for reading\<close>

text \<open>The transaction may still read: no other one has locked a record of the file exclusively.\<close>

definition may_read :: "int \<Rightarrow> lock_state \<Rightarrow> bool" where
  "may_read fd l \<longleftrightarrow> table_ok (snd l) \<and> txn_state (fst l) \<noteq> SHRINKING \<and>
     (\<forall>r k. k \<noteq> txn_id (fst l) \<longrightarrow> held_mode (snd l) (record_lock_id fd r) k \<noteq> Some EXCLUSIVE)"

lemma may_read_grantable:
  assumes "table_ok tab" and "\<And>k. k \<noteq> tid \<Longrightarrow> held_mode tab (record_lock_id fd r) k \<noteq> Some EXCLUSIVE"
  shows "grantable SHARED tab (record_lock_id fd r) tid"
  unfolding grantable_def
proof (intro allI impI)
  fix k m assume k: "k \<noteq> tid" and m: "held_mode tab (record_lock_id fd r) k = Some m"
  let ?q = "queue_at tab (record_lock_id fd r)"
  have mo: "x = SHARED \<or> x = EXCLUSIVE" if "held_mode tab (record_lock_id fd r) j = Some x" for j x
    using assms(1) that own_request_Some [of j "request_queue ?q"]
    by (fastforce simp: table_ok_def held_mode_def record_lock_id_def)
  then have s: "m = SHARED" using assms(2) [OF k] m by auto
  have "wanted_mode SHARED tab (record_lock_id fd r) tid = SHARED"
  proof (cases "held_mode tab (record_lock_id fd r) tid")
    case (Some x)
    then have "x \<noteq> EXCLUSIVE" using holders_compatible [OF assms(1) _ m, of tid x] k s by auto
    with mo [OF Some] Some show ?thesis by (simp add: wanted_mode_def)
  qed (simp add: wanted_mode_def)
  with s show "compatible (wanted_mode SHARED tab (record_lock_id fd r) tid) m" by simp
qed

lemma lock_shared_reads:
  assumes run: "lock_shared_on_record r fd l = (x, l')"
  shows "may_read fd l \<Longrightarrow> \<not> isl x" "may_read fd' l \<Longrightarrow> may_read fd' l'"
proof -
  obtain t tab where l: "l = (t, tab)" by (cases l)
  obtain t' tab' where l': "l' = (t', tab')" by (cases l')
  have one: "(may_read fd l \<longrightarrow> \<not> isl x) \<and> (may_read fd' l \<longrightarrow> may_read fd' l')" if w: "table_ok tab" "txn_state t \<noteq> SHRINKING"
  proof (cases "growing t")
    case True
    with op_request_outcome(1) [OF w(1) op_request.simps(1) [of r fd], of t] run
    have "outcome SHARED tab (record_lock_id fd r) (t\<lparr>txn_state := GROWING\<rparr>) (x, (t', tab'))" by (simp add: l l')
    moreover have "may_read fd l \<Longrightarrow> grantable SHARED tab (record_lock_id fd r) (txn_id t)"
      by (rule may_read_grantable) (use w(1) in \<open>simp_all add: may_read_def l\<close>)
    ultimately show ?thesis
      by (auto simp: outcome_def may_read_def l l' lock_set_emplace_def fun_upd_def record_lock_id_def split: if_splits)
  next
    case False
    with w have "txn_state t = ABORTED \<or> txn_state t = COMMITTED" by (cases "txn_state t") auto
    with op_request_outcome(3) [OF w(1) op_request.simps(1) [of r fd], of t] run show ?thesis by (auto simp: l)
  qed
  then show "may_read fd l \<Longrightarrow> \<not> isl x" "may_read fd' l \<Longrightarrow> may_read fd' l'" by (auto simp: may_read_def l)
qed

section \<open>Reading one file\<close>

text \<open>The record pages of a file, and that they all are in the pool.\<close>

definition record_page :: "RmFileHdr \<Rightarrow> int \<Rightarrow> bool" where
  "record_page h p \<longleftrightarrow> RM_FIRST_RECORD_PAGE \<le> p \<and> p < num_pages h"

definition cached :: "int \<Rightarrow> rm_world \<Rightarrow> bool" where
  "cached fd s \<longleftrightarrow> (\<forall>p. record_page (rw_hdr s) p \<longrightarrow> frame_of (rw_bpm s) (PageId fd p) \<noteq> None)"

text \<open>
  What reading a file leaves: the contents of all pages, the caching of pages that are not record
  pages of the file, the caching of all pages if those of the file are cached, and the right to read.
\<close>

definition only_reads :: "int \<Rightarrow> rm_world \<Rightarrow> rm_world \<Rightarrow> bool" where
  "only_reads fd s s' \<longleftrightarrow> rw_hdr s' = rw_hdr s \<and> (pool_ok (rw_bpm s) \<longrightarrow> pool_ok (rw_bpm s')) \<and> contents s \<subseteq>\<^sub>m contents s' \<and>
     fd2pageno (bp_disk (rw_bpm s')) = fd2pageno (bp_disk (rw_bpm s)) \<and>
     (\<forall>q. \<not> (pid_fd q = fd \<and> record_page (rw_hdr s) (pid_page_no q)) \<longrightarrow> frame_of (rw_bpm s) q = None \<longrightarrow> frame_of (rw_bpm s') q = None) \<and>
     (cached fd s \<longrightarrow> page_table (rw_bpm s') = page_table (rw_bpm s)) \<and>
     (\<forall>fd'. may_read fd' (rw_locks s) \<longrightarrow> may_read fd' (rw_locks s'))"

lemma only_reads_trans: "only_reads fd s t \<Longrightarrow> only_reads fd t u \<Longrightarrow> only_reads fd s u"
  unfolding only_reads_def cached_def by (auto intro: map_le_trans)

lemma only_reads_refl: "only_reads fd s s"
  by (simp add: only_reads_def)

text \<open>So every table keeps its invariant and its records.\<close>

lemma only_reads_keeps:
  assumes r: "only_reads fd s s'" and k: "rm_ok fd' (s\<lparr>rw_hdr := h\<rparr>)" and h: "fd' = fd \<Longrightarrow> h = rw_hdr s"
  shows "rm_ok fd' (s'\<lparr>rw_hdr := h\<rparr>)" "table fd' (s'\<lparr>rw_hdr := h\<rparr>) = table fd' (s\<lparr>rw_hdr := h\<rparr>)"
proof -
  have k': "pool_ok (rw_bpm s)" "file_ok fd' h (contents s)" "frame_rules fd' (s\<lparr>rw_hdr := h\<rparr>)" using k by (simp_all add: rm_ok_def)
  have "contents s' (PageId fd' p) = Some x" if "contents s (PageId fd' p) = Some x" for p x
    using r that by (auto simp: only_reads_def dest: map_leD)
  then have e: "contents s' (PageId fd' p) = Some x" if "RM_FIRST_RECORD_PAGE \<le> p" "contents s (PageId fd' p) = Some x" for p x
    using that by blast
  note fm = file_ok_mono(1,2) [where C' = "contents s'", OF k'(2) e]
  show "table fd' (s'\<lparr>rw_hdr := h\<rparr>) = table fd' (s\<lparr>rw_hdr := h\<rparr>)" using fm(2) by (simp add: table_def)
  have "frame_of (rw_bpm s') (PageId fd' p) = None" if p: "p = RM_FILE_HDR_PAGE \<or> num_pages h \<le> p" for p
  proof -
    have "\<not> (fd' = fd \<and> record_page (rw_hdr s) p)" using h p by (auto simp: record_page_def rm_consts)
    moreover have "frame_of (rw_bpm s) (PageId fd' p) = None" using k'(3) p by (auto simp: frame_rules_def)
    ultimately show ?thesis using r by (simp add: only_reads_def)
  qed
  then have "frame_rules fd' (s'\<lparr>rw_hdr := h\<rparr>)" using k'(3) r by (simp add: frame_rules_def only_reads_def)
  with fm(1) k'(1) r show "rm_ok fd' (s'\<lparr>rw_hdr := h\<rparr>)" by (simp add: rm_ok_def only_reads_def)
qed

lemma fetch_only_reads:
  assumes k: "rm_ok fd s" and p: "record_page (rw_hdr s) p" and ft: "fetch_page_handle fd p s = (Inr f, s')"
  shows "only_reads fd s s'"
proof -
  note pr = p [unfolded record_page_def]
  have n: "p \<noteq> INVALID_PAGE_ID" using pr by (simp add: rm_consts INVALID_PAGE_ID_def)
  obtain b where b: "fetch_page (PageId fd p) (rw_bpm s) = (Inr (Some f), b)" "s' = s\<lparr>rw_bpm := b\<rparr>"
    using ft n by (auto simp: fetch_page_handle_def bindc_eq_Inr in_pool_run split: option.splits prod.splits)
  have "pool_ok (rw_bpm s)" using k by (simp add: rm_ok_def)
  note fs = fetch_session [OF this _ b(1)]
  have "page_table b = page_table (rw_bpm s)" if "frame_of (rw_bpm s) (PageId fd p) \<noteq> None"
    using that b(1) by (auto simp: fetch_page_hit pin_frame_def)
  moreover have "pool_ok b" using fs(1) n by (simp add: pinned_at_def)
  moreover have "frame_of b q = None" if "\<not> (pid_fd q = fd \<and> record_page (rw_hdr s) (pid_page_no q))" "frame_of (rw_bpm s) q = None" for q
    using fs(4) [of q] that n p by (cases q) auto
  ultimately show ?thesis using fs(2,3) n p b(2) by (auto simp: only_reads_def cached_def)
qed

lemma unpin_only_reads:
  assumes pin: "pinned_at (rw_bpm s) pid f" and u: "unpin_cmd pid dirty s = (r, s')"
    and cl: "p_pin (pages (rw_bpm s) ! f) = 1 \<Longrightarrow>
      dirty \<or> p_dirty (pages (rw_bpm s) ! f) \<or> page_at (rw_bpm s) pid = Some (p_data (pages (rw_bpm s) ! f))"
  shows "only_reads fd s s'"
proof -
  obtain x b where b: "unpin_page pid dirty (rw_bpm s) = (x, b)" by fastforce
  then have "s' = s\<lparr>rw_bpm := b\<rparr>" using u by (simp add: unpin_cmd_def in_pool_run)
  with unpin_session_any [OF pin b cl] show ?thesis by (simp add: only_reads_def)
qed

lemma locks_only_read:
  "lock_shared_on_record r fd (rw_locks s) = (x, l) \<Longrightarrow> only_reads fd' s (s\<lparr>rw_locks := l\<rparr>)"
  using lock_shared_reads(2) by (simp add: only_reads_def)

section \<open>The operations that read\<close>

lemma get_record_only_reads:
  assumes k: "rm_ok fd s" and t: "table fd s r = Some x" and g: "get_record fd r True s = (Inr bs, s')"
  shows "only_reads fd s s'"
proof -
  obtain p i d where r: "r = Rid p (int i)" "RM_FIRST_RECORD_PAGE \<le> p" "p < num_pages (rw_hdr s)" using t by (rule table_present)
  obtain l a where l: "lock_shared_on_record r fd (rw_locks s) = (Inr a, l)"
    using g by (auto simp: get_record_def bindc_eq_Inr in_locks_run split: prod.splits)
  let ?s1 = "s\<lparr>rw_locks := l\<rparr>"
  have k1: "rm_ok fd ?s1" "record_page (rw_hdr ?s1) p" "RM_FIRST_RECORD_PAGE \<le> p" "p < num_pages (rw_hdr ?s1)"
    using k r by (simp_all add: locks_irrelevant record_page_def)
  obtain f s2 y where f: "fetch_page_handle fd p ?s1 = (Inr f, s2)" and u: "unpin_cmd (PageId fd p) True s2 = (Inr y, s')"
    using g l r(1) by (auto simp: get_record_def bindc_eq_Inr in_locks_run Let_def split: prod.splits if_splits)
  have pin: "pinned_at (rw_bpm s2) (PageId fd p) f" using fetch_handle_session(1) [OF k1(1,3,4) f] by (simp add: session_def)
  have "only_reads fd s ?s1" using l by (rule locks_only_read)
  moreover have "only_reads fd ?s1 s2" by (rule fetch_only_reads [OF k1(1,2) f])
  moreover have "only_reads fd s2 s'" by (rule unpin_only_reads [OF pin u]) simp
  ultimately show ?thesis by (blast intro: only_reads_trans)
qed

lemma fetched_clean:
  assumes k: "rm_ok fd s" and p: "record_page (rw_hdr s) p" and ft: "fetch_page_handle fd p s = (Inr f, s1)"
  shows "pinned_at (rw_bpm s1) (PageId fd p) f" "page_id_of f s1 = PageId fd p"
    "p_pin (pages (rw_bpm s1) ! f) = 1 \<Longrightarrow>
      p_dirty (pages (rw_bpm s1) ! f) \<or> page_at (rw_bpm s1) (PageId fd p) = Some (p_data (pages (rw_bpm s1) ! f))"
proof -
  note pr = p [unfolded record_page_def, THEN conjunct1] p [unfolded record_page_def, THEN conjunct2]
  note fs = fetch_handle_session [OF k pr ft]
  show "pinned_at (rw_bpm s1) (PageId fd p) f" using fs(1) by (simp add: session_def)
  show "page_id_of f s1 = PageId fd p" by (rule session_data(2) [OF fs(1)])
  have n: "p \<noteq> INVALID_PAGE_ID" using pr by (simp add: rm_consts INVALID_PAGE_ID_def)
  obtain c where "fetch_page (PageId fd p) (rw_bpm s) = (Inr (Some f), c)" "s1 = s\<lparr>rw_bpm := c\<rparr>"
    using ft n by (auto simp: fetch_page_handle_def bindc_eq_Inr in_pool_run split: option.splits prod.splits)
  then have "fetch_page (PageId fd p) (rw_bpm s) = (Inr (Some f), rw_bpm s1)" by simp
  note cl = fetch_clean [OF pool_ok_wf this]
  have "pool_ok (rw_bpm s)" using k by (simp add: rm_ok_def)
  with cl show "p_pin (pages (rw_bpm s1) ! f) = 1 \<Longrightarrow>
      p_dirty (pages (rw_bpm s1) ! f) \<or> page_at (rw_bpm s1) (PageId fd p) = Some (p_data (pages (rw_bpm s1) ! f))" by simp
qed

text \<open>Visiting one page: fetching it and giving it back.\<close>

lemma visit_only_reads:
  assumes k: "rm_ok fd s" and p: "record_page (rw_hdr s) p" and ft: "fetch_page_handle fd p s = (Inr f, s1)"
    and u: "unpin_cmd (page_id_of f s1) False s1 = (y, s2)"
  shows "only_reads fd s s2" "rm_ok fd s2" "rw_hdr s2 = rw_hdr s"
proof -
  note fc = fetched_clean [OF k p ft]
  have "only_reads fd s1 s2" by (rule unpin_only_reads [OF fc(1) u [unfolded fc(2)]]) (use fc(3) in simp)
  with fetch_only_reads [OF k p ft] show r: "only_reads fd s s2" by (rule only_reads_trans)
  show "rw_hdr s2 = rw_hdr s" using r by (simp add: only_reads_def)
  with only_reads_keeps(1) [OF r, of fd "rw_hdr s"] k show "rm_ok fd s2" by (metis rm_world.surjective rm_world.update_convs(1))
qed

lemma scan_from_only_reads:
  "scan_from fd r npages s = (Inr r', s') \<Longrightarrow> rm_ok fd s \<Longrightarrow> RM_FIRST_RECORD_PAGE \<le> rid_page_no r \<Longrightarrow>
   npages = num_pages (rw_hdr s) \<Longrightarrow> only_reads fd s s'"
proof (induction fd r npages s rule: scan_from.induct)
  case (1 fd r npages s)
  show ?case
  proof (cases "rid_page_no r < npages")
    case False
    with 1(2) show ?thesis by (simp add: scan_from.simps [of fd r] only_reads_refl)
  next
    case True
    let ?p = "rid_page_no r" and ?j = "rid_slot_no r"
    have p: "record_page (rw_hdr s) ?p" using True 1(4,5) by (simp add: record_page_def)
    obtain f s1 y s2 where f: "fetch_page_handle fd ?p s = (Inr f, s1)" and u: "unpin_cmd (page_id_of f s1) False s1 = (Inr y, s2)"
      and rest: "(if next_bit True bitmap_off (data_of f s1) (num_records_per_page (rw_hdr s1)) ?j < num_records_per_page (rw_hdr s1)
        then ret (Rid ?p (int (next_bit True bitmap_off (data_of f s1) (num_records_per_page (rw_hdr s1)) ?j)))
        else scan_from fd (Rid (?p + 1) (- 1)) npages) s2 = (Inr r', s')"
      using 1(2) True by (subst (asm) scan_from.simps) (auto simp: bindc_eq_Inr Let_def if_distribR cong: if_cong)
    note v = visit_only_reads [OF 1(3) p f u]
    show ?thesis
    proof (cases "next_bit True bitmap_off (data_of f s1) (num_records_per_page (rw_hdr s1)) ?j < num_records_per_page (rw_hdr s1)")
      case True
      with rest v(1) show ?thesis by simp
    next
      case False
      with rest have sc: "scan_from fd (Rid (?p + 1) (- 1)) npages s2 = (Inr r', s')" by simp
      have "only_reads fd s2 s'"
        by (rule 1(1) [OF True refl refl, where x = f and xa = s1]) (use False sc v 1(4,5) in simp_all)
      with v(1) show ?thesis by (rule only_reads_trans)
    qed
  qed
qed

section \<open>When they return\<close>

lemma fetch_handle_cached:
  assumes "cached fd s" and "record_page (rw_hdr s) p"
  shows "\<exists>f s'. fetch_page_handle fd p s = (Inr f, s')"
proof -
  obtain f where "frame_of (rw_bpm s) (PageId fd p) = Some f" using assms by (auto simp: cached_def)
  then have "fetch_page (PageId fd p) (rw_bpm s) = (Inr (Some f), pin_frame f (rw_bpm s))" by (simp add: fetch_page_hit)
  moreover have "p \<noteq> INVALID_PAGE_ID" using assms(2) by (simp add: record_page_def rm_consts INVALID_PAGE_ID_def)
  ultimately show ?thesis using fetch_handle_returns by blast
qed

lemma cached_only_reads: "only_reads fd s s' \<Longrightarrow> cached fd s \<Longrightarrow> cached fd' (s\<lparr>rw_hdr := h\<rparr>) \<Longrightarrow> cached fd' (s'\<lparr>rw_hdr := h\<rparr>)"
  by (simp add: only_reads_def cached_def)

lemma get_record_cached:
  assumes k: "rm_ok fd s" and t: "table fd s r = Some x" and c: "cached fd s" and l: "may_read fd (rw_locks s)"
  shows "\<exists>s'. get_record fd r True s = (Inr x, s')"
proof -
  obtain p i d where r: "r = Rid p (int i)" "RM_FIRST_RECORD_PAGE \<le> p" "p < num_pages (rw_hdr s)" using t by (rule table_present)
  obtain y lt where ly: "lock_shared_on_record r fd (rw_locks s) = (y, lt)" by (metis prod.exhaust)
  then obtain a where a: "lock_shared_on_record r fd (rw_locks s) = (Inr a, lt)" using lock_shared_reads(1) [OF ly l] by (cases y) auto
  let ?s1 = "s\<lparr>rw_locks := lt\<rparr>"
  have "cached fd ?s1" "record_page (rw_hdr ?s1) p" using c r by (simp_all add: cached_def record_page_def)
  then obtain f s2 where f: "fetch_page_handle fd p ?s1 = (Inr f, s2)" using fetch_handle_cached by blast
  have h: "rw_hdr s2 = rw_hdr s"
    using fetch_handle_session(2) [OF _ _ _ f] k r by (simp add: locks_irrelevant)
  obtain z s' where "unpin_cmd (PageId fd p) True s2 = (Inr z, s')" using unpin_cmd_returns by blast
  then obtain bs where g: "get_record fd r True s = (Inr bs, s')"
    using a f r(1) h present_slot(1) [OF k t] by (simp add: get_record_def bindc_def in_locks_run Let_def)
  with get_record_effect(1) [OF k t g] show ?thesis by blast
qed

lemma scan_from_cached:
  "rm_ok fd s \<Longrightarrow> cached fd s \<Longrightarrow> RM_FIRST_RECORD_PAGE \<le> rid_page_no r \<Longrightarrow> npages = num_pages (rw_hdr s) \<Longrightarrow>
   \<exists>r' s'. scan_from fd r npages s = (Inr r', s')"
proof (induction fd r npages s rule: scan_from.induct)
  case (1 fd r npages s)
  show ?case
  proof (cases "rid_page_no r < npages")
    case False
    then show ?thesis by (simp add: scan_from.simps)
  next
    case True
    let ?p = "rid_page_no r"
    have p: "record_page (rw_hdr s) ?p" using True 1(4,5) by (simp add: record_page_def)
    obtain f s1 where f: "fetch_page_handle fd ?p s = (Inr f, s1)" using fetch_handle_cached [OF 1(3) p] by blast
    obtain y s2 where u: "unpin_cmd (page_id_of f s1) False s1 = (Inr y, s2)" using unpin_cmd_returns by blast
    note v = visit_only_reads [OF 1(2) p f u]
    let ?i = "next_bit True bitmap_off (data_of f s1) (num_records_per_page (rw_hdr s1)) (rid_slot_no r)"
    have "cached fd s2" using cached_only_reads [OF v(1) 1(3), of fd "rw_hdr s"] 1(3) v(3)
      by (simp add: cached_def)
    then have "\<exists>r' s'. scan_from fd (Rid (?p + 1) (- 1)) npages s2 = (Inr r', s')" if "\<not> ?i < num_records_per_page (rw_hdr s1)"
      by (intro 1(1) [OF True refl refl, where x = f and xa = s1]) (use that v 1(4,5) in simp_all)
    then show ?thesis using True f u by (subst scan_from.simps) (simp add: bindc_def Let_def)
  qed
qed

section \<open>Reading with several files open\<close>

abbreviation tbl :: "int \<Rightarrow> files_world \<Rightarrow> rec_map" where
  "tbl fd w \<equiv> table fd (file_of fd w)"

text \<open>A table that can be read without an exception.\<close>

definition ready :: "int \<Rightarrow> files_world \<Rightarrow> bool" where
  "ready fd w \<longleftrightarrow> cached fd (file_of fd w) \<and> may_read fd (fw_locks w)"

text \<open>The files \<open>F\<close> are in order and hold the tables \<open>tabs\<close>; if \<open>G\<close> holds they can be read.\<close>

definition files_ok :: "bool \<Rightarrow> (int \<Rightarrow> rec_map) \<Rightarrow> int set \<Rightarrow> files_world \<Rightarrow> bool" where
  "files_ok G tabs F w \<longleftrightarrow> (\<forall>fd \<in> F. rm_ok fd (file_of fd w) \<and> tbl fd w = tabs fd \<and> (G \<longrightarrow> ready fd w))"

lemma files_okD: "files_ok G tabs F w \<Longrightarrow> fd \<in> F \<Longrightarrow> rm_ok fd (file_of fd w)" "files_ok G tabs F w \<Longrightarrow> fd \<in> F \<Longrightarrow> tbl fd w = tabs fd"
  "files_ok G tabs F w \<Longrightarrow> fd \<in> F \<Longrightarrow> G \<Longrightarrow> cached fd (file_of fd w)" "files_ok G tabs F w \<Longrightarrow> fd \<in> F \<Longrightarrow> G \<Longrightarrow> may_read fd (fw_locks w)"
  by (simp_all add: files_ok_def ready_def)

lemma files_ok_reads:
  assumes k: "files_ok G tabs F w" "fd \<in> F" and r: "only_reads fd (file_of fd w) s"
  shows "files_ok G tabs F (w\<lparr>fw_hdrs := (fw_hdrs w)(fd := rw_hdr s), fw_bpm := rw_bpm s, fw_locks := rw_locks s\<rparr>)"
  (is "files_ok _ _ _ ?w")
  unfolding files_ok_def
proof (intro ballI conjI impI)
  fix fd' assume f: "fd' \<in> F"
  let ?h = "fw_hdrs w fd'"
  have "rw_hdr s = fw_hdrs w fd" using r by (simp add: only_reads_def)
  then have new: "file_of fd' ?w = s\<lparr>rw_hdr := ?h\<rparr>" by (cases s) (simp add: file_of_def)
  have old: "file_of fd' w = (file_of fd w)\<lparr>rw_hdr := ?h\<rparr>" by (simp add: file_of_def)
  note kp = only_reads_keeps [OF r, of fd' ?h, folded old new]
  show "rm_ok fd' (file_of fd' ?w)" "tbl fd' ?w = tabs fd'" using kp files_okD(1,2) [OF k(1) f] by simp_all
  assume G: G
  have "cached fd' (file_of fd' ?w)"
    using cached_only_reads [OF r files_okD(3) [OF k G], of fd' ?h] files_okD(3) [OF k(1) f G] unfolding old new by simp
  moreover have "may_read fd' (rw_locks s)" using r files_okD(4) [OF k(1) f G] by (simp add: only_reads_def)
  ultimately show "ready fd' ?w" by (simp add: ready_def)
qed

lemma ends_on_file:
  assumes k: "files_ok G tabs F w" "fd \<in> F"
    and run: "\<And>a s. m (file_of fd w) = (Inr a, s) \<Longrightarrow> only_reads fd (file_of fd w) s \<and> P a"
    and ret: "G \<Longrightarrow> \<exists>a s. m (file_of fd w) = (Inr a, s)"
  shows "ends (plift (on_file fd m)) w G (\<lambda>a w'. files_ok G tabs F w' \<and> P a)"
proof -
  obtain r s where m: "m (file_of fd w) = (r, s)" by fastforce
  show ?thesis
  proof (cases r)
    case (Inl e)
    then show ?thesis using ret m by (auto simp: on_file_run)
  next
    case (Inr a)
    then show ?thesis using run [of a s] files_ok_reads [OF k, of s] m by (simp add: on_file_run)
  qed
qed

end
