(* ===== verification/Values.thy ===== *)
theory Values
  imports Common
begin

text \<open>
  Values and their comparison, \<open>src/src/common/common.h\<close>. The union of a \<open>Value\<close> is its
  eight bytes, so that reading another member than the one stored is what it is in C++. A
  float is the bit pattern of its 32 bits, compared and rounded as IEEE 754 says. Strings are
  byte lists; \<open>strcmp\<close> sees them up to their first zero byte. The lemmas relate \<open>binop\<close> to the
  order of the numbers and strings, and \<open>init_raw\<close> to \<open>load_raw\<close>.
\<close>

section \<open>Single-precision floats\<close>

type_synonym float32 = nat

definition float_nan :: "float32 \<Rightarrow> bool" where
  "float_nan b \<longleftrightarrow> 255 * 2 ^ 23 < b mod 2 ^ 31"

text \<open>The magnitude, in units of the smallest positive float; infinity comes out above all finite ones.\<close>

definition float_mag :: "nat \<Rightarrow> nat" where
  "float_mag b = (let e = b div 2 ^ 23; m = b mod 2 ^ 23 in if e = 0 then m else (m + 2 ^ 23) * 2 ^ (e - 1))"

definition float_key :: "float32 \<Rightarrow> int" where
  "float_key b = (let k = int (float_mag (b mod 2 ^ 31)) in if b < 2 ^ 31 then k else - k)"

definition float_lt :: "float32 \<Rightarrow> float32 \<Rightarrow> bool" where
  "float_lt a b \<longleftrightarrow> \<not> float_nan a \<and> \<not> float_nan b \<and> float_key a < float_key b"

definition float_eq :: "float32 \<Rightarrow> float32 \<Rightarrow> bool" where
  "float_eq a b \<longleftrightarrow> \<not> float_nan a \<and> \<not> float_nan b \<and> float_key a = float_key b"

text \<open>Rounding to the nearest float, ties to even, from a number of units; overflow gives infinity.\<close>

fun bit_len :: "nat \<Rightarrow> nat" where
  "bit_len n = (if n = 0 then 0 else Suc (bit_len (n div 2)))"

declare bit_len.simps [simp del]

definition float_round :: "nat \<Rightarrow> nat" where
  "float_round n =
     (let s = bit_len n - 24; q = n div 2 ^ s; r = n mod 2 ^ s;
          up = (2 ^ s < 2 * r \<or> 2 ^ s = 2 * r \<and> odd q)
      in min (s * 2 ^ 23 + (if up then q + 1 else q)) (255 * 2 ^ 23))"

definition float_of_units :: "int \<Rightarrow> float32" where
  "float_of_units k = (if 0 \<le> k then float_round (nat k) else 2 ^ 31 + float_round (nat (- k)))"

definition float_of_int :: "int \<Rightarrow> float32" where
  "float_of_int i = float_of_units (i * 2 ^ 149)"

lemma bit_len_bounds: "0 < n \<Longrightarrow> 2 ^ (bit_len n - 1) \<le> n \<and> n < 2 ^ bit_len n \<and> 0 < bit_len n"
proof (induction n rule: bit_len.induct)
  case (1 n)
  show ?case
  proof (cases "n div 2 = 0")
    case True
    with 1 have "n = 1" by simp
    then show ?thesis by (simp add: bit_len.simps)
  next
    case False
    with 1 have "2 ^ (bit_len (n div 2) - 1) \<le> n div 2" "n div 2 < 2 ^ bit_len (n div 2)" "0 < bit_len (n div 2)" by simp_all
    moreover have "bit_len n = Suc (bit_len (n div 2))" using 1(2) by (subst bit_len.simps) simp
    ultimately show ?thesis by (cases "bit_len (n div 2)") auto
  qed
qed

lemma bit_len_unique: "2 ^ k \<le> n \<Longrightarrow> n < 2 ^ Suc k \<Longrightarrow> bit_len n = Suc k"
proof -
  assume a: "2 ^ k \<le> n" "n < 2 ^ Suc k"
  then have p: "0 < n" using less_le_trans [of 0 "2 ^ k" n] by simp
  note b = bit_len_bounds [OF p]
  have "k < bit_len n" using a(1) b by (metis le_less_trans power_less_imp_less_exp one_less_numeral_iff semiring_norm(76))
  moreover have "bit_len n - 1 < Suc k" using a(2) b by (metis le_less_trans power_less_imp_less_exp one_less_numeral_iff semiring_norm(76))
  ultimately show ?thesis using b by linarith
qed

text \<open>A number of at most 24 significant bits is a float.\<close>

lemma float_round_exact:
  assumes q: "2 ^ 23 \<le> q" "q < 2 ^ 24" and s: "s < 254"
  shows "float_round (q * 2 ^ s) = s * 2 ^ 23 + q" "float_mag (float_round (q * 2 ^ s)) = q * 2 ^ s"
    "float_round (q * 2 ^ s) < 255 * 2 ^ 23"
proof -
  have "2 ^ (23 + s) \<le> q * 2 ^ s" "q * 2 ^ s < 2 ^ Suc (23 + s)"
    using q by (simp_all add: power_add)
  then have b: "bit_len (q * 2 ^ s) - 24 = s" using bit_len_unique by fastforce
  have "s * 2 ^ 23 + q < 255 * 2 ^ 23" using s q by simp
  then show r: "float_round (q * 2 ^ s) = s * 2 ^ 23 + q" "float_round (q * 2 ^ s) < 255 * 2 ^ 23"
    by (simp_all add: float_round_def Let_def b)
  have d: "(s * 2 ^ 23 + q) div 2 ^ 23 = s + 1" "(s * 2 ^ 23 + q) mod 2 ^ 23 = q - 2 ^ 23"
  proof -
    have e: "s * 2 ^ 23 + q = (q - 2 ^ 23) + (s + 1) * 2 ^ 23" using q(1) by simp
    have l: "q - 2 ^ 23 < 2 ^ 23" using q by simp
    show "(s * 2 ^ 23 + q) div 2 ^ 23 = s + 1" unfolding e using l by (subst div_mult_self1) simp_all
    show "(s * 2 ^ 23 + q) mod 2 ^ 23 = q - 2 ^ 23" unfolding e using l by (subst mod_mult_self1) simp
  qed
  show "float_mag (float_round (q * 2 ^ s)) = q * 2 ^ s" unfolding r float_mag_def Let_def d using q(1) by simp
qed

lemma float_round_small:
  assumes "n < 2 ^ 24"
  shows "float_mag (float_round (n * 2 ^ 149)) = n * 2 ^ 149" "float_round (n * 2 ^ 149) < 255 * 2 ^ 23"
proof -
  have "float_mag (float_round (n * 2 ^ 149)) = n * 2 ^ 149 \<and> float_round (n * 2 ^ 149) < 255 * 2 ^ 23"
  proof (cases "n = 0")
    case True
    then show ?thesis by (simp add: float_round_def float_mag_def bit_len.simps)
  next
    case False
    define k where "k = bit_len n"
    have b: "2 ^ (k - 1) \<le> n" "n < 2 ^ k" "0 < k" using bit_len_bounds [of n] False by (simp_all add: k_def)
    have "(2::nat) ^ (k - 1) < 2 ^ 24" using b(1) assms by (rule le_less_trans)
    then have k: "k - 1 < 24" by (rule power_less_imp_less_exp [rotated]) simp
    then have k24: "k \<le> 24" by simp
    have le: "2 ^ (k - 1) * 2 ^ (24 - k) \<le> n * 2 ^ (24 - k)" "n * 2 ^ (24 - k) < 2 ^ k * 2 ^ (24 - k)" using b by simp_all
    have pw: "(2::nat) ^ (k - 1) * 2 ^ (24 - k) = 2 ^ 23" "(2::nat) ^ k * 2 ^ (24 - k) = 2 ^ 24"
      using b(3) k24 by (simp_all flip: power_add)
    have q: "2 ^ 23 \<le> n * 2 ^ (24 - k)" "n * 2 ^ (24 - k) < 2 ^ 24" using le unfolding pw .
    have "n * 2 ^ (24 - k) * 2 ^ (125 + k) = n * (2 ^ (24 - k) * 2 ^ (125 + k))" by (simp only: mult.assoc)
    also have "\<dots> = n * 2 ^ 149" using k24 by (simp flip: power_add)
    finally have e: "n * 2 ^ 149 = n * 2 ^ (24 - k) * 2 ^ (125 + k)" by simp
    have "125 + k < 254" using k24 by simp
    from float_round_exact(2,3) [OF q this] show ?thesis unfolding e by simp
  qed
  then show "float_mag (float_round (n * 2 ^ 149)) = n * 2 ^ 149" "float_round (n * 2 ^ 149) < 255 * 2 ^ 23" by simp_all
qed

lemma float_of_int_exact:
  assumes "\<bar>i\<bar> < 2 ^ 24"
  shows "float_key (float_of_int i) = i * 2 ^ 149" "\<not> float_nan (float_of_int i)"
proof -
  define n where "n = nat \<bar>i\<bar>"
  have "n < 2 ^ 24" using assms by (simp add: n_def nat_less_iff)
  note fr = float_round_small [OF this]
  have m: "nat (\<bar>i\<bar> * 2 ^ 149) = n * 2 ^ 149" by (simp add: n_def nat_mult_distrib)
  have lt: "float_round (n * 2 ^ 149) < 2 ^ 31" using fr(2) by simp
  have key: "int (n * 2 ^ 149) = \<bar>i\<bar> * 2 ^ 149" by (simp add: n_def)
  show "float_key (float_of_int i) = i * 2 ^ 149"
  proof (cases "0 \<le> i")
    case True
    then have "float_of_int i = float_round (n * 2 ^ 149)" using m by (simp add: float_of_int_def float_of_units_def)
    then show ?thesis using lt fr(1) key True by (simp add: float_key_def Let_def)
  next
    case False
    then have "float_of_int i = 2 ^ 31 + float_round (n * 2 ^ 149)"
      using m by (simp add: float_of_int_def float_of_units_def mult_less_0_iff)
    moreover have "(2 ^ 31 + float_round (n * 2 ^ 149)) mod 2 ^ 31 = float_round (n * 2 ^ 149)" using lt by (metis mod_add_self1 mod_less)
    ultimately show ?thesis using fr(1) key False by (simp add: float_key_def Let_def del: of_nat_mult of_nat_power)
  qed
  have "float_of_int i mod 2 ^ 31 = float_round (n * 2 ^ 149)"
  proof (cases "0 \<le> i")
    case True
    then have "float_of_int i = float_round (n * 2 ^ 149)" using m by (simp add: float_of_int_def float_of_units_def)
    then show ?thesis using lt by simp
  next
    case False
    then have "float_of_int i = 2 ^ 31 + float_round (n * 2 ^ 149)"
      using m by (simp add: float_of_int_def float_of_units_def mult_less_0_iff)
    then show ?thesis using lt by (metis mod_add_self1 mod_less)
  qed
  then show "\<not> float_nan (float_of_int i)" using fr(2) by (simp add: float_nan_def)
qed

section \<open>Values\<close>

datatype TabCol = TabCol (tc_tab_name: string) (tc_col_name: string)

record Value =
  v_type :: ColType
  v_union :: "byte list"
  v_datetime :: "byte list"
  v_str :: "byte list"
  v_raw :: "byte list option"

definition int_val :: "Value \<Rightarrow> int" where "int_val v = get_int (take 4 (v_union v))"
definition bigint_val :: "Value \<Rightarrow> int" where "bigint_val v = get_int (v_union v)"
definition float_val :: "Value \<Rightarrow> float32" where "float_val v = le_val (take 4 (v_union v))"

text \<open>A value just declared: its number is indeterminate, here zero.\<close>

definition new_Value :: "ColType \<Rightarrow> Value" where
  "new_Value t = \<lparr>v_type = t, v_union = replicate 8 0, v_datetime = [], v_str = [], v_raw = None\<rparr>"

definition put_low :: "byte list \<Rightarrow> Value \<Rightarrow> Value" where
  "put_low bs v = v\<lparr>v_union := bs @ drop (length bs) (v_union v)\<rparr>"

definition set_int :: "int \<Rightarrow> Value \<Rightarrow> Value" where
  "set_int i v = put_low (put_int 4 i) (v\<lparr>v_type := TYPE_INT\<rparr>)"

definition set_bigint :: "int \<Rightarrow> Value \<Rightarrow> Value" where
  "set_bigint i v = put_low (put_int 8 i) (v\<lparr>v_type := TYPE_BIGINT\<rparr>)"

definition set_float :: "float32 \<Rightarrow> Value \<Rightarrow> Value" where
  "set_float b v = put_low (le_bytes 4 b) (v\<lparr>v_type := TYPE_FLOAT\<rparr>)"

definition set_str :: "byte list \<Rightarrow> Value \<Rightarrow> Value" where
  "set_str s v = v\<lparr>v_type := TYPE_STRING, v_str := s\<rparr>"

definition set_datetime :: "byte list \<Rightarrow> Value \<Rightarrow> Value" where
  "set_datetime s v = v\<lparr>v_type := TYPE_DATETIME, v_datetime := s\<rparr>"

text \<open>A write at the start of the raw buffer; past its end it is undefined behaviour.\<close>

definition poke :: "byte list \<Rightarrow> byte list \<Rightarrow> rmdb_error + byte list" where
  "poke bs raw = (if length bs \<le> length raw then Inr (write_at 0 bs raw) else Inl (UndefinedBehaviour ''raw->data''))"

definition ebind :: "('e + 'a) \<Rightarrow> ('a \<Rightarrow> 'e + 'b) \<Rightarrow> 'e + 'b" where
  "ebind x f = (case x of Inl e \<Rightarrow> Inl e | Inr a \<Rightarrow> f a)"

lemma ebind_simps [simp]: "ebind (Inr a) f = f a" "ebind (Inl e) f = Inl e"
  by (simp_all add: ebind_def)

lemma ebind_eq_Inr: "ebind x f = Inr b \<longleftrightarrow> (\<exists>a. x = Inr a \<and> f a = Inr b)"
  by (cases x) simp_all

text \<open>
  The buffer made for a value is not initialised. All of it is written, but for an integer in
  more than eight bytes, where indeterminate bytes would remain: this is an error value.
\<close>

definition init_raw :: "nat \<Rightarrow> Value \<Rightarrow> rmdb_error + Value" where
  "init_raw len v =
     (let raw = (case v_raw v of None \<Rightarrow> replicate len 0 | Some r \<Rightarrow> r) in
      ebind (case v_type v of
          TYPE_INT \<Rightarrow>
            (if len < 4 then Inl (AssertionFailure ''len >= sizeof(int)'')
             else if len = 4 then poke (put_int 4 (int_val v)) raw
             else if v_raw v = None \<and> 8 < len then Inl (UndefinedBehaviour ''uninitialised raw->data'')
             else poke (put_int 8 (int_val v)) raw)
        | TYPE_BIGINT \<Rightarrow>
            (if len \<noteq> 8 then Inl (AssertionFailure ''len == sizeof(int64_t)'') else poke (put_int 8 (bigint_val v)) raw)
        | TYPE_FLOAT \<Rightarrow>
            (if len \<noteq> 4 then Inl (AssertionFailure ''len == sizeof(float)'') else poke (le_bytes 4 (float_val v)) raw)
        | TYPE_DATETIME \<Rightarrow>
            (if len < length (v_str v) then Inl StringOverflowError
             else ebind (poke (replicate len 0) raw) (poke (v_datetime v)))
        | TYPE_STRING \<Rightarrow>
            (if len < length (v_str v) then Inl StringOverflowError
             else ebind (poke (replicate len 0) raw) (poke (v_str v))))
        (\<lambda>r. Inr (v\<lparr>v_raw := Some r\<rparr>)))"

text \<open>\<open>data\<close>: the bytes from the pointer on; reading past them is undefined behaviour.\<close>

definition peek :: "nat \<Rightarrow> byte list \<Rightarrow> 'a \<Rightarrow> rmdb_error + 'a" where
  "peek len data a = (if length data < len then Inl (UndefinedBehaviour ''data'') else Inr a)"

definition load_raw :: "nat \<Rightarrow> byte list \<Rightarrow> Value \<Rightarrow> rmdb_error + Value" where
  "load_raw len data v =
     (if v_raw v \<noteq> None then Inl (AssertionFailure ''raw == nullptr'')
      else case v_type v of
          TYPE_INT \<Rightarrow> (if len \<noteq> 4 then Inl (AssertionFailure ''len == sizeof(int)'') else peek 4 data (put_low (take 4 data) v))
        | TYPE_BIGINT \<Rightarrow>
            (if len \<noteq> 8 then Inl (AssertionFailure ''len == sizeof(int64_t)'') else peek 8 data (put_low (take 8 data) v))
        | TYPE_FLOAT \<Rightarrow> (if len \<noteq> 4 then Inl (AssertionFailure ''len == sizeof(float)'') else peek 4 data (put_low (take 4 data) v))
        | TYPE_DATETIME \<Rightarrow>
            (if len < length (v_str v) then Inl StringOverflowError else peek len data (v\<lparr>v_datetime := take len data\<rparr>))
        | TYPE_STRING \<Rightarrow> (if len < length (v_str v) then Inl StringOverflowError else peek len data (v\<lparr>v_str := take len data\<rparr>)))"

section \<open>Comparison\<close>

datatype CompOp = OP_EQ | OP_NE | OP_LT | OP_GT | OP_LE | OP_GE

record Condition =
  lhs_col :: TabCol
  c_op :: CompOp
  is_rhs_val :: bool
  rhs_col :: TabCol
  rhs_val :: Value

record SetClause =
  sc_lhs :: TabCol
  sc_rhs :: Value
  is_selfadd :: bool

definition legal_binop :: "ColType list list" where
  "legal_binop =
     [[TYPE_INT, TYPE_BIGINT, TYPE_FLOAT], [TYPE_INT, TYPE_BIGINT, TYPE_FLOAT], [TYPE_INT, TYPE_BIGINT, TYPE_FLOAT],
      [TYPE_DATETIME, TYPE_STRING], [TYPE_DATETIME]]"

fun coltype_code :: "ColType \<Rightarrow> nat" where
  "coltype_code TYPE_INT = 0"
| "coltype_code TYPE_BIGINT = 1"
| "coltype_code TYPE_FLOAT = 2"
| "coltype_code TYPE_STRING = 3"
| "coltype_code TYPE_DATETIME = 4"

definition is_compatible_type :: "ColType \<Rightarrow> ColType \<Rightarrow> bool" where
  "is_compatible_type a b \<longleftrightarrow> b \<in> set (legal_binop ! coltype_code a)"

text \<open>The two lambdas of \<open>binop\<close>: on numbers, with their \<open><\<close> and \<open>==\<close>, and on C strings.\<close>

fun num_binop :: "CompOp \<Rightarrow> ('a \<Rightarrow> 'a \<Rightarrow> bool) \<Rightarrow> ('a \<Rightarrow> 'a \<Rightarrow> bool) \<Rightarrow> 'a \<Rightarrow> 'a \<Rightarrow> bool" where
  "num_binop OP_EQ lt eq a b = eq a b"
| "num_binop OP_NE lt eq a b = (\<not> eq a b)"
| "num_binop OP_LT lt eq a b = lt a b"
| "num_binop OP_GT lt eq a b = lt b a"
| "num_binop OP_LE lt eq a b = (lt a b \<or> eq a b)"
| "num_binop OP_GE lt eq a b = (lt b a \<or> eq a b)"

fun bytes_cmp :: "byte list \<Rightarrow> byte list \<Rightarrow> int" where
  "bytes_cmp [] [] = 0"
| "bytes_cmp [] (b # bs) = - 1"
| "bytes_cmp (a # as) [] = 1"
| "bytes_cmp (a # as) (b # bs) = (if a < b then - 1 else if b < a then 1 else bytes_cmp as bs)"

definition c_str :: "byte list \<Rightarrow> byte list" where
  "c_str s = takeWhile (\<lambda>b. b \<noteq> 0) s"

definition str_cmp :: "byte list \<Rightarrow> byte list \<Rightarrow> int" where
  "str_cmp a b = bytes_cmp (c_str a) (c_str b)"

fun str_binop :: "CompOp \<Rightarrow> byte list \<Rightarrow> byte list \<Rightarrow> bool" where
  "str_binop OP_EQ a b = (str_cmp a b = 0)"
| "str_binop OP_NE a b = (str_cmp a b \<noteq> 0)"
| "str_binop OP_LT a b = (str_cmp a b < 0)"
| "str_binop OP_GT a b = (str_cmp a b > 0)"
| "str_binop OP_LE a b = (str_cmp a b \<le> 0)"
| "str_binop OP_GE a b = (str_cmp a b \<ge> 0)"

definition binop :: "CompOp \<Rightarrow> Value \<Rightarrow> Value \<Rightarrow> rmdb_error + bool" where
  "binop op l r =
     (let bad = Inl (IncompatibleTypeError (coltype2str (v_type l)) (coltype2str (v_type r)));
          ints = (\<lambda>a b. Inr (num_binop op (<) (=) (a :: int) b)); floats = (\<lambda>a b. Inr (num_binop op float_lt float_eq a b)) in
      case v_type l of
        TYPE_INT \<Rightarrow> (case v_type r of
            TYPE_INT \<Rightarrow> ints (int_val l) (int_val r)
          | TYPE_FLOAT \<Rightarrow> floats (float_of_int (int_val l)) (float_val r)
          | TYPE_BIGINT \<Rightarrow> ints (int_val l) (bigint_val r)
          | _ \<Rightarrow> bad)
      | TYPE_BIGINT \<Rightarrow> (case v_type r of
            TYPE_INT \<Rightarrow> ints (bigint_val l) (int_val r)
          | TYPE_FLOAT \<Rightarrow> floats (float_of_int (bigint_val l)) (float_val r)
          | TYPE_BIGINT \<Rightarrow> ints (bigint_val l) (bigint_val r)
          | _ \<Rightarrow> bad)
      | TYPE_FLOAT \<Rightarrow> (case v_type r of
            TYPE_INT \<Rightarrow> floats (float_val l) (float_of_int (int_val r))
          | TYPE_FLOAT \<Rightarrow> floats (float_val l) (float_val r)
          | TYPE_BIGINT \<Rightarrow> floats (float_val l) (float_of_int (bigint_val r))
          | _ \<Rightarrow> bad)
      | TYPE_DATETIME \<Rightarrow> (case v_type r of
            TYPE_STRING \<Rightarrow> Inr (str_binop op (v_datetime l) (v_str r))
          | TYPE_DATETIME \<Rightarrow> Inr (str_binop op (v_datetime l) (v_datetime r))
          | _ \<Rightarrow> bad)
      | TYPE_STRING \<Rightarrow> (case v_type r of
            TYPE_STRING \<Rightarrow> Inr (str_binop op (v_str l) (v_str r))
          | TYPE_DATETIME \<Rightarrow> Inr (str_binop op (v_str l) (v_datetime r))
          | _ \<Rightarrow> bad))"

section \<open>The type table and the comparison agree\<close>

definition numeric :: "ColType \<Rightarrow> bool" where
  "numeric t \<longleftrightarrow> t = TYPE_INT \<or> t = TYPE_BIGINT \<or> t = TYPE_FLOAT"

lemma is_compatible_type_eq:
  "is_compatible_type a b \<longleftrightarrow> numeric a \<and> numeric b \<or> a = TYPE_STRING \<and> (b = TYPE_STRING \<or> b = TYPE_DATETIME) \<or>
     a = TYPE_DATETIME \<and> b = TYPE_DATETIME"
  by (cases a; cases b) (simp_all add: is_compatible_type_def legal_binop_def numeric_def eval_nat_numeral)

text \<open>
  Property C20. The comparison returns exactly on the pairs of types the table
  \<open>legal_binop\<close> admits, and on a datetime compared with a string, which the table refuses;
  on every other pair it throws \<open>IncompatibleTypeError\<close> with the names of the two types.
\<close>

theorem binop_returns_iff_compatible:
  "binop op l r =
     (if is_compatible_type (v_type l) (v_type r) \<or> v_type l = TYPE_DATETIME \<and> v_type r = TYPE_STRING
      then Inr (projr (binop op l r))
      else Inl (IncompatibleTypeError (coltype2str (v_type l)) (coltype2str (v_type r))))"
  by (cases "v_type l"; cases "v_type r") (simp_all add: binop_def Let_def is_compatible_type_eq numeric_def)

lemma compatible_binop: "is_compatible_type (v_type l) (v_type r) \<Longrightarrow> \<exists>b. binop op l r = Inr b"
  by (cases "v_type l"; cases "v_type r")
    (simp_all add: binop_def Let_def is_compatible_type_eq numeric_def)

section \<open>The order of the values\<close>

definition no_nan :: "Value \<Rightarrow> bool" where
  "no_nan v \<longleftrightarrow> v_type v = TYPE_FLOAT \<longrightarrow> \<not> float_nan (float_val v)"

lemma float_round_not_nan: "\<not> float_nan (float_round n)" "\<not> float_nan (2 ^ 31 + float_round n)"
proof -
  have l: "float_round n \<le> 255 * 2 ^ 23" by (simp add: float_round_def Let_def)
  then have "float_round n < 2 ^ 31" by simp
  then have "float_round n mod 2 ^ 31 = float_round n" "(2 ^ 31 + float_round n) mod 2 ^ 31 = float_round n"
    by (simp, metis mod_add_self1 mod_less)
  with l show "\<not> float_nan (float_round n)" "\<not> float_nan (2 ^ 31 + float_round n)"
    unfolding float_nan_def by (simp_all only: not_less)
qed

lemma float_of_int_not_nan: "\<not> float_nan (float_of_int i)"
  unfolding float_of_int_def float_of_units_def using float_round_not_nan by (cases "0 \<le> i * 2 ^ 149") simp_all

text \<open>
  What a value means: a number, counted in units of the smallest positive float, \<open>2 ^ -149\<close>, of
  which every integer and every float is a multiple, or a text up to its first zero byte.
\<close>

datatype meaning = Number int | Text "byte list"

definition meaning_of :: "Value \<Rightarrow> meaning" where
  "meaning_of v =
     (case v_type v of
        TYPE_INT \<Rightarrow> Number (int_val v * 2 ^ 149)
      | TYPE_BIGINT \<Rightarrow> Number (bigint_val v * 2 ^ 149)
      | TYPE_FLOAT \<Rightarrow> Number (float_key (float_val v))
      | TYPE_STRING \<Rightarrow> Text (c_str (v_str v))
      | TYPE_DATETIME \<Rightarrow> Text (c_str (v_datetime v)))"

fun below :: "meaning \<Rightarrow> meaning \<Rightarrow> bool" where
  "below (Number i) (Number j) \<longleftrightarrow> i < j"
| "below (Text s) (Text t) \<longleftrightarrow> ord_class.lexordp s t"
| "below _ _ \<longleftrightarrow> False"

text \<open>An integer compared with a float is rounded to a float, which is exact below \<open>2 ^ 24\<close>.\<close>

definition small :: "Value \<Rightarrow> bool" where
  "small v \<longleftrightarrow> (v_type v = TYPE_INT \<longrightarrow> \<bar>int_val v\<bar> < 2 ^ 24) \<and> (v_type v = TYPE_BIGINT \<longrightarrow> \<bar>bigint_val v\<bar> < 2 ^ 24)"

lemma bytes_cmp_order: "(bytes_cmp a b < 0 \<longleftrightarrow> ord_class.lexordp a b) \<and> (bytes_cmp a b = 0 \<longleftrightarrow> a = b) \<and> (0 < bytes_cmp a b \<longleftrightarrow> ord_class.lexordp b a)"
  by (induction a b rule: bytes_cmp.induct) auto

lemma str_binop_order:
  "str_binop OP_EQ a b \<longleftrightarrow> c_str a = c_str b" "str_binop OP_NE a b \<longleftrightarrow> c_str a \<noteq> c_str b"
  "str_binop OP_LT a b \<longleftrightarrow> ord_class.lexordp (c_str a) (c_str b)" "str_binop OP_GT a b \<longleftrightarrow> ord_class.lexordp (c_str b) (c_str a)"
  "str_binop OP_LE a b \<longleftrightarrow> \<not> ord_class.lexordp (c_str b) (c_str a)" "str_binop OP_GE a b \<longleftrightarrow> \<not> ord_class.lexordp (c_str a) (c_str b)"
  using bytes_cmp_order [of "c_str a" "c_str b"] by (auto simp: str_cmp_def)

lemma int_binop_order:
  assumes "0 < (k :: int)"
  shows "num_binop OP_EQ (<) (=) a b \<longleftrightarrow> a * k = b * k" "num_binop OP_NE (<) (=) a b \<longleftrightarrow> a * k \<noteq> b * k"
    "num_binop OP_LT (<) (=) a b \<longleftrightarrow> a * k < b * k" "num_binop OP_GT (<) (=) a b \<longleftrightarrow> b * k < a * k"
    "num_binop OP_LE (<) (=) a b \<longleftrightarrow> \<not> b * k < a * k" "num_binop OP_GE (<) (=) a b \<longleftrightarrow> \<not> a * k < b * k"
  using assms by auto

lemma float_binop_order:
  assumes "\<not> float_nan a" and "\<not> float_nan b"
  shows "num_binop OP_EQ float_lt float_eq a b \<longleftrightarrow> float_key a = float_key b"
    "num_binop OP_NE float_lt float_eq a b \<longleftrightarrow> float_key a \<noteq> float_key b"
    "num_binop OP_LT float_lt float_eq a b \<longleftrightarrow> float_key a < float_key b"
    "num_binop OP_GT float_lt float_eq a b \<longleftrightarrow> float_key b < float_key a"
    "num_binop OP_LE float_lt float_eq a b \<longleftrightarrow> \<not> float_key b < float_key a"
    "num_binop OP_GE float_lt float_eq a b \<longleftrightarrow> \<not> float_key a < float_key b"
  using assms by (auto simp: float_lt_def float_eq_def)

text \<open>
  Property C19. The six operators compare the meanings of the two values: numbers by their
  mathematical order, whatever mixture of integer, big integer and float they have, strings and
  datetimes by the lexicographic order of their bytes up to the first zero. Excepted are NaN,
  and integers from \<open>2 ^ 24\<close> on compared with a float.
\<close>

theorem binop_compares_meanings:
  assumes "is_compatible_type (v_type l) (v_type r)" and "no_nan l" and "no_nan r"
    and "v_type l = TYPE_FLOAT \<or> v_type r = TYPE_FLOAT \<longrightarrow> small l \<and> small r"
  shows "binop OP_EQ l r = Inr (meaning_of l = meaning_of r) \<and>
     binop OP_NE l r = Inr (meaning_of l \<noteq> meaning_of r) \<and>
     binop OP_LT l r = Inr (below (meaning_of l) (meaning_of r)) \<and>
     binop OP_GT l r = Inr (below (meaning_of r) (meaning_of l)) \<and>
     binop OP_LE l r = Inr (\<not> below (meaning_of r) (meaning_of l)) \<and>
     binop OP_GE l r = Inr (\<not> below (meaning_of l) (meaning_of r))"
proof -
  have n: "v_type l = TYPE_FLOAT \<Longrightarrow> \<not> float_nan (float_val l)" "v_type r = TYPE_FLOAT \<Longrightarrow> \<not> float_nan (float_val r)"
    using assms(2,3) by (simp_all add: no_nan_def)
  show ?thesis
  proof (cases "numeric (v_type l) \<and> numeric (v_type r)")
    case False
    with assms(1) show ?thesis
      by (cases "v_type l"; cases "v_type r")
        (simp_all add: is_compatible_type_eq numeric_def binop_def Let_def meaning_of_def str_binop_order del: str_binop.simps)
  next
    case True
    show ?thesis
    proof (cases "v_type l = TYPE_FLOAT \<or> v_type r = TYPE_FLOAT")
      case False
      with True show ?thesis
        by (cases "v_type l"; cases "v_type r")
          (simp_all add: numeric_def binop_def Let_def meaning_of_def int_binop_order [where k = "2 ^ 149"] del: num_binop.simps)
    next
      case fl: True
      then have sm: "small l" "small r" using assms(4) by simp_all
      show ?thesis
        using fl True n sm
        by (cases "v_type l"; cases "v_type r")
          (simp_all add: numeric_def binop_def Let_def meaning_of_def small_def float_binop_order float_of_int_exact
            del: num_binop.simps)
    qed
  qed
qed

theorem binop_compares_meanings_witness:
  "binop OP_LT (set_int 7 (new_Value TYPE_INT)) (set_bigint 9 (new_Value TYPE_BIGINT)) =
     Inr (below (Number (7 * 2 ^ 149)) (Number (9 * 2 ^ 149)))"
proof -
  let ?l = "set_int 7 (new_Value TYPE_INT)" and ?r = "set_bigint 9 (new_Value TYPE_BIGINT)"
  have t: "v_type ?l = TYPE_INT" "v_type ?r = TYPE_BIGINT" "int_val ?l = 7" "bigint_val ?r = 9"
    by (simp_all add: set_int_def set_bigint_def put_low_def new_Value_def int_val_def bigint_val_def in_range_def)
  then have m: "meaning_of ?l = Number (7 * 2 ^ 149)" "meaning_of ?r = Number (9 * 2 ^ 149)" by (simp_all add: meaning_of_def)
  show ?thesis using binop_compares_meanings [of ?l ?r] by (simp add: t m no_nan_def is_compatible_type_eq numeric_def)
qed

section \<open>Raw images\<close>

definition val_ok :: "Value \<Rightarrow> bool" where
  "val_ok v \<longleftrightarrow> length (v_union v) = 8"

lemma val_ok_set [simp]:
  "val_ok (new_Value t)" "val_ok v \<Longrightarrow> val_ok (set_int i v)" "val_ok v \<Longrightarrow> val_ok (set_bigint j v)"
  "val_ok v \<Longrightarrow> val_ok (set_float b v)" "val_ok v \<Longrightarrow> val_ok (set_str s v)" "val_ok v \<Longrightarrow> val_ok (set_datetime s v)"
  by (simp_all add: val_ok_def new_Value_def set_int_def set_bigint_def set_float_def set_str_def set_datetime_def put_low_def)

lemma le_val_bound: "le_val bs < 256 ^ length bs"
proof (induction bs)
  case (Cons b bs)
  have "unat b < 256" using unsigned_less [of b] by simp
  with Cons show ?case by simp
qed simp

lemma get_int_range: "in_range (length bs) (get_int bs)"
proof -
  define n where "n = int (le_val bs)"
  define m where "m = (256 :: int) ^ length bs"
  have "n < m" using le_val_bound [of bs] unfolding n_def m_def by (metis of_nat_less_iff of_nat_numeral of_nat_power)
  moreover have "0 \<le> n" by (simp add: n_def)
  ultimately show ?thesis unfolding in_range_def get_int_def Let_def n_def [symmetric] m_def [symmetric] by auto
qed

lemma put_get_int: "length bs = k \<Longrightarrow> get_int (put_int k (get_int bs)) = get_int bs"
  using get_int_range [of bs] by simp

lemma in_range_mono: "in_range 4 i \<Longrightarrow> in_range 8 i"
  by (auto simp: in_range_def)

lemma put_get_low: "length bs \<le> 8 \<Longrightarrow> length (v_union v) = 8 \<Longrightarrow> take (length bs) (v_union (put_low bs v)) = bs"
  by (simp add: put_low_def)

lemma c_str_pad: "c_str (s @ replicate n 0) = c_str s"
  by (induction s) (auto simp: c_str_def gr0_conv_Suc intro: takeWhile_eq_Nil_iff [THEN iffD2])

lemma str_cmp_refl: "c_str a = c_str b \<Longrightarrow> str_cmp a b = 0"
proof -
  have "bytes_cmp x x = 0" for x by (induction x) simp_all
  then show "c_str a = c_str b \<Longrightarrow> str_cmp a b = 0" by (simp add: str_cmp_def)
qed

text \<open>What a column of a type reads back after a value was stored in it, by the type of the value.\<close>

definition stored_as :: "ColType \<Rightarrow> nat \<Rightarrow> Value \<Rightarrow> rmdb_error + Value" where
  "stored_as t len v = ebind (init_raw len v) (\<lambda>w. load_raw len (the (v_raw w)) (new_Value t))"

lemma stored_int: "val_ok v \<Longrightarrow> v_raw v = None \<Longrightarrow> v_type v = TYPE_INT \<Longrightarrow>
   \<exists>w. stored_as TYPE_INT 4 v = Inr w \<and> v_type w = TYPE_INT \<and> int_val w = int_val v"
  by (simp add: stored_as_def init_raw_def load_raw_def peek_def poke_def write_at_def new_Value_def put_low_def int_val_def
      put_get_int val_ok_def)

lemma stored_int_in_bigint:
  assumes "val_ok v" and "v_raw v = None" and "v_type v = TYPE_INT"
  shows "\<exists>w. stored_as TYPE_BIGINT 8 v = Inr w \<and> v_type w = TYPE_BIGINT \<and> bigint_val w = int_val v"
proof -
  have "in_range 4 (int_val v)" using assms(1) get_int_range [of "take 4 (v_union v)"] by (simp add: int_val_def val_ok_def)
  then have "get_int (put_int 8 (int_val v)) = int_val v" using in_range_mono by simp
  with assms show ?thesis
    by (simp add: stored_as_def init_raw_def load_raw_def peek_def poke_def write_at_def new_Value_def put_low_def bigint_val_def)
qed

lemma stored_bigint: "val_ok v \<Longrightarrow> v_raw v = None \<Longrightarrow> v_type v = TYPE_BIGINT \<Longrightarrow>
   \<exists>w. stored_as TYPE_BIGINT 8 v = Inr w \<and> v_type w = TYPE_BIGINT \<and> bigint_val w = bigint_val v"
  by (simp add: stored_as_def init_raw_def load_raw_def peek_def poke_def write_at_def new_Value_def put_low_def bigint_val_def
      put_get_int val_ok_def)

lemma stored_float:
  assumes "val_ok v" and "v_raw v = None" and "v_type v = TYPE_FLOAT"
  shows "\<exists>w. stored_as TYPE_FLOAT 4 v = Inr w \<and> v_type w = TYPE_FLOAT \<and> float_val w = float_val v"
proof -
  have "float_val v < 256 ^ 4" using le_val_bound [of "take 4 (v_union v)"] assms(1) by (simp add: float_val_def val_ok_def)
  then have "le_val (le_bytes 4 (float_val v)) = float_val v" by (simp add: le_val_le_bytes)
  with assms show ?thesis
    by (simp add: stored_as_def init_raw_def load_raw_def peek_def poke_def write_at_def new_Value_def put_low_def)
      (simp add: float_val_def)
qed

lemma stored_str: "length (v_str v) \<le> len \<Longrightarrow> v_raw v = None \<Longrightarrow> v_type v = TYPE_STRING \<Longrightarrow>
   \<exists>w. stored_as TYPE_STRING len v = Inr w \<and> v_type w = TYPE_STRING \<and> v_str w = v_str v @ replicate (len - length (v_str v)) 0"
  by (simp add: stored_as_def init_raw_def load_raw_def peek_def poke_def write_at_def new_Value_def ebind_def)

lemma stored_datetime: "length (v_str v) \<le> len \<Longrightarrow> length (v_datetime v) \<le> len \<Longrightarrow> v_raw v = None \<Longrightarrow> v_type v = TYPE_DATETIME \<Longrightarrow>
   \<exists>w. stored_as TYPE_DATETIME len v = Inr w \<and> v_type w = TYPE_DATETIME \<and>
     v_datetime w = v_datetime v @ replicate (len - length (v_datetime v)) 0"
  by (simp add: stored_as_def init_raw_def load_raw_def peek_def poke_def write_at_def new_Value_def ebind_def)

text \<open>The column lengths and types for which a value is stored faithfully.\<close>

fun column_fits :: "ColType \<Rightarrow> nat \<Rightarrow> Value \<Rightarrow> bool" where
  "column_fits TYPE_INT len v \<longleftrightarrow> v_type v = TYPE_INT \<and> len = 4"
| "column_fits TYPE_BIGINT len v \<longleftrightarrow> (v_type v = TYPE_BIGINT \<or> v_type v = TYPE_INT) \<and> len = 8"
| "column_fits TYPE_FLOAT len v \<longleftrightarrow> v_type v = TYPE_FLOAT \<and> len = 4"
| "column_fits TYPE_STRING len v \<longleftrightarrow> v_type v = TYPE_STRING \<and> length (v_str v) \<le> len"
| "column_fits TYPE_DATETIME len v \<longleftrightarrow> v_type v = TYPE_DATETIME \<and> length (v_datetime v) \<le> len \<and> length (v_str v) \<le> len"

text \<open>
  Property C18. Storing and loading: a value that fits its column (same type, or an integer into
  a big integer column; strings and datetimes not longer than the column) is stored by
  \<open>init_raw\<close> without error, and what \<open>load_raw\<close> reads back compares equal to it.
\<close>

theorem stored_value_reads_back:
  assumes f: "column_fits t len v" and k: "val_ok v" "v_raw v = None" "no_nan v"
  shows "\<exists>w. stored_as t len v = Inr w \<and> v_type w = t \<and> binop OP_EQ w v = Inr True"
proof (cases t)
  case TYPE_INT
  with stored_int [OF k(1,2)] f show ?thesis by (auto simp: binop_def Let_def)
next
  case TYPE_BIGINT
  with stored_int_in_bigint [OF k(1,2)] stored_bigint [OF k(1,2)] f show ?thesis by (fastforce simp: binop_def Let_def)
next
  case TYPE_FLOAT
  with stored_float [OF k(1,2)] f k(3) show ?thesis by (auto simp: binop_def Let_def float_eq_def no_nan_def)
next
  case TYPE_STRING
  with stored_str [of v len, OF _ k(2)] f show ?thesis by (auto simp: binop_def Let_def str_cmp_refl c_str_pad)
next
  case TYPE_DATETIME
  with stored_datetime [of v len, OF _ _ k(2)] f show ?thesis by (auto simp: binop_def Let_def str_cmp_refl c_str_pad)
qed

theorem stored_value_reads_back_witness:
  "\<exists>w. stored_as TYPE_BIGINT 8 (set_int (- 5) (new_Value TYPE_INT)) = Inr w \<and> v_type w = TYPE_BIGINT \<and>
     binop OP_EQ w (set_int (- 5) (new_Value TYPE_INT)) = Inr True"
  by (rule stored_value_reads_back) (simp_all, simp_all add: set_int_def put_low_def new_Value_def no_nan_def)

text \<open>
  The type table also admits an integer for a float column, but \<open>init_raw\<close> then
  stores the bits of the integer: the column does not read back as the number inserted. And a
  float for a big integer column, also admitted, ends in a failed assertion.
\<close>

theorem numbers_mixed_in_columns:
  "is_compatible_type TYPE_FLOAT TYPE_INT \<and>
   (\<exists>w. stored_as TYPE_FLOAT 4 (set_int 1 (new_Value TYPE_INT)) = Inr w \<and>
      binop OP_EQ w (set_int 1 (new_Value TYPE_INT)) = Inr False) \<and>
   is_compatible_type TYPE_BIGINT TYPE_FLOAT \<and>
   stored_as TYPE_BIGINT 8 (set_float b (new_Value TYPE_FLOAT)) = Inl (AssertionFailure ''len == sizeof(float)'')"
proof -
  define v where "v = set_int 1 (new_Value TYPE_INT)"
  have v: "v_type v = TYPE_INT" "int_val v = 1" "v_raw v = None"
    by (simp_all add: v_def set_int_def put_low_def new_Value_def int_val_def in_range_def)
  have one: "le_val (put_int 4 1) = 1" by (simp add: put_int_def le_val_le_bytes)
  have "\<exists>w. stored_as TYPE_FLOAT 4 v = Inr w \<and> v_type w = TYPE_FLOAT \<and> float_val w = 1"
    using v one by (simp add: stored_as_def init_raw_def load_raw_def peek_def poke_def write_at_def new_Value_def put_low_def float_val_def)
  moreover have "float_key 1 \<noteq> float_key (float_of_int 1)"
    using float_of_int_exact(1) [of 1] by (simp add: float_key_def float_mag_def Let_def)
  ultimately have "\<exists>w. stored_as TYPE_FLOAT 4 v = Inr w \<and> binop OP_EQ w v = Inr False"
    using v by (auto simp: binop_def Let_def float_eq_def)
  then show ?thesis
    unfolding v_def
    by (simp add: is_compatible_type_eq numeric_def stored_as_def init_raw_def set_float_def put_low_def new_Value_def)
qed

end
