(* ===== verification/Ast.thy ===== *)
theory Ast
  imports Values
begin

text \<open>
  The abstract syntax the parser hands over, \<open>src/src/parser/ast.h\<close>. A class hierarchy is a
  datatype with one constructor per class, in the order of the header; the fields of a class
  are the arguments of its constructor or the fields of a record. Identifiers are strings,
  the contents of string literals are bytes.
\<close>

datatype JoinType = INNER_JOIN | LEFT_JOIN | RIGHT_JOIN | FULL_JOIN

datatype SvType = SV_TYPE_INT | SV_TYPE_BIGINT | SV_TYPE_FLOAT | SV_TYPE_STRING | SV_TYPE_DATETIME

datatype SvCompOp = SV_OP_EQ | SV_OP_NE | SV_OP_LT | SV_OP_GT | SV_OP_LE | SV_OP_GE

datatype OrderByDir = OrderBy_DEFAULT | OrderBy_ASC | OrderBy_DESC

datatype AggregateType = SV_NONE | SV_COUNT | SV_MAX | SV_MIN | SV_SUM

datatype TypeLen = TypeLen (tl_type: SvType) (tl_len: int)

datatype Field = ColDef (cd_col_name: string) (cd_type_len: TypeLen)

text \<open>The literals. \<open>BareValue\<close> is an object of the base class itself.\<close>

datatype ast_Value = IntLit int | BigintLit int | FloatLit float32 | StringLit "byte list" | DatetimeLit "byte list" | BareValue

text \<open>\<open>IntLit(int64_t)\<close> stores its argument in an \<open>int\<close>.\<close>

definition new_IntLit :: "int \<Rightarrow> ast_Value" where
  "new_IntLit v = IntLit (wrap_int 4 v)"

datatype Col = Col (col_tab_name: string) (col_col_name: string)

datatype Expr = ValExpr ast_Value | ColExpr Col

record ast_SetClause =
  as_col_name :: string
  as_val :: ast_Value
  as_is_selfadd :: bool

record BinaryExpr =
  be_lhs :: Col
  be_op :: SvCompOp
  be_rhs :: Expr

record OrderBy =
  ob_col :: Col
  orderby_dir :: OrderByDir

record JoinExpr =
  je_left :: string
  je_right :: string
  je_conds :: "BinaryExpr list"
  je_type :: JoinType

record SelectStmt =
  ss_cols :: "Col list"
  ss_tabs :: "string list"
  ss_conds :: "BinaryExpr list"
  ss_jointree :: "JoinExpr list"
  ss_has_sort :: bool
  ss_orders :: "OrderBy list"
  ss_limit :: int
  ss_aggregate_type :: AggregateType
  ss_alias :: string

definition AggregateSelect :: "Col list \<Rightarrow> string list \<Rightarrow> BinaryExpr list \<Rightarrow> AggregateType \<Rightarrow> string \<Rightarrow> SelectStmt" where
  "AggregateSelect cols tabs conds a alias =
     \<lparr>ss_cols = cols, ss_tabs = tabs, ss_conds = conds, ss_jointree = [], ss_has_sort = False, ss_orders = [],
      ss_limit = - 1, ss_aggregate_type = a, ss_alias = alias\<rparr>"

definition OrderSelect :: "Col list \<Rightarrow> string list \<Rightarrow> BinaryExpr list \<Rightarrow> OrderBy list \<Rightarrow> int \<Rightarrow> SelectStmt" where
  "OrderSelect cols tabs conds orders limit =
     \<lparr>ss_cols = cols, ss_tabs = tabs, ss_conds = conds, ss_jointree = [], ss_has_sort = (orders \<noteq> []), ss_orders = orders,
      ss_limit = limit, ss_aggregate_type = SV_NONE, ss_alias = []\<rparr>"

datatype TreeNode =
    Help
  | ShowTables
  | TxnBegin
  | TxnCommit
  | TxnAbort
  | TxnRollback
  | CreateTable string "Field list"
  | DropTable string
  | DescTable string
  | ShowIndex string
  | CreateIndex string "string list"
  | DropIndex string "string list"
  | LoadStmt string string
  | InsertStmt string "ast_Value list"
  | DeleteStmt string "BinaryExpr list"
  | UpdateStmt string "ast_SetClause list" "BinaryExpr list"
  | Select SelectStmt

end
