(* ===== verification/Sm_Meta.thy ===== *)
theory Sm_Meta
  imports Values "HOL-Library.Char_ord" "HOL-Library.List_Lexorder"
begin

text \<open>
  The catalogue, \<open>src/src/system/sm_meta.h\<close>: the metadata of columns, indexes, tables and the
  database, their lookups, and the text format in which the database is kept in its meta file
  (\<open>operator<<\<close> and \<open>operator>>\<close>). The formatted input and output of the standard library is
  modelled as far as these operators use it: output of strings and decimal numbers, input of
  words and numbers that skips white space and fails on anything else. The main lemma is that
  reading what was written gives the catalogue back.
\<close>

section \<open>Metadata\<close>

record ColMeta =
  cm_tab_name :: string
  cm_name :: string
  cm_type :: ColType
  cm_len :: int
  cm_offset :: int
  cm_index :: bool

record IndexMeta =
  im_tab_name :: string
  col_tot_len :: nat
  col_num :: nat
  im_cols :: "ColMeta list"

record TabMeta =
  tab_name :: string
  tab_cols :: "ColMeta list"
  tab_indexes :: "IndexMeta list"

text \<open>A \<open>std::map\<close> is an association list in the order of its keys.\<close>

type_synonym 'v omap = "(string \<times> 'v) list"

fun omap_put :: "string \<Rightarrow> 'v \<Rightarrow> 'v omap \<Rightarrow> 'v omap" where
  "omap_put k v [] = [(k, v)]"
| "omap_put k v (e # m) =
     (if k < fst e then (k, v) # e # m else if k = fst e then (k, v) # m else e # omap_put k v m)"

record DbMeta =
  db_name :: string
  db_tabs :: "TabMeta omap"

definition new_TabMeta :: "string \<Rightarrow> TabMeta" where
  "new_TabMeta n = \<lparr>tab_name = n, tab_cols = [], tab_indexes = []\<rparr>"

text \<open>The copy constructor copies name and columns and leaves the indexes out.\<close>

definition copy_TabMeta :: "TabMeta \<Rightarrow> TabMeta" where
  "copy_TabMeta t = (new_TabMeta (tab_name t))\<lparr>tab_cols := tab_cols t\<rparr>"

definition is_col :: "string \<Rightarrow> TabMeta \<Rightarrow> bool" where
  "is_col c t \<longleftrightarrow> find (\<lambda>col. cm_name col = c) (tab_cols t) \<noteq> None"

text \<open>
  The loop over the columns of an index. It stops at the first difference; the columns are
  taken to be as many as \<open>col_num\<close> says (the code would read past them).
\<close>

fun same_names :: "ColMeta list \<Rightarrow> string list \<Rightarrow> bool" where
  "same_names cs [] \<longleftrightarrow> True"
| "same_names [] (n # ns) \<longleftrightarrow> False"
| "same_names (c # cs) (n # ns) \<longleftrightarrow> cm_name c = n \<and> same_names cs ns"

definition index_on :: "string list \<Rightarrow> IndexMeta \<Rightarrow> bool" where
  "index_on names ix \<longleftrightarrow> col_num ix = length names \<and> same_names (im_cols ix) names"

definition is_index :: "string list \<Rightarrow> TabMeta \<Rightarrow> bool" where
  "is_index names t \<longleftrightarrow> find (index_on names) (tab_indexes t) \<noteq> None"

definition get_index_meta :: "string list \<Rightarrow> TabMeta \<Rightarrow> rmdb_error + IndexMeta" where
  "get_index_meta names t =
     (case find (index_on names) (tab_indexes t) of
        None \<Rightarrow> Inl (IndexNotFoundError (tab_name t) names) | Some ix \<Rightarrow> Inr ix)"

definition get_col :: "string \<Rightarrow> TabMeta \<Rightarrow> rmdb_error + ColMeta" where
  "get_col c t =
     (case find (\<lambda>col. cm_name col = c) (tab_cols t) of None \<Rightarrow> Inl (ColumnNotFoundError c) | Some col \<Rightarrow> Inr col)"

definition is_table :: "string \<Rightarrow> DbMeta \<Rightarrow> bool" where
  "is_table n db \<longleftrightarrow> map_of (db_tabs db) n \<noteq> None"

definition SetTabMeta :: "string \<Rightarrow> TabMeta \<Rightarrow> DbMeta \<Rightarrow> DbMeta" where
  "SetTabMeta n t db = db\<lparr>db_tabs := omap_put n t (db_tabs db)\<rparr>"

definition get_table :: "string \<Rightarrow> DbMeta \<Rightarrow> rmdb_error + TabMeta" where
  "get_table n db = (case map_of (db_tabs db) n of None \<Rightarrow> Inl (TableNotFoundError n) | Some t \<Rightarrow> Inr t)"

section \<open>Formatted output\<close>

definition digit :: "nat \<Rightarrow> char" where
  "digit d = char_of (48 + d)"

fun show_nat :: "nat \<Rightarrow> string" where
  "show_nat n = (if n < 10 then [digit n] else show_nat (n div 10) @ [digit (n mod 10)])"

declare show_nat.simps [simp del]

definition show_int :: "int \<Rightarrow> string" where
  "show_int i = (if i < 0 then CHR ''-'' # show_nat (nat (- i)) else show_nat (nat i))"

definition nl :: string where "nl = [CHR 0x0A]"
definition sp :: string where "sp = '' ''"

definition show_ColMeta :: "ColMeta \<Rightarrow> string" where
  "show_ColMeta c =
     cm_tab_name c @ sp @ cm_name c @ sp @ show_nat (coltype_code (cm_type c)) @ sp @ show_int (cm_len c) @ sp @
     show_int (cm_offset c) @ sp @ show_nat (if cm_index c then 1 else 0)"

definition show_IndexMeta :: "IndexMeta \<Rightarrow> string" where
  "show_IndexMeta ix =
     im_tab_name ix @ sp @ show_nat (col_tot_len ix) @ sp @ show_nat (col_num ix) @
     concat (map (\<lambda>c. nl @ show_ColMeta c) (im_cols ix))"

definition show_TabMeta :: "TabMeta \<Rightarrow> string" where
  "show_TabMeta t =
     tab_name t @ nl @ show_nat (length (tab_cols t)) @ nl @ concat (map (\<lambda>c. show_ColMeta c @ nl) (tab_cols t)) @
     show_nat (length (tab_indexes t)) @ nl @ concat (map (\<lambda>ix. show_IndexMeta ix @ nl) (tab_indexes t))"

definition show_DbMeta :: "DbMeta \<Rightarrow> string" where
  "show_DbMeta db =
     db_name db @ nl @ show_nat (length (db_tabs db)) @ nl @ concat (map (\<lambda>e. show_TabMeta (snd e) @ nl) (db_tabs db))"

section \<open>Formatted input\<close>

text \<open>\<open>None\<close>: the stream has failed (or a value is outside its enumeration).\<close>

type_synonym 'a reader = "string \<Rightarrow> ('a \<times> string) option"

definition rbind :: "'a reader \<Rightarrow> ('a \<Rightarrow> 'b reader) \<Rightarrow> 'b reader" where
  "rbind p f s = (case p s of None \<Rightarrow> None | Some (a, s') \<Rightarrow> f a s')"

definition rret :: "'a \<Rightarrow> 'a reader" where
  "rret a s = Some (a, s)"

definition rfail :: "'a reader" where
  "rfail s = None"

definition is_space :: "char \<Rightarrow> bool" where
  "is_space c \<longleftrightarrow> (let n = of_char c :: nat in n = 32 \<or> 9 \<le> n \<and> n \<le> 13)"

definition is_digit :: "char \<Rightarrow> bool" where
  "is_digit c \<longleftrightarrow> (let n = of_char c :: nat in 48 \<le> n \<and> n \<le> 57)"

definition skip_ws :: "string \<Rightarrow> string" where
  "skip_ws s = dropWhile is_space s"

definition read_word :: "string reader" where
  "read_word s =
     (let t = skip_ws s; w = takeWhile (\<lambda>c. \<not> is_space c) t
      in if w = [] then None else Some (w, dropWhile (\<lambda>c. \<not> is_space c) t))"

fun digits_val :: "nat \<Rightarrow> string \<Rightarrow> nat" where
  "digits_val acc [] = acc"
| "digits_val acc (c # cs) = digits_val (10 * acc + (of_char c - 48)) cs"

definition read_digits :: "nat reader" where
  "read_digits s = (let d = takeWhile is_digit s in if d = [] then None else Some (digits_val 0 d, dropWhile is_digit s))"

definition read_number :: "int reader" where
  "read_number s =
     (let t = skip_ws s in
      case t of
        [] \<Rightarrow> None
      | c # cs \<Rightarrow>
          (if c = CHR ''-'' then map_option (\<lambda>(n, r). (- int n, r)) (read_digits cs)
           else if c = CHR ''+'' then map_option (\<lambda>(n, r). (int n, r)) (read_digits cs)
           else map_option (\<lambda>(n, r). (int n, r)) (read_digits t)))"

definition read_int :: "int reader" where
  "read_int = rbind read_number (\<lambda>i. if in_range 4 i then rret i else rfail)"

text \<open>An unsigned number may be written with a minus sign and wraps.\<close>

definition read_size :: "nat reader" where
  "read_size = rbind read_number (\<lambda>i. if \<bar>i\<bar> < 256 ^ 8 then rret (nat (i mod 256 ^ 8)) else rfail)"

definition read_bool :: "bool reader" where
  "read_bool = rbind read_number (\<lambda>i. if i = 0 then rret False else if i = 1 then rret True else rfail)"

definition coltype_of :: "int \<Rightarrow> ColType option" where
  "coltype_of i = find (\<lambda>t. int (coltype_code t) = i) [TYPE_INT, TYPE_BIGINT, TYPE_FLOAT, TYPE_STRING, TYPE_DATETIME]"

definition read_coltype :: "ColType reader" where
  "read_coltype = rbind read_int (\<lambda>i. case coltype_of i of None \<Rightarrow> rfail | Some t \<Rightarrow> rret t)"

fun read_n :: "nat \<Rightarrow> 'a reader \<Rightarrow> 'a list reader" where
  "read_n 0 p = rret []"
| "read_n (Suc n) p = rbind p (\<lambda>a. rbind (read_n n p) (\<lambda>as. rret (a # as)))"

definition read_ColMeta :: "ColMeta reader" where
  "read_ColMeta =
     rbind read_word (\<lambda>t. rbind read_word (\<lambda>n. rbind read_coltype (\<lambda>ty. rbind read_int (\<lambda>l. rbind read_int (\<lambda>off.
     rbind read_bool (\<lambda>ix.
       rret \<lparr>cm_tab_name = t, cm_name = n, cm_type = ty, cm_len = l, cm_offset = off, cm_index = ix\<rparr>))))))"

definition read_IndexMeta :: "IndexMeta reader" where
  "read_IndexMeta =
     rbind read_word (\<lambda>t. rbind read_size (\<lambda>l. rbind read_size (\<lambda>n. rbind (read_n n read_ColMeta) (\<lambda>cs.
       rret \<lparr>im_tab_name = t, col_tot_len = l, col_num = n, im_cols = cs\<rparr>))))"

definition read_TabMeta :: "TabMeta reader" where
  "read_TabMeta =
     rbind read_word (\<lambda>t. rbind read_size (\<lambda>n. rbind (read_n n read_ColMeta) (\<lambda>cs. rbind read_size (\<lambda>k.
     rbind (read_n k read_IndexMeta) (\<lambda>ixs. rret \<lparr>tab_name = t, tab_cols = cs, tab_indexes = ixs\<rparr>)))))"

definition read_DbMeta :: "DbMeta reader" where
  "read_DbMeta =
     rbind read_word (\<lambda>name. rbind read_size (\<lambda>n. rbind (read_n n read_TabMeta) (\<lambda>ts.
       rret \<lparr>db_name = name, db_tabs = fold (\<lambda>t. omap_put (tab_name t) t) ts []\<rparr>)))"

section \<open>Numbers read back\<close>

lemma of_char_digit [simp]: "d < 10 \<Longrightarrow> (of_char (digit d) :: nat) = 48 + d"
  by (simp add: digit_def)

lemma digit_kind [simp]: "d < 10 \<Longrightarrow> is_digit (digit d)" "d < 10 \<Longrightarrow> \<not> is_space (digit d)"
  by (simp_all add: is_digit_def is_space_def Let_def)

lemma digits_val_append: "digits_val acc (s @ t) = digits_val (digits_val acc s) t"
  by (induction s arbitrary: acc) simp_all

lemma show_nat_digits: "\<forall>c \<in> set (show_nat n). is_digit c" "show_nat n \<noteq> []" "digits_val 0 (show_nat n) = n"
proof (induction n rule: show_nat.induct)
  case (1 n)
  { case 1 then show ?case using "1.IH" by (subst show_nat.simps) auto }
  { case 2 then show ?case by (subst show_nat.simps) simp }
  { case 3 then show ?case using "1.IH" by (subst show_nat.simps) (auto simp: digits_val_append) }
qed

section \<open>Reading back what was written\<close>

text \<open>
  \<open>reads p t a\<close>: with white space before it and white space (or the end) after it, \<open>p\<close> reads
  the text \<open>t\<close> as \<open>a\<close>. \<open>reads_all\<close>: the same with anything after it, for texts that end in
  white space themselves. White space may be left unread.
\<close>

definition spaces :: "string \<Rightarrow> bool" where
  "spaces s \<longleftrightarrow> (\<forall>c \<in> set s. is_space c)"

definition reads_all :: "'a reader \<Rightarrow> string \<Rightarrow> 'a \<Rightarrow> bool" where
  "reads_all p t a \<longleftrightarrow> (\<forall>pre rest. spaces pre \<longrightarrow> (\<exists>pre'. spaces pre' \<and> p (pre @ t @ rest) = Some (a, pre' @ rest)))"

definition reads :: "'a reader \<Rightarrow> string \<Rightarrow> 'a \<Rightarrow> bool" where
  "reads p t a \<longleftrightarrow> (\<forall>c. is_space c \<longrightarrow> reads_all p (t @ [c]) a)"

lemma spaces_simps [simp]: "spaces []" "spaces (s @ t) \<longleftrightarrow> spaces s \<and> spaces t" "spaces (c # s) \<longleftrightarrow> is_space c \<and> spaces s"
  by (auto simp: spaces_def)

lemma space_chars [simp]: "spaces nl" "spaces sp" "is_space CHR 0x0A" "is_space CHR '' ''"
  by (simp_all add: nl_def sp_def is_space_def)

lemma reads_allI:
  "(\<And>pre rest. spaces pre \<Longrightarrow> \<exists>pre'. spaces pre' \<and> p (pre @ t @ rest) = Some (a, pre' @ rest)) \<Longrightarrow> reads_all p t a"
  by (simp add: reads_all_def)

lemma reads_nl: "reads p t a \<Longrightarrow> reads_all p (t @ nl) a" and reads_sp: "reads p t a \<Longrightarrow> reads_all p (t @ sp) a"
  by (simp_all add: reads_def nl_def sp_def)

lemma reads_all_bind:
  assumes "reads_all p t a" and "reads_all (f a) u b"
  shows "reads_all (rbind p f) (t @ u) b"
proof (rule reads_allI)
  fix pre rest assume "spaces pre"
  then obtain pre' where p: "spaces pre'" "p (pre @ t @ u @ rest) = Some (a, pre' @ u @ rest)"
    using assms(1) by (auto simp: reads_all_def)
  then obtain pre'' where "spaces pre''" "f a (pre' @ u @ rest) = Some (b, pre'' @ rest)"
    using assms(2) by (auto simp: reads_all_def)
  with p show "\<exists>pre'. spaces pre' \<and> rbind p f (pre @ (t @ u) @ rest) = Some (b, pre' @ rest)"
    by (auto simp: rbind_def)
qed

lemma reads_bind: "reads_all p t a \<Longrightarrow> reads (f a) u b \<Longrightarrow> reads (rbind p f) (t @ u) b"
  using reads_all_bind by (fastforce simp: reads_def)

lemma reads_all_ret: "reads_all (rret a) [] a"
  by (simp add: reads_all_def rret_def)

lemma reads_all_map: "reads_all p t a \<Longrightarrow> f a = rret b \<Longrightarrow> reads_all (rbind p f) t b"
  using reads_all_bind [of p t a f "[]" b] by (simp add: reads_all_ret)

lemma reads_map: "reads p t a \<Longrightarrow> f a = rret b \<Longrightarrow> reads (rbind p f) t b"
  by (auto simp: reads_def intro: reads_all_map)

text \<open>One field and its separator, then the rest.\<close>

lemma reads_bind_sep:
  "reads p t a \<Longrightarrow> reads (f a) u b \<Longrightarrow> reads (rbind p f) (t @ sp @ u) b"
  "reads p t a \<Longrightarrow> reads_all (f a) u b \<Longrightarrow> reads_all (rbind p f) (t @ sp @ u) b"
  "reads p t a \<Longrightarrow> reads_all (f a) u b \<Longrightarrow> reads_all (rbind p f) (t @ nl @ u) b"
  using reads_bind [OF reads_sp, of p t a f u b] reads_all_bind [OF reads_sp, of p t a f u b]
    reads_all_bind [OF reads_nl, of p t a f u b] by simp_all

lemma reads_after_nl:
  assumes "reads p t a"
  shows "reads p (nl @ t) a"
proof -
  have "\<exists>pre'. spaces pre' \<and> p (pre @ ((nl @ t) @ [c]) @ rest) = Some (a, pre' @ rest)" if "spaces pre" "is_space c" for pre c rest
    using assms [unfolded reads_def reads_all_def, rule_format, of c "pre @ nl" rest] that by simp
  then show ?thesis by (simp add: reads_def reads_all_def)
qed

lemma reads_n:
  assumes "\<And>a. a \<in> set as \<Longrightarrow> reads_all p (sh a) a"
  shows "reads_all (read_n (length as) p) (concat (map sh as)) as"
  using assms
proof (induction as)
  case (Cons a as)
  have "reads_all (rbind (read_n (length as) p) (\<lambda>as'. rret (a # as'))) (concat (map sh as)) (a # as)"
    by (rule reads_all_map [OF Cons.IH]) (use Cons.prems in simp_all)
  from reads_all_bind [OF Cons.prems [of a], of "\<lambda>a. rbind (read_n (length as) p) (\<lambda>as'. rret (a # as'))", OF _ this]
  show ?case by simp
qed (simp add: reads_all_ret)

text \<open>Words and numbers.\<close>

definition word_ok :: "string \<Rightarrow> bool" where
  "word_ok w \<longleftrightarrow> w \<noteq> [] \<and> (\<forall>c \<in> set w. \<not> is_space c)"

lemma skip_spaces: "spaces pre \<Longrightarrow> t \<noteq> [] \<Longrightarrow> \<not> is_space (hd t) \<Longrightarrow> skip_ws (pre @ t @ r) = t @ r"
  by (cases t) (auto simp: skip_ws_def spaces_def dropWhile_append)

lemma reads_word: "word_ok w \<Longrightarrow> reads read_word w w"
proof -
  assume w: "word_ok w"
  have "read_word (pre @ (w @ [c]) @ rest) = Some (w, c # rest)" if "spaces pre" "is_space c" for pre c rest
    using that w skip_spaces [of pre w "c # rest"]
    by (simp add: read_word_def Let_def word_ok_def takeWhile_append dropWhile_append)
  then show ?thesis by (auto simp: reads_def reads_all_def intro!: exI [of _ "[c]" for c])
qed

lemma show_nat_head: "\<not> is_space (hd (show_nat n))" "hd (show_nat n) \<noteq> CHR ''-''" "hd (show_nat n) \<noteq> CHR ''+''"
proof -
  have "is_digit (hd (show_nat n))" using show_nat_digits(1,2) [of n] by simp
  then show "\<not> is_space (hd (show_nat n))" "hd (show_nat n) \<noteq> CHR ''-''" "hd (show_nat n) \<noteq> CHR ''+''"
    by (auto simp: is_digit_def is_space_def Let_def)
qed

lemma read_digits_show: "\<not> is_digit c \<Longrightarrow> read_digits (show_nat n @ c # r) = Some (n, c # r)"
  using show_nat_digits [of n] by (simp add: read_digits_def Let_def takeWhile_append dropWhile_append)

lemma space_no_digit: "is_space c \<Longrightarrow> \<not> is_digit c"
  by (auto simp: is_space_def is_digit_def Let_def)

lemma reads_number: "reads read_number (show_int i) i"
proof -
  have "read_number (pre @ (show_int i @ [c]) @ rest) = Some (i, c # rest)" if a: "spaces pre" "is_space c" for pre c rest
  proof (cases "i < 0")
    case True
    have "skip_ws (pre @ show_int i @ c # rest) = show_int i @ c # rest"
      by (rule skip_spaces) (use a True in \<open>simp_all add: show_int_def is_space_def\<close>)
    with True read_digits_show [OF space_no_digit [OF a(2)], of "nat (- i)" rest] show ?thesis
      by (simp add: read_number_def show_int_def)
  next
    case False
    have s: "skip_ws (pre @ show_int i @ c # rest) = show_int i @ c # rest"
      by (rule skip_spaces) (use a False show_nat_head show_nat_digits(2) in \<open>simp_all add: show_int_def\<close>)
    obtain h t where ht: "show_nat (nat i) = h # t" using show_nat_digits(2) [of "nat i"] by (cases "show_nat (nat i)") auto
    with False s show_nat_head(2,3) [of "nat i"] read_digits_show [OF space_no_digit [OF a(2)], of "nat i" rest] show ?thesis
      by (simp add: read_number_def show_int_def Let_def)
  qed
  then show ?thesis by (auto simp: reads_def reads_all_def intro!: exI [of _ "[c]" for c])
qed

lemma show_int_nat: "show_nat n = show_int (int n)"
  by (simp add: show_int_def)

lemma reads_int: "in_range 4 i \<Longrightarrow> reads read_int (show_int i) i"
  unfolding read_int_def by (rule reads_map [OF reads_number]) simp

lemma reads_size: "n < 256 ^ 8 \<Longrightarrow> reads read_size (show_nat n) n"
  unfolding read_size_def show_int_nat
  by (rule reads_map [OF reads_number]) (simp add: of_nat_less_numeral_power_cancel_iff nat_int flip: of_nat_mod)

lemma reads_bool: "reads read_bool (show_nat (if b then 1 else 0)) b"
  unfolding read_bool_def show_int_nat by (rule reads_map [OF reads_number]) simp

lemma coltype_of_code [simp]: "coltype_of (int (coltype_code t)) = Some t"
  by (cases t) (simp_all add: coltype_of_def)

lemma reads_coltype: "reads read_coltype (show_nat (coltype_code t)) t"
proof -
  have "in_range 4 (int (coltype_code t))" by (cases t) (simp_all add: in_range_def)
  then show ?thesis unfolding read_coltype_def show_int_nat by (intro reads_map [OF reads_int]) simp_all
qed

section \<open>The meta file\<close>

text \<open>What the code can print and read: names are words, numbers fit their types.\<close>

definition col_ok :: "ColMeta \<Rightarrow> bool" where
  "col_ok c \<longleftrightarrow> word_ok (cm_tab_name c) \<and> word_ok (cm_name c) \<and> in_range 4 (cm_len c) \<and> in_range 4 (cm_offset c)"

definition index_ok :: "IndexMeta \<Rightarrow> bool" where
  "index_ok ix \<longleftrightarrow> word_ok (im_tab_name ix) \<and> col_tot_len ix < 256 ^ 8 \<and> col_num ix = length (im_cols ix) \<and>
     col_num ix < 256 ^ 8 \<and> (\<forall>c \<in> set (im_cols ix). col_ok c)"

definition tab_ok :: "TabMeta \<Rightarrow> bool" where
  "tab_ok t \<longleftrightarrow> word_ok (tab_name t) \<and> length (tab_cols t) < 256 ^ 8 \<and> length (tab_indexes t) < 256 ^ 8 \<and>
     (\<forall>c \<in> set (tab_cols t). col_ok c) \<and> (\<forall>ix \<in> set (tab_indexes t). index_ok ix)"

definition meta_ok :: "DbMeta \<Rightarrow> bool" where
  "meta_ok db \<longleftrightarrow> word_ok (db_name db) \<and> length (db_tabs db) < 256 ^ 8 \<and> sorted_wrt (<) (map fst (db_tabs db)) \<and>
     (\<forall>(k, t) \<in> set (db_tabs db). k = tab_name t \<and> tab_ok t)"

lemma meta_surj [simp]:
  "\<lparr>cm_tab_name = cm_tab_name c, cm_name = cm_name c, cm_type = cm_type c, cm_len = cm_len c, cm_offset = cm_offset c,
    cm_index = cm_index c\<rparr> = c"
  "\<lparr>im_tab_name = im_tab_name ix, col_tot_len = col_tot_len ix, col_num = col_num ix, im_cols = im_cols ix\<rparr> = ix"
  "\<lparr>tab_name = tab_name t, tab_cols = tab_cols t, tab_indexes = tab_indexes t\<rparr> = t"
  "\<lparr>db_name = db_name d, db_tabs = db_tabs d\<rparr> = d"
  by simp_all

lemmas reads_fields = reads_bind_sep [OF reads_word] reads_bind_sep [OF reads_int] reads_bind_sep [OF reads_size]
  reads_bind_sep [OF reads_coltype]

lemma reads_ColMeta: "col_ok c \<Longrightarrow> reads read_ColMeta (show_ColMeta c) c"
  unfolding read_ColMeta_def show_ColMeta_def col_ok_def
  by (intro reads_fields reads_map [OF reads_bool]) simp_all

lemma reads_cols:
  "\<forall>c \<in> set cs. col_ok c \<Longrightarrow> reads_all (read_n (length cs) read_ColMeta) (concat (map (\<lambda>c. show_ColMeta c @ nl) cs)) cs"
  by (intro reads_n reads_nl reads_ColMeta) simp

text \<open>In an index the line break stands before each column, not after it.\<close>

lemma shift_sep: "concat (map (\<lambda>c. nl @ g c) cs) @ nl = nl @ concat (map (\<lambda>c. g c @ nl) cs)"
  by (induction cs) simp_all

lemma reads_IndexMeta:
  assumes "index_ok ix" shows "reads_all read_IndexMeta (show_IndexMeta ix @ nl) ix"
proof -
  have "reads_all (rbind (read_n (length (im_cols ix)) read_ColMeta) (\<lambda>cs.
     rret \<lparr>im_tab_name = im_tab_name ix, col_tot_len = col_tot_len ix, col_num = col_num ix, im_cols = cs\<rparr>))
     (concat (map (\<lambda>c. show_ColMeta c @ nl) (im_cols ix))) ix"
    by (rule reads_all_map [OF reads_cols]) (use assms in \<open>simp add: index_ok_def\<close>, simp)
  with assms show ?thesis
    unfolding read_IndexMeta_def show_IndexMeta_def index_ok_def append_assoc shift_sep
    by (intro reads_fields) simp_all
qed

lemma reads_TabMeta: "tab_ok t \<Longrightarrow> reads_all read_TabMeta (show_TabMeta t) t"
  unfolding read_TabMeta_def show_TabMeta_def tab_ok_def append_assoc
  by (intro reads_fields reads_all_bind [OF reads_cols] reads_all_map [OF reads_n] reads_IndexMeta) simp_all

lemma omap_put_last: "\<forall>x \<in> set (map fst m). x < k \<Longrightarrow> omap_put k v m = m @ [(k, v)]"
  by (induction m) auto

lemma fold_omap_put:
  "sorted_wrt (<) (map fst m) \<Longrightarrow> \<forall>(k, t) \<in> set m. k = f t \<Longrightarrow> fold (\<lambda>t. omap_put (f t) t) (map snd m) [] = m"
proof (induction m rule: rev_induct)
  case (snoc e m)
  then show ?case by (cases e) (auto simp: sorted_wrt_append omap_put_last)
qed simp

lemma reads_all_more: "reads_all p t a \<Longrightarrow> spaces s \<Longrightarrow> reads_all p (t @ s) a"
  unfolding reads_all_def append_assoc by (metis append_assoc spaces_simps(2))

lemma reads_DbMeta:
  assumes "meta_ok db" shows "reads_all read_DbMeta (show_DbMeta db) db"
proof -
  let ?m = "db_tabs db" and ?sh = "\<lambda>t. show_TabMeta t @ nl"
  have ok: "word_ok (db_name db)" "length ?m < 256 ^ 8" "sorted_wrt (<) (map fst ?m)"
    "\<forall>(k, t) \<in> set ?m. k = tab_name t" "\<And>t. t \<in> set (map snd ?m) \<Longrightarrow> tab_ok t"
    using assms by (auto simp: meta_ok_def)
  have m: "fold (\<lambda>t. omap_put (tab_name t) t) (map snd ?m) [] = ?m" by (rule fold_omap_put) (use ok in simp_all)
  have "reads_all (read_n (length (map snd ?m)) read_TabMeta) (concat (map ?sh (map snd ?m))) (map snd ?m)"
    by (intro reads_n reads_all_more reads_TabMeta ok(5)) simp_all
  then have "reads_all (read_n (length ?m) read_TabMeta) (concat (map (\<lambda>e. show_TabMeta (snd e) @ nl) ?m)) (map snd ?m)"
    by (simp add: comp_def)
  then have "reads_all (rbind (read_n (length ?m) read_TabMeta) (\<lambda>ts. rret \<lparr>db_name = db_name db,
       db_tabs = fold (\<lambda>t. omap_put (tab_name t) t) ts []\<rparr>)) (concat (map (\<lambda>e. show_TabMeta (snd e) @ nl) ?m)) db"
    by (rule reads_all_map) (unfold m meta_surj, rule refl)
  then show ?thesis
    unfolding read_DbMeta_def show_DbMeta_def by (intro reads_fields ok)
qed

text \<open>
  Property C21. The meta file round trip: a catalogue whose names are non-empty words without
  white space, whose numbers fit their types, whose tables stand under their own names and
  whose indexes have the columns they count is read back from the text that is written for it,
  and only white space is left of the text.
\<close>

theorem meta_file_roundtrip:
  "meta_ok db \<Longrightarrow> \<exists>rest. spaces rest \<and> read_DbMeta (show_DbMeta db) = Some (db, rest)"
  using reads_DbMeta [of db, unfolded reads_all_def, rule_format, of "[]" "[]"] by simp

definition demo_cols :: "ColMeta list" where
  "demo_cols =
     [\<lparr>cm_tab_name = ''t'', cm_name = ''id'', cm_type = TYPE_INT, cm_len = 4, cm_offset = 0, cm_index = False\<rparr>,
      \<lparr>cm_tab_name = ''t'', cm_name = ''name'', cm_type = TYPE_STRING, cm_len = 12, cm_offset = 4, cm_index = False\<rparr>]"

definition demo_tab :: TabMeta where
  "demo_tab = \<lparr>tab_name = ''t'', tab_cols = demo_cols,
     tab_indexes = [\<lparr>im_tab_name = ''t'', col_tot_len = 4, col_num = 1, im_cols = [hd demo_cols]\<rparr>]\<rparr>"

definition demo_meta :: DbMeta where
  "demo_meta = \<lparr>db_name = ''db'', db_tabs = [(''s'', new_TabMeta ''s''), (''t'', demo_tab)]\<rparr>"

theorem meta_file_roundtrip_witness:
  "meta_ok demo_meta \<and> (\<exists>rest. spaces rest \<and> read_DbMeta (show_DbMeta demo_meta) = Some (demo_meta, rest))"
proof -
  have "meta_ok demo_meta"
    by (simp add: meta_ok_def demo_meta_def demo_tab_def demo_cols_def new_TabMeta_def tab_ok_def index_ok_def col_ok_def word_ok_def
        is_space_def in_range_def)
  then show ?thesis using meta_file_roundtrip by simp
qed

text \<open>
  A name that contains a blank does not survive: here the catalogue of a database
  whose only table is called \<open>a b\<close> cannot be read back at all.
\<close>

theorem meta_file_blank_name:
  "read_DbMeta (show_DbMeta \<lparr>db_name = ''db'', db_tabs = [(''a b'', new_TabMeta ''a b'')]\<rparr>) = None"
  by code_simp

end
