(* ===== verification/Analyze.thy ===== *)
theory Analyze
  imports Ast Sm_Meta
begin

text \<open>
  Semantic analysis, \<open>src/src/analyze/analyze.cpp\<close>: the syntax tree becomes a \<open>Query\<close> whose
  columns are resolved against the catalogue and whose conditions are type checked. Every
  exception is an error value. The lemmas characterise the resolution of column names and show
  that a query that passes has only conditions whose columns exist in its tables and whose two
  sides have compatible types.
\<close>

section \<open>Queries\<close>

record Query =
  q_parse :: TreeNode
  q_conds :: "Condition list"
  q_cols :: "TabCol list"
  q_tables :: "string list"
  q_set_clauses :: "SetClause list"
  q_values :: "Value list"
  q_path :: string
  q_is_all :: bool

definition new_Query :: "TreeNode \<Rightarrow> Query" where
  "new_Query parse =
     \<lparr>q_parse = parse, q_conds = [], q_cols = [], q_tables = [], q_set_clauses = [], q_values = [], q_path = [],
      q_is_all = False\<rparr>"

fun emap :: "('a \<Rightarrow> 'e + 'b) \<Rightarrow> 'a list \<Rightarrow> 'e + 'b list" where
  "emap f [] = Inr []"
| "emap f (x # xs) = ebind (f x) (\<lambda>y. ebind (emap f xs) (\<lambda>ys. Inr (y # ys)))"

text \<open>Conversion of an \<open>int\<close> to \<open>size_t\<close>.\<close>

definition to_size :: "int \<Rightarrow> nat" where
  "to_size i = nat (i mod 256 ^ 8)"

section \<open>The analyser\<close>

text \<open>The loop that infers the table of a column; \<open>t\<close> is the table found so far.\<close>

fun infer_table :: "ColMeta list \<Rightarrow> string \<Rightarrow> string \<Rightarrow> rmdb_error + string" where
  "infer_table [] c t = Inr t"
| "infer_table (col # cols) c t =
     (if cm_name col = c then (if t \<noteq> [] then Inl (AmbiguousColumnError c) else infer_table cols c (cm_tab_name col))
      else infer_table cols c t)"

definition check_column :: "ColMeta list \<Rightarrow> TabCol \<Rightarrow> rmdb_error + TabCol" where
  "check_column all_cols target =
     (if tc_tab_name target = [] then
        ebind (infer_table all_cols (tc_col_name target) []) (\<lambda>t.
          if t = [] then Inl (ColumnNotFoundError (tc_col_name target)) else Inr (TabCol t (tc_col_name target)))
      else case find (\<lambda>col. cm_tab_name col = tc_tab_name target \<and> cm_name col = tc_col_name target) all_cols of
             Some _ \<Rightarrow> Inr target
           | None \<Rightarrow> Inl (ColumnNotFoundError (tc_col_name target)))"

fun get_all_cols :: "DbMeta \<Rightarrow> string list \<Rightarrow> rmdb_error + ColMeta list" where
  "get_all_cols db [] = Inr []"
| "get_all_cols db (n # ns) =
     ebind (get_table n db) (\<lambda>t. ebind (get_all_cols db ns) (\<lambda>cs. Inr (tab_cols t @ cs)))"

fun convert_sv_value :: "ast_Value \<Rightarrow> rmdb_error + Value" where
  "convert_sv_value (IntLit i) = Inr (set_int i (new_Value TYPE_INT))"
| "convert_sv_value (BigintLit i) = Inr (set_bigint i (new_Value TYPE_INT))"
| "convert_sv_value (FloatLit f) = Inr (set_float f (new_Value TYPE_INT))"
| "convert_sv_value (StringLit s) = Inr (set_str s (new_Value TYPE_INT))"
| "convert_sv_value (DatetimeLit s) = Inr (set_datetime s (new_Value TYPE_INT))"
| "convert_sv_value BareValue = Inl (InternalError ''Unexpected sv value type'')"

fun convert_sv_comp_op :: "SvCompOp \<Rightarrow> CompOp" where
  "convert_sv_comp_op SV_OP_EQ = OP_EQ"
| "convert_sv_comp_op SV_OP_NE = OP_NE"
| "convert_sv_comp_op SV_OP_LT = OP_LT"
| "convert_sv_comp_op SV_OP_GT = OP_GT"
| "convert_sv_comp_op SV_OP_LE = OP_LE"
| "convert_sv_comp_op SV_OP_GE = OP_GE"

definition tabcol_of :: "Col \<Rightarrow> TabCol" where
  "tabcol_of c = TabCol (col_tab_name c) (col_col_name c)"

definition get_cond :: "BinaryExpr \<Rightarrow> rmdb_error + Condition" where
  "get_cond e =
     (let c = \<lparr>lhs_col = tabcol_of (be_lhs e), c_op = convert_sv_comp_op (be_op e), is_rhs_val = False,
               rhs_col = TabCol [] [], rhs_val = new_Value TYPE_INT\<rparr> in
      case be_rhs e of
        ValExpr v \<Rightarrow> ebind (convert_sv_value v) (\<lambda>w. Inr (c\<lparr>is_rhs_val := True, rhs_val := w\<rparr>))
      | ColExpr r \<Rightarrow> Inr (c\<lparr>rhs_col := tabcol_of r\<rparr>))"

definition get_clause :: "BinaryExpr list \<Rightarrow> rmdb_error + Condition list" where
  "get_clause sv_conds = emap get_cond sv_conds"

text \<open>The body of the loop of \<open>check_clause\<close>.\<close>

definition check_cond :: "DbMeta \<Rightarrow> ColMeta list \<Rightarrow> Condition \<Rightarrow> rmdb_error + Condition" where
  "check_cond db all_cols c0 =
     ebind (check_column all_cols (lhs_col c0)) (\<lambda>l. let c1 = c0\<lparr>lhs_col := l\<rparr> in
     ebind (if is_rhs_val c1 then Inr c1
            else ebind (check_column all_cols (rhs_col c1)) (\<lambda>r. Inr (c1\<lparr>rhs_col := r\<rparr>))) (\<lambda>c2.
     ebind (get_table (tc_tab_name (lhs_col c2)) db) (\<lambda>lhs_tab.
     ebind (get_col (tc_col_name (lhs_col c2)) lhs_tab) (\<lambda>lcol.
     ebind (if is_rhs_val c2
            then ebind (init_raw (to_size (cm_len lcol)) (rhs_val c2)) (\<lambda>v. Inr (c2\<lparr>rhs_val := v\<rparr>, v_type v))
            else ebind (get_table (tc_tab_name (rhs_col c2)) db) (\<lambda>rhs_tab.
                 ebind (get_col (tc_col_name (rhs_col c2)) rhs_tab) (\<lambda>rcol. Inr (c2, cm_type rcol)))) (\<lambda>(c3, rhs_type).
     if \<not> is_compatible_type (cm_type lcol) rhs_type
     then Inl (IncompatibleTypeError (coltype2str (cm_type lcol)) (coltype2str rhs_type))
     else Inr c3)))))"

definition check_clause :: "DbMeta \<Rightarrow> string list \<Rightarrow> Condition list \<Rightarrow> rmdb_error + Condition list" where
  "check_clause db tab_names conds = ebind (get_all_cols db tab_names) (\<lambda>all_cols. emap (check_cond db all_cols) conds)"

text \<open>The body of the loop over the set clauses of an update, on a copy of the table's metadata.\<close>

definition check_set_clause :: "string \<Rightarrow> TabMeta \<Rightarrow> ast_SetClause \<Rightarrow> rmdb_error + SetClause" where
  "check_set_clause tab t sc =
     (if \<not> is_col (as_col_name sc) t then Inl (ColumnNotFoundError (as_col_name sc))
      else ebind (convert_sv_value (as_val sc)) (\<lambda>val.
           ebind (get_col (as_col_name sc) t) (\<lambda>col.
           if \<not> is_compatible_type (cm_type col) (v_type val)
           then Inl (IncompatibleTypeError (coltype2str (cm_type col)) (coltype2str (v_type val)))
           else ebind (init_raw (to_size (cm_len col)) val) (\<lambda>v.
                  Inr \<lparr>sc_lhs = TabCol tab (as_col_name sc), sc_rhs = v, is_selfadd = as_is_selfadd sc\<rparr>))))"

definition analyze_select :: "DbMeta \<Rightarrow> SelectStmt \<Rightarrow> rmdb_error + Query" where
  "analyze_select db x =
     (let tables = ss_tabs x in
      ebind (emap (\<lambda>t. if \<not> is_table t db then Inl (TableNotFoundError t) else Inr ()) tables) (\<lambda>_.
      let cols = map tabcol_of (ss_cols x) in
      ebind (get_all_cols db tables) (\<lambda>all_cols.
      ebind (if cols = [] then Inr (map (\<lambda>c. TabCol (cm_tab_name c) (cm_name c)) all_cols)
             else emap (check_column all_cols) cols) (\<lambda>sel.
      ebind (get_clause (ss_conds x)) (\<lambda>cs.
      ebind (check_clause db tables cs) (\<lambda>conds.
        Inr ((new_Query (Select (x\<lparr>ss_tabs := []\<rparr>)))\<lparr>q_tables := tables, q_cols := sel, q_is_all := (cols = []), q_conds := conds\<rparr>)))))))"

definition analyze_update :: "DbMeta \<Rightarrow> string \<Rightarrow> ast_SetClause list \<Rightarrow> BinaryExpr list \<Rightarrow> rmdb_error + Query" where
  "analyze_update db tab scs sv_conds =
     (if \<not> is_table tab db then Inl (TableNotFoundError tab)
      else ebind (get_table tab db) (\<lambda>t.
           ebind (emap (check_set_clause tab (copy_TabMeta t)) scs) (\<lambda>sets.
           ebind (get_clause sv_conds) (\<lambda>cs.
           ebind (check_clause db [tab] cs) (\<lambda>conds.
             Inr ((new_Query (UpdateStmt tab scs sv_conds))\<lparr>q_tables := [tab], q_set_clauses := sets, q_conds := conds\<rparr>))))))"

definition do_analyze :: "DbMeta \<Rightarrow> TreeNode \<Rightarrow> rmdb_error + Query" where
  "do_analyze db parse =
     (case parse of
        Select x \<Rightarrow> analyze_select db x
      | UpdateStmt tab scs conds \<Rightarrow> analyze_update db tab scs conds
      | DeleteStmt tab conds \<Rightarrow>
          ebind (get_clause conds) (\<lambda>cs. ebind (check_clause db [tab] cs) (\<lambda>cs'. Inr ((new_Query parse)\<lparr>q_conds := cs'\<rparr>)))
      | InsertStmt tab vals \<Rightarrow> ebind (emap convert_sv_value vals) (\<lambda>vs. Inr ((new_Query parse)\<lparr>q_values := vs\<rparr>))
      | LoadStmt path tab \<Rightarrow> (if \<not> is_table tab db then Inl (TableNotFoundError tab) else Inr (new_Query parse))
      | _ \<Rightarrow> Inr (new_Query parse))"

section \<open>Resolution of column names\<close>

lemma infer_table_eq:
  "\<forall>x \<in> set cols. cm_tab_name x \<noteq> [] \<Longrightarrow>
   infer_table cols c t =
     (case filter (\<lambda>x. cm_name x = c) cols of
        [] \<Rightarrow> Inr t
      | x # xs \<Rightarrow> if t = [] \<and> xs = [] then Inr (cm_tab_name x) else Inl (AmbiguousColumnError c))"
  by (induction cols arbitrary: t) (auto split: list.splits)

text \<open>
  Property C23. How a column is resolved: an unqualified name resolves to the table of the only
  column of that name among the columns of the statement's tables, it is not found if there is
  none and ambiguous if there are several; a qualified name must be one of those columns.
\<close>

theorem column_resolution:
  assumes "\<forall>x \<in> set all_cols. cm_tab_name x \<noteq> []"
  shows "check_column all_cols (TabCol t c) =
     (if t = [] then (case filter (\<lambda>x. cm_name x = c) all_cols of
                        [] \<Rightarrow> Inl (ColumnNotFoundError c)
                      | [x] \<Rightarrow> Inr (TabCol (cm_tab_name x) c)
                      | _ \<Rightarrow> Inl (AmbiguousColumnError c))
      else if (t, c) \<in> (\<lambda>x. (cm_tab_name x, cm_name x)) ` set all_cols then Inr (TabCol t c)
      else Inl (ColumnNotFoundError c))"
proof (cases "t = []")
  case True
  have "cm_tab_name x \<noteq> []" if "filter (\<lambda>x. cm_name x = c) all_cols = x # xs" for x xs
    using assms arg_cong [OF that, of set] by auto
  with True assms show ?thesis by (auto simp: check_column_def infer_table_eq split: list.splits)
next
  case False
  then show ?thesis by (force simp: check_column_def find_None_iff find_Some_iff image_iff split: option.splits)
qed

theorem column_resolution_witness:
  "check_column demo_cols (TabCol [] ''name'') = Inr (TabCol ''t'' ''name'') \<and>
   check_column (demo_cols @ demo_cols) (TabCol [] ''id'') = Inl (AmbiguousColumnError ''id'')"
  using column_resolution [of demo_cols "[]" "''name''"] column_resolution [of "demo_cols @ demo_cols" "[]" "''id''"]
  by (simp add: demo_cols_def)

section \<open>What analysis guarantees\<close>

text \<open>
  The catalogue as the code builds it: a table stands under its name, which is not empty, its
  columns carry the name of the table and have different names.
\<close>

definition cat_ok :: "DbMeta \<Rightarrow> bool" where
  "cat_ok db \<longleftrightarrow> (\<forall>(k, t) \<in> set (db_tabs db). k \<noteq> [] \<and> distinct (map cm_name (tab_cols t)) \<and> (\<forall>c \<in> set (tab_cols t). cm_tab_name c = k))"

definition column_of :: "DbMeta \<Rightarrow> TabCol \<Rightarrow> ColMeta \<Rightarrow> bool" where
  "column_of db tc col \<longleftrightarrow>
     (\<exists>t. get_table (tc_tab_name tc) db = Inr t \<and> col \<in> set (tab_cols t) \<and> cm_name col = tc_col_name tc \<and> cm_tab_name col = tc_tab_name tc)"

definition cond_typed :: "DbMeta \<Rightarrow> string list \<Rightarrow> Condition \<Rightarrow> bool" where
  "cond_typed db tabs c \<longleftrightarrow>
     (\<exists>l. tc_tab_name (lhs_col c) \<in> set tabs \<and> column_of db (lhs_col c) l \<and>
       (if is_rhs_val c then is_compatible_type (cm_type l) (v_type (rhs_val c))
        else \<exists>r. tc_tab_name (rhs_col c) \<in> set tabs \<and> column_of db (rhs_col c) r \<and> is_compatible_type (cm_type l) (cm_type r)))"

fun tables_of :: "TreeNode \<Rightarrow> string list" where
  "tables_of (Select x) = ss_tabs x"
| "tables_of (UpdateStmt tab scs cs) = [tab]"
| "tables_of (DeleteStmt tab cs) = [tab]"
| "tables_of _ = []"

lemma get_table_in: "get_table n db = Inr t \<Longrightarrow> (n, t) \<in> set (db_tabs db)"
  by (auto simp: get_table_def map_of_SomeD split: option.splits)

lemma get_all_cols_in:
  "get_all_cols db ns = Inr cs \<Longrightarrow> c \<in> set cs \<Longrightarrow> \<exists>n t. n \<in> set ns \<and> get_table n db = Inr t \<and> c \<in> set (tab_cols t)"
proof (induction ns arbitrary: cs)
  case (Cons n ns)
  then obtain t ds where t: "get_table n db = Inr t" "get_all_cols db ns = Inr ds" "cs = tab_cols t @ ds" by (auto simp: ebind_eq_Inr)
  with Cons.prems(2) Cons.IH [of ds] show ?case by (cases "c \<in> set (tab_cols t)") (use t in auto)
qed simp

lemma all_cols_named:
  assumes "cat_ok db" and "get_all_cols db ns = Inr cs" and "c \<in> set cs"
  shows "cm_tab_name c \<in> set ns \<and> cm_tab_name c \<noteq> [] \<and> (\<exists>t. get_table (cm_tab_name c) db = Inr t \<and> c \<in> set (tab_cols t))"
proof -
  obtain n t where n: "n \<in> set ns" "get_table n db = Inr t" "c \<in> set (tab_cols t)" using get_all_cols_in [OF assms(2,3)] by blast
  then have "cm_tab_name c = n" "n \<noteq> []" using assms(1) get_table_in [OF n(2)] by (auto simp: cat_ok_def)
  with n show ?thesis by blast
qed

lemma check_column_column:
  assumes k: "cat_ok db" and g: "get_all_cols db ns = Inr cs" and ch: "check_column cs tc = Inr tc'"
  shows "tc_tab_name tc' \<in> set ns \<and> (\<exists>l. column_of db tc' l)"
proof -
  obtain t c where tc: "tc = TabCol t c" by (cases tc)
  note named = all_cols_named [OF k g]
  have ne: "\<forall>x \<in> set cs. cm_tab_name x \<noteq> []" using named by blast
  obtain l where l: "l \<in> set cs" "tc' = TabCol (cm_tab_name l) (cm_name l)"
  proof (cases "t = []")
    case True
    obtain x where x: "filter (\<lambda>x. cm_name x = c) cs = [x]" "tc' = TabCol (cm_tab_name x) c"
      using ch unfolding tc check_column_def by (auto simp: True ebind_eq_Inr infer_table_eq [OF ne] split: list.splits if_splits)
    have "x \<in> set (filter (\<lambda>x. cm_name x = c) cs)" unfolding x(1) by simp
    then have "x \<in> set cs" "cm_name x = c" by auto
    with x that show ?thesis by blast
  next
    case False
    then obtain x where "x \<in> set cs" "cm_tab_name x = t" "cm_name x = c" "tc' = tc"
      using ch by (auto simp: tc check_column_def find_Some_iff split: option.splits) (metis nth_mem)
    with that tc show ?thesis by blast
  qed
  with named [OF l(1)] show ?thesis by (auto simp: column_of_def)
qed

text \<open>The lookup by name finds the column itself.\<close>

lemma get_col_column:
  assumes "get_table (tc_tab_name tc) db = Inr t" and "get_col (tc_col_name tc) t = Inr col" and "cat_ok db"
  shows "column_of db tc col"
proof -
  have "col \<in> set (tab_cols t)" "cm_name col = tc_col_name tc"
    using assms(2) by (auto simp: get_col_def find_Some_iff split: option.splits)
  moreover have "cm_tab_name col = tc_tab_name tc" using assms(3) get_table_in [OF assms(1)] calculation by (auto simp: cat_ok_def)
  ultimately show ?thesis using assms(1) by (auto simp: column_of_def)
qed

lemma init_raw_keeps: "init_raw n v = Inr w \<Longrightarrow> \<exists>r. w = v\<lparr>v_raw := Some r\<rparr>"
  by (auto simp: init_raw_def Let_def ebind_eq_Inr)

lemma check_cond_typed:
  assumes k: "cat_ok db" and g: "get_all_cols db ns = Inr cs" and ch: "check_cond db cs c = Inr c'"
  shows "cond_typed db ns c'"
proof -
  note cc = check_column_column [OF k g]
  obtain l where l: "check_column cs (lhs_col c) = Inr l" using ch by (auto simp: check_cond_def ebind_eq_Inr)
  show ?thesis
  proof (cases "is_rhs_val c")
    case True
    obtain t col v where "get_table (tc_tab_name l) db = Inr t" "get_col (tc_col_name l) t = Inr col"
      "is_compatible_type (cm_type col) (v_type v)" "c' = c\<lparr>lhs_col := l, rhs_val := v\<rparr>"
      using ch True by (auto simp: check_cond_def ebind_eq_Inr l Let_def split: if_splits)
    with True cc [OF l] get_col_column [of l db t col] k show ?thesis by (auto simp: cond_typed_def)
  next
    case False
    obtain r t col t' col' where "check_column cs (rhs_col c) = Inr r" "get_table (tc_tab_name l) db = Inr t"
      "get_col (tc_col_name l) t = Inr col" "get_table (tc_tab_name r) db = Inr t'" "get_col (tc_col_name r) t' = Inr col'"
      "is_compatible_type (cm_type col) (cm_type col')" "c' = c\<lparr>lhs_col := l, rhs_col := r\<rparr>"
      using ch False by (auto simp: check_cond_def ebind_eq_Inr l Let_def split: if_splits)
    with False cc [OF l] cc [of "rhs_col c" r] get_col_column [of l db t col] get_col_column [of r db t' col'] k
    show ?thesis by (auto simp: cond_typed_def)
  qed
qed

lemma emap_Inr: "emap f xs = Inr ys \<Longrightarrow> length ys = length xs \<and> (\<forall>i < length xs. f (xs ! i) = Inr (ys ! i))"
  by (induction xs arbitrary: ys) (auto simp: ebind_eq_Inr nth_Cons split: nat.splits)

lemma emap_all: "emap f xs = Inr ys \<Longrightarrow> y \<in> set ys \<Longrightarrow> \<exists>x \<in> set xs. f x = Inr y"
  using emap_Inr [of f xs ys] by (metis in_set_conv_nth)

lemma check_clause_typed: "cat_ok db \<Longrightarrow> check_clause db ns cs = Inr cs' \<Longrightarrow> c \<in> set cs' \<Longrightarrow> cond_typed db ns c"
  by (auto simp: check_clause_def ebind_eq_Inr dest!: emap_all intro: check_cond_typed)

lemma analysed_conditions_typed:
  "cat_ok db \<Longrightarrow> do_analyze db parse = Inr q \<Longrightarrow> c \<in> set (q_conds q) \<Longrightarrow> cond_typed db (tables_of parse) c"
  by (auto simp: do_analyze_def analyze_select_def analyze_update_def ebind_eq_Inr new_Query_def Let_def
      intro: check_clause_typed split: TreeNode.splits if_splits)

end
