(* ===== verification/Executor.thy ===== *)
theory Executor
  imports Analyze Partial_Commands
begin

text \<open>
  The operator interface and the operators that work on any child: the evaluation of
  conditions (\<open>src/src/execution/executor_utils.hpp\<close>), \<open>AbstractExecutor\<close>
  (\<open>executor_abstract.h\<close>) and \<open>ProjectionExecutor\<close>. An operator object is its cursor (the
  fields its methods change) together with a table of its virtual methods; all operators of a
  tree work on one shared world. What a child promises to its parent is the locale
  \<open>tuple_source\<close>: it goes through a list of rows.
\<close>

section \<open>Conditions on a record\<close>

definition same_col :: "TabCol \<Rightarrow> ColMeta \<Rightarrow> bool" where
  "same_col tc col \<longleftrightarrow> cm_tab_name col = tc_tab_name tc \<and> cm_name col = tc_col_name tc"

text \<open>\<open>*std::find_if(\<dots>)\<close>: dereferencing the end is undefined behaviour.\<close>

definition find_col :: "ColMeta list \<Rightarrow> TabCol \<Rightarrow> rmdb_error + ColMeta" where
  "find_col cols tc = (case find (same_col tc) cols of None \<Rightarrow> Inl (UndefinedBehaviour ''*end()'') | Some col \<Rightarrow> Inr col)"

definition column_value :: "byte list \<Rightarrow> ColMeta \<Rightarrow> rmdb_error + Value" where
  "column_value rec col =
     (if cm_offset col < 0 \<or> length rec < nat (cm_offset col) then Inl (UndefinedBehaviour ''record->data'')
      else load_raw (to_size (cm_len col)) (drop (nat (cm_offset col)) rec) (new_Value (cm_type col)))"

fun checkConds :: "byte list \<Rightarrow> Condition list \<Rightarrow> ColMeta list \<Rightarrow> rmdb_error + bool" where
  "checkConds rec [] cols = Inr True"
| "checkConds rec (c # cs) cols =
     ebind (find_col cols (lhs_col c)) (\<lambda>lcol.
     ebind (column_value rec lcol) (\<lambda>lval.
     ebind (if is_rhs_val c then Inr (rhs_val c) else ebind (find_col cols (rhs_col c)) (column_value rec)) (\<lambda>rval.
     ebind (binop (c_op c) lval rval) (\<lambda>b. if \<not> b then Inr False else checkConds rec cs cols))))"

section \<open>Operators\<close>

text \<open>
  The virtual methods of an operator over cursors of type \<open>'c\<close>. \<open>Next\<close> may change the cursor;
  a null record is an error there.
\<close>

record ('w, 'c) executor =
  ex_beginTuple :: "'c \<Rightarrow> ('w, 'c) pcmd"
  ex_nextTuple :: "'c \<Rightarrow> ('w, 'c) pcmd"
  ex_is_end :: "'c \<Rightarrow> rmdb_error + bool"
  ex_Next :: "'c \<Rightarrow> ('w, byte list \<times> 'c) pcmd"
  ex_cols :: "ColMeta list"
  ex_tupleLen :: nat
  ex_get_col_offset :: "TabCol \<Rightarrow> rmdb_error + ColMeta"

text \<open>\<open>ColMeta()\<close>, what \<open>AbstractExecutor::get_col_offset\<close> returns.\<close>

definition empty_ColMeta :: ColMeta where
  "empty_ColMeta = \<lparr>cm_tab_name = [], cm_name = [], cm_type = TYPE_INT, cm_len = 0, cm_offset = 0, cm_index = False\<rparr>"

definition abstract_get_col_offset :: "TabCol \<Rightarrow> rmdb_error + ColMeta" where
  "abstract_get_col_offset target = Inr empty_ColMeta"

definition abstract_get_col :: "ColMeta list \<Rightarrow> TabCol \<Rightarrow> rmdb_error + ColMeta" where
  "abstract_get_col rec_cols target =
     (case find (same_col target) rec_cols of
        None \<Rightarrow> Inl (ColumnNotFoundError (tc_tab_name target @ ''.'' @ tc_col_name target))
      | Some col \<Rightarrow> Inr col)"

text \<open>
  The contract of a child operator: \<open>ok\<close> is what its world satisfies throughout, \<open>rows\<close> are
  the rows it delivers, \<open>at c ts\<close> says that the cursor stands before the rows \<open>ts\<close>, \<open>read c ts\<close>
  that it stands there and the first of them may have been fetched. No operation runs forever,
  and none throws if \<open>G\<close> holds.
\<close>

locale tuple_source =
  fixes ex :: "('w, 'c) executor" and G :: bool and ok :: "'w \<Rightarrow> bool" and start :: "'c \<Rightarrow> bool"
    and at :: "'c \<Rightarrow> byte list list \<Rightarrow> bool" and read :: "'c \<Rightarrow> byte list list \<Rightarrow> bool" and rows :: "byte list list"
  assumes begin_ends: "ok w \<Longrightarrow> start c \<Longrightarrow> ends (ex_beginTuple ex c) w G (\<lambda>c' w'. ok w' \<and> at c' rows)"
    and next_ends: "ok w \<Longrightarrow> read c (t # ts) \<Longrightarrow> ends (ex_nextTuple ex c) w G (\<lambda>c' w'. ok w' \<and> at c' ts)"
    and Next_ends: "ok w \<Longrightarrow> at c (t # ts) \<Longrightarrow> ends (ex_Next ex c) w G (\<lambda>r w'. fst r = t \<and> ok w' \<and> read (snd r) (t # ts))"
    and is_end_iff: "read c ts \<Longrightarrow> ex_is_end ex c = Inr (ts = [])"
    and at_read: "at c ts \<Longrightarrow> read c ts"

text \<open>A child whose current row may be fetched again and that may be started again.\<close>

locale replay_source = tuple_source +
  assumes read_at: "read c ts \<Longrightarrow> at c ts" and restart: "at c ts \<Longrightarrow> start c"

section \<open>Going through a child\<close>

text \<open>
  The loop of a client, \<open>for (ex->beginTuple(); !ex->is_end(); ex->nextTuple())\<close> with
  \<open>ex->Next()\<close> in its body: the rows in the order they come, and the cursor at the end.
\<close>

partial_function (option) fetch_rows :: "('w, 'c) executor \<Rightarrow> 'c \<Rightarrow> 'w \<Rightarrow> ((rmdb_error + byte list list \<times> 'c) \<times> 'w) option" where
  "fetch_rows ex c w =
     pbind (pres (ex_is_end ex c)) (\<lambda>e.
       if e then pret ([], c)
       else pbind (ex_Next ex c) (\<lambda>r. pbind (ex_nextTuple ex (snd r)) (\<lambda>c.
              pbind (fetch_rows ex c) (\<lambda>rest. pret (fst r # fst rest, snd rest))))) w"

definition all_rows :: "('w, 'c) executor \<Rightarrow> 'c \<Rightarrow> ('w, byte list list \<times> 'c) pcmd" where
  "all_rows ex c = pbind (ex_beginTuple ex c) (fetch_rows ex)"

lemma ends_fetch_rows:
  "ends (fetch_rows ex c) w G Q \<longleftrightarrow>
   (case ex_is_end ex c of Inl _ \<Rightarrow> \<not> G | Inr e \<Rightarrow>
     (if e then Q ([], c) w
      else ends (ex_Next ex c) w G (\<lambda>r w1. ends (ex_nextTuple ex (snd r)) w1 G (\<lambda>c2 w2.
             ends (fetch_rows ex c2) w2 G (\<lambda>rest. Q (fst r # fst rest, snd rest))))))"
proof -
  have "fetch_rows ex c = pbind (pres (ex_is_end ex c)) (\<lambda>e. if e then pret ([], c)
      else pbind (ex_Next ex c) (\<lambda>r. pbind (ex_nextTuple ex (snd r)) (\<lambda>c.
             pbind (fetch_rows ex c) (\<lambda>rest. pret (fst r # fst rest, snd rest)))))" (is "_ = ?m")
    by (rule ext) (rule fetch_rows.simps)
  then have "ends (fetch_rows ex c) w G Q \<longleftrightarrow> ends ?m w G Q" by (rule arg_cong)
  then show ?thesis by (simp add: ends_pres split: sum.split)
qed

context tuple_source
begin

lemma fetch_rows_all: "ok w \<Longrightarrow> at c ts \<Longrightarrow> ends (fetch_rows ex c) w G (\<lambda>r w'. fst r = ts \<and> at (snd r) [] \<and> ok w')"
proof (induction ts arbitrary: c w)
  case Nil
  have "ex_is_end ex c = Inr True" using is_end_iff [OF at_read [OF Nil(2)]] by simp
  then show ?case using Nil by (simp add: ends_fetch_rows)
next
  case (Cons t ts)
  have e: "ex_is_end ex c = Inr False" using is_end_iff [OF at_read [OF Cons.prems(2)]] by simp
  have "ends (ex_nextTuple ex c1) w1 G (\<lambda>c2 w2. ends (fetch_rows ex c2) w2 G (\<lambda>r w'. fst r = ts \<and> at (snd r) [] \<and> ok w'))"
    if "ok w1" "read c1 (t # ts)" for c1 w1
    by (rule ends_mono [OF next_ends [OF that]]) (use Cons.IH in blast)
  then have "ends (ex_Next ex c) w G (\<lambda>r w1. ends (ex_nextTuple ex (snd r)) w1 G (\<lambda>c2 w2.
      ends (fetch_rows ex c2) w2 G (\<lambda>rest w'. fst r # fst rest = t # ts \<and> at (snd rest) [] \<and> ok w')))"
    by (intro ends_mono [OF Next_ends [OF Cons.prems]]) auto
  then show ?case by (subst ends_fetch_rows) (simp add: e)
qed

lemma all_rows_rows: "ok w \<Longrightarrow> start c \<Longrightarrow> ends (all_rows ex c) w G (\<lambda>r w'. fst r = rows \<and> at (snd r) [] \<and> ok w')"
  unfolding all_rows_def ends_bind by (rule ends_mono [OF begin_ends]) (use fetch_rows_all in blast)+

end

section \<open>Conditions that passed the analysis can be evaluated\<close>

text \<open>The place of a column in a record: inside it, and as long as its type needs.\<close>

definition col_fits :: "nat \<Rightarrow> ColMeta \<Rightarrow> bool" where
  "col_fits n col \<longleftrightarrow> 0 \<le> cm_offset col \<and> 0 \<le> cm_len col \<and> cm_len col < 256 ^ 4 \<and> nat (cm_offset col) + nat (cm_len col) \<le> n \<and>
     (case cm_type col of TYPE_INT \<Rightarrow> cm_len col = 4 | TYPE_BIGINT \<Rightarrow> cm_len col = 8 | TYPE_FLOAT \<Rightarrow> cm_len col = 4 | _ \<Rightarrow> True)"

definition col_sig :: "ColMeta \<Rightarrow> string \<times> string \<times> ColType" where
  "col_sig c = (cm_tab_name c, cm_name c, cm_type c)"

lemma to_size_id: "0 \<le> i \<Longrightarrow> i < 256 ^ 8 \<Longrightarrow> to_size i = nat i"
  by (simp add: to_size_def)

lemma column_value_ok: "col_fits (length rec) col \<Longrightarrow> \<exists>v. column_value rec col = Inr v \<and> v_type v = cm_type col"
  by (cases "cm_type col")
    (auto simp: col_fits_def column_value_def to_size_id load_raw_def peek_def new_Value_def put_low_def)

lemma find_col_some:
  "col \<in> set cols \<Longrightarrow> same_col tc col \<Longrightarrow> \<exists>col'. find_col cols tc = Inr col' \<and> col' \<in> set cols \<and> same_col tc col'"
proof (cases "find (same_col tc) cols")
  case (Some x)
  then have "x \<in> set cols" "same_col tc x" by (auto simp: find_Some_iff)
  with Some show ?thesis by (simp add: find_col_def)
qed (auto simp: find_None_iff)

lemma table_in_all_cols:
  "get_all_cols db ns = Inr cs \<Longrightarrow> n \<in> set ns \<Longrightarrow> get_table n db = Inr t \<Longrightarrow> set (tab_cols t) \<subseteq> set cs"
  by (induction ns arbitrary: cs) (auto simp: ebind_eq_Inr)

text \<open>In a good catalogue the name of a column determines its type.\<close>

lemma same_name_same_type:
  assumes "cat_ok db" and "get_all_cols db ns = Inr cs" and "column_of db tc l" and "c \<in> set cs" and "same_col tc c"
  shows "cm_type c = cm_type l"
proof -
  obtain t where t: "get_table (tc_tab_name tc) db = Inr t" "l \<in> set (tab_cols t)" "cm_name l = tc_col_name tc"
    using assms(3) by (auto simp: column_of_def)
  have "c \<in> set (tab_cols t)" using all_cols_named [OF assms(1,2,4)] assms(5) t(1) by (auto simp: same_col_def)
  moreover have "distinct (map cm_name (tab_cols t))" using assms(1) get_table_in [OF t(1)] by (auto simp: cat_ok_def)
  ultimately have "c = l" using t assms(5) inj_onD [of cm_name "set (tab_cols t)" c l] by (simp add: same_col_def distinct_map)
  then show ?thesis by simp
qed

lemma column_evaluates:
  assumes k: "cat_ok db" "get_all_cols db ns = Inr cs" and c: "col_sig ` set cols = col_sig ` set cs"
    and l: "column_of db tc l" "tc_tab_name tc \<in> set ns" and fits: "\<forall>col \<in> set cols. col_fits (length rec) col"
  shows "\<exists>col v. find_col cols tc = Inr col \<and> column_value rec col = Inr v \<and> v_type v = cm_type l"
proof -
  have "l \<in> set cs" "same_col tc l" using l table_in_all_cols [OF k(2) l(2)] by (auto simp: column_of_def same_col_def)
  then have "col_sig l \<in> col_sig ` set cols" unfolding c by simp
  then obtain c0 where "c0 \<in> set cols" "col_sig l = col_sig c0" by (rule imageE)
  then have "c0 \<in> set cols" "same_col tc c0" using \<open>same_col tc l\<close> by (simp_all add: col_sig_def same_col_def)
  then obtain col where col: "find_col cols tc = Inr col" "col \<in> set cols" "same_col tc col" using find_col_some by blast
  then have "col_sig col \<in> col_sig ` set cs" using c by blast
  then obtain c1 where "c1 \<in> set cs" "col_sig c1 = col_sig col" by (metis imageE)
  then have "cm_type col = cm_type l" using same_name_same_type [OF k l(1), of c1] col(3) by (simp add: col_sig_def same_col_def)
  with col column_value_ok [of rec col] fits show ?thesis by auto
qed

lemma typed_conditions_evaluate:
  assumes k: "cat_ok db" "get_all_cols db ns = Inr cs" and c: "col_sig ` set cols = col_sig ` set cs"
    and fits: "\<forall>col \<in> set cols. col_fits (length rec) col"
  shows "\<forall>c \<in> set conds. cond_typed db ns c \<Longrightarrow> \<exists>b. checkConds rec conds cols = Inr b"
proof (induction conds)
  case (Cons c conds)
  note ce = column_evaluates [OF k c _ _ fits]
  obtain l where l: "column_of db (lhs_col c) l" "tc_tab_name (lhs_col c) \<in> set ns"
    "if is_rhs_val c then is_compatible_type (cm_type l) (v_type (rhs_val c))
     else \<exists>r. tc_tab_name (rhs_col c) \<in> set ns \<and> column_of db (rhs_col c) r \<and> is_compatible_type (cm_type l) (cm_type r)"
    using Cons.prems by (auto simp: cond_typed_def)
  obtain lcol lv where lv: "find_col cols (lhs_col c) = Inr lcol" "column_value rec lcol = Inr lv" "v_type lv = cm_type l"
    using ce [OF l(1,2)] by blast
  obtain rv where rv: "(if is_rhs_val c then Inr (rhs_val c) else ebind (find_col cols (rhs_col c)) (column_value rec)) = Inr rv"
    "is_compatible_type (v_type lv) (v_type rv)"
    using l(3) lv(3) ce [of "rhs_col c"] by (fastforce split: if_splits)
  obtain b where "binop (c_op c) lv rv = Inr b" using compatible_binop [OF rv(2)] by blast
  moreover obtain b' where "checkConds rec conds cols = Inr b'" using Cons by auto
  ultimately have "checkConds rec (c # conds) cols = Inr (b \<and> b')" using lv rv(1) by simp
  then show ?case by blast
qed (rule exI, rule checkConds.simps)

text \<open>
  Property C22. Type soundness of the analysis: if a statement passes, its conditions are
  evaluated on every record that has room for its columns without any exception, undefined
  lookup or failed assertion, whatever the contents of the record.
\<close>

theorem analysed_conditions_evaluate:
  assumes "cat_ok db" and "do_analyze db parse = Inr q" and "get_all_cols db (tables_of parse) = Inr cs"
    and "col_sig ` set cols = col_sig ` set cs" and "\<forall>col \<in> set cols. col_fits (length rec) col"
  shows "\<exists>b. checkConds rec (q_conds q) cols = Inr b"
  using typed_conditions_evaluate [OF assms(1,3,4,5)] analysed_conditions_typed [OF assms(1,2)] by blast

text \<open>A statement on the demonstration catalogue: \<open>DELETE FROM t WHERE id = 7\<close>.\<close>

definition demo_delete :: TreeNode where
  "demo_delete = DeleteStmt ''t'' [\<lparr>be_lhs = Col [] ''id'', be_op = SV_OP_EQ, be_rhs = ValExpr (IntLit 7)\<rparr>]"

lemma demo_meta_table: "get_table ''t'' demo_meta = Inr demo_tab" "tab_cols demo_tab = demo_cols"
  by (simp_all add: get_table_def demo_meta_def demo_tab_def)

lemma demo_cat_ok: "cat_ok demo_meta"
  by (simp add: cat_ok_def demo_meta_def demo_tab_def demo_cols_def new_TabMeta_def)

theorem analysed_conditions_evaluate_witness:
  "\<exists>q. do_analyze demo_meta demo_delete = Inr q \<and> (\<exists>b. checkConds (replicate 16 0) (q_conds q) demo_cols = Inr b)"
proof -
  have g: "get_all_cols demo_meta (tables_of demo_delete) = Inr demo_cols"
    by (simp add: demo_delete_def demo_meta_table)
  have "check_cond demo_meta demo_cols (projr (get_cond \<lparr>be_lhs = Col [] ''id'', be_op = SV_OP_EQ, be_rhs = ValExpr (IntLit 7)\<rparr>)) \<noteq> Inl e" for e
    by (simp add: check_cond_def get_cond_def tabcol_of_def Let_def check_column_def demo_cols_def demo_meta_table
        get_col_def to_size_def init_raw_def set_int_def put_low_def new_Value_def poke_def is_compatible_type_eq numeric_def)
  then obtain c where c: "check_cond demo_meta demo_cols (projr (get_cond \<lparr>be_lhs = Col [] ''id'', be_op = SV_OP_EQ, be_rhs = ValExpr (IntLit 7)\<rparr>)) = Inr c"
    by (metis sum.exhaust)
  obtain q where q: "do_analyze demo_meta demo_delete = Inr q"
    using c g by (simp add: do_analyze_def demo_delete_def get_clause_def check_clause_def get_cond_def Let_def)
  moreover have "\<exists>b. checkConds (replicate 16 0) (q_conds q) demo_cols = Inr b"
    by (rule analysed_conditions_evaluate [OF demo_cat_ok q g]) (simp_all add: demo_cols_def col_fits_def)
  ultimately show ?thesis by blast
qed

end
