(* ===== verification/Operators.thy ===== *)
theory Operators
  imports Executor "HOL-Library.Product_Lexorder" "HOL-Library.Multiset"
begin

text \<open>
  Projection and sorting: \<open>src/src/execution/executor_projection.h\<close> and \<open>execution_sort.h\<close>.
  Both are shown to keep the contract of a child: a projection delivers the projected rows of
  its child in order, a sort delivers its child's rows ordered by its keys, up to its limit.
\<close>

section \<open>Copying fields\<close>

text \<open>\<open>std::copy_n\<close> between two records; an access outside them is undefined behaviour.\<close>

definition copy_n :: "byte list \<Rightarrow> int \<Rightarrow> int \<Rightarrow> byte list \<Rightarrow> int \<Rightarrow> rmdb_error + byte list" where
  "copy_n src soff n dst doff =
     (if n \<le> 0 then Inr dst
      else if soff < 0 \<or> doff < 0 \<or> int (length src) < soff + n \<or> int (length dst) < doff + n
      then Inl (UndefinedBehaviour ''std::copy_n'')
      else Inr (write_at (nat doff) (read_at (nat soff) (nat n) src) dst))"

section \<open>Projection\<close>

text \<open>The loop of the constructor: the selected columns with their offsets in the result, and its length.\<close>

fun proj_cols :: "ColMeta list \<Rightarrow> TabCol list \<Rightarrow> nat \<Rightarrow> rmdb_error + ColMeta list \<times> nat" where
  "proj_cols prev_cols [] off = Inr ([], off)"
| "proj_cols prev_cols (s # sel) off =
     ebind (abstract_get_col prev_cols s) (\<lambda>col.
     ebind (proj_cols prev_cols sel ((off + to_size (cm_len col)) mod 256 ^ 8)) (\<lambda>r.
       Inr (col\<lparr>cm_offset := wrap_int 4 (int off)\<rparr> # fst r, snd r)))"

text \<open>The loop of \<open>Next\<close>.\<close>

fun proj_copy :: "ColMeta list \<Rightarrow> ColMeta list \<Rightarrow> byte list \<Rightarrow> byte list \<Rightarrow> rmdb_error + byte list" where
  "proj_copy prev_cols [] src res = Inr res"
| "proj_copy prev_cols (col # cols) src res =
     ebind (find_col prev_cols (TabCol (cm_tab_name col) (cm_name col))) (\<lambda>raw_col.
     ebind (copy_n src (cm_offset raw_col) (cm_len col) res (cm_offset col)) (\<lambda>res'.
       proj_copy prev_cols cols src res'))"

definition proj_Next :: "('w, 'c) executor \<Rightarrow> ColMeta list \<Rightarrow> nat \<Rightarrow> 'c \<Rightarrow> ('w, byte list \<times> 'c) pcmd" where
  "proj_Next prev cols len c =
     pbind (ex_Next prev c) (\<lambda>r.
     pbind (pres (proj_copy (ex_cols prev) cols (fst r) (replicate len 0))) (\<lambda>res. pret (res, snd r)))"

definition ProjectionExecutor :: "('w, 'c) executor \<Rightarrow> TabCol list \<Rightarrow> rmdb_error + ('w, 'c) executor" where
  "ProjectionExecutor prev sel_cols =
     ebind (proj_cols (ex_cols prev) sel_cols 0) (\<lambda>r.
       Inr \<lparr>ex_beginTuple = ex_beginTuple prev, ex_nextTuple = ex_nextTuple prev, ex_is_end = ex_is_end prev,
            ex_Next = proj_Next prev (fst r) (snd r), ex_cols = fst r, ex_tupleLen = snd r,
            ex_get_col_offset = abstract_get_col_offset\<rparr>)"

text \<open>What it computes: the selected fields side by side.\<close>

definition field :: "byte list \<Rightarrow> ColMeta \<Rightarrow> byte list" where
  "field row col = read_at (nat (cm_offset col)) (nat (cm_len col)) row"

definition sel_col :: "ColMeta list \<Rightarrow> TabCol \<Rightarrow> ColMeta" where
  "sel_col prev_cols s = the (find (same_col s) prev_cols)"

definition project :: "ColMeta list \<Rightarrow> TabCol list \<Rightarrow> byte list \<Rightarrow> byte list" where
  "project prev_cols sel row = concat (map (\<lambda>s. field row (sel_col prev_cols s)) sel)"

definition sel_len :: "ColMeta list \<Rightarrow> TabCol list \<Rightarrow> nat" where
  "sel_len prev_cols sel = (\<Sum>s \<leftarrow> sel. nat (cm_len (sel_col prev_cols s)))"

lemma abstract_get_col_sel:
  "abstract_get_col pc s = Inr col \<Longrightarrow> find (same_col s) pc = Some col \<and> sel_col pc s = col \<and> same_col s col \<and> col \<in> set pc"
proof (cases "find (same_col s) pc")
  case (Some x)
  then have "same_col s x" "x \<in> set pc" by (auto simp: find_Some_iff)
  with Some show "abstract_get_col pc s = Inr col \<Longrightarrow> ?thesis" by (simp add: abstract_get_col_def sel_col_def)
qed (simp add: abstract_get_col_def)

lemma sel_len_Cons: "sel_len pc (s # sel) = nat (cm_len (sel_col pc s)) + sel_len pc sel"
  by (simp add: sel_len_def)

lemma project_Cons: "project pc (s # sel) row = field row (sel_col pc s) @ project pc sel row"
  by (simp add: project_def)

lemma copy_field:
  assumes "col_fits (length row) col" and "length res0 = off" and "nat (cm_len col) \<le> k"
  shows "copy_n row (cm_offset col) (cm_len col) (res0 @ replicate k 0) (int off) =
     Inr (res0 @ field row col @ replicate (k - nat (cm_len col)) 0)"
  using assms by (auto simp: copy_n_def col_fits_def field_def write_at_def read_at_def)

lemma length_field: "col_fits (length row) col \<Longrightarrow> length (field row col) = nat (cm_len col)"
  by (auto simp: field_def read_at_def col_fits_def min_def)

lemma proj_copy_project:
  "proj_cols pc sel off = Inr (cols, n) \<Longrightarrow> \<forall>col \<in> set pc. col_fits (length row) col \<Longrightarrow> off + sel_len pc sel < 2 ^ 31 \<Longrightarrow>
   length res0 = off \<Longrightarrow> sel_len pc sel \<le> k \<Longrightarrow>
   n = off + sel_len pc sel \<and>
   proj_copy pc cols row (res0 @ replicate k 0) = Inr (res0 @ project pc sel row @ replicate (k - sel_len pc sel) 0)"
proof (induction sel arbitrary: off cols res0 k)
  case Nil
  then show ?case by (simp add: sel_len_def project_def)
next
  case (Cons s sel)
  obtain col cols' where col: "abstract_get_col pc s = Inr col"
    and rest: "proj_cols pc sel ((off + to_size (cm_len col)) mod 256 ^ 8) = Inr (cols', n)"
    and cols: "cols = col\<lparr>cm_offset := wrap_int 4 (int off)\<rparr> # cols'"
    using Cons.prems(1) by (auto simp: ebind_eq_Inr)
  note sc = abstract_get_col_sel [OF col]
  let ?l = "nat (cm_len col)"
  have fits: "col_fits (length row) col" using sc Cons.prems(2) by blast
  have tl: "to_size (cm_len col) = ?l" using fits by (simp add: col_fits_def to_size_id)
  have sum: "sel_len pc (s # sel) = ?l + sel_len pc sel" using sc by (simp add: sel_len_Cons)
  have off: "(off + to_size (cm_len col)) mod 256 ^ 8 = off + ?l" using Cons.prems(3) tl sum by simp
  have w: "wrap_int 4 (int off) = int off" using Cons.prems(3) by (simp add: in_range_def)
  have fc: "find_col pc (TabCol (cm_tab_name col) (cm_name col)) = Inr col"
    using sc by (cases s) (simp add: find_col_def same_col_def)
  note cp = copy_field [OF fits Cons.prems(4), of k]
  have "n = off + ?l + sel_len pc sel \<and> proj_copy pc cols' row ((res0 @ field row col) @ replicate (k - ?l) 0) =
      Inr ((res0 @ field row col) @ project pc sel row @ replicate (k - ?l - sel_len pc sel) 0)"
    by (rule Cons.IH [OF rest [unfolded off] Cons.prems(2)]) (use Cons.prems(3-5) sum length_field [OF fits] in simp_all)
  with cp fc cols sum w sc Cons.prems(5) show ?case by (simp add: project_Cons)
qed

text \<open>
  A projection of a child whose rows have room for the child's columns; the projected record is
  shorter than two gigabytes.
\<close>

locale projection = tuple_source prev G ok start at read rows
  for prev :: "('w, 'c) executor" and G ok start at read rows +
  fixes sel :: "TabCol list" and out :: "('w, 'c) executor"
  assumes built: "ProjectionExecutor prev sel = Inr out"
    and fits: "t \<in> set rows \<Longrightarrow> col \<in> set (ex_cols prev) \<Longrightarrow> col_fits (length t) col"
    and small: "sel_len (ex_cols prev) sel < 2 ^ 31"
    and at_rows: "read c ts \<Longrightarrow> set ts \<subseteq> set rows"
begin

abbreviation proj :: "byte list \<Rightarrow> byte list" where
  "proj \<equiv> project (ex_cols prev) sel"

lemma out_methods:
  "ex_beginTuple out = ex_beginTuple prev" "ex_nextTuple out = ex_nextTuple prev" "ex_is_end out = ex_is_end prev"
  using built by (auto simp: ProjectionExecutor_def ebind_eq_Inr)

lemma out_Next:
  assumes "t \<in> set rows"
  shows "\<exists>cols n. ex_Next out = proj_Next prev cols n \<and> proj_copy (ex_cols prev) cols t (replicate n 0) = Inr (proj t)"
proof -
  obtain cols n where c: "proj_cols (ex_cols prev) sel 0 = Inr (cols, n)" "ex_Next out = proj_Next prev cols n"
    using built by (auto simp: ProjectionExecutor_def ebind_eq_Inr)
  have "n = sel_len (ex_cols prev) sel \<and> proj_copy (ex_cols prev) cols t ([] @ replicate (sel_len (ex_cols prev) sel) 0) = Inr ([] @ proj t @ replicate 0 0)"
    using proj_copy_project [OF c(1), of t "[]" "sel_len (ex_cols prev) sel"] fits [OF assms] small by simp
  with c show ?thesis by auto
qed

sublocale projected: tuple_source out G ok start "\<lambda>c us. \<exists>ts. at c ts \<and> us = map proj ts" "\<lambda>c us. \<exists>ts. read c ts \<and> us = map proj ts" "map proj rows"
proof
  show "ends (ex_beginTuple out c) w G (\<lambda>c' w'. ok w' \<and> (\<exists>ts. at c' ts \<and> map proj rows = map proj ts))" if "ok w" "start c" for w c
    unfolding out_methods by (rule ends_mono [OF begin_ends [OF that]]) blast
  show "ends (ex_nextTuple out c) w G (\<lambda>c' w'. ok w' \<and> (\<exists>us. at c' us \<and> ts = map proj us))"
    if ok: "ok w" and us: "\<exists>us. read c us \<and> t # ts = map proj us" for w c t ts
  proof -
    obtain u us where "read c (u # us)" "ts = map proj us" using us by (auto simp: Cons_eq_map_conv)
    with ok show ?thesis unfolding out_methods by (intro ends_mono [OF next_ends]) auto
  qed
  show "ends (ex_Next out c) w G (\<lambda>r w'. fst r = t \<and> ok w' \<and> (\<exists>us. read (snd r) us \<and> t # ts = map proj us))"
    if ok: "ok w" and us: "\<exists>us. at c us \<and> t # ts = map proj us" for w c t ts
  proof -
    obtain u us where u: "at c (u # us)" "t = proj u" "ts = map proj us" using us by (auto simp: Cons_eq_map_conv)
    then have "u \<in> set rows" using at_rows at_read by fastforce
    then obtain cols n where n: "ex_Next out = proj_Next prev cols n" "proj_copy (ex_cols prev) cols u (replicate n 0) = Inr (proj u)"
      using out_Next by blast
    show ?thesis unfolding n(1) proj_Next_def ends_bind
      by (rule ends_mono [OF Next_ends [OF ok u(1)]]) (use n(2) u in auto)
  qed
  show "ex_is_end out c = Inr (us = [])" if "\<exists>ts. read c ts \<and> us = map proj ts" for c us
    using that is_end_iff unfolding out_methods by auto
  show "\<exists>ts. read c ts \<and> us = map proj ts" if "\<exists>ts. at c ts \<and> us = map proj ts" for c us
    using that at_read by blast
qed

lemma projection_rows: "ok w \<Longrightarrow> start c \<Longrightarrow> ends (all_rows out c) w G (\<lambda>r w'. fst r = map proj rows \<and> ok w')"
  by (rule ends_mono [OF projected.all_rows_rows]) auto

end

section \<open>Sorting\<close>

record 'c sort_cursor =
  so_prev :: 'c
  tuple_ptr :: nat
  all_record :: "byte list option list"

text \<open>The comparison given to \<open>std::sort\<close>, on two records and on two pointers to records.\<close>

fun sort_less :: "(ColMeta \<times> bool) list \<Rightarrow> byte list \<Rightarrow> byte list \<Rightarrow> rmdb_error + bool" where
  "sort_less [] a b = Inr False"
| "sort_less ((col, is_desc) # ks) a b =
     ebind (column_value a col) (\<lambda>v1. ebind (column_value b col) (\<lambda>v2.
     ebind (binop OP_GT v1 v2) (\<lambda>is_gt. ebind (binop OP_LT v1 v2) (\<lambda>is_lt.
       if \<not> is_gt \<and> \<not> is_lt then sort_less ks a b
       else Inr (is_desc \<and> is_gt \<or> \<not> is_desc \<and> \<not> is_gt)))))"

definition ptr_less :: "(ColMeta \<times> bool) list \<Rightarrow> byte list option \<Rightarrow> byte list option \<Rightarrow> rmdb_error + bool" where
  "ptr_less ks a b = (case (a, b) of (Some x, Some y) \<Rightarrow> sort_less ks x y | _ \<Rightarrow> Inl (UndefinedBehaviour ''a->data''))"

text \<open>
  \<open>std::sort\<close> with a comparison that may throw. The library leaves open in which order elements
  come that the comparison does not separate; here they keep their order.
\<close>

fun insort_e :: "('a \<Rightarrow> 'a \<Rightarrow> 'e + bool) \<Rightarrow> 'a \<Rightarrow> 'a list \<Rightarrow> 'e + 'a list" where
  "insort_e lt x [] = Inr [x]"
| "insort_e lt x (y # ys) =
     ebind (lt y x) (\<lambda>b. if b then ebind (insort_e lt x ys) (\<lambda>zs. Inr (y # zs)) else Inr (x # y # ys))"

fun sort_e :: "('a \<Rightarrow> 'a \<Rightarrow> 'e + bool) \<Rightarrow> 'a list \<Rightarrow> 'e + 'a list" where
  "sort_e lt [] = Inr []"
| "sort_e lt (x # xs) = ebind (sort_e lt xs) (insort_e lt x)"

definition sort_beginTuple :: "('w, 'c) executor \<Rightarrow> (ColMeta \<times> bool) list \<Rightarrow> 'c sort_cursor \<Rightarrow> ('w, 'c sort_cursor) pcmd" where
  "sort_beginTuple prev ks c =
     pbind (all_rows prev (so_prev c)) (\<lambda>r.
     pbind (pres (sort_e (ptr_less ks) (all_record c @ map Some (fst r)))) (\<lambda>rs.
       pret (c\<lparr>so_prev := snd r, all_record := rs\<rparr>)))"

definition sort_nextTuple :: "'c sort_cursor \<Rightarrow> ('w, 'c sort_cursor) pcmd" where
  "sort_nextTuple c = pret (c\<lparr>tuple_ptr := tuple_ptr c + 1\<rparr>)"

definition sort_Next :: "'c sort_cursor \<Rightarrow> ('w, byte list \<times> 'c sort_cursor) pcmd" where
  "sort_Next c =
     (if length (all_record c) \<le> tuple_ptr c then pres (Inl (UndefinedBehaviour ''all_record[tuple_ptr]''))
      else case all_record c ! tuple_ptr c of
             None \<Rightarrow> pres (Inl (UndefinedBehaviour ''null record''))
           | Some t \<Rightarrow> pret (t, c\<lparr>all_record := (all_record c)[tuple_ptr c := None]\<rparr>))"

definition sort_is_end :: "int \<Rightarrow> 'c sort_cursor \<Rightarrow> rmdb_error + bool" where
  "sort_is_end limit c =
     Inr (if limit = - 1 \<or> to_size limit \<ge> length (all_record c) then tuple_ptr c = length (all_record c)
          else tuple_ptr c = to_size limit)"

definition SortExecutor :: "('w, 'c) executor \<Rightarrow> (TabCol \<times> bool) list \<Rightarrow> int \<Rightarrow> rmdb_error + ('w, 'c sort_cursor) executor" where
  "SortExecutor prev sel_cols limit =
     ebind (emap (\<lambda>s. ebind (ex_get_col_offset prev (fst s)) (\<lambda>col. Inr (col, snd s))) sel_cols) (\<lambda>ks.
       Inr \<lparr>ex_beginTuple = sort_beginTuple prev ks, ex_nextTuple = sort_nextTuple, ex_is_end = sort_is_end limit,
            ex_Next = sort_Next, ex_cols = ex_cols prev, ex_tupleLen = 0, ex_get_col_offset = abstract_get_col_offset\<rparr>)"

definition new_sort_cursor :: "'c \<Rightarrow> 'c sort_cursor" where
  "new_sort_cursor c = \<lparr>so_prev = c, tuple_ptr = 0, all_record = []\<rparr>"

text \<open>The key of a value: values of one type are compared by it.\<close>

definition val_key :: "Value \<Rightarrow> int \<times> byte list" where
  "val_key v =
     (case v_type v of
        TYPE_INT \<Rightarrow> (int_val v, [])
      | TYPE_BIGINT \<Rightarrow> (bigint_val v, [])
      | TYPE_FLOAT \<Rightarrow> (float_key (float_val v), [])
      | TYPE_STRING \<Rightarrow> (0, c_str (v_str v))
      | TYPE_DATETIME \<Rightarrow> (0, c_str (v_datetime v)))"

lemma bytes_cmp_less: "bytes_cmp a b < 0 \<longleftrightarrow> a < b" "bytes_cmp a b > 0 \<longleftrightarrow> b < a"
  by (induction a b rule: bytes_cmp.induct) auto

lemma binop_key:
  assumes "v_type u = v_type v" and "no_nan u" and "no_nan v"
  shows "binop OP_LT u v = Inr (val_key u < val_key v)" "binop OP_GT u v = Inr (val_key v < val_key u)"
  using assms
  by (cases "v_type u"; cases "v_type v";
      simp add: binop_def val_key_def no_nan_def float_lt_def str_cmp_def bytes_cmp_less)+

definition row_key :: "ColMeta \<Rightarrow> byte list \<Rightarrow> int \<times> byte list" where
  "row_key col t = val_key (projr (column_value t col))"

definition key_ok :: "ColMeta \<Rightarrow> byte list \<Rightarrow> bool" where
  "key_ok col t \<longleftrightarrow> col_fits (length t) col \<and> no_nan (projr (column_value t col))"

text \<open>The order asked for: the first key that differs decides, downwards for a descending key.\<close>

fun before :: "(ColMeta \<times> bool) list \<Rightarrow> byte list \<Rightarrow> byte list \<Rightarrow> bool" where
  "before [] a b \<longleftrightarrow> False"
| "before ((col, is_desc) # ks) a b \<longleftrightarrow>
     (if row_key col a = row_key col b then before ks a b
      else if is_desc then row_key col b < row_key col a else row_key col a < row_key col b)"

lemma sort_less_before:
  "\<forall>(col, d) \<in> set ks. key_ok col a \<and> key_ok col b \<Longrightarrow> sort_less ks a b = Inr (before ks a b)"
proof (induction ks a b rule: sort_less.induct)
  case (2 col d ks a b)
  have "key_ok col a" "key_ok col b" using 2 by simp_all
  then obtain u v where uv: "column_value a col = Inr u" "column_value b col = Inr v" "v_type u = v_type v" "no_nan u" "no_nan v"
    using column_value_ok [of a col] column_value_ok [of b col] by (auto simp: key_ok_def)
  moreover have "sort_less ks a b = Inr (before ks a b)" if "val_key u = val_key v"
    by (rule "2.IH") (use uv that 2(2) binop_key [OF uv(3-5)] in auto)
  ultimately show ?case using binop_key [OF uv(3-5)] by (auto simp: row_key_def)
qed simp

lemma before_weak_order: "\<not> before ks b a \<Longrightarrow> \<not> before ks c b \<Longrightarrow> \<not> before ks c a" "before ks a b \<Longrightarrow> \<not> before ks b a"
  by (induction ks a b rule: before.induct) (auto split: if_splits)

text \<open>Insertion sort with a weak order that is defined on the elements.\<close>

lemma insort_e_sorts:
  assumes "\<And>a b. a \<in> S \<Longrightarrow> b \<in> S \<Longrightarrow> lt a b = Inr (P a b)"
    and "\<And>a b c. \<not> P b a \<Longrightarrow> \<not> P c b \<Longrightarrow> \<not> P c a" and "\<And>a b. P a b \<Longrightarrow> \<not> P b a"
  shows "set ys \<subseteq> S \<Longrightarrow> x \<in> S \<Longrightarrow> sorted_wrt (\<lambda>a b. \<not> P b a) ys \<Longrightarrow>
     \<exists>zs. insort_e lt x ys = Inr zs \<and> mset zs = add_mset x (mset ys) \<and> sorted_wrt (\<lambda>a b. \<not> P b a) zs"
proof (induction ys)
  case (Cons y ys)
  have l: "lt y x = Inr (P y x)" using Cons.prems assms(1) by simp
  show ?case
  proof (cases "P y x")
    case True
    obtain zs where zs: "insort_e lt x ys = Inr zs" "mset zs = add_mset x (mset ys)" "sorted_wrt (\<lambda>a b. \<not> P b a) zs"
      using Cons by auto
    have "set zs = insert x (set ys)" using arg_cong [OF zs(2), of set_mset] by simp
    with True zs Cons.prems(3) assms(3) show ?thesis by (auto simp: l)
  next
    case False
    then show ?thesis using Cons.prems(3) assms(2) [of y x] by (auto simp: l)
  qed
qed simp

lemma sort_e_sorts:
  assumes "\<And>a b. a \<in> S \<Longrightarrow> b \<in> S \<Longrightarrow> lt a b = Inr (P a b)"
    and "\<And>a b c. \<not> P b a \<Longrightarrow> \<not> P c b \<Longrightarrow> \<not> P c a" and "\<And>a b. P a b \<Longrightarrow> \<not> P b a"
  shows "set xs \<subseteq> S \<Longrightarrow> \<exists>zs. sort_e lt xs = Inr zs \<and> mset zs = mset xs \<and> sorted_wrt (\<lambda>a b. \<not> P b a) zs"
proof (induction xs)
  case (Cons x xs)
  then obtain zs where zs: "sort_e lt xs = Inr zs" "mset zs = mset xs" "sorted_wrt (\<lambda>a b. \<not> P b a) zs" by auto
  have "set zs \<subseteq> S" using Cons.prems mset_eq_setD [OF zs(2)] by simp
  with insort_e_sorts [OF assms, where ys = zs and x = x] zs Cons.prems show ?case by auto
qed simp

lemma ptr_less_Some [simp]: "ptr_less ks (Some a) (Some b) = sort_less ks a b"
  by (simp add: ptr_less_def)

lemma insort_e_Some: "insort_e (ptr_less ks) (Some x) (map Some ys) = ebind (insort_e (sort_less ks) x ys) (\<lambda>zs. Inr (map Some zs))"
proof (induction ys)
  case (Cons y ys)
  then show ?case by (cases "sort_less ks y x"; cases "insort_e (sort_less ks) x ys") simp_all
qed simp

lemma sort_e_Some: "sort_e (ptr_less ks) (map Some xs) = ebind (sort_e (sort_less ks) xs) (\<lambda>zs. Inr (map Some zs))"
proof (induction xs)
  case (Cons x xs)
  then show ?case by (cases "sort_e (sort_less ks) xs") (simp_all add: insort_e_Some)
qed simp

lemma sort_rows_sorts:
  assumes "\<And>t col d. t \<in> set xs \<Longrightarrow> (col, d) \<in> set ks \<Longrightarrow> key_ok col t"
  shows "\<exists>zs. sort_e (sort_less ks) xs = Inr zs \<and> mset zs = mset xs \<and> sorted_wrt (\<lambda>a b. \<not> before ks b a) zs"
  by (rule sort_e_sorts [of "set xs"])
    (use assms in \<open>auto intro!: sort_less_before dest: before_weak_order\<close>)

text \<open>The rows a sort delivers, with the limit: -1 is no limit, as is any other negative number.\<close>

definition sorted_rows :: "(ColMeta \<times> bool) list \<Rightarrow> int \<Rightarrow> byte list list \<Rightarrow> byte list list" where
  "sorted_rows ks limit rows =
     (let zs = projr (sort_e (sort_less ks) rows) in if limit < 0 then zs else take (nat limit) zs)"

locale sorting = tuple_source prev G ok start at read rows
  for prev :: "('w, 'c) executor" and G ok start at read rows +
  fixes sel :: "(TabCol \<times> bool) list" and ks :: "(ColMeta \<times> bool) list" and limit :: int and out :: "('w, 'c sort_cursor) executor"
  assumes built: "SortExecutor prev sel limit = Inr out"
    and keys: "emap (\<lambda>s. ebind (ex_get_col_offset prev (fst s)) (\<lambda>col. Inr (col, snd s))) sel = Inr ks"
    and keys_ok: "t \<in> set rows \<Longrightarrow> (col, d) \<in> set ks \<Longrightarrow> key_ok col t"
    and limit_ok: "in_range 4 limit" and few: "length rows < 2 ^ 63"
begin

definition at_sorted :: "bool \<Rightarrow> 'c sort_cursor \<Rightarrow> byte list list \<Rightarrow> bool" where
  "at_sorted fresh c us \<longleftrightarrow>
     (let zs = sorted_rows ks limit rows; p = tuple_ptr c in
      length (all_record c) = length rows \<and> p \<le> length zs \<and> us = drop p zs \<and>
      (\<forall>i < length zs. p < i \<or> fresh \<and> p = i \<longrightarrow> all_record c ! i = Some (zs ! i)))"

lemma out_methods:
  "ex_beginTuple out = sort_beginTuple prev ks" "ex_nextTuple out = sort_nextTuple" "ex_is_end out = sort_is_end limit" "ex_Next out = sort_Next"
  using built keys by (auto simp: SortExecutor_def)

lemma sorted: "\<exists>zs. sort_e (sort_less ks) rows = Inr zs \<and> mset zs = mset rows \<and> sorted_wrt (\<lambda>a b. \<not> before ks b a) zs"
  by (rule sort_rows_sorts) (rule keys_ok)

lemma sorted_rows_length: "length (sorted_rows ks limit rows) = (if limit < 0 then length rows else min (nat limit) (length rows))"
proof -
  obtain zs where "sort_e (sort_less ks) rows = Inr zs" "mset zs = mset rows" using sorted by blast
  moreover from this(2) have "length zs = length rows" by (rule mset_eq_length)
  ultimately show ?thesis by (simp add: sorted_rows_def Let_def min.commute)
qed

lemma to_size_limit: "limit < 0 \<Longrightarrow> length rows \<le> to_size limit" "0 \<le> limit \<Longrightarrow> to_size limit = nat limit"
proof -
  have l: "- (2 ^ 31) \<le> limit" "limit < 2 ^ 31" using limit_ok by (simp_all add: in_range_def)
  show "0 \<le> limit \<Longrightarrow> to_size limit = nat limit" using l by (simp add: to_size_id)
  assume n: "limit < 0"
  have "limit mod 256 ^ 8 = (limit + 256 ^ 8) mod 256 ^ 8" by (rule mod_add_self2 [symmetric])
  also have "\<dots> = limit + 256 ^ 8" by (rule mod_pos_pos_trivial) (use n l in simp_all)
  finally have "limit mod 256 ^ 8 = limit + 256 ^ 8" .
  then show "length rows \<le> to_size limit" using few l by (simp add: to_size_def)
qed

lemma at_sorted_end: "at_sorted fresh c us \<Longrightarrow> sort_is_end limit c = Inr (us = [])"
  using sorted_rows_length to_size_limit by (cases "limit < 0") (auto simp: at_sorted_def sort_is_end_def Let_def)

lemma sort_begin_at:
  assumes "ok w" and "start (so_prev c)" and "tuple_ptr c = 0" and "all_record c = []"
  shows "ends (sort_beginTuple prev ks c) w G (\<lambda>c' w'. ok w' \<and> at_sorted True c' (sorted_rows ks limit rows))"
proof -
  obtain zs where zs: "sort_e (sort_less ks) rows = Inr zs" "mset zs = mset rows" using sorted by blast
  from mset_eq_length [OF zs(2)] zs(1) assms(3)
  have "at_sorted True (c\<lparr>so_prev := p, all_record := map Some zs\<rparr>) (sorted_rows ks limit rows)" for p
    by (auto simp: at_sorted_def sorted_rows_def Let_def)
  then show ?thesis
    unfolding sort_beginTuple_def ends_bind
    by (intro ends_mono [OF all_rows_rows [OF assms(1,2)]]) (simp add: assms(4) sort_e_Some zs(1))
qed

lemma sort_Next_at:
  assumes "at_sorted True c (t # ts)"
  shows "sort_Next c w = Some (Inr (t, c\<lparr>all_record := (all_record c)[tuple_ptr c := None]\<rparr>), w)"
    "at_sorted False (c\<lparr>all_record := (all_record c)[tuple_ptr c := None]\<rparr>) (t # ts)"
proof -
  let ?zs = "sorted_rows ks limit rows"
  have z: "t # ts = drop (tuple_ptr c) ?zs" "length (all_record c) = length rows" "tuple_ptr c < length ?zs"
    "all_record c ! tuple_ptr c = Some (?zs ! tuple_ptr c)"
    using assms by (auto simp: at_sorted_def Let_def) (metis drop_all leI list.distinct(1))+
  then have t: "?zs ! tuple_ptr c = t" by (metis Cons_nth_drop_Suc list.inject)
  have "tuple_ptr c < length (all_record c)" using z(2,3) sorted_rows_length by (simp split: if_splits)
  then show "sort_Next c w = Some (Inr (t, c\<lparr>all_record := (all_record c)[tuple_ptr c := None]\<rparr>), w)"
    using z t by (simp add: sort_Next_def pret_def)
  show "at_sorted False (c\<lparr>all_record := (all_record c)[tuple_ptr c := None]\<rparr>) (t # ts)"
    using assms by (auto simp: at_sorted_def Let_def)
qed

lemma sort_next_at:
  assumes "at_sorted False c (t # ts)"
  shows "at_sorted True (c\<lparr>tuple_ptr := tuple_ptr c + 1\<rparr>) ts"
proof -
  let ?zs = "sorted_rows ks limit rows"
  have z: "t # ts = drop (tuple_ptr c) ?zs" "tuple_ptr c < length ?zs"
    using assms by (auto simp: at_sorted_def Let_def) (metis drop_all leI list.distinct(1))
  then have "ts = drop (Suc (tuple_ptr c)) ?zs" by (metis Cons_nth_drop_Suc list.inject)
  with z(2) assms show ?thesis by (auto simp: at_sorted_def Let_def)
qed

sublocale sorted: tuple_source out G ok "\<lambda>c. start (so_prev c) \<and> tuple_ptr c = 0 \<and> all_record c = []"
  "at_sorted True" "at_sorted False" "sorted_rows ks limit rows"
proof (unfold_locales, goal_cases)
  case (1 w c) then show ?case unfolding out_methods by (simp add: sort_begin_at)
next
  case (2 w c t ts) then show ?case unfolding out_methods by (simp add: sort_nextTuple_def sort_next_at [simplified])
next
  case (3 w c t ts) then show ?case unfolding out_methods by (simp add: ends_def sort_Next_at)
next
  case (4 c ts) then show ?case unfolding out_methods by (rule at_sorted_end)
next
  case (5 c ts) then show ?case by (simp add: at_sorted_def Let_def)
qed

lemma sorting_source:
  "tuple_source out G ok (\<lambda>c. start (so_prev c) \<and> tuple_ptr c = 0 \<and> all_record c = []) (at_sorted True) (at_sorted False) (sorted_rows ks limit rows)"
  by (rule sorted.tuple_source_axioms)

lemma at_sorted_rows: "at_sorted False c us \<Longrightarrow> set us \<subseteq> set (sorted_rows ks limit rows)"
  by (auto simp: at_sorted_def Let_def dest: in_set_dropD)

lemma sorted_rows_subset: "set (sorted_rows ks limit rows) \<subseteq> set rows"
proof -
  obtain zs where "sort_e (sort_less ks) rows = Inr zs" "mset zs = mset rows" using sorted by blast
  then show ?thesis using mset_eq_setD [of zs rows] by (auto simp: sorted_rows_def Let_def dest: in_set_takeD)
qed

end

end
