(* ===== verification/Joins.thy ===== *)
theory Joins
  imports Operators
begin

text \<open>
  The join the portal builds, \<open>src/src/execution/executor_blocknestedloopjoin_join.h\<close>: the left
  child is read in blocks of 2048 rows, each block is paired with all rows of the right child.
  The loops are partial functions, since they run as long as the children let them; over
  children that keep their contract the operator ends and delivers exactly the matching pairs,
  block by block, provided neither child is empty.
\<close>

section \<open>The operator\<close>

definition MAX_BUFFER_SIZE :: nat where "MAX_BUFFER_SIZE = 2048"

record ('l, 'r) join_cursor =
  jc_left :: 'l
  jc_right :: 'r
  left_isend :: bool
  left_ptr :: nat
  left_size :: nat
  left_buffer :: "byte list option list"

definition new_join_cursor :: "'l \<Rightarrow> 'r \<Rightarrow> ('l, 'r) join_cursor" where
  "new_join_cursor l r =
     \<lparr>jc_left = l, jc_right = r, left_isend = False, left_ptr = 0, left_size = 0, left_buffer = replicate MAX_BUFFER_SIZE None\<rparr>"

definition join_cols :: "('w, 'l) executor \<Rightarrow> ('w, 'r) executor \<Rightarrow> ColMeta list" where
  "join_cols left right =
     ex_cols left @ map (\<lambda>col. col\<lparr>cm_offset := wrap_int 4 (cm_offset col + int (ex_tupleLen left))\<rparr>) (ex_cols right)"

partial_function (option) load_loop ::
  "('w, 'l) executor \<Rightarrow> ('l, 'r) join_cursor \<Rightarrow> 'w \<Rightarrow> ((rmdb_error + ('l, 'r) join_cursor) \<times> 'w) option" where
  "load_loop left c w =
     pbind (pres (ex_is_end left (jc_left c))) (\<lambda>e.
       if e \<or> \<not> left_size c < MAX_BUFFER_SIZE then pret c
       else pbind (ex_Next left (jc_left c)) (\<lambda>r. pbind (ex_nextTuple left (snd r)) (\<lambda>l.
              load_loop left (c\<lparr>jc_left := l, left_buffer := (left_buffer c)[left_size c := Some (fst r)],
                                left_size := left_size c + 1\<rparr>)))) w"

definition load_left_buffer :: "('w, 'l) executor \<Rightarrow> ('l, 'r) join_cursor \<Rightarrow> ('w, ('l, 'r) join_cursor) pcmd" where
  "load_left_buffer left c =
     pbind (pres (ex_is_end left (jc_left c))) (\<lambda>e. load_loop left (c\<lparr>left_ptr := 0, left_isend := e, left_size := 0\<rparr>))"

definition join_Next ::
  "('w, 'l) executor \<Rightarrow> ('w, 'r) executor \<Rightarrow> ('l, 'r) join_cursor \<Rightarrow> ('w, byte list \<times> ('l, 'r) join_cursor) pcmd" where
  "join_Next left right c =
     (let left_len = ex_tupleLen left; right_len = ex_tupleLen right in
      if length (left_buffer c) \<le> left_ptr c then pres (Inl (UndefinedBehaviour ''left_buffer[left_ptr]''))
      else case left_buffer c ! left_ptr c of
             None \<Rightarrow> pres (Inl (UndefinedBehaviour ''left_buffer[left_ptr]->data''))
           | Some l \<Rightarrow>
               pbind (pres (copy_n l 0 (int left_len) (replicate (left_len + right_len) 0) 0)) (\<lambda>cur.
               pbind (ex_Next right (jc_right c)) (\<lambda>r.
               pbind (pres (copy_n (fst r) 0 (int right_len) cur (int left_len))) (\<lambda>rec.
                 pret (rec, c\<lparr>jc_right := snd r\<rparr>)))))"

text \<open>The \<open>for\<close> loop of \<open>nextTuple\<close>: \<open>True\<close> with the cursor on a match, \<open>False\<close> behind the block.\<close>

partial_function (option) scan_block ::
  "('w, 'l) executor \<Rightarrow> ('w, 'r) executor \<Rightarrow> Condition list \<Rightarrow> ('l, 'r) join_cursor \<Rightarrow> 'w \<Rightarrow>
   ((rmdb_error + bool \<times> ('l, 'r) join_cursor) \<times> 'w) option" where
  "scan_block left right conds c w =
     (if left_ptr c < left_size c
      then pbind (join_Next left right c) (\<lambda>r.
           pbind (pres (checkConds (fst r) conds (join_cols left right))) (\<lambda>b.
             if b then pret (True, snd r) else scan_block left right conds ((snd r)\<lparr>left_ptr := left_ptr (snd r) + 1\<rparr>)))
      else pret (False, c)) w"

text \<open>The step to the next right row, or to the next block; \<open>True\<close> when both children are exhausted.\<close>

definition advance ::
  "('w, 'l) executor \<Rightarrow> ('w, 'r) executor \<Rightarrow> ('l, 'r) join_cursor \<Rightarrow> ('w, bool \<times> ('l, 'r) join_cursor) pcmd" where
  "advance left right c =
     (if left_ptr c = left_size c
      then pbind (ex_nextTuple right (jc_right c)) (\<lambda>r.
           pbind (pres (ex_is_end right r)) (\<lambda>re.
           pbind (pres (if re then ex_is_end left (jc_left c) else Inr False)) (\<lambda>both.
             if both then pret (True, c\<lparr>jc_right := r\<rparr>)
             else pbind (if re then pbind (ex_beginTuple right r) (\<lambda>r'. load_left_buffer left (c\<lparr>jc_right := r'\<rparr>))
                         else pret (c\<lparr>jc_right := r\<rparr>)) (\<lambda>c'. pret (False, c'\<lparr>left_ptr := 0\<rparr>)))))
      else pret (False, c))"

partial_function (option) next_loop ::
  "('w, 'l) executor \<Rightarrow> ('w, 'r) executor \<Rightarrow> Condition list \<Rightarrow> ('l, 'r) join_cursor \<Rightarrow> 'w \<Rightarrow>
   ((rmdb_error + ('l, 'r) join_cursor) \<times> 'w) option" where
  "next_loop left right conds c w =
     pbind (pres (ex_is_end left (jc_left c))) (\<lambda>le.
     pbind (pres (if \<not> le then Inr False else ex_is_end right (jc_right c))) (\<lambda>both.
       if both then pret c
       else pbind (advance left right c) (\<lambda>a.
              if fst a then pret (snd a)
              else pbind (scan_block left right conds (snd a)) (\<lambda>f.
                     if fst f then pret (snd f) else next_loop left right conds (snd f))))) w"

definition join_nextTuple ::
  "('w, 'l) executor \<Rightarrow> ('w, 'r) executor \<Rightarrow> Condition list \<Rightarrow> ('l, 'r) join_cursor \<Rightarrow> ('w, ('l, 'r) join_cursor) pcmd" where
  "join_nextTuple left right conds c = next_loop left right conds (c\<lparr>left_ptr := (left_ptr c + 1) mod 256 ^ 8\<rparr>)"

definition join_beginTuple ::
  "('w, 'l) executor \<Rightarrow> ('w, 'r) executor \<Rightarrow> Condition list \<Rightarrow> ('l, 'r) join_cursor \<Rightarrow> ('w, ('l, 'r) join_cursor) pcmd" where
  "join_beginTuple left right conds c =
     pbind (ex_beginTuple left (jc_left c)) (\<lambda>l.
     pbind (pres (ex_is_end left l)) (\<lambda>le.
       if le then pret (c\<lparr>jc_left := l\<rparr>)
       else pbind (ex_beginTuple right (jc_right c)) (\<lambda>r.
            pbind (pres (ex_is_end right r)) (\<lambda>re.
              if re then pret (c\<lparr>jc_left := l, jc_right := r\<rparr>)
              else pbind (load_left_buffer left (c\<lparr>jc_left := l, jc_right := r\<rparr>)) (\<lambda>c'.
                     join_nextTuple left right conds (c'\<lparr>left_ptr := 256 ^ 8 - 1\<rparr>))))))"

definition join_is_end :: "('w, 'l) executor \<Rightarrow> ('w, 'r) executor \<Rightarrow> ('l, 'r) join_cursor \<Rightarrow> rmdb_error + bool" where
  "join_is_end left right c =
     ebind (ex_is_end left (jc_left c)) (\<lambda>le. if le then ex_is_end right (jc_right c) else Inr False)"

definition join_get_col_offset :: "ColMeta list \<Rightarrow> TabCol \<Rightarrow> rmdb_error + ColMeta" where
  "join_get_col_offset cols target =
     (case find (same_col target) cols of
        Some col \<Rightarrow> Inr col
      | None \<Rightarrow> Inl (ColumnNotFoundError (tc_tab_name target @ ''.'' @ tc_col_name target)))"

definition BlockNestedLoopJoinExecutor ::
  "('w, 'l) executor \<Rightarrow> ('w, 'r) executor \<Rightarrow> Condition list \<Rightarrow> ('w, ('l, 'r) join_cursor) executor" where
  "BlockNestedLoopJoinExecutor left right conds =
     \<lparr>ex_beginTuple = join_beginTuple left right conds, ex_nextTuple = join_nextTuple left right conds,
      ex_is_end = join_is_end left right, ex_Next = join_Next left right, ex_cols = join_cols left right,
      ex_tupleLen = ex_tupleLen left + ex_tupleLen right, ex_get_col_offset = join_get_col_offset (join_cols left right)\<rparr>"

section \<open>What it computes\<close>

fun pairs :: "(byte list \<Rightarrow> bool) \<Rightarrow> byte list list \<Rightarrow> byte list \<Rightarrow> byte list list" where
  "pairs P B r = filter P (map (\<lambda>l. l @ r) B)"

text \<open>All matching pairs, block by block of \<open>k\<close> left rows.\<close>

function block_join :: "nat \<Rightarrow> (byte list \<Rightarrow> bool) \<Rightarrow> byte list list \<Rightarrow> byte list list \<Rightarrow> byte list list" where
  "block_join k P L R =
     (if L = [] \<or> k = 0 then [] else concat (map (pairs P (take k L)) R) @ block_join k P (drop k L) R)"
  by pat_completeness auto
termination by (relation "measure (\<lambda>(k, P, L, R). length L)") (auto simp: length_drop)

declare block_join.simps [simp del]

lemma mset_block_join:
  "0 < k \<Longrightarrow> mset (block_join k P L R) = filter_mset P (\<Sum>r \<in># mset R. image_mset (\<lambda>l. l @ r) (mset L))"
proof (induction k P L R rule: block_join.induct)
  case (1 k P L R)
  have one: "mset (concat (map (pairs P B) R)) = filter_mset P (\<Sum>r \<in># mset R. image_mset (\<lambda>l. l @ r) (mset B))" for B
    by (induction R) (simp_all add: mset_filter)
  show ?case
  proof (cases "L = []")
    case True
    then show ?thesis by (subst block_join.simps) (simp add: multiset_eq_iff)
  next
    case False
    have split: "(\<Sum>r \<in># mset R. image_mset (\<lambda>l. l @ r) (mset L)) =
        (\<Sum>r \<in># mset R. image_mset (\<lambda>l. l @ r) (mset (take k L))) + (\<Sum>r \<in># mset R. image_mset (\<lambda>l. l @ r) (mset (drop k L)))"
      by (subst (1) append_take_drop_id [of k L, symmetric]) (simp only: mset_append image_mset_union sum_mset.distrib)
    show ?thesis using False 1 by (subst block_join.simps) (simp add: one split)
  qed
qed

section \<open>The loops unfolded\<close>

lemma ends_load_loop:
  "ends (load_loop left c) w G Q \<longleftrightarrow>
   (case ex_is_end left (jc_left c) of Inl _ \<Rightarrow> \<not> G | Inr e \<Rightarrow>
     (if e \<or> \<not> left_size c < MAX_BUFFER_SIZE then Q c w
      else ends (ex_Next left (jc_left c)) w G (\<lambda>r w1. ends (ex_nextTuple left (snd r)) w1 G (\<lambda>l w2.
             ends (load_loop left (c\<lparr>jc_left := l, left_buffer := (left_buffer c)[left_size c := Some (fst r)],
                                        left_size := left_size c + 1\<rparr>)) w2 G Q))))"
proof -
  have "load_loop left c = pbind (pres (ex_is_end left (jc_left c))) (\<lambda>e.
       if e \<or> \<not> left_size c < MAX_BUFFER_SIZE then pret c
       else pbind (ex_Next left (jc_left c)) (\<lambda>r. pbind (ex_nextTuple left (snd r)) (\<lambda>l.
              load_loop left (c\<lparr>jc_left := l, left_buffer := (left_buffer c)[left_size c := Some (fst r)],
                                left_size := left_size c + 1\<rparr>))))" (is "_ = ?m")
    by (rule ext) (rule load_loop.simps)
  then have "ends (load_loop left c) w G Q \<longleftrightarrow> ends ?m w G Q" by (rule arg_cong)
  then show ?thesis by (simp add: ends_pres split: sum.split)
qed

lemma ends_scan_block:
  "ends (scan_block left right conds c) w G Q \<longleftrightarrow>
   (if left_ptr c < left_size c
    then ends (join_Next left right c) w G (\<lambda>r w1. case checkConds (fst r) conds (join_cols left right) of Inl _ \<Rightarrow> \<not> G | Inr b \<Rightarrow>
           (if b then Q (True, snd r) w1
            else ends (scan_block left right conds ((snd r)\<lparr>left_ptr := left_ptr (snd r) + 1\<rparr>)) w1 G Q))
    else Q (False, c) w)"
proof -
  have "scan_block left right conds c = (if left_ptr c < left_size c
      then pbind (join_Next left right c) (\<lambda>r.
           pbind (pres (checkConds (fst r) conds (join_cols left right))) (\<lambda>b.
             if b then pret (True, snd r) else scan_block left right conds ((snd r)\<lparr>left_ptr := left_ptr (snd r) + 1\<rparr>)))
      else pret (False, c))" (is "_ = ?m")
    by (rule ext) (rule scan_block.simps)
  then have "ends (scan_block left right conds c) w G Q \<longleftrightarrow> ends ?m w G Q" by (rule arg_cong)
  then show ?thesis by (simp add: ends_pres split: sum.split)
qed

lemma ends_next_loop:
  "ends (next_loop left right conds c) w G Q \<longleftrightarrow>
   (case ex_is_end left (jc_left c) of Inl _ \<Rightarrow> \<not> G | Inr le \<Rightarrow>
    (case (if \<not> le then Inr False else ex_is_end right (jc_right c)) of Inl _ \<Rightarrow> \<not> G | Inr both \<Rightarrow>
      (if both then Q c w
       else ends (advance left right c) w G (\<lambda>a w1.
              if fst a then Q (snd a) w1
              else ends (scan_block left right conds (snd a)) w1 G (\<lambda>f w2.
                     if fst f then Q (snd f) w2 else ends (next_loop left right conds (snd f)) w2 G Q)))))"
proof -
  have "next_loop left right conds c = pbind (pres (ex_is_end left (jc_left c))) (\<lambda>le.
     pbind (pres (if \<not> le then Inr False else ex_is_end right (jc_right c))) (\<lambda>both.
       if both then pret c
       else pbind (advance left right c) (\<lambda>a.
              if fst a then pret (snd a)
              else pbind (scan_block left right conds (snd a)) (\<lambda>f.
                     if fst f then pret (snd f) else next_loop left right conds (snd f)))))" (is "_ = ?m")
    by (rule ext) (rule next_loop.simps)
  then have "ends (next_loop left right conds c) w G Q \<longleftrightarrow> ends ?m w G Q" by (rule arg_cong)
  then show ?thesis by (simp add: ends_pres split: sum.split)
qed

section \<open>A join of two children\<close>

text \<open>The current block in the buffer.\<close>

definition holds :: "('l, 'r) join_cursor \<Rightarrow> byte list list \<Rightarrow> bool" where
  "holds c B \<longleftrightarrow> length (left_buffer c) = MAX_BUFFER_SIZE \<and> left_size c = length B \<and> length B \<le> MAX_BUFFER_SIZE \<and>
     (\<forall>i < length B. left_buffer c ! i = Some (B ! i))"

lemma holds_more:
  "holds c B \<Longrightarrow> length B < MAX_BUFFER_SIZE \<Longrightarrow>
   holds (c\<lparr>jc_left := l, left_buffer := (left_buffer c)[left_size c := Some t], left_size := left_size c + 1\<rparr>) (B @ [t])"
  by (auto simp: holds_def nth_append nth_list_update less_Suc_eq)

lemma holds_fields [simp]:
  "holds (c\<lparr>jc_right := r\<rparr>) B \<longleftrightarrow> holds c B" "holds (c\<lparr>left_ptr := p\<rparr>) B \<longleftrightarrow> holds c B" "holds (c\<lparr>jc_left := l\<rparr>) B \<longleftrightarrow> holds c B"
  by (simp_all add: holds_def)

locale block_join_sources =
  left: tuple_source left G ok lstart lat lread lrows + right: replay_source right G ok rstart rat rread rrows
  for left :: "('w, 'l) executor" and right :: "('w, 'r) executor" and G ok
    and lstart lat lread lrows rstart rat rread rrows +
  fixes conds :: "Condition list"
  assumes left_rows: "lread l ts \<Longrightarrow> set ts \<subseteq> set lrows" and left_len: "t \<in> set lrows \<Longrightarrow> length t = ex_tupleLen left"
    and right_rows: "rread r ts \<Longrightarrow> set ts \<subseteq> set rrows" and right_len: "t \<in> set rrows \<Longrightarrow> length t = ex_tupleLen right"
    and evaluates: "G \<Longrightarrow> s \<in> set lrows \<Longrightarrow> t \<in> set rrows \<Longrightarrow> \<exists>b. checkConds (s @ t) conds (join_cols left right) = Inr b"
begin

abbreviation matches :: "byte list \<Rightarrow> bool" where
  "matches t \<equiv> checkConds t conds (join_cols left right) = Inr True"

lemma load_loop_block:
  "ok w \<Longrightarrow> lat (jc_left c) ts \<Longrightarrow> holds c B \<Longrightarrow>
   ends (load_loop left c) w G (\<lambda>c' w'. ok w' \<and> holds c' (B @ take (MAX_BUFFER_SIZE - length B) ts) \<and>
     lat (jc_left c') (drop (MAX_BUFFER_SIZE - length B) ts) \<and> jc_right c' = jc_right c \<and> left_ptr c' = left_ptr c)"
proof (induction ts arbitrary: c w B)
  case Nil
  then have "ex_is_end left (jc_left c) = Inr True" using left.is_end_iff [OF left.at_read] by simp
  with Nil show ?case by (simp add: ends_load_loop)
next
  case (Cons t ts)
  have e: "ex_is_end left (jc_left c) = Inr False" using Cons.prems left.is_end_iff [OF left.at_read] by simp
  show ?case
  proof (cases "length B < MAX_BUFFER_SIZE")
    case False
    then have "\<not> left_size c < MAX_BUFFER_SIZE" "MAX_BUFFER_SIZE - length B = 0" using Cons.prems(3) by (simp_all add: holds_def)
    with Cons.prems e show ?thesis by (simp add: ends_load_loop)
  next
    case True
    then have s: "left_size c < MAX_BUFFER_SIZE" "MAX_BUFFER_SIZE - length B = Suc (MAX_BUFFER_SIZE - length (B @ [t]))"
      using Cons.prems(3) by (simp_all add: holds_def)
    have "ends (ex_nextTuple left l1) w1 G (\<lambda>l w2. ends (load_loop left (c\<lparr>jc_left := l,
        left_buffer := (left_buffer c)[left_size c := Some t], left_size := left_size c + 1\<rparr>)) w2 G (\<lambda>c' w'. ok w' \<and>
        holds c' (B @ take (MAX_BUFFER_SIZE - length B) (t # ts)) \<and> lat (jc_left c') (drop (MAX_BUFFER_SIZE - length B) (t # ts)) \<and>
        jc_right c' = jc_right c \<and> left_ptr c' = left_ptr c))" if "ok w1" "lread l1 (t # ts)" for l1 w1
      by (rule ends_mono [OF left.next_ends [OF that]], rule ends_mono [OF Cons.IH [of _ _ "B @ [t]"]])
        (use holds_more [OF Cons.prems(3) True] s(2) in auto)
    with e s(1) show ?thesis
      by (subst ends_load_loop) (auto intro!: ends_mono [OF left.Next_ends [OF Cons.prems(1,2)]])
  qed
qed

lemma load_block:
  assumes "ok w" and "lat (jc_left c) ts" and "length (left_buffer c) = MAX_BUFFER_SIZE"
  shows "ends (load_left_buffer left c) w G (\<lambda>c' w'. ok w' \<and> holds c' (take MAX_BUFFER_SIZE ts) \<and>
     lat (jc_left c') (drop MAX_BUFFER_SIZE ts) \<and> jc_right c' = jc_right c \<and> left_ptr c' = 0)"
proof -
  have "holds (c\<lparr>left_ptr := 0, left_isend := e, left_size := 0\<rparr>) []" for e using assms(3) by (simp add: holds_def)
  from load_loop_block [OF assms(1) _ this, where ts = ts] assms(2) left.is_end_iff [OF left.at_read [OF assms(2)]]
  show ?thesis by (simp add: load_left_buffer_def)
qed

lemma Next_pair:
  assumes "ok w" and "holds c B" and "left_ptr c < length B" and "set B \<subseteq> set lrows" and "rat (jc_right c) (r # rs)"
  shows "ends (join_Next left right c) w G (\<lambda>x w'. fst x = B ! left_ptr c @ r \<and> ok w' \<and>
     (\<exists>q. snd x = c\<lparr>jc_right := q\<rparr> \<and> rat q (r # rs)))"
proof -
  let ?l = "B ! left_ptr c"
  have l: "length ?l = ex_tupleLen left" using assms(3,4) left_len nth_mem by blast
  have "r \<in> set rrows" using right_rows [OF right.at_read [OF assms(5)]] by simp
  then have r: "length r = ex_tupleLen right" by (rule right_len)
  have b: "left_ptr c < length (left_buffer c)" "left_buffer c ! left_ptr c = Some ?l" using assms(2,3) by (auto simp: holds_def)
  have c1: "copy_n ?l 0 (int (ex_tupleLen left)) (replicate (ex_tupleLen left + ex_tupleLen right) 0) 0 =
      Inr (?l @ replicate (ex_tupleLen right) 0)"
    using l by (auto simp: copy_n_def read_at_def write_at_def)
  have c2: "copy_n r 0 (int (ex_tupleLen right)) (?l @ replicate (ex_tupleLen right) 0) (int (ex_tupleLen left)) = Inr (?l @ r)"
    using l r by (auto simp: copy_n_def read_at_def write_at_def)
  show ?thesis using b c1 c2
    by (simp add: join_Next_def Let_def) (rule ends_mono [OF right.Next_ends [OF assms(1,5)]], use right.read_at in auto)
qed

text \<open>Where the loop of \<open>nextTuple\<close> stands, and the pairs still to come from there.\<close>

definition pos :: "('l, 'r) join_cursor \<Rightarrow> byte list list \<Rightarrow> byte list \<Rightarrow> byte list list \<Rightarrow> byte list list \<Rightarrow> bool" where
  "pos c B r rs ls \<longleftrightarrow> holds c B \<and> left_ptr c \<le> length B \<and> set B \<subseteq> set lrows \<and> rat (jc_right c) (r # rs) \<and> lat (jc_left c) ls"

definition rest :: "byte list list \<Rightarrow> nat \<Rightarrow> byte list \<Rightarrow> byte list list \<Rightarrow> byte list list \<Rightarrow> byte list list" where
  "rest B p r rs ls =
     pairs matches (drop p B) r @ concat (map (pairs matches B) rs) @ block_join MAX_BUFFER_SIZE matches ls rrows"

definition work :: "byte list list \<Rightarrow> byte list list \<Rightarrow> nat" where
  "work rs ls = length ls * Suc (length rrows) + length rs"

definition joined :: "('l, 'r) join_cursor \<Rightarrow> byte list list \<Rightarrow> bool" where
  "joined c us \<longleftrightarrow>
     lat (jc_left c) [] \<and> rat (jc_right c) [] \<and> us = [] \<or>
     (\<exists>B r rs ls. pos c B r rs ls \<and> left_ptr c < length B \<and> matches (B ! left_ptr c @ r) \<and> us = rest B (left_ptr c) r rs ls)"

lemma pairs_step:
  "p < length B \<Longrightarrow> pairs matches (drop p B) r = (if matches (B ! p @ r) then [B ! p @ r] else []) @ pairs matches (drop (Suc p) B) r"
  by (simp flip: Cons_nth_drop_Suc)

definition scanned :: "nat \<Rightarrow> byte list list \<Rightarrow> byte list \<Rightarrow> bool \<Rightarrow> nat \<Rightarrow> bool" where
  "scanned p B r found q \<longleftrightarrow>
     (if found then q < length B \<and> matches (B ! q @ r) \<and> pairs matches (drop p B) r = pairs matches (drop q B) r
      else q = length B \<and> pairs matches (drop p B) r = [])"

lemma scanned_step: "scanned (Suc p) B r found q \<Longrightarrow> p < length B \<Longrightarrow> \<not> matches (B ! p @ r) \<Longrightarrow> scanned p B r found q"
  using pairs_step [of p B r] by (simp add: scanned_def del: pairs.simps split: if_splits)

lemma scan_block_finds:
  "ok w \<Longrightarrow> pos c B r rs ls \<Longrightarrow>
   ends (scan_block left right conds c) w G
     (\<lambda>f w'. ok w' \<and> pos (snd f) B r rs ls \<and> scanned (left_ptr c) B r (fst f) (left_ptr (snd f)))"
proof (induction "length B - left_ptr c" arbitrary: c w)
  case 0
  then have "left_ptr c = length B" "left_size c = length B" by (simp_all add: pos_def holds_def)
  with 0 show ?case by (subst ends_scan_block) (simp add: scanned_def)
next
  case (Suc n)
  let ?p = "left_ptr c"
  let ?Q = "\<lambda>f w'. ok w' \<and> pos (snd f) B r rs ls \<and> scanned ?p B r (fst f) (left_ptr (snd f))"
  have p: "?p < length B" "left_size c = length B" using Suc by (simp_all add: pos_def holds_def)
  have pc: "holds c B" "set B \<subseteq> set lrows" "rat (jc_right c) (r # rs)" "lat (jc_left c) ls" using Suc.prems(2) by (simp_all add: pos_def)
  have miss: "ends (scan_block left right conds (c\<lparr>jc_right := q, left_ptr := Suc ?p\<rparr>)) w1 G ?Q"
    if "ok w1" "rat q (r # rs)" "\<not> matches (B ! ?p @ r)" for q w1
  proof (rule ends_mono [OF Suc.hyps(1)])
    show "n = length B - left_ptr (c\<lparr>jc_right := q, left_ptr := Suc ?p\<rparr>)" "ok w1" using Suc.hyps(2) that(1) by simp_all
    show "pos (c\<lparr>jc_right := q, left_ptr := Suc ?p\<rparr>) B r rs ls" using that(2) pc p by (simp add: pos_def)
  qed (use scanned_step [OF _ p(1) that(3)] in simp)
  have hit: "?Q (True, c\<lparr>jc_right := q\<rparr>) w1" if "ok w1" "rat q (r # rs)" "matches (B ! ?p @ r)" for q w1
    using that pc p by (simp add: pos_def scanned_def)
  have "r \<in> set rrows" "B ! ?p \<in> set lrows" using right_rows [OF right.at_read [OF pc(3)]] pc(2) p(1) by auto
  then have ev: "G \<Longrightarrow> \<exists>b. checkConds (B ! ?p @ r) conds (join_cols left right) = Inr b" using evaluates by blast
  have "ends (join_Next left right c) w G (\<lambda>x w1. case checkConds (fst x) conds (join_cols left right) of Inl _ \<Rightarrow> \<not> G | Inr b \<Rightarrow>
     (if b then ?Q (True, snd x) w1
      else ends (scan_block left right conds ((snd x)\<lparr>left_ptr := left_ptr (snd x) + 1\<rparr>)) w1 G ?Q))"
    by (rule ends_mono [OF Next_pair [OF Suc.prems(1) pc(1) p(1) pc(2,3)]]) (use miss hit ev in \<open>auto split: sum.split\<close>)
  then show ?case by (subst ends_scan_block) (simp only: p if_True)
qed

definition goes_on :: "('l, 'r) join_cursor \<Rightarrow> byte list list \<Rightarrow> nat \<Rightarrow> bool" where
  "goes_on c us n \<longleftrightarrow> (\<exists>B r rs ls. pos c B r rs ls \<and> left_ptr c = 0 \<and> us = rest B 0 r rs ls \<and> work rs ls < n)"

lemma goes_onI: "pos c B r rs ls \<Longrightarrow> left_ptr c = 0 \<Longrightarrow> us = rest B 0 r rs ls \<Longrightarrow> work rs ls < n \<Longrightarrow> goes_on c us n"
  unfolding goes_on_def by blast

text \<open>The next block: the right child starts again, the rows of the block are no longer to come.\<close>

lemma next_block:
  assumes "ok w" and "lat (jc_left c) ls" and "ls \<noteq> []" and "rat (jc_right c) rrows" and "rrows \<noteq> []"
    and "length (left_buffer c) = MAX_BUFFER_SIZE"
  shows "ends (load_left_buffer left c) w G
     (\<lambda>c' w'. ok w' \<and> goes_on c' (block_join MAX_BUFFER_SIZE matches ls rrows) (work [] ls))"
proof (rule ends_mono [OF load_block [OF assms(1,2,6)]])
  fix c' w'
  obtain r rs where r: "rrows = r # rs" using assms(5) by (cases rrows) auto
  obtain l ls' where ls: "ls = l # ls'" using assms(3) by (cases ls) auto
  assume a: "ok w' \<and> holds c' (take MAX_BUFFER_SIZE ls) \<and> lat (jc_left c') (drop MAX_BUFFER_SIZE ls) \<and>
     jc_right c' = jc_right c \<and> left_ptr c' = 0"
  have "set (take MAX_BUFFER_SIZE ls) \<subseteq> set lrows"
    using left_rows [OF left.at_read [OF assms(2)]] set_take_subset by fastforce
  then have p: "pos c' (take MAX_BUFFER_SIZE ls) r rs (drop MAX_BUFFER_SIZE ls)" using a assms(4) r by (simp add: pos_def)
  have m: "MAX_BUFFER_SIZE = Suc 2047" by (simp add: MAX_BUFFER_SIZE_def)
  have "concat (map (pairs matches B) rrows) = pairs matches B r @ concat (map (pairs matches B) rs)" for B using r by simp
  then have "block_join MAX_BUFFER_SIZE matches ls rrows = rest (take MAX_BUFFER_SIZE ls) 0 r rs (drop MAX_BUFFER_SIZE ls)"
    using assms(3) by (subst block_join.simps) (simp add: rest_def m del: pairs.simps)
  moreover have "work rs (drop MAX_BUFFER_SIZE ls) < work [] ls"
  proof -
    have "length (drop MAX_BUFFER_SIZE ls) \<le> length ls'" using ls by (simp add: m)
    then have "length (drop MAX_BUFFER_SIZE ls) * Suc (length rrows) \<le> length ls' * Suc (length rrows)" by (rule mult_le_mono1)
    moreover have "length ls * Suc (length rrows) = length ls' * Suc (length rrows) + Suc (length rrows)" using ls by simp
    moreover have "length rs < length rrows" using r by simp
    ultimately show ?thesis unfolding work_def by simp
  qed
  ultimately show "ok w' \<and> goes_on c' (block_join MAX_BUFFER_SIZE matches ls rrows) (work [] ls)"
    using p a by (auto intro: goes_onI)
qed

lemma advance_step:
  assumes ok: "ok w" and c: "pos c B r rs ls" "left_ptr c = length B"
  shows "ends (advance left right c) w G (\<lambda>a w'. ok w' \<and>
     (if fst a then rs = [] \<and> ls = [] \<and> lat (jc_left (snd a)) [] \<and> rat (jc_right (snd a)) []
      else goes_on (snd a) (rest B (length B) r rs ls) (work rs ls)))" (is "ends _ _ _ ?Q")
proof -
  have pc: "holds c B" "set B \<subseteq> set lrows" "rat (jc_right c) (r # rs)" "lat (jc_left c) ls" "left_ptr c = left_size c"
    using c by (simp_all add: pos_def holds_def)
  have nx: "ends (ex_nextTuple right (jc_right c)) w G (\<lambda>q w'. ok w' \<and> rat q rs)"
    by (rule right.next_ends [OF ok right.at_read [OF pc(3)]])
  have le: "ex_is_end left (jc_left c) = Inr (ls = [])" by (rule left.is_end_iff [OF left.at_read [OF pc(4)]])
  have re: "ex_is_end right q = Inr (rs = [])" if "rat q rs" for q by (rule right.is_end_iff [OF right.at_read [OF that]])
  show ?thesis
  proof (cases rs)
    case (Cons r' rs')
    have "goes_on (c\<lparr>jc_right := q, left_ptr := 0\<rparr>) (rest B (length B) r rs ls) (work rs ls)" if "rat q rs" for q
      by (rule goes_onI [of _ B r' rs' ls]) (use that pc Cons in \<open>simp_all add: pos_def rest_def work_def\<close>)
    with re Cons show ?thesis unfolding advance_def by (auto simp: pc(5) intro!: ends_mono [OF nx])
  next
    case Nil
    show ?thesis
    proof (cases "ls = []")
      case True
      with re le Nil pc(4) show ?thesis unfolding advance_def by (auto simp: pc(5) intro!: ends_mono [OF nx])
    next
      case False
      have ne: "rrows \<noteq> []" using right_rows [OF right.at_read [OF pc(3)]] by auto
      have us: "rest B (length B) r rs ls = block_join MAX_BUFFER_SIZE matches ls rrows" "work rs ls = work [] ls"
        by (simp_all add: rest_def Nil)
      have "ends (ex_beginTuple right q) w1 G (\<lambda>q' w2. ends (load_left_buffer left (c\<lparr>jc_right := q'\<rparr>)) w2 G
          (\<lambda>c' w'. ok w' \<and> goes_on (c'\<lparr>left_ptr := 0\<rparr>) (rest B (length B) r rs ls) (work rs ls)))" if "ok w1" "rat q rs" for q w1
      proof (rule ends_mono [OF right.begin_ends [OF that(1) right.restart [OF that(2)]]])
        fix q' w2 assume "ok w2 \<and> rat q' rrows"
        then have "ends (load_left_buffer left (c\<lparr>jc_right := q'\<rparr>)) w2 G (\<lambda>c' w'. ok w' \<and> goes_on c' (rest B (length B) r rs ls) (work rs ls))"
          unfolding us by (intro next_block) (use pc False ne in \<open>simp_all add: holds_def\<close>)
        then show "ends (load_left_buffer left (c\<lparr>jc_right := q'\<rparr>)) w2 G
          (\<lambda>c' w'. ok w' \<and> goes_on (c'\<lparr>left_ptr := 0\<rparr>) (rest B (length B) r rs ls) (work rs ls))"
          by (rule ends_mono) (auto simp: goes_on_def pos_def)
      qed
      with re le Nil False show ?thesis unfolding advance_def by (auto simp: pc(5) intro!: ends_mono [OF nx])
    qed
  qed
qed

lemma next_loop_step:
  assumes "pos c B r rs ls"
    and adv: "ends (advance left right c) w G (\<lambda>a w1. if fst a then Q (snd a) w1
     else ends (scan_block left right conds (snd a)) w1 G (\<lambda>f w2. if fst f then Q (snd f) w2
       else ends (next_loop left right conds (snd f)) w2 G Q))"
  shows "ends (next_loop left right conds c) w G Q"
proof -
  have "ex_is_end left (jc_left c) = Inr (ls = [])" "ex_is_end right (jc_right c) = Inr False"
    using left.is_end_iff [OF left.at_read, of "jc_left c" ls] right.is_end_iff [OF right.at_read, of "jc_right c" "r # rs"] assms(1)
    by (simp_all add: pos_def)
  with adv show ?thesis by (subst ends_next_loop) simp
qed

lemma scan_then_loop:
  assumes "ok w" and "pos c B r rs ls"
    and again: "\<And>c' w'. ok w' \<Longrightarrow> pos c' B r rs ls \<Longrightarrow> left_ptr c' = length B \<Longrightarrow>
      ends (next_loop left right conds c') w' G (\<lambda>c'' w''. ok w'' \<and> joined c'' (rest B (length B) r rs ls))"
  shows "ends (scan_block left right conds c) w G (\<lambda>f w'.
     if fst f then ok w' \<and> joined (snd f) (rest B (left_ptr c) r rs ls)
     else ends (next_loop left right conds (snd f)) w' G (\<lambda>c'' w''. ok w'' \<and> joined c'' (rest B (left_ptr c) r rs ls)))"
proof (rule ends_mono [OF scan_block_finds [OF assms(1,2)]])
  fix f w' assume a: "ok w' \<and> pos (snd f) B r rs ls \<and> scanned (left_ptr c) B r (fst f) (left_ptr (snd f))"
  show "if fst f then ok w' \<and> joined (snd f) (rest B (left_ptr c) r rs ls)
     else ends (next_loop left right conds (snd f)) w' G (\<lambda>c'' w''. ok w'' \<and> joined c'' (rest B (left_ptr c) r rs ls))"
  proof (cases "fst f")
    case True
    then have "rest B (left_ptr c) r rs ls = rest B (left_ptr (snd f)) r rs ls" using a by (simp add: scanned_def rest_def del: pairs.simps)
    with a True show ?thesis by (auto simp: joined_def scanned_def)
  next
    case False
    then have "rest B (left_ptr c) r rs ls = rest B (length B) r rs ls" "left_ptr (snd f) = length B"
      using a by (simp_all add: scanned_def rest_def del: pairs.simps) simp
    with again [of w' "snd f"] a False show ?thesis by simp
  qed
qed

lemma next_loop_behind_block:
  "ok w \<Longrightarrow> pos c B r rs ls \<Longrightarrow> left_ptr c = length B \<Longrightarrow>
   ends (next_loop left right conds c) w G (\<lambda>c' w'. ok w' \<and> joined c' (rest B (length B) r rs ls))"
proof (induction "work rs ls" arbitrary: c B r rs ls w rule: less_induct)
  case less
  let ?us = "rest B (length B) r rs ls"
  let ?Q = "\<lambda>c' w'. ok w' \<and> joined c' ?us"
  have "ends (advance left right c) w G (\<lambda>a w1. if fst a then ?Q (snd a) w1
     else ends (scan_block left right conds (snd a)) w1 G (\<lambda>f w2. if fst f then ?Q (snd f) w2
       else ends (next_loop left right conds (snd f)) w2 G ?Q))"
  proof (rule ends_mono [OF advance_step [OF less.prems]])
    fix a w1
    assume a: "ok w1 \<and> (if fst a then rs = [] \<and> ls = [] \<and> lat (jc_left (snd a)) [] \<and> rat (jc_right (snd a)) []
      else goes_on (snd a) ?us (work rs ls))"
    show "if fst a then ?Q (snd a) w1
     else ends (scan_block left right conds (snd a)) w1 G (\<lambda>f w2. if fst f then ?Q (snd f) w2
       else ends (next_loop left right conds (snd f)) w2 G ?Q)"
    proof (cases "fst a")
      case True
      moreover have "block_join MAX_BUFFER_SIZE matches [] rrows = []" by (subst block_join.simps) simp
      ultimately show ?thesis using a by (simp add: joined_def rest_def)
    next
      case False
      then obtain B' r' rs' ls' where n: "pos (snd a) B' r' rs' ls'" "left_ptr (snd a) = 0" "?us = rest B' 0 r' rs' ls'"
        "work rs' ls' < work rs ls" using a by (auto simp: goes_on_def)
      have "ok w1" using a by blast
      note scan_then_loop [OF this n(1) less.hyps [OF n(4)], unfolded n(2)]
      then show ?thesis unfolding n(3) by (simp only: False if_False)
    qed
  qed
  then show ?case by (rule next_loop_step [OF less.prems(2)])
qed

lemma next_loop_joined:
  assumes "ok w" and "pos c B r rs ls"
  shows "ends (next_loop left right conds c) w G (\<lambda>c' w'. ok w' \<and> joined c' (rest B (left_ptr c) r rs ls))"
proof (cases "left_ptr c = length B")
  case True
  with next_loop_behind_block [OF assms] show ?thesis by simp
next
  case False
  then have "advance left right c = pret (False, c)" using assms(2) by (simp add: advance_def pos_def holds_def)
  with scan_then_loop [OF assms next_loop_behind_block] show ?thesis
    by (intro next_loop_step [OF assms(2)]) (simp only: ends_simps fst_conv snd_conv if_False)
qed

abbreviation join_rows :: "byte list list" where
  "join_rows \<equiv> block_join MAX_BUFFER_SIZE matches lrows rrows"

lemma begin_after_left:
  assumes "ok w" and "lstart (jc_left c)" and "lrows \<noteq> []"
    and right: "\<And>l w1. ok w1 \<Longrightarrow> lat l lrows \<Longrightarrow> ends (ex_beginTuple right (jc_right c)) w1 G (\<lambda>r w2. case ex_is_end right r of Inl _ \<Rightarrow> \<not> G | Inr re \<Rightarrow>
      (if re then Q (c\<lparr>jc_left := l, jc_right := r\<rparr>) w2
       else ends (load_left_buffer left (c\<lparr>jc_left := l, jc_right := r\<rparr>)) w2 G (\<lambda>c' w'.
         ends (join_nextTuple left right conds (c'\<lparr>left_ptr := 256 ^ 8 - 1\<rparr>)) w' G Q)))"
  shows "ends (join_beginTuple left right conds c) w G Q"
proof (unfold join_beginTuple_def, subst ends_bind, rule ends_mono [OF left.begin_ends [OF assms(1,2)]], goal_cases)
  case (1 l w1)
  then have e: "ex_is_end left l = Inr False" using left.is_end_iff [OF left.at_read, of l lrows] assms(3) by simp
  show ?case unfolding e pbind_pres if_False unfolding ends_bind ends_simps ends_if ends_pres using right [of w1 l] 1 by blast
qed

lemma begin_joined:
  assumes "ok w" and "lstart (jc_left c)" and "rstart (jc_right c)" and "length (left_buffer c) = MAX_BUFFER_SIZE"
    and ne: "lrows \<noteq> []" "rrows \<noteq> []"
  shows "ends (join_beginTuple left right conds c) w G (\<lambda>c' w'. ok w' \<and> joined c' join_rows)"
proof -
  have re: "ex_is_end right r = Inr False" if "rat r rrows" for r using right.is_end_iff [OF right.at_read [OF that]] ne by simp
  have start: "ends (join_nextTuple left right conds (c'\<lparr>left_ptr := 256 ^ 8 - 1\<rparr>)) w' G (\<lambda>c'' w''. ok w'' \<and> joined c'' join_rows)"
    if a: "ok w' \<and> goes_on c' join_rows (work [] lrows)" for c' w'
  proof -
    obtain B r rs ls where n: "pos c' B r rs ls" "left_ptr c' = 0" "join_rows = rest B 0 r rs ls" using a by (auto simp: goes_on_def)
    have e: "c'\<lparr>left_ptr := 0\<rparr> = c'" using n(2) by simp
    from next_loop_joined [of w' c', OF _ n(1)] a n(2) show ?thesis unfolding n(3) by (simp add: join_nextTuple_def e)
  qed
  have load: "ends (load_left_buffer left (c\<lparr>jc_left := l, jc_right := r\<rparr>)) w2 G
      (\<lambda>c' w'. ends (join_nextTuple left right conds (c'\<lparr>left_ptr := 256 ^ 8 - 1\<rparr>)) w' G (\<lambda>c'' w''. ok w'' \<and> joined c'' join_rows))"
    if "ok w2" "lat l lrows" "rat r rrows" for l r w2
    by (rule ends_mono [OF next_block start]) (use that ne assms(4) in simp_all)
  have "ends (ex_beginTuple right (jc_right c)) w1 G (\<lambda>r w2. case ex_is_end right r of Inl _ \<Rightarrow> \<not> G | Inr re \<Rightarrow>
      (if re then ok w2 \<and> joined (c\<lparr>jc_left := l, jc_right := r\<rparr>) join_rows
       else ends (load_left_buffer left (c\<lparr>jc_left := l, jc_right := r\<rparr>)) w2 G (\<lambda>c' w'.
         ends (join_nextTuple left right conds (c'\<lparr>left_ptr := 256 ^ 8 - 1\<rparr>)) w' G (\<lambda>c'' w''. ok w'' \<and> joined c'' join_rows))))"
    if "ok w1" "lat l lrows" for l w1
    by (rule ends_mono [OF right.begin_ends [OF that(1) assms(3)]]) (use re load that(2) in force)
  then show ?thesis by (rule begin_after_left [OF assms(1,2) ne(1)])
qed

lemma next_joined:
  assumes "ok w" and "joined c (t # ts)"
  shows "ends (join_nextTuple left right conds c) w G (\<lambda>c' w'. ok w' \<and> joined c' ts)"
proof -
  obtain B r rs ls where n: "pos c B r rs ls" "left_ptr c < length B" "matches (B ! left_ptr c @ r)" "t # ts = rest B (left_ptr c) r rs ls"
    using assms(2) by (auto simp: joined_def)
  have "length B \<le> 2048" using n(1) by (simp add: pos_def holds_def MAX_BUFFER_SIZE_def)
  then have p: "(left_ptr c + 1) mod 256 ^ 8 = Suc (left_ptr c)" using n(2) by simp
  have "ts = rest B (Suc (left_ptr c)) r rs ls"
    using n(3,4) pairs_step [OF n(2), of r] by (simp add: rest_def del: pairs.simps)
  moreover have "pos (c\<lparr>left_ptr := Suc (left_ptr c)\<rparr>) B r rs ls" using n(1,2) by (simp add: pos_def)
  ultimately show ?thesis using next_loop_joined [OF assms(1), of "c\<lparr>left_ptr := Suc (left_ptr c)\<rparr>"] unfolding join_nextTuple_def p by simp
qed

lemma Next_joined:
  assumes "ok w" and "joined c (t # ts)"
  shows "ends (join_Next left right c) w G (\<lambda>x w'. fst x = t \<and> ok w' \<and> joined (snd x) (t # ts))"
proof -
  obtain B r rs ls where n: "pos c B r rs ls" "left_ptr c < length B" "matches (B ! left_ptr c @ r)" "t # ts = rest B (left_ptr c) r rs ls"
    using assms(2) by (auto simp: joined_def)
  have t: "t = B ! left_ptr c @ r" using n(3,4) pairs_step [OF n(2), of r] by (simp add: rest_def del: pairs.simps)
  have pc: "holds c B" "set B \<subseteq> set lrows" "rat (jc_right c) (r # rs)" using n(1) by (simp_all add: pos_def)
  have "joined (c\<lparr>jc_right := q\<rparr>) (t # ts)" if "rat q (r # rs)" for q
    unfolding joined_def
    by (rule disjI2, rule exI [of _ B], rule exI [of _ r], rule exI [of _ rs], rule exI [of _ ls]) (use n that in \<open>simp add: pos_def\<close>)
  then show ?thesis by (intro ends_mono [OF Next_pair [OF assms(1) pc(1) n(2) pc(2,3)]]) (auto simp: t)
qed

lemma joined_is_end:
  assumes "joined c us" shows "join_is_end left right c = Inr (us = [])"
proof -
  consider (e) "lat (jc_left c) []" "rat (jc_right c) []" "us = []"
    | (p) B r rs ls where "pos c B r rs ls" "left_ptr c < length B" "matches (B ! left_ptr c @ r)" "us = rest B (left_ptr c) r rs ls"
    using assms by (auto simp: joined_def)
  then show ?thesis
  proof cases
    case e
    then show ?thesis using left.is_end_iff [OF left.at_read] right.is_end_iff [OF right.at_read] by (simp add: join_is_end_def)
  next
    case p
    have "ex_is_end left (jc_left c) = Inr (ls = [])" "ex_is_end right (jc_right c) = Inr False"
      using p(1) left.is_end_iff [OF left.at_read] right.is_end_iff [OF right.at_read, of "jc_right c" "r # rs"] by (simp_all add: pos_def)
    moreover have "us \<noteq> []" using p(3,4) pairs_step [OF p(2), of r] by (simp add: rest_def del: pairs.simps)
    ultimately show ?thesis by (simp add: join_is_end_def)
  qed
qed

text \<open>An empty right child under a left child that is not: the operator does not notice the end and has no row to give.\<close>

lemma empty_right:
  assumes "ok w" and "lstart (jc_left c)" and "rstart (jc_right c)" and "c = new_join_cursor (jc_left c) (jc_right c)"
    and "lrows \<noteq> []" "rrows = []"
  shows "ends (join_beginTuple left right conds c) w G (\<lambda>c' w'. ok w' \<and> join_is_end left right c' = Inr False \<and>
     join_Next left right c' w' = Some (Inl (UndefinedBehaviour ''left_buffer[left_ptr]->data''), w'))"
proof -
  have le: "ex_is_end left l = Inr False" if "lat l lrows" for l using left.is_end_iff [OF left.at_read [OF that]] assms(5) by simp
  have re: "ex_is_end right r = Inr True" if "rat r rrows" for r using right.is_end_iff [OF right.at_read [OF that]] assms(6) by simp
  have b: "left_buffer c ! 0 = None" "length (left_buffer c) = MAX_BUFFER_SIZE" "left_ptr c = 0" "0 < MAX_BUFFER_SIZE"
    using arg_cong [OF assms(4), of left_buffer] arg_cong [OF assms(4), of left_ptr]
    by (simp_all add: new_join_cursor_def MAX_BUFFER_SIZE_def)
  let ?Q = "\<lambda>c' w'. ok w' \<and> join_is_end left right c' = Inr False \<and>
     join_Next left right c' w' = Some (Inl (UndefinedBehaviour ''left_buffer[left_ptr]->data''), w')"
  have "?Q (c\<lparr>jc_left := l, jc_right := r\<rparr>) w2" if "ok w2" "lat l lrows" for l r w2
    using that le b by (simp add: join_is_end_def join_Next_def pres_def)
  then have "ends (ex_beginTuple right (jc_right c)) w1 G (\<lambda>r w2. case ex_is_end right r of Inl _ \<Rightarrow> \<not> G | Inr re \<Rightarrow>
      (if re then ?Q (c\<lparr>jc_left := l, jc_right := r\<rparr>) w2
       else ends (load_left_buffer left (c\<lparr>jc_left := l, jc_right := r\<rparr>)) w2 G (\<lambda>c' w'.
         ends (join_nextTuple left right conds (c'\<lparr>left_ptr := 256 ^ 8 - 1\<rparr>)) w' G ?Q)))"
    if "ok w1" "lat l lrows" for l w1
    by (intro ends_mono [OF right.begin_ends [OF that(1) assms(3)]]) (use re that(2) in auto)
  then show ?thesis by (rule begin_after_left [OF assms(1,2,5)])
qed

end

text \<open>Neither child empty: the join is again an operator whose rows may be fetched again.\<close>

locale block_join_nonempty = block_join_sources +
  assumes nonempty: "lrows \<noteq> []" "rrows \<noteq> []"
begin

sublocale join: tuple_source "BlockNestedLoopJoinExecutor left right conds" G ok
  "\<lambda>c. lstart (jc_left c) \<and> rstart (jc_right c) \<and> length (left_buffer c) = MAX_BUFFER_SIZE" joined joined join_rows
proof (unfold_locales, goal_cases)
  case (1 w c) then show ?case using nonempty by (simp add: BlockNestedLoopJoinExecutor_def begin_joined)
next
  case (2 w c t ts) then show ?case by (simp add: BlockNestedLoopJoinExecutor_def next_joined)
next
  case (3 w c t ts) then show ?case by (simp add: BlockNestedLoopJoinExecutor_def Next_joined)
next
  case (4 c ts) then show ?case by (simp add: BlockNestedLoopJoinExecutor_def joined_is_end)
qed

lemma join_delivers_pairs:
  assumes "ok w" and "lstart l" and "rstart r"
  shows "ends (all_rows (BlockNestedLoopJoinExecutor left right conds) (new_join_cursor l r)) w G
     (\<lambda>x w'. mset (fst x) = filter_mset matches (\<Sum>r \<in># mset rrows. image_mset (\<lambda>l. l @ r) (mset lrows)) \<and> ok w')"
  by (rule ends_mono [OF join.all_rows_rows [OF assms(1)]])
    (use assms in \<open>auto simp: new_join_cursor_def mset_block_join MAX_BUFFER_SIZE_def\<close>)

end

end
