(* ===== verification/Seq_Scan.thy ===== *)
theory Seq_Scan
  imports Table_Files Joins
begin

text \<open>
  \<open>SeqScanExecutor\<close>, \<open>src/src/execution/executor_seq_scan.h\<close>, on one of the open table files with
  their buffer pool and lock table. It keeps the contract of a child operator: it delivers the records of
  the table that satisfy its conditions, in the order of their identifiers, and may be started
  again. With it the queries the portal builds (projection over sort over scan, and joins) are
  shown to compute what the statement asks for.
\<close>

section \<open>The order of record identifiers\<close>

instantiation rid :: linorder
begin

definition less_rid :: "rid \<Rightarrow> rid \<Rightarrow> bool" where
  "less_rid a b \<longleftrightarrow> rid_less a b"

definition less_eq_rid :: "rid \<Rightarrow> rid \<Rightarrow> bool" where
  "less_eq_rid a b \<longleftrightarrow> a = b \<or> rid_less a b"

instance
proof
  fix x y z :: rid
  have irr: "\<not> rid_less a a" for a by (simp add: rid_less_def)
  show "x < y \<longleftrightarrow> x \<le> y \<and> \<not> y \<le> x" using rid_less_trans [of x y x] irr by (auto simp: less_rid_def less_eq_rid_def)
  show "x \<le> x" by (simp add: less_eq_rid_def)
  show "x \<le> z" if "x \<le> y" "y \<le> z" using that rid_less_trans [of x y z] by (auto simp: less_eq_rid_def)
  show "x = y" if "x \<le> y" "y \<le> x" using that rid_less_trans [of x y x] irr by (auto simp: less_eq_rid_def)
  show "x \<le> y \<or> y \<le> x" using rid_less_linear [of x y] by (auto simp: less_eq_rid_def)
qed

end

section \<open>The operator\<close>

text \<open>\<open>scan_\<close>, null before the first \<open>beginTuple\<close>, and \<open>rid_\<close>.\<close>

record scan_cursor =
  sc_scan :: "rid option"
  sc_rid :: rid

definition new_scan_cursor :: scan_cursor where
  "new_scan_cursor = \<lparr>sc_scan = None, sc_rid = Rid 0 0\<rparr>"

definition scan_checkConds :: "int \<Rightarrow> Condition list \<Rightarrow> ColMeta list \<Rightarrow> rid \<Rightarrow> (files_world, bool) rcmd" where
  "scan_checkConds fd conds cols r = bindc (on_file fd (get_record fd r True)) (\<lambda>rec s. (checkConds rec conds cols, s))"

text \<open>
  The loop of \<open>beginTuple\<close> from the current position of the scan. The loop of \<open>nextTuple\<close>
  first steps the scan and then does the same.
\<close>

partial_function (option) seek ::
  "int \<Rightarrow> Condition list \<Rightarrow> ColMeta list \<Rightarrow> rid \<Rightarrow> scan_cursor \<Rightarrow> files_world \<Rightarrow> ((rmdb_error + scan_cursor) \<times> files_world) option" where
  "seek fd conds cols r c w =
     (if scan_is_end r then pret (c\<lparr>sc_scan := Some r\<rparr>)
      else pbind (plift (scan_checkConds fd conds cols r)) (\<lambda>b.
             if b then pret (c\<lparr>sc_scan := Some r, sc_rid := r\<rparr>)
             else pbind (plift (on_file fd (scan_next fd r))) (\<lambda>r'. seek fd conds cols r' c))) w"

definition scan_beginTuple :: "int \<Rightarrow> Condition list \<Rightarrow> ColMeta list \<Rightarrow> scan_cursor \<Rightarrow> (files_world, scan_cursor) pcmd" where
  "scan_beginTuple fd conds cols c = pbind (plift (on_file fd (RmScan fd))) (\<lambda>r. seek fd conds cols r c)"

definition scan_nextTuple :: "int \<Rightarrow> Condition list \<Rightarrow> ColMeta list \<Rightarrow> scan_cursor \<Rightarrow> (files_world, scan_cursor) pcmd" where
  "scan_nextTuple fd conds cols c =
     (case sc_scan c of
        None \<Rightarrow> pres (Inl (UndefinedBehaviour ''scan_->next()''))
      | Some r \<Rightarrow> pbind (plift (on_file fd (scan_next fd r))) (\<lambda>r'. seek fd conds cols r' c))"

definition scan_Next :: "int \<Rightarrow> scan_cursor \<Rightarrow> (files_world, byte list \<times> scan_cursor) pcmd" where
  "scan_Next fd c = pbind (plift (on_file fd (get_record fd (sc_rid c) True))) (\<lambda>rec. pret (rec, c))"

definition scan_ended :: "scan_cursor \<Rightarrow> rmdb_error + bool" where
  "scan_ended c = (case sc_scan c of None \<Rightarrow> Inl (UndefinedBehaviour ''scan_->is_end()'') | Some r \<Rightarrow> Inr (scan_is_end r))"

definition seq_scan :: "int \<Rightarrow> Condition list \<Rightarrow> ColMeta list \<Rightarrow> (files_world, scan_cursor) executor" where
  "seq_scan fd conds cols =
     \<lparr>ex_beginTuple = scan_beginTuple fd conds cols, ex_nextTuple = scan_nextTuple fd conds cols, ex_is_end = scan_ended,
      ex_Next = scan_Next fd, ex_cols = cols, ex_tupleLen = to_size (cm_offset (last cols) + cm_len (last cols)),
      ex_get_col_offset = find_col cols\<rparr>"

text \<open>The constructor; \<open>fhs\<close> are the file handles by table name, given by their descriptors.\<close>

definition SeqScanExecutor ::
  "DbMeta \<Rightarrow> (string \<rightharpoonup> int) \<Rightarrow> string \<Rightarrow> Condition list \<Rightarrow> (files_world, (files_world, scan_cursor) executor) rcmd" where
  "SeqScanExecutor db fhs tname conds =
     (case get_table tname db of
        Inl e \<Rightarrow> throw e
      | Inr tab \<Rightarrow>
          (case fhs tname of
             None \<Rightarrow> throw OutOfRange
           | Some fd \<Rightarrow>
               if tab_cols tab = [] then throw (UndefinedBehaviour ''cols_.back()'')
               else bindc (on_file fd (in_locks (lock_shared_on_table fd))) (\<lambda>_. ret (seq_scan fd conds (tab_cols tab)))))"

section \<open>It delivers the records of the table\<close>

definition rids_of :: "rec_map \<Rightarrow> rid list" where
  "rids_of T = sorted_list_of_set (dom T)"

definition passes :: "Condition list \<Rightarrow> ColMeta list \<Rightarrow> byte list \<Rightarrow> bool" where
  "passes conds cols t \<longleftrightarrow> checkConds t conds cols = Inr True"

definition rows_at :: "rec_map \<Rightarrow> Condition list \<Rightarrow> ColMeta list \<Rightarrow> rid list \<Rightarrow> byte list list" where
  "rows_at T conds cols rs = filter (passes conds cols) (map (\<lambda>r. the (T r)) rs)"

text \<open>The scan stands at the first of the identifiers \<open>rs\<close> that are left, the end if there is none.\<close>

definition scan_pos :: "rec_map \<Rightarrow> rid \<Rightarrow> rid list \<Rightarrow> bool" where
  "scan_pos T r rs \<longleftrightarrow> (\<exists>pre. rids_of T = pre @ rs) \<and> (if scan_is_end r then rs = [] else rs \<noteq> [] \<and> hd rs = r)"

definition scan_at :: "rec_map \<Rightarrow> Condition list \<Rightarrow> ColMeta list \<Rightarrow> scan_cursor \<Rightarrow> byte list list \<Rightarrow> bool" where
  "scan_at T conds cols c us \<longleftrightarrow>
     (\<exists>r rs. sc_scan c = Some r \<and> scan_pos T r rs \<and> us = rows_at T conds cols rs \<and>
       (scan_is_end r \<or> sc_rid c = r \<and> passes conds cols (the (T r))))"

text \<open>The conditions can be evaluated on every record of the table.\<close>

definition evaluates :: "Condition list \<Rightarrow> ColMeta list \<Rightarrow> rec_map \<Rightarrow> bool" where
  "evaluates conds cols T \<longleftrightarrow> (\<forall>t \<in> ran T. \<exists>b. checkConds t conds cols = Inr b)"

lemma rids_of_table:
  assumes "finite (dom T)"
  shows "set (rids_of T) = dom T" "sorted_wrt (<) (rids_of T)"
  using assms by (auto simp: rids_of_def strict_sorted_list_of_set)

lemma next_present_pos:
  assumes k: "finite (dom T)" and np: "next_present T x r'" and r: "rids_of T = pre @ rs" "\<forall>y \<in> set pre. y \<le> x" "\<forall>y \<in> set rs. x < y"
  shows "scan_pos T r' rs"
proof -
  note rt = rids_of_table [OF k]
  show ?thesis
  proof (cases "scan_is_end r'")
    case True
    have "rs = []"
    proof (rule ccontr)
      assume "rs \<noteq> []"
      then have "hd rs \<in> dom T" "x < hd rs" using rt(1) r(1,3) by (auto simp: hd_in_set)
      then show False using np True by (auto simp: next_present_def less_rid_def)
    qed
    with True r(1) show ?thesis by (auto simp: scan_pos_def)
  next
    case False
    then have n: "r' \<in> dom T" "x < r'" "\<And>y. y \<in> dom T \<Longrightarrow> x < y \<Longrightarrow> \<not> y < r'"
      using np by (auto simp: next_present_def less_rid_def)
    then have "r' \<in> set rs" using rt(1) r(1,2) by (metis UnE not_le set_append)
    then obtain z zs where z: "rs = z # zs" by (cases rs) auto
    then have "z \<in> dom T" "x < z" using rt(1) r(1,3) by auto
    then have "\<not> z < r'" using n(3) by blast
    moreover have "z \<le> y" if "y \<in> set rs" for y using rt(2) that unfolding r(1) z by (auto simp: sorted_wrt_append)
    ultimately have "z = r'" using \<open>r' \<in> set rs\<close> by (meson antisym_conv1)
    with z False r(1) show ?thesis by (auto simp: scan_pos_def)
  qed
qed

lemma scanned_table:
  assumes "files_ok G tabs F w" and "fd \<in> F"
  shows "rm_ok fd (file_of fd w)" "tbl fd w = tabs fd" "finite (dom (tabs fd))"
    "set (rids_of (tabs fd)) = dom (tabs fd)" "sorted_wrt (<) (rids_of (tabs fd))"
proof -
  show t: "rm_ok fd (file_of fd w)" "tbl fd w = tabs fd" using files_okD [OF assms] by simp_all
  show f: "finite (dom (tabs fd))" using finite_table [of fd "file_of fd w"] t(2) by simp
  show "set (rids_of (tabs fd)) = dom (tabs fd)" "sorted_wrt (<) (rids_of (tabs fd))" using rids_of_table [OF f] by simp_all
qed

lemma scan_next_pos:
  assumes k: "files_ok G tabs F w" "fd \<in> F" and p: "scan_pos (tabs fd) r (r # rs)"
  shows "ends (plift (on_file fd (scan_next fd r))) w G (\<lambda>r' w'. files_ok G tabs F w' \<and> scan_pos (tabs fd) r' rs)"
proof (rule ends_on_file [OF k])
  let ?s = "file_of fd w"
  note st = scanned_table [OF k]
  obtain pre where pre: "rids_of (tabs fd) = pre @ r # rs" using p by (auto simp: scan_pos_def)
  have "table fd ?s r \<noteq> None" using st(2,4) pre by auto
  then have pg: "table fd ?s r \<noteq> None" "RM_FIRST_RECORD_PAGE \<le> rid_page_no r" using table_range [of fd ?s r] by (simp_all add: rm_consts)
  fix r' s' assume n: "scan_next fd r ?s = (Inr r', s')"
  have "next_present (tabs fd) r r'" using scan_next_next [OF st(1) n pg(1)] st(2) by simp
  then have "scan_pos (tabs fd) r' rs"
    by (rule next_present_pos [OF st(3), where pre = "pre @ [r]"]) (use st(5) pre in \<open>auto simp: sorted_wrt_append less_imp_le\<close>)
  moreover have "only_reads fd ?s s'"
    by (rule scan_from_only_reads [OF n [unfolded scan_next_def] st(1) pg(2)]) simp
  ultimately show "only_reads fd ?s s' \<and> scan_pos (tabs fd) r' rs" by simp
next
  let ?s = "file_of fd w"
  have "r \<in> dom (tabs fd)" using p scanned_table(4) [OF k] by (auto simp: scan_pos_def)
  then have "RM_FIRST_RECORD_PAGE \<le> rid_page_no r" using table_range [of fd ?s r] scanned_table(2) [OF k] by (auto simp: rm_consts)
  then show "\<exists>r' s'. scan_next fd r ?s = (Inr r', s')" if G
    unfolding scan_next_def using scan_from_cached [OF scanned_table(1) [OF k] files_okD(3) [OF k that]] by blast
qed

lemma RmScan_pos:
  assumes k: "files_ok G tabs F w" "fd \<in> F"
  shows "ends (plift (on_file fd (RmScan fd))) w G (\<lambda>r' w'. files_ok G tabs F w' \<and> scan_pos (tabs fd) r' (rids_of (tabs fd)))"
proof (rule ends_on_file [OF k])
  let ?s = "file_of fd w" and ?x = "Rid RM_FIRST_RECORD_PAGE (- 1)"
  note st = scanned_table [OF k]
  fix r' s' assume n: "RmScan fd ?s = (Inr r', s')"
  then have sc: "scan_from fd ?x (num_pages (rw_hdr ?s)) ?s = (Inr r', s')" by (simp add: RmScan_def scan_next_def)
  have "0 < num_records_per_page (rw_hdr ?s)" using st(1) by (simp add: rm_ok_def file_ok_def hdr_ok_def)
  with scan_from_next [OF sc st(1)] have "next_present (tabs fd) ?x r'" using st(2) by (simp add: rm_consts)
  moreover have "?x < y" if "y \<in> dom (tabs fd)" for y
    using that table_range [of fd ?s y] st(2) by (auto simp: less_rid_def rid_less_def rm_consts)
  ultimately have "scan_pos (tabs fd) r' (rids_of (tabs fd))"
    by (intro next_present_pos [OF st(3), where pre = "[]"]) (use st(4) in auto)
  moreover have "only_reads fd ?s s'" by (rule scan_from_only_reads [OF sc st(1)]) simp_all
  ultimately show "only_reads fd ?s s' \<and> scan_pos (tabs fd) r' (rids_of (tabs fd))" by simp
next
  show "\<exists>r' s'. RmScan fd (file_of fd w) = (Inr r', s')" if G
    unfolding RmScan_def scan_next_def using scan_from_cached [OF scanned_table(1) [OF k] files_okD(3) [OF k that]] by simp
qed

lemma get_row:
  assumes k: "files_ok G tabs F w" "fd \<in> F" and p: "scan_pos (tabs fd) r (r # rs)"
  shows "ends (plift (on_file fd (get_record fd r True))) w G (\<lambda>t w'. files_ok G tabs F w' \<and> t = the (tabs fd r))"
proof -
  let ?s = "file_of fd w"
  note st = scanned_table [OF k]
  have "r \<in> dom (tabs fd)" using st(4) p by (auto simp: scan_pos_def)
  then obtain x where x: "table fd ?s r = Some x" "tabs fd r = Some x" using st(2) by auto
  show ?thesis
  proof (rule ends_on_file [OF k])
    show "only_reads fd ?s s' \<and> t = the (tabs fd r)" if "get_record fd r True ?s = (Inr t, s')" for t s'
      using get_record_only_reads [OF st(1) x(1) that] get_record_effect(1) [OF st(1) x(1) that] x(2) by simp
    show "\<exists>t s'. get_record fd r True ?s = (Inr t, s')" if G
      using get_record_cached [OF st(1) x(1) files_okD(3) [OF k that]] files_okD(4) [OF k that] by auto
  qed
qed

lemma check_row:
  assumes k: "files_ok G tabs F w" "fd \<in> F" and p: "scan_pos (tabs fd) r (r # rs)" and ev: "G \<Longrightarrow> evaluates conds cols (tabs fd)"
  shows "ends (plift (scan_checkConds fd conds cols r)) w G
    (\<lambda>b w'. files_ok G tabs F w' \<and> checkConds (the (tabs fd r)) conds cols = Inr b)"
proof -
  have run: "plift (scan_checkConds fd conds cols r) = pbind (plift (on_file fd (get_record fd r True))) (\<lambda>t. pres (checkConds t conds cols))"
    by (rule ext) (auto simp: plift_def pbind_def pres_def scan_checkConds_def bindc_def split: prod.splits sum.splits)
  have "r \<in> dom (tabs fd)" using scanned_table(4) [OF k] p by (auto simp: scan_pos_def)
  then have "the (tabs fd r) \<in> ran (tabs fd)" by (auto simp: ran_def)
  with ev have "G \<Longrightarrow> \<exists>b. checkConds (the (tabs fd r)) conds cols = Inr b" by (auto simp: evaluates_def)
  then show ?thesis unfolding run ends_bind
    by (intro ends_mono [OF get_row [OF k p]]) (auto simp: ends_pres split: sum.split)
qed

lemma ends_seek:
  "ends (seek fd conds cols r c) w G Q \<longleftrightarrow>
   (if scan_is_end r then Q (c\<lparr>sc_scan := Some r\<rparr>) w
    else ends (plift (scan_checkConds fd conds cols r)) w G (\<lambda>b w1.
           if b then Q (c\<lparr>sc_scan := Some r, sc_rid := r\<rparr>) w1
           else ends (plift (on_file fd (scan_next fd r))) w1 G (\<lambda>r' w2. ends (seek fd conds cols r' c) w2 G Q)))"
proof -
  have "seek fd conds cols r c = (if scan_is_end r then pret (c\<lparr>sc_scan := Some r\<rparr>)
      else pbind (plift (scan_checkConds fd conds cols r)) (\<lambda>b.
             if b then pret (c\<lparr>sc_scan := Some r, sc_rid := r\<rparr>)
             else pbind (plift (on_file fd (scan_next fd r))) (\<lambda>r'. seek fd conds cols r' c)))" (is "_ = ?m")
    by (rule ext) (rule seek.simps)
  then have "ends (seek fd conds cols r c) w G Q \<longleftrightarrow> ends ?m w G Q" by (rule arg_cong)
  then show ?thesis by (simp only: ends_bind ends_if ends_simps(1))
qed

lemma seek_at:
  assumes fd: "fd \<in> F" and ev: "G \<Longrightarrow> evaluates conds cols (tabs fd)"
  shows "files_ok G tabs F w \<Longrightarrow> scan_pos (tabs fd) r rs \<Longrightarrow>
   ends (seek fd conds cols r c) w G (\<lambda>c' w'. files_ok G tabs F w' \<and> scan_at (tabs fd) conds cols c' (rows_at (tabs fd) conds cols rs))"
proof (induction rs arbitrary: r w)
  case Nil
  then have "scan_is_end r" by (auto simp: scan_pos_def split: if_splits)
  with Nil show ?case by (subst ends_seek) (auto simp: scan_at_def)
next
  case (Cons r0 rs)
  let ?T = "tabs fd"
  let ?Q = "\<lambda>c' w'. files_ok G tabs F w' \<and> scan_at ?T conds cols c' (rows_at ?T conds cols (r # rs))"
  have r: "\<not> scan_is_end r" "r0 = r" using Cons.prems(2) by (auto simp: scan_pos_def split: if_splits)
  have pos: "scan_pos ?T r (r # rs)" using Cons.prems(2) r by simp
  have hit: "scan_at ?T conds cols (c\<lparr>sc_scan := Some r, sc_rid := r\<rparr>) (rows_at ?T conds cols (r # rs))"
    if "checkConds (the (?T r)) conds cols = Inr True"
    unfolding scan_at_def using that pos by (auto simp: passes_def)
  have miss: "ends (plift (on_file fd (scan_next fd r))) w1 G (\<lambda>r' w2. ends (seek fd conds cols r' c) w2 G ?Q)"
    if "files_ok G tabs F w1" "checkConds (the (?T r)) conds cols = Inr False" for w1
  proof -
    have "rows_at ?T conds cols (r # rs) = rows_at ?T conds cols rs" using that(2) by (simp add: rows_at_def passes_def)
    then show ?thesis using Cons.IH by (intro ends_mono [OF scan_next_pos [OF that(1) fd pos]]) simp
  qed
  have "ends (plift (scan_checkConds fd conds cols r)) w G (\<lambda>b w1. if b then ?Q (c\<lparr>sc_scan := Some r, sc_rid := r\<rparr>) w1
      else ends (plift (on_file fd (scan_next fd r))) w1 G (\<lambda>r' w2. ends (seek fd conds cols r' c) w2 G ?Q))"
    by (rule ends_mono [OF check_row [OF Cons.prems(1) fd pos ev]]) (use hit miss in auto)
  then show ?case unfolding r(2) by (subst ends_seek) (simp only: r(1) if_False)
qed

lemma scan_at_row:
  assumes "scan_at T conds cols c (t # ts)"
  obtains r rs where "sc_scan c = Some r" "sc_rid c = r" "scan_pos T r (r # rs)" "t = the (T r)" "ts = rows_at T conds cols rs"
proof -
  obtain r rs where r: "sc_scan c = Some r" "scan_pos T r rs" "t # ts = rows_at T conds cols rs"
    "scan_is_end r \<or> sc_rid c = r \<and> passes conds cols (the (T r))"
    using assms unfolding scan_at_def by blast
  then have ne: "\<not> scan_is_end r" by (auto simp: scan_pos_def rows_at_def)
  then obtain rs' where rs': "rs = r # rs'" using r(2) by (cases rs) (auto simp: scan_pos_def)
  show ?thesis by (rule that [of r rs']) (use r rs' ne in \<open>simp_all add: rows_at_def\<close>)
qed

interpretation scans: replay_source "seq_scan fd conds cols" "evaluates conds cols (tabs fd) \<and> H"
    "files_ok (evaluates conds cols (tabs fd) \<and> H) tabs (insert fd F)" "\<lambda>c. True"
    "scan_at (tabs fd) conds cols" "scan_at (tabs fd) conds cols" "rows_at (tabs fd) conds cols (rids_of (tabs fd))"
  for fd conds cols tabs F H
proof (unfold_locales, goal_cases)
  case (1 w c)
  let ?G = "evaluates conds cols (tabs fd) \<and> H"
  note sk = seek_at [where G = ?G, OF insertI1 conjunct1]
  show ?case unfolding seq_scan_def executor.simps scan_beginTuple_def ends_bind
    by (rule ends_mono [OF RmScan_pos [OF 1(1) insertI1]]) (use sk in blast)
next
  case (2 w c t ts)
  let ?G = "evaluates conds cols (tabs fd) \<and> H"
  note sk = seek_at [where G = ?G, OF insertI1 conjunct1]
  from scan_at_row [OF 2(2)] obtain r rs where r: "sc_scan c = Some r" "scan_pos (tabs fd) r (r # rs)" "ts = rows_at (tabs fd) conds cols rs" by blast
  show ?case unfolding seq_scan_def executor.simps scan_nextTuple_def r(1,3) option.case ends_bind
    by (rule ends_mono [OF scan_next_pos [OF 2(1) insertI1 r(2)]]) (use sk in blast)
next
  case (3 w c t ts)
  from scan_at_row [OF 3(2)] obtain r rs where r: "sc_rid c = r" "scan_pos (tabs fd) r (r # rs)" "t = the (tabs fd r)" by blast
  show ?case unfolding seq_scan_def executor.simps scan_Next_def r(1) ends_bind
    by (rule ends_mono [OF get_row [OF 3(1) insertI1 r(2)]]) (use 3(2) r(3) in simp)
next
  case (4 c ts)
  then obtain r rs where r: "sc_scan c = Some r" "scan_pos (tabs fd) r rs" "ts = rows_at (tabs fd) conds cols rs"
    "scan_is_end r \<or> passes conds cols (the (tabs fd r))" unfolding scan_at_def by blast
  then have "ts = [] \<longleftrightarrow> scan_is_end r" by (cases rs) (auto simp: scan_pos_def rows_at_def split: if_splits)
  with r(1) show ?case by (simp add: seq_scan_def scan_ended_def)
qed simp_all

text \<open>The rows of a table: as long as the records of its file.\<close>

lemma table_row_size:
  assumes k: "rm_ok fd w" and tr: "table fd w r = Some t"
  shows "length t = record_size (rw_hdr w)"
proof -
  from tr obtain p i d where d: "contents w (PageId fd p) = Some d" "page_view (rw_hdr w) d i = Some t" "i < num_records_per_page (rw_hdr w)"
    "RM_FIRST_RECORD_PAGE \<le> p" "p < num_pages (rw_hdr w)" by (rule table_present)
  have f: "file_ok fd (rw_hdr w) (contents w)" using k by (simp add: rm_ok_def)
  have "length d = PAGE_SIZE" using file_ok_page [OF f d(4,5,1)] by (simp add: page_ok_def)
  moreover have "get_slot (rw_hdr w) i + record_size (rw_hdr w) \<le> PAGE_SIZE" using f d(3) by (intro slot_inside) (simp_all add: file_ok_def)
  ultimately show ?thesis using d(2) by (auto simp: page_view_def length_read_at split: if_splits)
qed

section \<open>Queries on a table\<close>

abbreviation matching :: "int \<Rightarrow> Condition list \<Rightarrow> ColMeta list \<Rightarrow> files_world \<Rightarrow> byte list list" where
  "matching fd conds cols w \<equiv> rows_at (tbl fd w) conds cols (rids_of (tbl fd w))"

lemma scan_rows_subset: "scan_at T conds cols c ts \<Longrightarrow> set ts \<subseteq> set (rows_at T conds cols (rids_of T))"
  by (auto simp: scan_at_def scan_pos_def rows_at_def)

lemma matching_length:
  assumes k: "rm_ok fd (file_of fd w)" and t: "t \<in> set (matching fd conds cols w)"
  shows "length t = record_size (fw_hdrs w fd)"
proof -
  from t obtain r where "r \<in> set (rids_of (tbl fd w))" "t = the (tbl fd w r)" by (auto simp: rows_at_def)
  with rids_of_table(1) [OF finite_table] have "tbl fd w r = Some t" by auto
  from table_row_size [OF k this] show ?thesis by simp
qed

text \<open>
  Property C24. \<open>SELECT cols FROM t WHERE conds\<close>: going through the projection of a sequential
  scan comes to an end, and unless an exception is raised it delivers the projections of exactly
  the records that satisfy the conditions, each once and in the order of their identifiers; table
  and invariant are unchanged. No exception is raised if the pages of the table are in the pool, no
  other transaction has locked one of its records exclusively, and the conditions can be evaluated
  on its records.
\<close>

theorem select_delivers:
  assumes k: "rm_ok fd (file_of fd w)" and b: "ProjectionExecutor (seq_scan fd conds cols) sel = Inr ex"
    and f: "\<forall>col \<in> set cols. col_fits (record_size (fw_hdrs w fd)) col" and s: "sel_len cols sel < 2 ^ 31"
  shows "ends (all_rows ex c) w (evaluates conds cols (tbl fd w) \<and> ready fd w)
     (\<lambda>r w'. fst r = map (project cols sel) (matching fd conds cols w) \<and> rm_ok fd (file_of fd w') \<and> tbl fd w' = tbl fd w)"
proof -
  let ?tabs = "\<lambda>f. tbl f w" and ?T = "tbl fd w" and ?G = "evaluates conds cols (tbl fd w) \<and> ready fd w"
  have e: "ex_cols (seq_scan fd conds cols) = cols" by (simp add: seq_scan_def)
  have p: "projection (seq_scan fd conds cols) ?G (files_ok ?G ?tabs {fd}) (\<lambda>c. True) (scan_at ?T conds cols) (scan_at ?T conds cols)
      (matching fd conds cols w) sel ex"
    by (intro projection.intro projection_axioms.intro scans.tuple_source_axioms)
      (use b f s matching_length [OF k] scan_rows_subset in \<open>auto simp: e\<close>)
  have "files_ok ?G ?tabs {fd} w" using k by (simp add: files_ok_def)
  from projection.projection_rows [OF p this TrueI] show ?thesis
    by (rule ends_mono) (auto simp: e files_ok_def)
qed

text \<open>
  Property C25. \<open>SELECT cols FROM t WHERE conds ORDER BY keys LIMIT n\<close>: what is delivered are the
  projections of the first \<open>n\<close> (all without a limit) of a list that is a permutation of the
  records that satisfy the conditions and is ordered by the keys, the first key that differs
  deciding, downwards where it is descending. No exception is raised under the conditions of a
  plain selection.
\<close>

theorem select_ordered:
  assumes k: "rm_ok fd (file_of fd w)" and b: "SortExecutor (seq_scan fd conds cols) keys limit = Inr srt" "ProjectionExecutor srt sel = Inr ex"
    and f: "\<forall>col \<in> set cols. col_fits (record_size (fw_hdrs w fd)) col" and s: "sel_len cols sel < 2 ^ 31"
    and ks: "emap (\<lambda>s. ebind (find_col cols (fst s)) (\<lambda>col. Inr (col, snd s))) keys = Inr ks"
    and nan: "\<forall>t \<in> set (matching fd conds cols w). \<forall>(col, d) \<in> set ks. key_ok col t"
    and l: "in_range 4 limit" "length (matching fd conds cols w) < 2 ^ 63"
  shows "ends (all_rows ex (new_sort_cursor c)) w (evaluates conds cols (tbl fd w) \<and> ready fd w)
     (\<lambda>r w'. rm_ok fd (file_of fd w') \<and> tbl fd w' = tbl fd w \<and>
     (\<exists>zs. mset zs = mset (matching fd conds cols w) \<and> sorted_wrt (\<lambda>a b. \<not> before ks b a) zs \<and>
           fst r = map (project cols sel) (if limit < 0 then zs else take (nat limit) zs)))"
proof -
  let ?tabs = "\<lambda>f. tbl f w" and ?T = "tbl fd w" and ?rows = "matching fd conds cols w" and ?G = "evaluates conds cols (tbl fd w) \<and> ready fd w"
  have e: "ex_cols (seq_scan fd conds cols) = cols" "ex_get_col_offset (seq_scan fd conds cols) = find_col cols" by (simp_all add: seq_scan_def)
  have st: "sorting (seq_scan fd conds cols) ?G (files_ok ?G ?tabs {fd}) (\<lambda>c. True) (scan_at ?T conds cols) (scan_at ?T conds cols) ?rows keys ks limit srt"
    by (intro sorting.intro sorting_axioms.intro scans.tuple_source_axioms) (use b(1) ks nan l in \<open>auto simp: e\<close>)
  have ec: "ex_cols srt = cols" using b(1) by (auto simp: SortExecutor_def ebind_eq_Inr e)
  have sub: "set (sorted_rows ks limit ?rows) \<subseteq> set ?rows" by (rule sorting.sorted_rows_subset [OF st])
  have p: "projection srt ?G (files_ok ?G ?tabs {fd}) (\<lambda>c. True \<and> tuple_ptr c = 0 \<and> all_record c = []) (sorting.at_sorted ?rows ks limit True)
      (sorting.at_sorted ?rows ks limit False) (sorted_rows ks limit ?rows) sel ex"
    by (intro projection.intro projection_axioms.intro sorting.sorting_source [OF st])
      (use b(2) f s matching_length [OF k] sub sorting.at_sorted_rows [OF st] in \<open>auto simp: ec\<close>)
  obtain zs where zs: "sort_e (sort_less ks) ?rows = Inr zs" "mset zs = mset ?rows" "sorted_wrt (\<lambda>a b. \<not> before ks b a) zs"
    using sorting.sorted [OF st] by blast
  have "files_ok ?G ?tabs {fd} w" using k by (simp add: files_ok_def)
  note r = projection.projection_rows [OF p this, of "new_sort_cursor c"]
  have "sorted_rows ks limit ?rows = (if limit < 0 then zs else take (nat limit) zs)" using zs(1) by (simp add: sorted_rows_def)
  with r zs(2,3) show ?thesis by (auto simp: new_sort_cursor_def ec files_ok_def elim!: ends_mono)
qed

section \<open>Joins of two tables\<close>

text \<open>The join of two scans as an instance of a join of two children.\<close>

definition join_evaluates :: "Condition list \<Rightarrow> ColMeta list \<Rightarrow> byte list list \<Rightarrow> byte list list \<Rightarrow> bool" where
  "join_evaluates conds cols L R \<longleftrightarrow> (\<forall>s \<in> set L. \<forall>t \<in> set R. \<exists>b. checkConds (s @ t) conds cols = Inr b)"

lemma scans_joined:
  fixes w lfd lconds lcols rfd rconds rcols conds
  defines "left \<equiv> seq_scan lfd lconds lcols" and "right \<equiv> seq_scan rfd rconds rcols"
  defines "L \<equiv> matching lfd lconds lcols w" and "R \<equiv> matching rfd rconds rcols w"
  defines "G \<equiv> evaluates lconds lcols (tbl lfd w) \<and> evaluates rconds rcols (tbl rfd w) \<and> ready lfd w \<and> ready rfd w \<and>
     join_evaluates conds (join_cols left right) L R"
  assumes k: "rm_ok lfd (file_of lfd w)" "rm_ok rfd (file_of rfd w)"
    and len: "to_size (cm_offset (last lcols) + cm_len (last lcols)) = record_size (fw_hdrs w lfd)"
      "to_size (cm_offset (last rcols) + cm_len (last rcols)) = record_size (fw_hdrs w rfd)"
  shows "block_join_sources left right G (files_ok G (\<lambda>f. tbl f w) {lfd, rfd})
      (\<lambda>c. True) (scan_at (tbl lfd w) lconds lcols) (scan_at (tbl lfd w) lconds lcols) L
      (\<lambda>c. True) (scan_at (tbl rfd w) rconds rcols) (scan_at (tbl rfd w) rconds rcols) R conds"
    "files_ok G (\<lambda>f. tbl f w) {lfd, rfd} w"
proof -
  let ?tabs = "\<lambda>f. tbl f w"
  have tl: "ex_tupleLen left = record_size (fw_hdrs w lfd)" "ex_tupleLen right = record_size (fw_hdrs w rfd)"
    using len by (simp_all add: seq_scan_def left_def right_def)
  have lg: "(evaluates lconds lcols (?tabs lfd) \<and> G) = G" "(evaluates rconds rcols (?tabs rfd) \<and> G) = G" by (auto simp: G_def)
  have l: "replay_source left G (files_ok G ?tabs {lfd, rfd}) (\<lambda>c. True) (scan_at (tbl lfd w) lconds lcols) (scan_at (tbl lfd w) lconds lcols) L"
    using scans.replay_source_axioms [of lfd lconds lcols ?tabs G "{rfd}"] unfolding lg left_def L_def .
  have r: "replay_source right G (files_ok G ?tabs {lfd, rfd}) (\<lambda>c. True) (scan_at (tbl rfd w) rconds rcols) (scan_at (tbl rfd w) rconds rcols) R"
    using scans.replay_source_axioms [of rfd rconds rcols ?tabs G "{lfd}"] unfolding lg right_def R_def by (simp add: insert_commute)
  show "block_join_sources left right G (files_ok G ?tabs {lfd, rfd})
      (\<lambda>c. True) (scan_at (tbl lfd w) lconds lcols) (scan_at (tbl lfd w) lconds lcols) L
      (\<lambda>c. True) (scan_at (tbl rfd w) rconds rcols) (scan_at (tbl rfd w) rconds rcols) R conds"
    by (intro block_join_sources.intro block_join_sources_axioms.intro replay_source.axioms(1) [OF l] r)
      (use matching_length k scan_rows_subset in \<open>auto simp: tl L_def R_def G_def join_evaluates_def\<close>)
  show "files_ok G ?tabs {lfd, rfd} w" using k by (auto simp: files_ok_def G_def)
qed

text \<open>
  Property C26. The join of two scans, of two tables or of one with itself, neither of which
  delivers nothing: it comes to an end, and unless an exception is raised it delivers, up to order,
  exactly the pairs of a left and a right record, one behind the other, that satisfy the join
  conditions, however many blocks the left side takes; the tables are unchanged. No exception is
  raised if the pages of both tables are in the pool, no other transaction has locked their records
  exclusively, and the conditions of the scans and of the join can be evaluated.
\<close>

theorem join_delivers:
  assumes k: "rm_ok lfd (file_of lfd w)" "rm_ok rfd (file_of rfd w)"
    and len: "to_size (cm_offset (last lcols) + cm_len (last lcols)) = record_size (fw_hdrs w lfd)"
      "to_size (cm_offset (last rcols) + cm_len (last rcols)) = record_size (fw_hdrs w rfd)"
    and scans: "left = seq_scan lfd lconds lcols" "right = seq_scan rfd rconds rcols"
    and rows: "L = matching lfd lconds lcols w" "R = matching rfd rconds rcols w" and ne: "L \<noteq> []" "R \<noteq> []"
  shows "ends (all_rows (BlockNestedLoopJoinExecutor left right conds) (new_join_cursor l r)) w
     (evaluates lconds lcols (tbl lfd w) \<and> evaluates rconds rcols (tbl rfd w) \<and> ready lfd w \<and> ready rfd w \<and>
      join_evaluates conds (join_cols left right) L R)
     (\<lambda>x w'. rm_ok lfd (file_of lfd w') \<and> rm_ok rfd (file_of rfd w') \<and> tbl lfd w' = tbl lfd w \<and> tbl rfd w' = tbl rfd w \<and>
        mset (fst x) = filter_mset (passes conds (join_cols left right)) (\<Sum>r \<in># mset R. image_mset (\<lambda>l. l @ r) (mset L)))"
proof -
  note sj = scans_joined [OF k len, of lconds rconds conds, folded scans rows]
  note j = block_join_nonempty.intro [OF sj(1) block_join_nonempty_axioms.intro [OF ne]]
  from block_join_nonempty.join_delivers_pairs [OF j sj(2) TrueI TrueI, of l r] show ?thesis
    by (rule ends_mono) (auto simp: files_ok_def passes_def [abs_def])
qed

text \<open>
  Property C27. A join of two scans, one of which is empty, fails. If the right scan delivers
  nothing and the left one something, the join, once begun, does not report its end, and fetching
  its row dereferences a null record. If the left scan delivers nothing, the right one is not
  started, and asking for the end dereferences its null iterator. Beginning the join raises no
  exception if the tables can be read and the conditions of the scans evaluated.
\<close>

theorem join_with_empty_child:
  assumes k: "rm_ok lfd (file_of lfd w)" "rm_ok rfd (file_of rfd w)"
    and len: "to_size (cm_offset (last lcols) + cm_len (last lcols)) = record_size (fw_hdrs w lfd)"
      "to_size (cm_offset (last rcols) + cm_len (last rcols)) = record_size (fw_hdrs w rfd)"
    and scans: "left = seq_scan lfd lconds lcols" "right = seq_scan rfd rconds rcols"
    and rows: "L = matching lfd lconds lcols w" "R = matching rfd rconds rcols w" and empty: "L = [] \<or> R = []"
  shows "ends (join_beginTuple left right conds (new_join_cursor new_scan_cursor new_scan_cursor)) w
     (evaluates lconds lcols (tbl lfd w) \<and> evaluates rconds rcols (tbl rfd w) \<and> ready lfd w \<and> ready rfd w)
     (\<lambda>c w'. if L = [] then join_is_end left right c = Inl (UndefinedBehaviour ''scan_->is_end()'')
        else join_is_end left right c = Inr False \<and>
             join_Next left right c w' = Some (Inl (UndefinedBehaviour ''left_buffer[left_ptr]->data''), w'))"
proof -
  let ?G = "evaluates lconds lcols (tbl lfd w) \<and> evaluates rconds rcols (tbl rfd w) \<and> ready lfd w \<and> ready rfd w"
  let ?c = "new_join_cursor new_scan_cursor new_scan_cursor"
  have "join_evaluates conds (join_cols left right) L R" using empty by (auto simp: join_evaluates_def)
  then have "(evaluates lconds lcols (tbl lfd w) \<and> evaluates rconds rcols (tbl rfd w) \<and> ready lfd w \<and> ready rfd w \<and>
      join_evaluates conds (join_cols left right) L R) = ?G" by simp
  note sj = scans_joined [OF k len, of lconds rconds conds, folded scans rows, unfolded this]
  show ?thesis
  proof (cases "L = []")
    case False
    with empty have "R = []" by simp
    with False show ?thesis
      by (intro ends_mono [OF block_join_sources.empty_right [OF sj(1,2)]]) (simp_all add: new_join_cursor_def)
  next
    case True
    note ls = block_join_sources.axioms(1) [OF sj(1)]
    have "ends (ex_beginTuple left (jc_left ?c)) w ?G (\<lambda>l w'. ex_is_end left l = Inr True)"
      using tuple_source.is_end_iff [OF ls] True
      by (intro ends_mono [OF tuple_source.begin_ends [OF ls sj(2) TrueI]]) auto
    then show ?thesis unfolding join_beginTuple_def ends_bind
      by (rule ends_mono) (use True in \<open>auto simp: join_is_end_def new_join_cursor_def new_scan_cursor_def scans(2) seq_scan_def scan_ended_def\<close>)
  qed
qed

section \<open>Two tables of one page\<close>

text \<open>The files \<open>t\<close> and \<open>u\<close>, each with one record page, both pages in the pool; a new transaction.\<close>

definition two_disk :: "byte list \<Rightarrow> byte list \<Rightarrow> disk" where
  "two_disk d e =
     \<lparr>dm_os = \<lparr>os_files = [LOG_FILE_NAME \<mapsto> [], ''t'' \<mapsto> replicate PAGE_SIZE 0 @ d, ''u'' \<mapsto> replicate PAGE_SIZE 0 @ e],
               os_fds = [(0, ''t''), (1, ''u'')], os_other = [], os_denied = (\<lambda>_. False), os_limit = 1000000\<rparr>,
      path2fd = [(''t'', 0), (''u'', 1)], fd2path = [(0, ''t''), (1, ''u'')], log_fd = - 1, fd2pageno = (\<lambda>_. 2)\<rparr>"

definition two_world :: "byte list \<Rightarrow> byte list \<Rightarrow> files_world" where
  "two_world d e =
     \<lparr>fw_hdrs = (\<lambda>_. demo_hdr),
      fw_bpm = \<lparr>pool_size = 2, pages = [\<lparr>p_id = PageId 0 1, p_data = d, p_dirty = False, p_pin = 1\<rparr>,
                                       \<lparr>p_id = PageId 1 1, p_data = e, p_dirty = False, p_pin = 1\<rparr>],
                page_table = [(PageId 0 1, 0), (PageId 1 1, 1)], free_list = [], bp_replacer = LRUReplacer 2, bp_disk = two_disk d e\<rparr>,
      fw_locks = (new_Transaction 1, [])\<rparr>"

lemma two_disk_ok: "disk_wf (two_disk d e)"
proof -
  have "(if p = ''t'' then Some 0 else if p = ''u'' then Some 1 else None) = Some fd \<longleftrightarrow>
      (if fd = 0 then Some ''t'' else if fd = 1 then Some ''u'' else None) = Some p" for p and fd :: int
    by (cases "p = ''t''"; cases "p = ''u''"; cases "fd = 0"; cases "fd = 1") auto
  then show ?thesis by (simp add: disk_wf_def two_disk_def split: if_splits)
qed

lemma two_world_pool:
  assumes "length d = PAGE_SIZE" and "length e = PAGE_SIZE"
  shows "pool_ok (fw_bpm (two_world d e))"
proof -
  let ?b = "fw_bpm (two_world d e)"
  have fields: "pool_size ?b = 2" "length (pages ?b) = 2" "hwf (page_table ?b)" "bp_replacer ?b = LRUReplacer 2" "bp_disk ?b = two_disk d e" "free_list ?b = []"
    by (simp_all add: two_world_def)
  have fr: "frame_of ?b pid = (if pid = PageId 0 1 then Some 0 else if pid = PageId 1 1 then Some 1 else None)" for pid
    by (simp add: two_world_def)
  have pg: "pages ?b ! 0 = \<lparr>p_id = PageId 0 1, p_data = d, p_dirty = False, p_pin = 1\<rparr>"
    "pages ?b ! 1 = \<lparr>p_id = PageId 1 1, p_data = e, p_dirty = False, p_pin = 1\<rparr>" by (simp_all add: two_world_def)
  have two: "(f < 2) = (f = 0 \<or> f = 1)" for f :: nat by auto
  have "bp_wf ?b"
    unfolding bp_wf_def fields two
    using lru.inv_new [of 2] lru.queue_new [of 2] two_disk_ok [of d e] fields(3) assms pg
    by (auto simp: fr split: if_splits)
  moreover have "coherent ?b" using pg by (auto simp: coherent_def fr split: if_splits)
  ultimately show ?thesis by (simp add: pool_ok_def bp_ok_def fields)
qed

text \<open>The page of \<open>t\<close> holds the record 7, 9; the page of \<open>u\<close> holds 1, 2 or nothing.\<close>

definition other_page :: "byte list" where
  "other_page = ins_page demo_hdr 0 [1, 2] demo_page"

lemma ins_demo_page:
  assumes "length bs = 2"
  shows "page_ok demo_hdr (ins_page demo_hdr 0 bs demo_page)" "page_view demo_hdr (ins_page demo_hdr 0 bs demo_page) = [0 \<mapsto> bs]"
    "next_free_page_no (ins_page demo_hdr 0 bs demo_page) = RM_NO_PAGE" "page_used demo_hdr (ins_page demo_hdr 0 bs demo_page) < 8"
proof -
  have n: "0 < num_records_per_page demo_hdr" "length bs = record_size demo_hdr" "page_view demo_hdr demo_page 0 = None"
    using demo_blank(1) assms by (simp_all add: demo_hdr_def)
  note ip = ins_page_ok [OF demo_hdr_ok demo_blank(2) n]
  show "page_ok demo_hdr (ins_page demo_hdr 0 bs demo_page)" "page_view demo_hdr (ins_page demo_hdr 0 bs demo_page) = [0 \<mapsto> bs]"
    "next_free_page_no (ins_page demo_hdr 0 bs demo_page) = RM_NO_PAGE"
    using ip demo_blank by simp_all
  then show "page_used demo_hdr (ins_page demo_hdr 0 bs demo_page) < 8" by (simp add: page_used_def)
qed

lemma two_world_file:
  assumes d: "page_ok demo_hdr d" "page_ok demo_hdr e" and p: "fd = 0 \<and> x = d \<or> fd = 1 \<and> x = e"
    and x: "page_used demo_hdr x < 8" "next_free_page_no x = RM_NO_PAGE"
  shows "rm_ok fd (file_of fd (two_world d e))" "tbl fd (two_world d e) (Rid 1 (int i)) = page_view demo_hdr x i" "ready fd (two_world d e)"
proof -
  let ?w = "two_world d e"
  have h: "num_pages demo_hdr = 2" "fw_hdrs ?w fd = demo_hdr" by (simp_all add: demo_hdr_def two_world_def)
  have fr: "frame_of (fw_bpm ?w) pid = (if pid = PageId 0 1 then Some 0 else if pid = PageId 1 1 then Some 1 else None)" for pid
    by (simp add: two_world_def)
  have c: "content (fw_bpm ?w) (PageId fd 1) = Some x" using p by (auto simp: content_def fr two_world_def)
  have f: "if page_used demo_hdr x < num_records_per_page demo_hdr then first_free_page_no demo_hdr = 1 \<and> next_free_page_no x = RM_NO_PAGE
      else first_free_page_no demo_hdr = RM_NO_PAGE" using x by (simp add: demo_hdr_def)
  have "page_ok demo_hdr x" using d p by auto
  note op = one_page_file [where C = "content (fw_bpm ?w)", OF demo_hdr_ok h(1) this c f]
  have "pool_ok (fw_bpm ?w)" using two_world_pool d by (simp add: page_ok_def)
  moreover have "fd2pageno (bp_disk (fw_bpm ?w)) fd = 2" by (simp add: two_world_def two_disk_def)
  ultimately show "rm_ok fd (file_of fd ?w)" using op(1) h by (auto simp: rm_ok_def frame_rules_def fr rm_consts)
  show "tbl fd ?w (Rid 1 (int i)) = page_view demo_hdr x i" using op(2) h(2) by (simp add: table_def)
  have "table_ok []" using sys_ok_init by (simp add: sys_ok_def)
  then show "ready fd ?w" using p h
    by (auto simp: ready_def cached_def record_page_def fr rm_consts may_read_def held_mode_def queue_at_def empty_queue_def own_request_def)
      (auto simp: two_world_def new_Transaction_def empty_queue_def)
qed

lemma two_world_table:
  assumes "tbl fd (two_world d e) = T" and "\<And>i. T (Rid 1 (int i)) = m i"
  shows "T = (\<lambda>r. if rid_page_no r = 1 \<and> 0 \<le> rid_slot_no r then m (nat (rid_slot_no r)) else None)"
proof
  fix r :: rid
  have h: "fw_hdrs (two_world d e) fd = demo_hdr" "num_pages demo_hdr = 2" by (simp_all add: two_world_def demo_hdr_def)
  show "T r = (if rid_page_no r = 1 \<and> 0 \<le> rid_slot_no r then m (nat (rid_slot_no r)) else None)"
  proof (cases "rid_page_no r = 1 \<and> 0 \<le> rid_slot_no r")
    case True
    then have "r = Rid 1 (int (nat (rid_slot_no r)))" by (cases r) simp
    with True assms(2) show ?thesis by metis
  next
    case False
    then have "T r = None" using table_range [of fd "file_of fd (two_world d e)" r] assms(1) h by fastforce
    with False show ?thesis by auto
  qed
qed

lemma one_record:
  "(\<lambda>r. if rid_page_no r = 1 \<and> 0 \<le> rid_slot_no r then [0 :: nat \<mapsto> x] (nat (rid_slot_no r)) else None) = [Rid 1 0 \<mapsto> x]"
proof
  fix r :: rid
  show "(if rid_page_no r = 1 \<and> 0 \<le> rid_slot_no r then [0 :: nat \<mapsto> x] (nat (rid_slot_no r)) else None) = [Rid 1 0 \<mapsto> x] r"
    by (cases r) auto
qed

definition one_col :: ColMeta where
  "one_col = \<lparr>cm_tab_name = ''t'', cm_name = ''s'', cm_type = TYPE_STRING, cm_len = 2, cm_offset = 0, cm_index = False\<rparr>"

abbreviation pair_world :: files_world where "pair_world \<equiv> two_world used_page other_page"
abbreviation half_world :: files_world where "half_world \<equiv> two_world used_page demo_page"

lemmas pair_pages = ins_demo_page [of "[7, 9]", folded used_page_def, simplified] ins_demo_page [of "[1, 2]", folded other_page_def, simplified]

lemma demo_page_free: "page_used demo_hdr demo_page < 8" "next_free_page_no demo_page = RM_NO_PAGE" "page_ok demo_hdr demo_page" "page_view demo_hdr demo_page = Map.empty"
  using demo_blank by (simp_all add: page_used_def)

lemma pair_world_ok:
  "rm_ok 0 (file_of 0 pair_world)" "rm_ok 1 (file_of 1 pair_world)" "ready 0 pair_world" "ready 1 pair_world"
  "tbl 0 pair_world = [Rid 1 0 \<mapsto> [7, 9]]" "tbl 1 pair_world = [Rid 1 0 \<mapsto> [1, 2]]"
proof -
  note a = two_world_file [OF pair_pages(1,5) _ pair_pages(4,3), of 0, simplified] and b = two_world_file [OF pair_pages(1,5) _ pair_pages(8,7), of 1, simplified]
  show "rm_ok 0 (file_of 0 pair_world)" "rm_ok 1 (file_of 1 pair_world)" "ready 0 pair_world" "ready 1 pair_world" by (fact a b)+
  show "tbl 0 pair_world = [Rid 1 0 \<mapsto> [7, 9]]" using two_world_table [OF refl a(2)] unfolding pair_pages(2) one_record .
  show "tbl 1 pair_world = [Rid 1 0 \<mapsto> [1, 2]]" using two_world_table [OF refl b(2)] unfolding pair_pages(6) one_record .
qed

lemma half_world_ok:
  "rm_ok 0 (file_of 0 half_world)" "rm_ok 1 (file_of 1 half_world)" "ready 0 half_world" "ready 1 half_world"
  "tbl 0 half_world = [Rid 1 0 \<mapsto> [7, 9]]" "tbl 1 half_world = Map.empty"
proof -
  note a = two_world_file [OF pair_pages(1) demo_page_free(3) _ pair_pages(4,3), of 0, simplified]
    and b = two_world_file [OF pair_pages(1) demo_page_free(3) _ demo_page_free(1,2), of 1, simplified]
  show "rm_ok 0 (file_of 0 half_world)" "rm_ok 1 (file_of 1 half_world)" "ready 0 half_world" "ready 1 half_world" by (fact a b)+
  show "tbl 0 half_world = [Rid 1 0 \<mapsto> [7, 9]]" using two_world_table [OF refl a(2)] unfolding pair_pages(2) one_record .
  show "tbl 1 half_world = Map.empty" using two_world_table [OF refl b(2)] by (auto simp: demo_page_free(4))
qed

lemma one_matching:
  "tbl fd w = [Rid 1 0 \<mapsto> x] \<Longrightarrow> matching fd [] cols w = [x]" "tbl fd w = Map.empty \<Longrightarrow> matching fd [] cols w = []"
  by (simp_all add: rids_of_def rows_at_def passes_def)

lemma no_conditions [simp]: "evaluates [] cols T" "join_evaluates [] cols L R"
  by (auto simp: evaluates_def join_evaluates_def)

lemma two_world_hdr: "fw_hdrs (two_world d e) fd = demo_hdr" "record_size demo_hdr = 2"
  by (simp_all add: two_world_def demo_hdr_def)

lemma one_col_fits: "col_fits 2 one_col"
  by (simp add: one_col_def col_fits_def)

lemma one_projection: "\<exists>ex. ProjectionExecutor (seq_scan 0 [] [one_col]) [TabCol ''t'' ''s''] = Inr ex"
  by (simp add: ProjectionExecutor_def seq_scan_def abstract_get_col_def same_col_def one_col_def)

lemma one_project: "project [one_col] [TabCol ''t'' ''s''] [7, 9] = [7, 9]" "sel_len [one_col] [TabCol ''t'' ''s''] = 2"
  by (simp_all add: project_def sel_len_def sel_col_def same_col_def one_col_def field_def read_at_def eval_nat_numeral)

theorem select_delivers_witness:
  "\<exists>ex r w'. ProjectionExecutor (seq_scan 0 [] [one_col]) [TabCol ''t'' ''s''] = Inr ex \<and>
     all_rows ex new_scan_cursor pair_world = Some (Inr r, w') \<and> fst r = [[7, 9]]"
proof -
  obtain ex where ex: "ProjectionExecutor (seq_scan 0 [] [one_col]) [TabCol ''t'' ''s''] = Inr ex" using one_projection by blast
  have "ends (all_rows ex new_scan_cursor) pair_world (evaluates [] [one_col] (tbl 0 pair_world) \<and> ready 0 pair_world)
     (\<lambda>r w'. fst r = map (project [one_col] [TabCol ''t'' ''s'']) (matching 0 [] [one_col] pair_world) \<and>
        rm_ok 0 (file_of 0 w') \<and> tbl 0 w' = tbl 0 pair_world)"
    by (rule select_delivers [OF pair_world_ok(1) ex]) (simp_all add: two_world_hdr one_col_fits one_project)
  with ex pair_world_ok(3) show ?thesis
    by (auto simp: ends_True one_matching(1) [OF pair_world_ok(5)] one_project)
qed

theorem select_ordered_witness:
  "\<exists>srt ex r w'. SortExecutor (seq_scan 0 [] [one_col]) [(TabCol ''t'' ''s'', True)] 5 = Inr srt \<and>
     ProjectionExecutor srt [TabCol ''t'' ''s''] = Inr ex \<and>
     all_rows ex (new_sort_cursor new_scan_cursor) pair_world = Some (Inr r, w') \<and> length (fst r) = 1"
proof -
  obtain srt where srt: "SortExecutor (seq_scan 0 [] [one_col]) [(TabCol ''t'' ''s'', True)] 5 = Inr srt" "ex_cols srt = [one_col]"
    by (simp add: SortExecutor_def seq_scan_def find_col_def same_col_def one_col_def)
  then obtain ex where ex: "ProjectionExecutor srt [TabCol ''t'' ''s''] = Inr ex"
    by (simp add: ProjectionExecutor_def abstract_get_col_def same_col_def one_col_def)
  have ks: "emap (\<lambda>s. ebind (find_col [one_col] (fst s)) (\<lambda>col. Inr (col, snd s))) [(TabCol ''t'' ''s'', True)] = Inr [(one_col, True)]"
    by (simp add: find_col_def same_col_def one_col_def)
  have "key_ok one_col [7, 9]"
    by (simp add: key_ok_def one_col_fits column_value_def one_col_def load_raw_def peek_def new_Value_def to_size_def no_nan_def)
      (simp add: col_fits_def)
  then have "ends (all_rows ex (new_sort_cursor new_scan_cursor)) pair_world (evaluates [] [one_col] (tbl 0 pair_world) \<and> ready 0 pair_world)
     (\<lambda>r w'. rm_ok 0 (file_of 0 w') \<and> tbl 0 w' = tbl 0 pair_world \<and>
     (\<exists>zs. mset zs = mset (matching 0 [] [one_col] pair_world) \<and> sorted_wrt (\<lambda>a b. \<not> before [(one_col, True)] b a) zs \<and>
           fst r = map (project [one_col] [TabCol ''t'' ''s'']) (if 5 < (0 :: int) then zs else take (nat 5) zs)))"
    by (intro select_ordered [OF pair_world_ok(1) srt(1) ex _ _ ks])
      (simp_all add: two_world_hdr one_col_fits one_project one_matching(1) [OF pair_world_ok(5)] in_range_def)
  with srt ex pair_world_ok(3) show ?thesis
    by (auto simp: ends_True one_matching(1) [OF pair_world_ok(5)])
qed

lemma one_col_len: "to_size (cm_offset (last [one_col]) + cm_len (last [one_col])) = record_size (fw_hdrs (two_world d e) fd)"
  by (simp add: two_world_hdr one_col_def to_size_def)

text \<open>The join of \<open>t\<close> with \<open>u\<close> really delivers the one pair.\<close>

theorem join_delivers_witness:
  "\<exists>x w'. all_rows (BlockNestedLoopJoinExecutor (seq_scan 0 [] [one_col]) (seq_scan 1 [] [one_col]) [])
     (new_join_cursor new_scan_cursor new_scan_cursor) pair_world = Some (Inr x, w') \<and> mset (fst x) = {#[7, 9, 1, 2]#}"
  using join_delivers [OF pair_world_ok(1,2) one_col_len one_col_len refl refl refl refl, of "[]" "[]" "[]" new_scan_cursor new_scan_cursor]
    pair_world_ok(3,4)
  by (auto simp: ends_True one_matching(1) [OF pair_world_ok(5)] one_matching(1) [OF pair_world_ok(6)] passes_def)

text \<open>The join of \<open>t\<close> with an empty \<open>u\<close> begins, does not end and fails; with an empty left side it fails at once.\<close>

theorem join_with_empty_child_witness:
  "(\<exists>c w'. join_beginTuple (seq_scan 0 [] [one_col]) (seq_scan 1 [] [one_col]) [] (new_join_cursor new_scan_cursor new_scan_cursor) half_world =
       Some (Inr c, w') \<and>
     join_is_end (seq_scan 0 [] [one_col]) (seq_scan 1 [] [one_col]) c = Inr False \<and>
     join_Next (seq_scan 0 [] [one_col]) (seq_scan 1 [] [one_col]) c w' = Some (Inl (UndefinedBehaviour ''left_buffer[left_ptr]->data''), w')) \<and>
   (\<exists>c w'. join_beginTuple (seq_scan 1 [] [one_col]) (seq_scan 0 [] [one_col]) [] (new_join_cursor new_scan_cursor new_scan_cursor) half_world =
       Some (Inr c, w') \<and>
     join_is_end (seq_scan 1 [] [one_col]) (seq_scan 0 [] [one_col]) c = Inl (UndefinedBehaviour ''scan_->is_end()''))"
proof
  note m = one_matching(1) [OF half_world_ok(5)] one_matching(2) [OF half_world_ok(6)]
  show "\<exists>c w'. join_beginTuple (seq_scan 0 [] [one_col]) (seq_scan 1 [] [one_col]) [] (new_join_cursor new_scan_cursor new_scan_cursor) half_world =
       Some (Inr c, w') \<and>
     join_is_end (seq_scan 0 [] [one_col]) (seq_scan 1 [] [one_col]) c = Inr False \<and>
     join_Next (seq_scan 0 [] [one_col]) (seq_scan 1 [] [one_col]) c w' = Some (Inl (UndefinedBehaviour ''left_buffer[left_ptr]->data''), w')"
    using join_with_empty_child [OF half_world_ok(1,2) one_col_len one_col_len refl refl refl refl, of "[]" "[]" "[]"] half_world_ok(3,4)
    by (simp add: ends_True m)
  show "\<exists>c w'. join_beginTuple (seq_scan 1 [] [one_col]) (seq_scan 0 [] [one_col]) [] (new_join_cursor new_scan_cursor new_scan_cursor) half_world =
       Some (Inr c, w') \<and>
     join_is_end (seq_scan 1 [] [one_col]) (seq_scan 0 [] [one_col]) c = Inl (UndefinedBehaviour ''scan_->is_end()'')"
    using join_with_empty_child [OF half_world_ok(2,1) one_col_len one_col_len refl refl refl refl, of "[]" "[]" "[]"] half_world_ok(3,4)
    by (simp add: ends_True m)
qed

end
