(* ===== verification/Dml.thy ===== *)
theory Dml
  imports File_Names Seq_Scan
begin

text \<open>
  The operators that change tables, \<open>src/src/execution/executor_insert.h\<close>, \<open>executor_delete.h\<close>
  and \<open>executor_update.h\<close>, on a world that has the open table files, the
  buffer pool, the lock table with the running transaction, the log manager and the indexes.
  An index handle is its state with the three operations its clients call; they work on that
  state and on the buffer pool, and the operators call them where the code does.
\<close>

section \<open>The world\<close>

text \<open>What the operators (and rollback) call of an \<open>IxIndexHandle\<close>, whose pages are in the same pool.\<close>

record 'i index_ops =
  ix_is_key_exist :: "byte list \<Rightarrow> ('i \<times> bpm, bool) rcmd"
  ix_insert_entry :: "byte list \<Rightarrow> rid \<Rightarrow> ('i \<times> bpm, unit) rcmd"
  ix_delete_entry :: "byte list \<Rightarrow> ('i \<times> bpm, unit) rcmd"

text \<open>\<open>fhs_\<close> and \<open>ihs_\<close> of the system manager, and what the context carries.\<close>

record 'i db_world =
  dw_fhs :: "(string, int \<times> RmFileHdr) hmap"
  dw_ihs :: "(string, 'i) hmap"
  dw_bpm :: bpm
  dw_locks :: lock_state
  dw_log :: log_mgr

definition as_rm :: "RmFileHdr \<Rightarrow> 'i db_world \<Rightarrow> rm_world" where
  "as_rm h w = \<lparr>rw_hdr = h, rw_bpm = dw_bpm w, rw_locks = dw_locks w\<rparr>"

text \<open>A call on the file handle of a table, \<open>fhs_.at(tab_name)\<close>.\<close>

definition on_table :: "string \<Rightarrow> (int \<Rightarrow> (rm_world, 'a) rcmd) \<Rightarrow> ('i db_world, 'a) rcmd" where
  "on_table n f w =
     (case hfind (dw_fhs w) n of
        None \<Rightarrow> (Inl OutOfRange, w)
      | Some (fd, h) \<Rightarrow>
          (case f fd (as_rm h w) of (r, s) \<Rightarrow>
             (r, w\<lparr>dw_fhs := hput n (fd, rw_hdr s) (dw_fhs w), dw_bpm := rw_bpm s, dw_locks := rw_locks s\<rparr>)))"

definition on_index :: "string \<Rightarrow> ('i \<times> bpm, 'a) rcmd \<Rightarrow> ('i db_world, 'a) rcmd" where
  "on_index n m w =
     (case hfind (dw_ihs w) n of
        None \<Rightarrow> (Inl OutOfRange, w)
      | Some i \<Rightarrow> (case m (i, dw_bpm w) of (r, (i', b)) \<Rightarrow> (r, w\<lparr>dw_ihs := hput n i' (dw_ihs w), dw_bpm := b\<rparr>)))"

definition ih_at :: "string \<Rightarrow> ('i db_world, unit) rcmd" where
  "ih_at n = on_index n (ret ())"

definition on_log :: "(log_state, 'a) rcmd \<Rightarrow> ('i db_world, 'a) rcmd" where
  "on_log m w =
     (case m (dw_log w, bp_disk (dw_bpm w)) of (r, (l, d)) \<Rightarrow>
        (r, w\<lparr>dw_log := l, dw_bpm := (dw_bpm w)\<lparr>bp_disk := d\<rparr>\<rparr>))"

definition on_locks :: "(lock_state, 'a) rcmd \<Rightarrow> ('i db_world, 'a) rcmd" where
  "on_locks m = zoom dw_locks (\<lambda>l w. w\<lparr>dw_locks := l\<rparr>) m"

definition this_txn :: "'i db_world \<Rightarrow> txn" where
  "this_txn w = fst (dw_locks w)"

definition set_txn :: "(txn \<Rightarrow> txn) \<Rightarrow> ('i db_world, unit) rcmd" where
  "set_txn f = modify (\<lambda>w. w\<lparr>dw_locks := (f (fst (dw_locks w)), snd (dw_locks w))\<rparr>)"

definition of_res :: "rmdb_error + 'a \<Rightarrow> ('s, 'a) rcmd" where
  "of_res x s = (x, s)"

definition name_bytes :: "string \<Rightarrow> byte list" where
  "name_bytes n = map (\<lambda>c. of_nat (of_char c)) n"

text \<open>A log record with the transaction's previous number, added to the log; the transaction keeps the number given.\<close>

definition log_write :: "LogRecord \<Rightarrow> ('i db_world, unit) rcmd" where
  "log_write r =
     (\<lambda>w. bindc (on_log (add_log_to_buffer (r\<lparr>log_prev_lsn := prev_lsn (this_txn w)\<rparr>)))
            (\<lambda>x. set_txn (\<lambda>t. t\<lparr>prev_lsn := fst x\<rparr>)) w)"

section \<open>Index keys\<close>

definition get_index_name :: "string \<Rightarrow> ColMeta list \<Rightarrow> string" where
  "get_index_name filename cols = filename @ concat (map (\<lambda>c. ''_'' @ cm_name c) cols) @ ''.idx''"

fun key_copy :: "byte list \<Rightarrow> ColMeta list \<Rightarrow> int \<Rightarrow> byte list \<Rightarrow> rmdb_error + byte list" where
  "key_copy rec [] offset key = Inr key"
| "key_copy rec (c # cs) offset key =
     ebind (copy_n rec (cm_offset c) (cm_len c) key offset) (key_copy rec cs (offset + cm_len c))"

definition index_key :: "IndexMeta \<Rightarrow> byte list \<Rightarrow> rmdb_error + byte list" where
  "index_key ix rec =
     (if length (im_cols ix) < col_num ix then Inl (UndefinedBehaviour ''index.cols[i]'')
      else key_copy rec (take (col_num ix) (im_cols ix)) 0 (replicate (col_tot_len ix) 0))"

text \<open>\<open>for (auto &x : xs)\<close> over a list.\<close>

fun for_each :: "('a \<Rightarrow> ('s, unit) rcmd) \<Rightarrow> 'a list \<Rightarrow> ('s, unit) rcmd" where
  "for_each f [] = ret ()"
| "for_each f (x # xs) = bindc (f x) (\<lambda>_. for_each f xs)"

fun map_each :: "('a \<Rightarrow> ('s, 'b) rcmd) \<Rightarrow> 'a list \<Rightarrow> ('s, 'b list) rcmd" where
  "map_each f [] = ret []"
| "map_each f (x # xs) = bindc (f x) (\<lambda>y. bindc (map_each f xs) (\<lambda>ys. ret (y # ys)))"

section \<open>Insert\<close>

text \<open>The loop that makes the record.\<close>

fun make_record :: "ColMeta list \<Rightarrow> Value list \<Rightarrow> byte list \<Rightarrow> rmdb_error + byte list" where
  "make_record cols [] rec = Inr rec"
| "make_record [] (v # vs) rec = Inl (UndefinedBehaviour ''tab_.cols[i]'')"
| "make_record (col # cols) (v # vs) rec =
     (if \<not> is_compatible_type (cm_type col) (v_type v)
      then Inl (IncompatibleTypeError (coltype2str (cm_type col)) (coltype2str (v_type v)))
      else ebind (init_raw (to_size (cm_len col)) v) (\<lambda>w.
           ebind (copy_n (the (v_raw w)) 0 (cm_len col) rec (cm_offset col)) (make_record cols vs)))"

definition InsertExecutor :: "DbMeta \<Rightarrow> string \<Rightarrow> Value list \<Rightarrow> ('i db_world, TabMeta) rcmd" where
  "InsertExecutor db tname values =
     bindc (of_res (get_table tname db)) (\<lambda>tab.
       if length values \<noteq> length (tab_cols tab) then throw InvalidValueCountError
       else bindc (on_table tname (\<lambda>fd. in_locks (lock_IX_on_table fd))) (\<lambda>_. ret tab))"

text \<open>
  The record buffer is not initialised: \<open>heap\<close> are the bytes it happens to have, of which the
  columns may leave some.
\<close>

definition fresh_record :: "byte list \<Rightarrow> nat \<Rightarrow> byte list" where
  "fresh_record heap n = take n (heap @ replicate n 0)"

definition insert_Next :: "'i index_ops \<Rightarrow> byte list \<Rightarrow> TabMeta \<Rightarrow> string \<Rightarrow> Value list \<Rightarrow> ('i db_world, rid) rcmd" where
  "insert_Next ops heap tab tname values =
     bindc (on_table tname (\<lambda>fd s. (Inr (record_size (rw_hdr s)), s))) (\<lambda>n.
     bindc (of_res (make_record (tab_cols tab) values (fresh_record heap n))) (\<lambda>rec.
     bindc (map_each (\<lambda>ix.
        bindc (ih_at (get_index_name tname (im_cols ix))) (\<lambda>_.
        bindc (of_res (index_key ix rec)) (\<lambda>key.
        bindc (on_index (get_index_name tname (im_cols ix)) (ix_is_key_exist ops key)) (\<lambda>found.
          if found then throw (RMDBError ''index unique error!'') else ret key)))) (tab_indexes tab)) (\<lambda>keys.
     bindc (on_table tname (\<lambda>fd. insert_record fd rec True)) (\<lambda>r.
     bindc (\<lambda>w. log_write (InsertLogRecord (txn_id (this_txn w)) rec r (name_bytes tname)) w) (\<lambda>_.
     bindc (for_each (\<lambda>(ix, key). on_index (get_index_name tname (im_cols ix)) (ix_insert_entry ops key r))
              (zip (tab_indexes tab) keys)) (\<lambda>_.
     bindc (set_txn (append_write_record \<lparr>wr_type = INSERT_TUPLE, wr_tab_name = tname, wr_rid = r, wr_record = []\<rparr>)) (\<lambda>_.
       ret r)))))))"

section \<open>Delete\<close>

definition delete_row :: "'i index_ops \<Rightarrow> TabMeta \<Rightarrow> string \<Rightarrow> rid \<Rightarrow> ('i db_world, unit) rcmd" where
  "delete_row ops tab tname r =
     bindc (on_table tname (\<lambda>fd. get_record fd r True)) (\<lambda>rec.
     bindc (\<lambda>w. log_write (DeleteLogRecord (txn_id (this_txn w)) rec r (name_bytes tname)) w) (\<lambda>_.
     bindc (for_each (\<lambda>ix.
        bindc (ih_at (get_index_name tname (im_cols ix))) (\<lambda>_.
        bindc (of_res (index_key ix rec)) (\<lambda>key. on_index (get_index_name tname (im_cols ix)) (ix_delete_entry ops key))))
        (tab_indexes tab)) (\<lambda>_.
     bindc (on_table tname (\<lambda>fd. delete_record fd r True)) (\<lambda>_.
       set_txn (append_write_record \<lparr>wr_type = DELETE_TUPLE, wr_tab_name = tname, wr_rid = r, wr_record = rec\<rparr>)))))"

definition delete_Next :: "'i index_ops \<Rightarrow> TabMeta \<Rightarrow> string \<Rightarrow> rid list \<Rightarrow> ('i db_world, unit) rcmd" where
  "delete_Next ops tab tname rids = for_each (delete_row ops tab tname) rids"

text \<open>The constructors of delete and update take the metadata and an IX lock.\<close>

definition DeleteExecutor :: "DbMeta \<Rightarrow> string \<Rightarrow> ('i db_world, TabMeta) rcmd" where
  "DeleteExecutor db tname =
     bindc (of_res (get_table tname db)) (\<lambda>tab.
     bindc (on_table tname (\<lambda>fd. in_locks (lock_IX_on_table fd))) (\<lambda>_. ret tab))"

definition UpdateExecutor :: "DbMeta \<Rightarrow> string \<Rightarrow> ('i db_world, TabMeta) rcmd" where
  "UpdateExecutor db tname =
     bindc (of_res (get_table tname db)) (\<lambda>tab.
     bindc (on_table tname (\<lambda>fd. in_locks (lock_IX_on_table fd))) (\<lambda>_. ret tab))"

section \<open>Update\<close>

text \<open>
  Addition of single-precision floats, from their values in units of the smallest float. A sum
  of zero is positive unless both operands are negative.
\<close>

definition float_inf :: "float32 \<Rightarrow> bool" where
  "float_inf b \<longleftrightarrow> b mod 2 ^ 31 = 255 * 2 ^ 23"

definition float_add :: "float32 \<Rightarrow> float32 \<Rightarrow> float32" where
  "float_add a b =
     (if float_nan a \<or> float_nan b \<or> float_inf a \<and> float_inf b \<and> a \<noteq> b then 511 * 2 ^ 22
      else if float_inf a then a
      else if float_inf b then b
      else if float_key a + float_key b = 0 then (if 2 ^ 31 \<le> a \<and> 2 ^ 31 \<le> b then 2 ^ 31 else 0)
      else float_of_units (float_key a + float_key b))"

text \<open>\<open>val += old_val\<close> on the member of the union that belongs to the type of the column.\<close>

definition self_add :: "ColType \<Rightarrow> Value \<Rightarrow> Value \<Rightarrow> rmdb_error + Value" where
  "self_add t val old =
     (case t of
        TYPE_INT \<Rightarrow>
          (let i = int_val val + int_val old in
           if in_range 4 i then Inr (put_low (put_int 4 i) val) else Inl (UndefinedBehaviour ''int_val +=''))
      | TYPE_BIGINT \<Rightarrow>
          (let i = bigint_val val + bigint_val old in
           if in_range 8 i then Inr (put_low (put_int 8 i) val) else Inl (UndefinedBehaviour ''bigint_val +=''))
      | TYPE_FLOAT \<Rightarrow> Inr (put_low (le_bytes 4 (float_add (float_val val) (float_val old))) val)
      | _ \<Rightarrow> Inl (InternalError ''Unsupported operation.''))"

definition set_field :: "TabMeta \<Rightarrow> byte list \<Rightarrow> SetClause \<Rightarrow> byte list \<Rightarrow> rmdb_error + byte list" where
  "set_field tab old_rec x rec =
     ebind (get_col (tc_col_name (sc_lhs x)) tab) (\<lambda>col.
       if \<not> is_compatible_type (cm_type col) (v_type (sc_rhs x))
       then Inl (IncompatibleTypeError (coltype2str (cm_type col)) (coltype2str (v_type (sc_rhs x))))
       else ebind (if is_selfadd x
                   then ebind (column_value old_rec col) (\<lambda>old.
                        ebind (self_add (cm_type col) (sc_rhs x) old) (init_raw (to_size (cm_len col))))
                   else Inr (sc_rhs x)) (\<lambda>val.
            case v_raw val of
              None \<Rightarrow> Inl (UndefinedBehaviour ''val.raw->data'')
            | Some raw \<Rightarrow> copy_n raw 0 (cm_len col) rec (cm_offset col)))"

fun set_fields :: "TabMeta \<Rightarrow> byte list \<Rightarrow> SetClause list \<Rightarrow> byte list \<Rightarrow> rmdb_error + byte list" where
  "set_fields tab old_rec [] rec = Inr rec"
| "set_fields tab old_rec (x # xs) rec = ebind (set_field tab old_rec x rec) (set_fields tab old_rec xs)"

text \<open>\<open>strncmp(key1, key2, index.cols[i].len)\<close> with \<open>i\<close> the number of the index.\<close>

definition same_prefix :: "nat \<Rightarrow> IndexMeta \<Rightarrow> byte list \<Rightarrow> byte list \<Rightarrow> rmdb_error + bool" where
  "same_prefix i ix k1 k2 =
     (if length (im_cols ix) \<le> i then Inl (UndefinedBehaviour ''index.cols[i]'')
      else let n = to_size (cm_len (im_cols ix ! i)) in Inr (c_str (take n k1) = c_str (take n k2)))"

definition update_row :: "'i index_ops \<Rightarrow> TabMeta \<Rightarrow> string \<Rightarrow> SetClause list \<Rightarrow> rid \<Rightarrow> ('i db_world, unit) rcmd" where
  "update_row ops tab tname sets r =
     bindc (on_table tname (\<lambda>fd. get_record fd r True)) (\<lambda>old_rec.
     bindc (of_res (set_fields tab old_rec sets old_rec)) (\<lambda>new_rec.
     bindc (map_each (\<lambda>(i, ix).
        bindc (ih_at (get_index_name tname (im_cols ix))) (\<lambda>_.
        bindc (of_res (index_key ix new_rec)) (\<lambda>key1.
        bindc (of_res (index_key ix old_rec)) (\<lambda>key2.
        bindc (of_res (same_prefix i ix key1 key2)) (\<lambda>same.
        bindc (if same then ret False else on_index (get_index_name tname (im_cols ix)) (ix_is_key_exist ops key1)) (\<lambda>found.
          if found then throw (RMDBError ''update index unique error!'') else ret (key1, key2)))))))
        (enumerate 0 (tab_indexes tab))) (\<lambda>keys.
     bindc (\<lambda>w. log_write (UpdateLogRecord (txn_id (this_txn w)) old_rec new_rec r (name_bytes tname)) w) (\<lambda>_.
     bindc (for_each (\<lambda>((i, ix), (key1, key2)).
        bindc (of_res (same_prefix i ix key2 key1)) (\<lambda>same.
          if same then ret ()
          else bindc (on_index (get_index_name tname (im_cols ix)) (ix_delete_entry ops key2)) (\<lambda>_.
                 on_index (get_index_name tname (im_cols ix)) (ix_insert_entry ops key1 r))))
        (zip (enumerate 0 (tab_indexes tab)) keys)) (\<lambda>_.
     bindc (on_table tname (\<lambda>fd. update_record fd r new_rec True)) (\<lambda>_.
       set_txn (append_write_record \<lparr>wr_type = UPDATE_TUPLE, wr_tab_name = tname, wr_rid = r, wr_record = old_rec\<rparr>)))))))"

definition update_Next :: "'i index_ops \<Rightarrow> TabMeta \<Rightarrow> string \<Rightarrow> SetClause list \<Rightarrow> rid list \<Rightarrow> ('i db_world, unit) rcmd" where
  "update_Next ops tab tname sets rids = for_each (update_row ops tab tname sets) rids"

end
