(* ===== verification/Txn_Manager.thy ===== *)
theory Txn_Manager
  imports Dml
begin

text \<open>
  The transaction manager, \<open>src/src/transaction/transaction_manager.cpp\<close>: begin, commit and
  abort on the world of the operators that change tables. The main result is that abort
  undoes what the operators did: the table has its rows back, and the transaction no lock.
\<close>

section \<open>Operations\<close>

text \<open>
  \<open>next_txn_id_\<close> and the keys of \<open>txn_map\<close> (its values are pointers to the transactions with
  those numbers).
\<close>

record txn_mgr =
  next_txn_id :: int
  txn_map :: "int list"

definition TransactionManager :: txn_mgr where
  "TransactionManager = \<lparr>next_txn_id = 0, txn_map = []\<rparr>"

text \<open>\<open>begin\<close>: \<open>None\<close> is \<open>nullptr\<close>. The transaction becomes the one the world is run for.\<close>

definition begin_cmd :: "txn option \<Rightarrow> (txn_mgr \<times> 'i db_world, int) rcmd" where
  "begin_cmd txn s = (case s of (m, w) \<Rightarrow>
     let t = (case txn of None \<Rightarrow> new_Transaction (next_txn_id m) | Some t \<Rightarrow> t);
         m1 = (if txn = None then m\<lparr>next_txn_id := wrap_int 4 (next_txn_id m + 1)\<rparr> else m)
     in (case log_write (BeginLogRecord (txn_id t)) (w\<lparr>dw_locks := (t, snd (dw_locks w))\<rparr>) of
           (Inl e, w') \<Rightarrow> (Inl e, (m1, w'))
         | (Inr _, w') \<Rightarrow> (Inr (txn_id t), (m1\<lparr>txn_map := List.insert (txn_id t) (txn_map m1)\<rparr>, w'))))"

text \<open>
  \<open>commit\<close>. The three calls \<open>reset()\<close> are on copies of the shared pointers and change nothing.
\<close>

definition commit_cmd :: "('i db_world, unit) rcmd" where
  "commit_cmd =
     bindc (set_txn (\<lambda>t. t\<lparr>write_set := []\<rparr>)) (\<lambda>_.
     bindc (\<lambda>w. on_locks (unlock_all (lock_set (this_txn w))) w) (\<lambda>_.
     bindc (\<lambda>w. log_write (CommitLogRecord (txn_id (this_txn w))) w) (\<lambda>_.
       set_txn (\<lambda>t. t\<lparr>txn_state := COMMITTED\<rparr>))))"

definition rollback_insert :: "'i index_ops \<Rightarrow> TabMeta \<Rightarrow> WriteRecord \<Rightarrow> ('i db_world, unit) rcmd" where
  "rollback_insert ops tab wr =
     bindc (on_table (wr_tab_name wr) (\<lambda>fd. get_record fd (wr_rid wr) True)) (\<lambda>delete_rec.
     bindc (for_each (\<lambda>ix.
        bindc (ih_at (get_index_name (wr_tab_name wr) (im_cols ix))) (\<lambda>_.
        bindc (of_res (key_copy delete_rec (im_cols ix) 0 (replicate (col_tot_len ix) 0))) (\<lambda>key.
          on_index (get_index_name (wr_tab_name wr) (im_cols ix)) (ix_delete_entry ops key)))) (tab_indexes tab)) (\<lambda>_.
       on_table (wr_tab_name wr) (\<lambda>fd. delete_record fd (wr_rid wr) True)))"

definition rollback_delete :: "'i index_ops \<Rightarrow> TabMeta \<Rightarrow> WriteRecord \<Rightarrow> ('i db_world, unit) rcmd" where
  "rollback_delete ops tab wr =
     bindc (on_table (wr_tab_name wr) (\<lambda>fd. insert_record fd (wr_record wr) True)) (\<lambda>new_rid.
       for_each (\<lambda>ix.
        bindc (ih_at (get_index_name (wr_tab_name wr) (im_cols ix))) (\<lambda>_.
        bindc (of_res (key_copy (wr_record wr) (im_cols ix) 0 (replicate (col_tot_len ix) 0))) (\<lambda>key.
          on_index (get_index_name (wr_tab_name wr) (im_cols ix)) (ix_insert_entry ops key new_rid)))) (tab_indexes tab))"

definition rollback_update :: "'i index_ops \<Rightarrow> TabMeta \<Rightarrow> WriteRecord \<Rightarrow> ('i db_world, unit) rcmd" where
  "rollback_update ops tab wr =
     bindc (on_table (wr_tab_name wr) (\<lambda>fd. get_record fd (wr_rid wr) True)) (\<lambda>rid_rec.
     bindc (on_table (wr_tab_name wr) (\<lambda>fd. update_record fd (wr_rid wr) (wr_record wr) True)) (\<lambda>_.
       for_each (\<lambda>ix.
        bindc (ih_at (get_index_name (wr_tab_name wr) (im_cols ix))) (\<lambda>_.
        bindc (of_res (key_copy rid_rec (im_cols ix) 0 (replicate (col_tot_len ix) 0))) (\<lambda>new_key.
        bindc (of_res (key_copy (wr_record wr) (im_cols ix) 0 (replicate (col_tot_len ix) 0))) (\<lambda>old_key.
          if new_key = old_key then ret ()
          else bindc (on_index (get_index_name (wr_tab_name wr) (im_cols ix)) (ix_delete_entry ops new_key)) (\<lambda>_.
                 on_index (get_index_name (wr_tab_name wr) (im_cols ix)) (ix_insert_entry ops old_key (wr_rid wr)))))))
        (tab_indexes tab)))"

text \<open>One turn of the loop of \<open>abort\<close>.\<close>

definition rollback_write :: "'i index_ops \<Rightarrow> DbMeta \<Rightarrow> WriteRecord \<Rightarrow> ('i db_world, unit) rcmd" where
  "rollback_write ops db wr =
     bindc (of_res (get_table (wr_tab_name wr) db)) (\<lambda>tab.
     bindc (on_table (wr_tab_name wr) (\<lambda>fd. ret ())) (\<lambda>_.
     bindc (case wr_type wr of
              INSERT_TUPLE \<Rightarrow> rollback_insert ops tab wr
            | DELETE_TUPLE \<Rightarrow> rollback_delete ops tab wr
            | UPDATE_TUPLE \<Rightarrow> rollback_update ops tab wr) (\<lambda>_.
       set_txn (\<lambda>t. t\<lparr>write_set := butlast (write_set t)\<rparr>))))"

definition rollback_writes :: "'i index_ops \<Rightarrow> DbMeta \<Rightarrow> ('i db_world, unit) rcmd" where
  "rollback_writes ops db = (\<lambda>w. for_each (rollback_write ops db) (rev (write_set (this_txn w))) w)"

definition abort_cmd :: "'i index_ops \<Rightarrow> DbMeta \<Rightarrow> ('i db_world, unit) rcmd" where
  "abort_cmd ops db =
     bindc (rollback_writes ops db) (\<lambda>_.
     bindc (\<lambda>w. on_locks (unlock_all (lock_set (this_txn w))) w) (\<lambda>_.
     bindc (set_txn (\<lambda>t. t\<lparr>lock_set := [], write_set := []\<rparr>)) (\<lambda>_.
     bindc (\<lambda>w. log_write (AbortLogRecord (txn_id (this_txn w))) w) (\<lambda>_.
       set_txn (\<lambda>t. t\<lparr>txn_state := ABORTED\<rparr>)))))"

section \<open>The world in order\<close>

text \<open>
  The table \<open>n\<close> is open under \<open>fd\<close> with header \<open>h\<close> and its file is in order, the log manager is
  between two calls, the pool caches no page of the log, and the lock table is in order with a
  transaction that has not ended.
\<close>

definition db_ok :: "string \<Rightarrow> int \<Rightarrow> RmFileHdr \<Rightarrow> 'i db_world \<Rightarrow> bool" where
  "db_ok n fd h w \<longleftrightarrow> hfind (dw_fhs w) n = Some (fd, h) \<and> rm_ok fd (as_rm h w) \<and>
     log_inv (dw_log w, bp_disk (dw_bpm w)) \<and> pool_names (bp_disk (dw_bpm w)) (dw_bpm w) \<and>
     apart (bp_disk (dw_bpm w)) fd \<and> locks_kept (dw_locks w) (dw_locks w)"

definition rows :: "int \<Rightarrow> RmFileHdr \<Rightarrow> 'i db_world \<Rightarrow> rid \<rightharpoonup> byte list" where
  "rows fd h w = table fd (as_rm h w)"

text \<open>What a step leaves: the table in order, the transaction and the locks of the others kept.\<close>

definition moves :: "string \<Rightarrow> int \<Rightarrow> RmFileHdr \<Rightarrow> 'i db_world \<Rightarrow> RmFileHdr \<Rightarrow> 'i db_world \<Rightarrow> bool" where
  "moves n fd h w h' w' \<longleftrightarrow> db_ok n fd h' w' \<and> locks_kept (dw_locks w) (dw_locks w') \<and> record_size h' = record_size h"

lemma locks_kept_trans: "locks_kept L L' \<Longrightarrow> locks_kept L' L'' \<Longrightarrow> locks_kept L L''"
  by (simp add: locks_kept_def)

lemma moves_refl: "db_ok n fd h w \<Longrightarrow> moves n fd h w h w"
  by (simp add: moves_def db_ok_def)

lemma moves_trans: "moves n fd h w h' w' \<Longrightarrow> moves n fd h' w' h'' w'' \<Longrightarrow> moves n fd h w h'' w''"
  unfolding moves_def using locks_kept_trans by fastforce

lemma movesD: "moves n fd h w h' w' \<Longrightarrow> db_ok n fd h' w'"
  by (simp add: moves_def)

lemma as_rm_fields [simp]: "rw_hdr (as_rm h w) = h" "rw_bpm (as_rm h w) = dw_bpm w" "rw_locks (as_rm h w) = dw_locks w"
  by (simp_all add: as_rm_def)

lemma on_table_Inr:
  assumes "hfind (dw_fhs w) n = Some (fd, h)" and "on_table n f w = (Inr a, w')"
  obtains s where "f fd (as_rm h w) = (Inr a, s)"
    "w' = w\<lparr>dw_fhs := hput n (fd, rw_hdr s) (dw_fhs w), dw_bpm := rw_bpm s, dw_locks := rw_locks s\<rparr>"
  using assms by (auto simp: on_table_def split: prod.splits)

lemma same_files_log_ready: "same_files d d' \<Longrightarrow> disk_wf d' \<Longrightarrow> log_ready d \<Longrightarrow> log_ready d'"
  by (auto simp: same_files_def log_ready_def)

text \<open>A call on the table's file handle that leaves the file in order.\<close>

lemma table_call:
  assumes k: "db_ok n fd h w" and f: "f fd (as_rm h w) = (Inr a, s)" and r: "rm_ok fd s"
    and nm: "\<And>d L. file_names d L (as_rm h w) \<Longrightarrow> apart d fd \<Longrightarrow> leaves (file_names d L) (f fd (as_rm h w))"
    and sz: "record_size (rw_hdr s) = record_size h"
  defines "w' \<equiv> w\<lparr>dw_fhs := hput n (fd, rw_hdr s) (dw_fhs w), dw_bpm := rw_bpm s, dw_locks := rw_locks s\<rparr>"
  shows "moves n fd h w (rw_hdr s) w'" "rows fd (rw_hdr s) w' = table fd s" "dw_log w' = dw_log w"
proof -
  let ?d = "bp_disk (dw_bpm w)" and ?d' = "bp_disk (rw_bpm s)"
  have k': "log_inv (dw_log w, ?d)" "pool_names ?d (dw_bpm w)" "apart ?d fd" "locks_kept (dw_locks w) (dw_locks w)"
    using k by (simp_all add: db_ok_def)
  have "leaves (file_names ?d (dw_locks w)) (f fd (as_rm h w))"
    by (rule nm) (use k' in \<open>simp_all add: file_names_def\<close>)
  then have fn: "pool_names ?d (rw_bpm s)" "locks_kept (dw_locks w) (rw_locks s)" by (simp_all add: f leaves_def file_names_def)
  have sn: "same_files ?d ?d'" using fn(1) by (simp add: pool_names_def)
  have ap: "apart ?d' = apart ?d" using sn by (simp add: fun_eq_iff apart_def same_files_def)
  have "disk_wf ?d'" using pool_ok_wf(1) r by (auto simp: rm_ok_def bp_wf_def)
  then have "log_inv (dw_log w, ?d')" using same_files_log_ready [OF sn] k'(1) by (simp add: log_inv_def)
  moreover have "pool_names ?d' (rw_bpm s)" using fn(1) ap by (simp add: pool_names_def)
  moreover have s: "as_rm (rw_hdr s) w' = s" by (simp add: as_rm_def w'_def)
  moreover have "locks_kept (rw_locks s) (rw_locks s)" using fn(2) by (simp add: locks_kept_def)
  ultimately have "db_ok n fd (rw_hdr s) w'" using r k'(3) ap by (simp add: db_ok_def) (simp add: w'_def)
  with fn(2) sz show "moves n fd h w (rw_hdr s) w'" by (simp add: moves_def) (simp add: w'_def)
  show "rows fd (rw_hdr s) w' = table fd s" by (simp add: rows_def s)
  show "dw_log w' = dw_log w" by (simp add: w'_def)
qed

lemma get_step:
  assumes k: "db_ok n fd h w" and t: "rows fd h w r = Some x"
    and g: "on_table n (\<lambda>fd. get_record fd r True) w = (Inr bs, w')"
  shows "bs = x" "moves n fd h w h w'" "rows fd h w' = rows fd h w"
proof -
  obtain s where s: "get_record fd r True (as_rm h w) = (Inr bs, s)"
    and w': "w' = w\<lparr>dw_fhs := hput n (fd, rw_hdr s) (dw_fhs w), dw_bpm := rw_bpm s, dw_locks := rw_locks s\<rparr>"
    using k by (auto simp: db_ok_def intro: on_table_Inr [OF _ g])
  have "rm_ok fd (as_rm h w)" using k by (simp add: db_ok_def)
  note e = get_record_effect [OF this t [unfolded rows_def] s]
  note c = table_call [where f = "\<lambda>fd. get_record fd r True", OF k s e(2) record_names(1), folded w']
  show "bs = x" "moves n fd h w h w'" "rows fd h w' = rows fd h w" using e c by (simp_all add: rows_def)
qed

lemma update_step:
  assumes k: "db_ok n fd h w" and t: "rows fd h w r = Some x" and l: "length buf = record_size h"
    and g: "on_table n (\<lambda>fd. update_record fd r buf True) w = (Inr u, w')"
  shows "moves n fd h w h w'" "rows fd h w' = (rows fd h w)(r \<mapsto> buf)"
proof -
  obtain s where s: "update_record fd r buf True (as_rm h w) = (Inr u, s)"
    and w': "w' = w\<lparr>dw_fhs := hput n (fd, rw_hdr s) (dw_fhs w), dw_bpm := rw_bpm s, dw_locks := rw_locks s\<rparr>"
    using k by (auto simp: db_ok_def intro: on_table_Inr [OF _ g])
  have "rm_ok fd (as_rm h w)" using k by (simp add: db_ok_def)
  note e = update_record_effect [OF this t [unfolded rows_def], of buf s]
  have e': "rm_ok fd s" "table fd s = (table fd (as_rm h w))(r \<mapsto> buf)" "rw_hdr s = h" using e l s by simp_all
  note c = table_call [where f = "\<lambda>fd. update_record fd r buf True", OF k s e'(1) record_names(2), folded w']
  show "moves n fd h w h w'" "rows fd h w' = (rows fd h w)(r \<mapsto> buf)" using e' c by (simp_all add: rows_def)
qed

lemma delete_step:
  assumes k: "db_ok n fd h w" and t: "rows fd h w r = Some x" and rg: "in_range 4 (num_pages h)"
    and g: "on_table n (\<lambda>fd. delete_record fd r True) w = (Inr u, w')"
  obtains h' where "moves n fd h w h' w'" "rows fd h' w' = (rows fd h w)(r := None)" "num_pages h' = num_pages h"
proof -
  obtain s where s: "delete_record fd r True (as_rm h w) = (Inr u, s)"
    and w': "w' = w\<lparr>dw_fhs := hput n (fd, rw_hdr s) (dw_fhs w), dw_bpm := rw_bpm s, dw_locks := rw_locks s\<rparr>"
    using k by (auto simp: db_ok_def intro: on_table_Inr [OF _ g])
  have "rm_ok fd (as_rm h w)" using k by (simp add: db_ok_def)
  note e = delete_record_effect [OF this t [unfolded rows_def], of s]
  have e': "rm_ok fd s" "table fd s = (table fd (as_rm h w))(r := None)" "num_pages (rw_hdr s) = num_pages h"
    "record_size (rw_hdr s) = record_size h" using e rg s by simp_all
  note c = table_call [where f = "\<lambda>fd. delete_record fd r True", OF k s e'(1) record_names(3) e'(4), folded w']
  show thesis by (rule that [of "rw_hdr s"]) (use e' c in \<open>simp_all add: rows_def\<close>)
qed

lemma insert_step:
  assumes k: "db_ok n fd h w" and l: "length buf = record_size h"
    and g: "on_table n (\<lambda>fd. insert_record fd buf True) w = (Inr r, w')"
  obtains h' where "moves n fd h w h' w'" "rows fd h w r = None" "rows fd h' w' = (rows fd h w)(r \<mapsto> buf)"
    "num_pages h' \<le> num_pages h + 1"
proof -
  obtain s where s: "insert_record fd buf True (as_rm h w) = (Inr r, s)"
    and w': "w' = w\<lparr>dw_fhs := hput n (fd, rw_hdr s) (dw_fhs w), dw_bpm := rw_bpm s, dw_locks := rw_locks s\<rparr>"
    using k by (auto simp: db_ok_def intro: on_table_Inr [OF _ g])
  have "rm_ok fd (as_rm h w)" using k by (simp add: db_ok_def)
  note e = insert_record_effect [OF this s]
  have e': "rm_ok fd s" "table fd (as_rm h w) r = None" "table fd s = (table fd (as_rm h w))(r \<mapsto> buf)"
    "num_pages (rw_hdr s) \<le> num_pages h + 1" "record_size (rw_hdr s) = record_size h" using e l by simp_all
  note c = table_call [where f = "\<lambda>fd. insert_record fd buf True", OF k s e'(1) record_names(4) e'(5), folded w']
  show thesis by (rule that [of "rw_hdr s"]) (use e' c in \<open>simp_all add: rows_def\<close>)
qed

section \<open>Index maintenance\<close>

text \<open>
  What an operation on another file of the pool leaves of the file \<open>fd\<close>: the pool is in order, the
  same files are open, the pages of \<open>fd\<close> have their bytes, none of them is newly cached, and its
  page counter stays.
\<close>

definition spares :: "int \<Rightarrow> bpm \<Rightarrow> bpm \<Rightarrow> bool" where
  "spares fd b b' \<longleftrightarrow> (pool_ok b \<longrightarrow> pool_ok b') \<and> (\<forall>d. pool_names d b \<longrightarrow> pool_names d b') \<and>
     (\<forall>p x. content b (PageId fd p) = Some x \<longrightarrow> content b' (PageId fd p) = Some x) \<and>
     (\<forall>p. frame_of b (PageId fd p) = None \<longrightarrow> frame_of b' (PageId fd p) = None) \<and>
     fd2pageno (bp_disk b') fd = fd2pageno (bp_disk b) fd"

lemma spares_refl [simp]: "spares fd b b"
  by (simp add: spares_def)

lemma spares_trans: "spares fd b b' \<Longrightarrow> spares fd b' b'' \<Longrightarrow> spares fd b b''"
  by (simp add: spares_def)

text \<open>The contract of the index handles: they work on their own files and delete no page from the pool.\<close>

definition index_spares :: "'i index_ops \<Rightarrow> int \<Rightarrow> bool" where
  "index_spares ops fd \<longleftrightarrow> (\<forall>key r s. spares fd (snd s) (snd (snd (ix_is_key_exist ops key s))) \<and>
     spares fd (snd s) (snd (snd (ix_insert_entry ops key r s))) \<and> spares fd (snd s) (snd (snd (ix_delete_entry ops key s))))"

text \<open>Work on the indexes changes the indexes, and the pool as far as the table is spared.\<close>

definition index_work :: "int \<Rightarrow> 'i db_world \<Rightarrow> 'i db_world \<Rightarrow> bool" where
  "index_work fd w w' \<longleftrightarrow> (\<exists>x b. w' = w\<lparr>dw_ihs := x, dw_bpm := b\<rparr> \<and> spares fd (dw_bpm w) b)"

lemma index_work_refl [simp]: "index_work fd w w"
  unfolding index_work_def by (rule exI [of _ "dw_ihs w"], rule exI [of _ "dw_bpm w"]) simp

lemma on_index_work:
  assumes "\<And>s. spares fd (snd s) (snd (snd (c s)))" and "index_work fd w0 w"
  shows "leaves (index_work fd w0) (on_index m c w)"
proof (cases "hfind (dw_ihs w) m")
  case (Some i)
  obtain r i' b where c: "c (i, dw_bpm w) = (r, (i', b))" by (metis prod.exhaust)
  have "spares fd (dw_bpm w) b" using assms(1) [of "(i, dw_bpm w)"] c by simp
  moreover obtain x b0 where "w = w0\<lparr>dw_ihs := x, dw_bpm := b0\<rparr>" "spares fd (dw_bpm w0) b0"
    using assms(2) by (auto simp: index_work_def)
  ultimately have "on_index m c w = (r, w0\<lparr>dw_ihs := hput m i' x, dw_bpm := b\<rparr>)" "spares fd (dw_bpm w0) b"
    using Some c spares_trans by (auto simp: on_index_def)
  then show ?thesis unfolding leaves_def index_work_def by auto
qed (use assms(2) in \<open>simp add: leaves_def on_index_def\<close>)

lemma ih_at_work [leaves_intros]: "index_work fd w0 w \<Longrightarrow> leaves (index_work fd w0) (ih_at m w)"
  unfolding ih_at_def by (rule on_index_work) simp_all

lemma index_ops_work:
  assumes "index_spares ops fd"
  shows "index_work fd w0 w \<Longrightarrow> leaves (index_work fd w0) (on_index m (ix_is_key_exist ops key) w)"
    "index_work fd w0 w \<Longrightarrow> leaves (index_work fd w0) (on_index m (ix_insert_entry ops key r) w)"
    "index_work fd w0 w \<Longrightarrow> leaves (index_work fd w0) (on_index m (ix_delete_entry ops key) w)"
  using assms unfolding index_spares_def by (auto intro!: on_index_work)

lemma of_res_leaves [leaves_intros]: "I s \<Longrightarrow> leaves I (of_res x s)"
  by (simp add: leaves_def of_res_def)

lemma for_each_leaves: "I s \<Longrightarrow> (\<And>x t. x \<in> set xs \<Longrightarrow> I t \<Longrightarrow> leaves I (f x t)) \<Longrightarrow> leaves I (for_each f xs s)"
  by (induction xs arbitrary: s) (auto intro!: leaves_intros)

lemma map_each_leaves: "I s \<Longrightarrow> (\<And>x t. x \<in> set xs \<Longrightarrow> I t \<Longrightarrow> leaves I (f x t)) \<Longrightarrow> leaves I (map_each f xs s)"
  by (induction xs arbitrary: s) (auto intro!: leaves_intros)

lemma leaves_prod [leaves_intros]: "(\<And>a b. p = (a, b) \<Longrightarrow> leaves I (f a b s)) \<Longrightarrow> leaves I ((case p of (a, b) \<Rightarrow> f a b) s)"
  by (simp split: prod.split)

text \<open>The run of a list of index operations, from its result.\<close>

lemma index_for:
  "for_each f xs w = (r, w') \<Longrightarrow> (\<And>x t. x \<in> set xs \<Longrightarrow> index_work fd w t \<Longrightarrow> leaves (index_work fd w) (f x t)) \<Longrightarrow> index_work fd w w'"
  using leavesD [of "index_work fd w" "for_each f xs" w r w'] for_each_leaves [of "index_work fd w" w xs f] by simp

lemma index_map:
  "map_each f xs w = (r, w') \<Longrightarrow> (\<And>x t. x \<in> set xs \<Longrightarrow> index_work fd w t \<Longrightarrow> leaves (index_work fd w) (f x t)) \<Longrightarrow> index_work fd w w'"
  using leavesD [of "index_work fd w" "map_each f xs" w r w'] map_each_leaves [of "index_work fd w" w xs f] by simp

section \<open>Log records\<close>

text \<open>The record as it is written: with the transaction's previous number and the next number of the log.\<close>

definition stamped :: "LogRecord \<Rightarrow> 'i db_world \<Rightarrow> LogRecord" where
  "stamped r w = r\<lparr>log_prev_lsn := prev_lsn (this_txn w), lsn := global_lsn (dw_log w)\<rparr>"

abbreviation log_of :: "'i db_world \<Rightarrow> byte list" where
  "log_of w \<equiv> log_file (bp_disk (dw_bpm w))"

lemma log_step:
  assumes k: "db_ok n fd h w" and z: "well_sized r" and g: "log_write r w = (Inr u, w')"
  shows "moves n fd h w h w'" "rows fd h w' = rows fd h w" "log_of w' = log_of w @ log_bytes (stamped r w)"
    "this_txn w' = (this_txn w)\<lparr>prev_lsn := global_lsn (dw_log w)\<rparr>" "snd (dw_locks w') = snd (dw_locks w)"
proof -
  let ?r = "r\<lparr>log_prev_lsn := prev_lsn (this_txn w)\<rparr>" and ?d = "bp_disk (dw_bpm w)"
  obtain i r' m d where a: "add_log_to_buffer ?r (dw_log w, ?d) = (Inr (i, r'), (m, d))"
    and w': "w' = w\<lparr>dw_log := m, dw_bpm := (dw_bpm w)\<lparr>bp_disk := d\<rparr>,
        dw_locks := ((fst (dw_locks w))\<lparr>prev_lsn := i\<rparr>, snd (dw_locks w))\<rparr>"
    using g by (auto simp: log_write_def bindc_eq_Inr on_log_def set_txn_def split: prod.splits)
  have k': "rm_ok fd (as_rm h w)" "log_inv (dw_log w, ?d)" "pool_names ?d (dw_bpm w)" "apart ?d fd"
    "locks_kept (dw_locks w) (dw_locks w)" "hfind (dw_fhs w) n = Some (fd, h)" using k by (simp_all add: db_ok_def)
  note e = add_log_effect [OF k'(2) _ _ a]
  have z': "log_tot_len ?r = LOG_HEADER_SIZE + length (concat (payload_chunks (log_data ?r)))" "log_tot_len ?r \<le> LOG_BUFFER_SIZE"
    using z by (simp_all add: well_sized_def)
  note e = e [OF z']
  have lr: "log_ready ?d" using k'(2) by (simp add: log_inv_def)
  note lk = log_write_keeps_table [of fd "as_rm h w", simplified, OF k'(1) lr k'(3,4) e(7)]
  have s: "as_rm h w' = ((as_rm h w)\<lparr>rw_bpm := (dw_bpm w)\<lparr>bp_disk := d\<rparr>\<rparr>)\<lparr>rw_locks := dw_locks w'\<rparr>"
    by (simp add: as_rm_def w')
  have "rm_ok fd (as_rm h w')" "table fd (as_rm h w') = table fd (as_rm h w)"
    unfolding s locks_irrelevant using lk(1,2) by simp_all
  moreover have "locks_kept (dw_locks w) (dw_locks w')" "locks_kept (dw_locks w') (dw_locks w')"
    using k'(5) by (simp_all add: locks_kept_def w' covers_def)
  ultimately show "moves n fd h w h w'" "rows fd h w' = rows fd h w"
    using lk(3,4) e(3) k'(6) by (simp_all add: moves_def db_ok_def rows_def) (simp_all add: w')
  show "this_txn w' = (this_txn w)\<lparr>prev_lsn := global_lsn (dw_log w)\<rparr>" "snd (dw_locks w') = snd (dw_locks w)"
    using e(1) by (simp_all add: w' this_txn_def)
  have "r' = stamped r w" using e(2) by (simp add: stamped_def)
  with e(4) show "log_of w' = log_of w @ log_bytes (stamped r w)" by (simp add: w')
qed

lemma end_records_sized: "well_sized (BeginLogRecord t)" "well_sized (CommitLogRecord t)" "well_sized (AbortLogRecord t)"
  by (simp_all add: well_sized_def BeginLogRecord_def CommitLogRecord_def AbortLogRecord_def new_LogRecord_def log_offsets
      LOG_BUFFER_SIZE_def PAGE_SIZE_def)

lemma data_records_sized:
  "length v + length nm \<le> 8000 \<Longrightarrow> well_sized (InsertLogRecord t v r nm)"
  "length v + length nm \<le> 8000 \<Longrightarrow> well_sized (DeleteLogRecord t v r nm)"
  "length v + length nm \<le> 8000 \<Longrightarrow> length u \<le> 8000 \<Longrightarrow> well_sized (UpdateLogRecord t v u r nm)"
  by (simp_all add: well_sized_def InsertLogRecord_def DeleteLogRecord_def UpdateLogRecord_def new_LogRecord_def log_offsets
      LOG_BUFFER_SIZE_def PAGE_SIZE_def)

section \<open>Histories of a table\<close>

text \<open>
  \<open>history n sz T0 ws T\<close>: the writes \<open>ws\<close>, oldest first, lead the table \<open>n\<close> from \<open>T0\<close> to \<open>T\<close>; each
  write keeps what the table held before. A record that is deleted was not written before by
  the same transaction.
\<close>

inductive history :: "string \<Rightarrow> nat \<Rightarrow> (rid \<rightharpoonup> byte list) \<Rightarrow> WriteRecord list \<Rightarrow> (rid \<rightharpoonup> byte list) \<Rightarrow> bool"
  for n sz T0 where
  start: "history n sz T0 [] T0"
| inserted: "history n sz T0 ws T \<Longrightarrow> T r = None \<Longrightarrow>
    history n sz T0 (ws @ [\<lparr>wr_type = INSERT_TUPLE, wr_tab_name = n, wr_rid = r, wr_record = b\<rparr>]) (T(r \<mapsto> x))"
| updated: "history n sz T0 ws T \<Longrightarrow> T r = Some x \<Longrightarrow> length x = sz \<Longrightarrow>
    history n sz T0 (ws @ [\<lparr>wr_type = UPDATE_TUPLE, wr_tab_name = n, wr_rid = r, wr_record = x\<rparr>]) (T(r \<mapsto> y))"
| removed: "history n sz T0 ws T \<Longrightarrow> T r = Some x \<Longrightarrow> length x = sz \<Longrightarrow> r \<notin> wr_rid ` set ws \<Longrightarrow>
    history n sz T0 (ws @ [\<lparr>wr_type = DELETE_TUPLE, wr_tab_name = n, wr_rid = r, wr_record = x\<rparr>]) (T(r := None))"

definition deleted_rids :: "WriteRecord list \<Rightarrow> rid set" where
  "deleted_rids ws = wr_rid ` {wr \<in> set ws. wr_type wr = DELETE_TUPLE}"

text \<open>The same rows, those outside \<open>D\<close> under the same identifiers.\<close>

definition relocated :: "rid set \<Rightarrow> (rid \<rightharpoonup> byte list) \<Rightarrow> (rid \<rightharpoonup> byte list) \<Rightarrow> bool" where
  "relocated D T S \<longleftrightarrow> (\<exists>f. bij_betw f (dom T) (dom S) \<and> (\<forall>r \<in> dom T. S (f r) = T r) \<and> (\<forall>r \<in> dom T - D. f r = r))"

lemma relocated_refl: "relocated D T T"
  unfolding relocated_def by (rule exI [of _ id]) simp

lemma relocated_nothing: "relocated {} T S \<longleftrightarrow> S = T"
proof
  assume "relocated {} T S"
  then obtain f where f: "bij_betw f (dom T) (dom S)" "\<forall>r \<in> dom T. S (f r) = T r" "\<forall>r \<in> dom T. f r = r"
    by (auto simp: relocated_def)
  then have "dom S = f ` dom T" by (auto simp: bij_betw_def)
  then have "dom S = dom T" using f(3) by auto
  then show "S = T" using f(2,3) by (intro map_le_antisym) (auto simp: map_le_def)
qed (simp add: relocated_refl)

lemma bij_betw_del: "bij_betw f A B \<Longrightarrow> r \<in> A \<Longrightarrow> bij_betw f (A - {r}) (B - {f r})"
  using inj_on_image_set_diff [of f A A "{r}"] by (auto simp: bij_betw_def intro: inj_on_subset)

lemma bij_betw_add:
  assumes "bij_betw f A B" and "r \<notin> A" and "f r \<notin> B"
  shows "bij_betw f (insert r A) (insert (f r) B)"
proof -
  have "inj_on f A" "f ` A = B" "A - {r} = A" using assms by (simp_all add: bij_betw_def)
  then show ?thesis using assms(3) unfolding bij_betw_def inj_on_insert image_insert by simp
qed

lemma relocated_remove:
  assumes "relocated D (T(r \<mapsto> x)) S" and "r \<notin> D" and "T r = None"
  shows "S r = Some x" "relocated D T (S(r := None))"
proof -
  obtain f where f: "bij_betw f (insert r (dom T)) (dom S)" "\<forall>q \<in> insert r (dom T). S (f q) = (T(r \<mapsto> x)) q"
    "\<forall>q \<in> insert r (dom T) - D. f q = q" using assms(1) by (auto simp: relocated_def)
  have fr: "f r = r" "r \<notin> dom T" using f(3) assms(2,3) by auto
  then show "S r = Some x" using f(2) by force
  have "bij_betw f (insert r (dom T) - {r}) (dom S - {f r})" using f(1) by (rule bij_betw_del) simp
  then have b: "bij_betw f (dom T) (dom (S(r := None)))" using fr by simp
  have "f q \<noteq> r" if "q \<in> dom T" for q using that fr f(1) by (metis bij_betw_def inj_on_eq_iff insertCI)
  then have "\<forall>q \<in> dom T. (S(r := None)) (f q) = T q" using f(2) fr(2) by auto
  moreover have "\<forall>q \<in> dom T - D. f q = q" using f(3) by blast
  ultimately show "relocated D T (S(r := None))" using b unfolding relocated_def by blast
qed

lemma relocated_change:
  assumes "relocated D (T(r \<mapsto> y)) S" and "r \<notin> D" and "T r = Some x"
  shows "S r = Some y" "relocated D T (S(r \<mapsto> x))"
proof -
  have dm: "insert r (dom T) = dom T" using assms(3) by auto
  obtain f where f: "bij_betw f (dom T) (dom S)" "\<forall>q \<in> dom T. S (f q) = (T(r \<mapsto> y)) q" "\<forall>q \<in> dom T - D. f q = q"
    using assms(1) unfolding relocated_def dom_fun_upd by (auto simp: dm)
  have fr: "f r = r" "r \<in> dom T" using f(3) assms(2,3) by auto
  then show s: "S r = Some y" using f(2) by force
  then have b: "bij_betw f (dom T) (dom (S(r \<mapsto> x)))" using f(1) by (simp add: insert_absorb domIff)
  have "f q \<noteq> r" if "q \<in> dom T" "q \<noteq> r" for q using that fr f(1) by (metis bij_betw_def inj_on_eq_iff)
  then have "\<forall>q \<in> dom T. (S(r \<mapsto> x)) (f q) = T q" using f(2) fr assms(3) by auto
  with b f(3) show "relocated D T (S(r \<mapsto> x))" unfolding relocated_def by blast
qed

lemma relocated_insert:
  assumes "relocated D (T(r := None)) S" and "T r = Some x" and "S r' = None"
  shows "relocated (insert r D) T (S(r' \<mapsto> x))"
proof -
  let ?R = "dom T - {r}"
  obtain f where f: "bij_betw f ?R (dom S)" "\<forall>q \<in> ?R. S (f q) = T q" "\<forall>q \<in> ?R - D. f q = q"
    using assms(1) by (auto simp: relocated_def)
  let ?f = "f(r := r')"
  have "bij_betw ?f ?R (dom S)" using f(1) by (rule bij_betw_cong [THEN iffD1, rotated]) simp
  then have "bij_betw ?f (insert r ?R) (insert (?f r) (dom S))" using assms(3) by (intro bij_betw_add) (auto simp: domIff)
  moreover have "insert r ?R = dom T" using assms(2) by auto
  ultimately have b: "bij_betw ?f (dom T) (dom (S(r' \<mapsto> x)))" by simp
  have "f q \<noteq> r'" if "q \<in> ?R" for q using that f(1) assms(3) by (auto simp: bij_betw_def domIff)
  then have "\<forall>q \<in> dom T. (S(r' \<mapsto> x)) (?f q) = T q" using f(2) assms(2) by auto
  moreover have "\<forall>q \<in> dom T - insert r D. ?f q = q" using f(3) by auto
  ultimately show ?thesis using b unfolding relocated_def by blast
qed

section \<open>Undoing one write\<close>

text \<open>A call that only reads.\<close>

lemma look_step:
  assumes k: "db_ok n fd h w" and f: "f fd (as_rm h w) = (Inr a, as_rm h w)" and g: "on_table n f w = (Inr u, w')"
  shows "u = a" "moves n fd h w h w'" "rows fd h w' = rows fd h w"
proof -
  have "hfind (dw_fhs w) n = Some (fd, h)" using k by (simp add: db_ok_def)
  then obtain s where "f fd (as_rm h w) = (Inr u, s)"
    and w': "w' = w\<lparr>dw_fhs := hput n (fd, rw_hdr s) (dw_fhs w), dw_bpm := rw_bpm s, dw_locks := rw_locks s\<rparr>"
    using g by (rule on_table_Inr)
  with f have u: "u = a" and s: "s = as_rm h w" by auto
  have "rm_ok fd (as_rm h w)" using k by (simp add: db_ok_def)
  note c = table_call [where f = f, OF k f this, folded w' [unfolded s]]
  show "u = a" by (rule u)
  show "moves n fd h w h w'" "rows fd h w' = rows fd h w" using c(1,2) by (simp_all add: leaves_def rows_def f)
qed

lemma index_step:
  assumes k: "db_ok n fd h w" and i: "index_work fd w w'"
  shows "moves n fd h w h w' \<and> rows fd h w' = rows fd h w"
proof -
  obtain x b where w': "w' = w\<lparr>dw_ihs := x, dw_bpm := b\<rparr>" and s: "spares fd (dw_bpm w) b" using i by (auto simp: index_work_def)
  let ?d = "bp_disk (dw_bpm w)"
  have k': "rm_ok fd (as_rm h w)" "log_inv (dw_log w, ?d)" "pool_names ?d (dw_bpm w)" "apart ?d fd"
    "locks_kept (dw_locks w) (dw_locks w)" "hfind (dw_fhs w) n = Some (fd, h)" using k by (simp_all add: db_ok_def)
  have pk: "pool_ok (dw_bpm w)" "file_ok fd h (content (dw_bpm w))" "frame_rules fd (as_rm h w)" using k'(1) by (simp_all add: rm_ok_def)
  have pb: "pool_ok b" "pool_names ?d b" using s pk(1) k'(3) by (simp_all add: spares_def)
  have sf: "same_files ?d (bp_disk b)" using pb(2) by (simp add: pool_names_def)
  then have ap: "apart (bp_disk b) = apart ?d" by (simp add: fun_eq_iff apart_def same_files_def)
  have "disk_wf (bp_disk b)" using pool_ok_wf(1) [OF pb(1)] by (simp add: bp_wf_def)
  with same_files_log_ready [OF sf] k'(2) have li: "log_inv (dw_log w, bp_disk b)" by (simp add: log_inv_def)
  have fk: "file_ok fd h (content b)" "tab_view fd h (content b) = tab_view fd h (content (dw_bpm w))"
    by (rule file_ok_mono [OF pk(2)]; use s in \<open>simp add: spares_def\<close>)+
  have "rm_ok fd (as_rm h w')" using pb(1) fk(1) pk(3) s by (simp add: rm_ok_def frame_rules_def w' as_rm_def spares_def)
  moreover have "pool_names (bp_disk b) b" using pb(2) ap sf by (simp add: pool_names_def)
  ultimately have "db_ok n fd h w'" using li ap k'(4-6) by (simp add: db_ok_def w')
  then show ?thesis using k'(5) fk(2) by (simp add: moves_def rows_def table_def w' as_rm_def)
qed

lemma rollback_insert_effect:
  assumes sp: "index_spares ops fd" and k: "db_ok n fd h w" and wr: "wr_tab_name wr = n" and t: "rows fd h w (wr_rid wr) = Some x"
    and rg: "in_range 4 (num_pages h)" and run: "rollback_insert ops tab wr w = (Inr u, w')"
  obtains h' where "moves n fd h w h' w'" "rows fd h' w' = (rows fd h w)(wr_rid wr := None)" "num_pages h' = num_pages h"
proof -
  obtain bs w1 v w2 where g: "on_table n (\<lambda>fd. get_record fd (wr_rid wr) True) w = (Inr bs, w1)"
    and i: "for_each (\<lambda>ix. bindc (ih_at (get_index_name n (im_cols ix))) (\<lambda>_.
        bindc (of_res (key_copy bs (im_cols ix) 0 (replicate (col_tot_len ix) 0))) (\<lambda>key.
          on_index (get_index_name n (im_cols ix)) (ix_delete_entry ops key)))) (tab_indexes tab) w1 = (Inr v, w2)"
    and d: "on_table n (\<lambda>fd. delete_record fd (wr_rid wr) True) w2 = (Inr u, w')"
    using run unfolding rollback_insert_def wr bindc_eq_Inr by blast
  note e1 = get_step [OF k t g]
  have "index_work fd w1 w2" by (rule index_for [OF i]) (intro leaves_intros index_ops_work [OF sp]; assumption)
  note e2 = index_step [OF movesD [OF e1(2)] this]
  have t2: "rows fd h w2 (wr_rid wr) = Some x" using e1(3) e2 t by simp
  obtain h' where "moves n fd h w2 h' w'" "rows fd h' w' = (rows fd h w2)(wr_rid wr := None)" "num_pages h' = num_pages h"
    using e2 by (auto intro: delete_step [OF _ t2 rg d] dest: movesD)
  with e1 e2 that show thesis by (metis moves_trans)
qed

lemma rollback_update_effect:
  assumes sp: "index_spares ops fd" and k: "db_ok n fd h w" and wr: "wr_tab_name wr = n" and t: "rows fd h w (wr_rid wr) = Some x"
    and l: "length (wr_record wr) = record_size h" and run: "rollback_update ops tab wr w = (Inr u, w')"
  shows "moves n fd h w h w'" "rows fd h w' = (rows fd h w)(wr_rid wr \<mapsto> wr_record wr)"
proof -
  obtain bs w1 v w2 where g: "on_table n (\<lambda>fd. get_record fd (wr_rid wr) True) w = (Inr bs, w1)"
    and d: "on_table n (\<lambda>fd. update_record fd (wr_rid wr) (wr_record wr) True) w1 = (Inr v, w2)"
    and i: "for_each (\<lambda>ix. bindc (ih_at (get_index_name n (im_cols ix))) (\<lambda>_.
        bindc (of_res (key_copy bs (im_cols ix) 0 (replicate (col_tot_len ix) 0))) (\<lambda>new_key.
        bindc (of_res (key_copy (wr_record wr) (im_cols ix) 0 (replicate (col_tot_len ix) 0))) (\<lambda>old_key.
          if new_key = old_key then ret ()
          else bindc (on_index (get_index_name n (im_cols ix)) (ix_delete_entry ops new_key)) (\<lambda>_.
                 on_index (get_index_name n (im_cols ix)) (ix_insert_entry ops old_key (wr_rid wr)))))))
        (tab_indexes tab) w2 = (Inr u, w')"
    using run unfolding rollback_update_def wr bindc_eq_Inr by blast
  note e1 = get_step [OF k t g]
  have t1: "rows fd h w1 (wr_rid wr) = Some x" using e1(3) t by simp
  note e2 = update_step [OF movesD [OF e1(2)] t1 l d]
  have "index_work fd w2 w'" by (rule index_for [OF i]) (intro leaves_intros index_ops_work [OF sp]; assumption)
  note e3 = index_step [OF movesD [OF e2(1)] this]
  show "moves n fd h w h w'" using moves_trans [OF e1(2) moves_trans [OF e2(1)]] e3 by blast
  show "rows fd h w' = (rows fd h w)(wr_rid wr \<mapsto> wr_record wr)" using e1(3) e2(2) e3 by simp
qed

lemma rollback_delete_effect:
  assumes sp: "index_spares ops fd" and k: "db_ok n fd h w" and wr: "wr_tab_name wr = n"
    and l: "length (wr_record wr) = record_size h" and run: "rollback_delete ops tab wr w = (Inr u, w')"
  obtains h' r where "moves n fd h w h' w'" "rows fd h w r = None" "rows fd h' w' = (rows fd h w)(r \<mapsto> wr_record wr)"
    "num_pages h' \<le> num_pages h + 1"
proof -
  obtain r w1 where g: "on_table n (\<lambda>fd. insert_record fd (wr_record wr) True) w = (Inr r, w1)"
    and i: "for_each (\<lambda>ix. bindc (ih_at (get_index_name n (im_cols ix))) (\<lambda>_.
        bindc (of_res (key_copy (wr_record wr) (im_cols ix) 0 (replicate (col_tot_len ix) 0))) (\<lambda>key.
          on_index (get_index_name n (im_cols ix)) (ix_insert_entry ops key r)))) (tab_indexes tab) w1 = (Inr u, w')"
    using run unfolding rollback_delete_def wr bindc_eq_Inr by blast
  have o: "index_work fd w1 w'" by (rule index_for [OF i]) (intro leaves_intros index_ops_work [OF sp]; assumption)
  obtain h' where h': "moves n fd h w h' w1" "rows fd h w r = None" "rows fd h' w1 = (rows fd h w)(r \<mapsto> wr_record wr)"
    "num_pages h' \<le> num_pages h + 1" by (rule insert_step [OF k l g])
  note e = index_step [OF movesD [OF h'(1)] o]
  show thesis by (rule that [OF moves_trans [OF h'(1)] h'(2) _ h'(4)]) (use e h'(3) in simp_all)
qed

section \<open>Undoing all writes\<close>

text \<open>The number and the locks of the others through a change of the transaction's bookkeeping.\<close>

definition same_owner :: "'i db_world \<Rightarrow> 'i db_world \<Rightarrow> bool" where
  "same_owner w w' \<longleftrightarrow> txn_id (this_txn w') = txn_id (this_txn w) \<and>
     (\<forall>l k. k \<noteq> txn_id (this_txn w) \<longrightarrow> held_mode (snd (dw_locks w')) l k = held_mode (snd (dw_locks w)) l k)"

lemma moves_owner: "moves n fd h w h' w' \<Longrightarrow> same_owner w w'" "moves n fd h w h' w' \<Longrightarrow> write_set (this_txn w') = write_set (this_txn w)"
  by (simp_all add: moves_def locks_kept_def same_owner_def this_txn_def)

lemma same_owner_trans: "same_owner w w' \<Longrightarrow> same_owner w' w'' \<Longrightarrow> same_owner w w''"
  by (simp add: same_owner_def)

lemma set_write_set:
  assumes k: "db_ok n fd h w" and g: "set_txn (\<lambda>t. t\<lparr>write_set := f t\<rparr>) w = (Inr u, w')"
  shows "db_ok n fd h w'" "rows fd h w' = rows fd h w" "same_owner w w'" "write_set (this_txn w') = f (this_txn w)"
proof -
  have w': "w' = w\<lparr>dw_locks := ((fst (dw_locks w))\<lparr>write_set := f (fst (dw_locks w))\<rparr>, snd (dw_locks w))\<rparr>"
    using g by (simp add: set_txn_def)
  have "as_rm h w' = (as_rm h w)\<lparr>rw_locks := dw_locks w'\<rparr>" by (simp add: as_rm_def w')
  then have t: "rm_ok fd (as_rm h w') = rm_ok fd (as_rm h w)" "table fd (as_rm h w') = table fd (as_rm h w)"
    by (simp_all only: locks_irrelevant)
  have "locks_kept (dw_locks w') (dw_locks w')" using k by (simp add: db_ok_def locks_kept_def w' covers_def)
  with k t show "db_ok n fd h w'" by (simp add: db_ok_def) (simp add: w')
  show "rows fd h w' = rows fd h w" by (simp add: rows_def t)
  show "same_owner w w'" "write_set (this_txn w') = f (this_txn w)" by (simp_all add: same_owner_def this_txn_def w')
qed

lemma rollback_write_run:
  assumes "rollback_write ops db wr w = (Inr u, w')"
  obtains tab v w1 w2 w3 where "on_table (wr_tab_name wr) (\<lambda>fd. ret ()) w = (Inr v, w1)"
    "(case wr_type wr of INSERT_TUPLE \<Rightarrow> rollback_insert ops tab wr | DELETE_TUPLE \<Rightarrow> rollback_delete ops tab wr
       | UPDATE_TUPLE \<Rightarrow> rollback_update ops tab wr) w1 = (Inr w2, w3)"
    "set_txn (\<lambda>t. t\<lparr>write_set := butlast (write_set t)\<rparr>) w3 = (Inr u, w')"
  using assms unfolding rollback_write_def bindc_eq_Inr of_res_def by blast

lemma db_ok_pages: "db_ok n fd h w \<Longrightarrow> RM_FIRST_RECORD_PAGE \<le> num_pages h"
  by (simp add: db_ok_def rm_ok_def file_ok_def)

lemma deleted_rids_simps [simp]:
  "deleted_rids [] = {}" "deleted_rids (ws @ [wr]) = deleted_rids ws \<union> deleted_rids [wr]"
  "wr_type wr \<noteq> DELETE_TUPLE \<Longrightarrow> deleted_rids [wr] = {}" "wr_type wr = DELETE_TUPLE \<Longrightarrow> deleted_rids [wr] = {wr_rid wr}"
  by (auto simp: deleted_rids_def)

text \<open>The state in the middle of the loop, with the writes \<open>ws\<close> still to be undone.\<close>

definition undoing :: "string \<Rightarrow> int \<Rightarrow> WriteRecord list \<Rightarrow> rid set \<Rightarrow> (rid \<rightharpoonup> byte list) \<Rightarrow> nat \<Rightarrow> 'i db_world \<Rightarrow> bool" where
  "undoing n fd ws D T sz w \<longleftrightarrow> (\<exists>h. db_ok n fd h w \<and> relocated D T (rows fd h w) \<and> record_size h = sz \<and>
     in_range 4 (num_pages h + int (length ws))) \<and> write_set (this_txn w) = ws"

text \<open>One turn undoes one write, if the table before it was \<open>T'\<close>.\<close>

definition undoable :: "WriteRecord \<Rightarrow> rid set \<Rightarrow> nat \<Rightarrow> (rid \<rightharpoonup> byte list) \<Rightarrow> (rid \<rightharpoonup> byte list) \<Rightarrow> bool" where
  "undoable wr D sz T' T \<longleftrightarrow> (case wr_type wr of
      INSERT_TUPLE \<Rightarrow> wr_rid wr \<notin> D \<and> (\<exists>x. T = T'(wr_rid wr \<mapsto> x)) \<and> T' (wr_rid wr) = None
    | UPDATE_TUPLE \<Rightarrow> wr_rid wr \<notin> D \<and> (\<exists>x. T = T'(wr_rid wr \<mapsto> x)) \<and> T' (wr_rid wr) = Some (wr_record wr) \<and> length (wr_record wr) = sz
    | DELETE_TUPLE \<Rightarrow> T = T'(wr_rid wr := None) \<and> T' (wr_rid wr) = Some (wr_record wr) \<and> length (wr_record wr) = sz)"

lemma undo_body:
  assumes sp: "index_spares ops fd" and k: "db_ok n fd h w" and rl: "relocated D T (rows fd h w)" and sz: "record_size h = sz" and rg: "in_range 4 (num_pages h)"
    and wr: "wr_tab_name wr = n" and c: "undoable wr D sz T' T"
    and body: "(case wr_type wr of INSERT_TUPLE \<Rightarrow> rollback_insert ops tab wr | DELETE_TUPLE \<Rightarrow> rollback_delete ops tab wr
       | UPDATE_TUPLE \<Rightarrow> rollback_update ops tab wr) w = (Inr b, w')"
  shows "\<exists>h'. moves n fd h w h' w' \<and> relocated (D \<union> deleted_rids [wr]) T' (rows fd h' w') \<and> num_pages h' \<le> num_pages h + 1"
proof (cases "wr_type wr")
  case INSERT_TUPLE
  with c obtain x where c': "wr_rid wr \<notin> D" "T = T'(wr_rid wr \<mapsto> x)" "T' (wr_rid wr) = None" by (auto simp: undoable_def)
  note rr = relocated_remove [OF rl [unfolded c'(2)] c'(1,3)]
  have run': "rollback_insert ops tab wr w = (Inr b, w')" using body INSERT_TUPLE by simp
  obtain h' where "moves n fd h w h' w'" "rows fd h' w' = (rows fd h w)(wr_rid wr := None)" "num_pages h' = num_pages h"
    by (rule rollback_insert_effect [OF sp k wr rr(1) rg run'])
  with rr(2) INSERT_TUPLE show ?thesis by (intro exI [of _ h']) simp
next
  case UPDATE_TUPLE
  with c obtain x where c': "wr_rid wr \<notin> D" "T = T'(wr_rid wr \<mapsto> x)" "T' (wr_rid wr) = Some (wr_record wr)" "length (wr_record wr) = record_size h"
    using sz by (auto simp: undoable_def)
  note rr = relocated_change [OF rl [unfolded c'(2)] c'(1,3)]
  have run': "rollback_update ops tab wr w = (Inr b, w')" using body UPDATE_TUPLE by simp
  note e = rollback_update_effect [OF sp k wr rr(1) c'(4) run']
  with rr(2) UPDATE_TUPLE show ?thesis by (intro exI [of _ h]) simp
next
  case DELETE_TUPLE
  with c have c': "T = T'(wr_rid wr := None)" "T' (wr_rid wr) = Some (wr_record wr)" "length (wr_record wr) = record_size h"
    using sz by (simp_all add: undoable_def)
  have run': "rollback_delete ops tab wr w = (Inr b, w')" using body DELETE_TUPLE by simp
  obtain h' r where h': "moves n fd h w h' w'" "rows fd h w r = None" "rows fd h' w' = (rows fd h w)(r \<mapsto> wr_record wr)"
    "num_pages h' \<le> num_pages h + 1" by (rule rollback_delete_effect [OF sp k wr c'(3) run'])
  note rr = relocated_insert [OF rl [unfolded c'(1)] c'(2) h'(2)]
  with h' DELETE_TUPLE show ?thesis by (intro exI [of _ h']) simp
qed

lemma undo_step:
  assumes sp: "index_spares ops fd" and u: "undoing n fd (ws @ [wr]) D T sz w" and wr: "wr_tab_name wr = n" and c: "undoable wr D sz T' T"
    and run: "rollback_write ops db wr w = (Inr v, w')"
  shows "undoing n fd ws (D \<union> deleted_rids [wr]) T' sz w' \<and> same_owner w w'"
proof -
  from u obtain h where k: "db_ok n fd h w" and rl: "relocated D T (rows fd h w)" and sz: "record_size h = sz"
    and rg: "in_range 4 (num_pages h + int (length ws) + 1)" and ws: "write_set (this_txn w) = ws @ [wr]"
    by (auto simp: undoing_def algebra_simps)
  obtain tab a w1 b w2 where look: "on_table (wr_tab_name wr) (\<lambda>fd. ret ()) w = (Inr a, w1)"
    and body: "(case wr_type wr of INSERT_TUPLE \<Rightarrow> rollback_insert ops tab wr | DELETE_TUPLE \<Rightarrow> rollback_delete ops tab wr
       | UPDATE_TUPLE \<Rightarrow> rollback_update ops tab wr) w1 = (Inr b, w2)"
    and pop: "set_txn (\<lambda>t. t\<lparr>write_set := butlast (write_set t)\<rparr>) w2 = (Inr v, w')"
    using run by (rule rollback_write_run)
  note e1 = look_step(2,3) [where f = "\<lambda>fd. ret ()", OF k ret_run look [unfolded wr]]
  have rl1: "relocated D T (rows fd h w1)" using rl e1(2) by simp
  have r2: "in_range 4 (num_pages h)" using rg db_ok_pages [OF k] by (auto simp: in_range_def rm_consts)
  from undo_body [OF sp movesD [OF e1(1)] rl1 sz r2 wr c body] obtain h' where h': "moves n fd h w1 h' w2"
    "relocated (D \<union> deleted_rids [wr]) T' (rows fd h' w2)" "num_pages h' \<le> num_pages h + 1" by blast
  note e2 = moves_trans [OF e1(1) h'(1)]
  note e3 = set_write_set [OF movesD [OF e2] pop]
  have "in_range 4 (num_pages h' + int (length ws))"
    using rg h'(3) db_ok_pages [OF e3(1)] by (auto simp: in_range_def rm_consts)
  then have "undoing n fd ws (D \<union> deleted_rids [wr]) T' sz w'"
    using e3(1,2,4) h'(2) moves_owner(2) [OF e2] ws e2 sz by (auto simp: undoing_def moves_def)
  with same_owner_trans [OF moves_owner(1) [OF e2] e3(3)] show ?thesis by simp
qed

lemma undo_all:
  assumes sp: "index_spares ops fd"
  shows "history n sz T0 ws T \<Longrightarrow> undoing n fd ws D T sz w \<Longrightarrow> D \<inter> wr_rid ` set ws = {} \<Longrightarrow>
   for_each (rollback_write ops db) (rev ws) w = (Inr v, w') \<Longrightarrow>
   undoing n fd [] (D \<union> deleted_rids ws) T0 sz w' \<and> same_owner w w'"
proof (induction arbitrary: D w rule: history.induct)
  case start
  then show ?case by (simp add: same_owner_def)
next
  case (inserted ws T r b x)
  let ?wr = "\<lparr>wr_type = INSERT_TUPLE, wr_tab_name = n, wr_rid = r, wr_record = b\<rparr>"
  obtain w1 where run: "rollback_write ops db ?wr w = (Inr (), w1)" and rest: "for_each (rollback_write ops db) (rev ws) w1 = (Inr v, w')"
    using inserted.prems(3) by (auto simp: bindc_eq_Inr)
  have un: "undoable ?wr D sz T (T(r \<mapsto> x))" using inserted.hyps(2) inserted.prems(2) unfolding undoable_def by (simp, blast)
  have "undoing n fd ws (D \<union> deleted_rids [?wr]) T sz w1 \<and> same_owner w w1"
    by (rule undo_step [OF sp inserted.prems(1) _ un run]) simp
  then show ?case using inserted.IH [OF _ _ rest, of D] inserted.prems(2) same_owner_trans by auto
next
  case (updated ws T r x y)
  let ?wr = "\<lparr>wr_type = UPDATE_TUPLE, wr_tab_name = n, wr_rid = r, wr_record = x\<rparr>"
  obtain w1 where run: "rollback_write ops db ?wr w = (Inr (), w1)" and rest: "for_each (rollback_write ops db) (rev ws) w1 = (Inr v, w')"
    using updated.prems(3) by (auto simp: bindc_eq_Inr)
  have un: "undoable ?wr D sz T (T(r \<mapsto> y))" using updated.hyps(2,3) updated.prems(2) unfolding undoable_def by (simp, blast)
  have "undoing n fd ws (D \<union> deleted_rids [?wr]) T sz w1 \<and> same_owner w w1"
    by (rule undo_step [OF sp updated.prems(1) _ un run]) simp
  then show ?case using updated.IH [OF _ _ rest, of D] updated.prems(2) same_owner_trans by auto
next
  case (removed ws T r x)
  let ?wr = "\<lparr>wr_type = DELETE_TUPLE, wr_tab_name = n, wr_rid = r, wr_record = x\<rparr>"
  obtain w1 where run: "rollback_write ops db ?wr w = (Inr (), w1)" and rest: "for_each (rollback_write ops db) (rev ws) w1 = (Inr v, w')"
    using removed.prems(3) by (auto simp: bindc_eq_Inr)
  have un: "undoable ?wr D sz T (T(r := None))" using removed.hyps(2,3) by (simp add: undoable_def)
  have "undoing n fd ws (D \<union> deleted_rids [?wr]) T sz w1 \<and> same_owner w w1"
    by (rule undo_step [OF sp removed.prems(1) _ un run]) simp
  then show ?case using removed.IH [OF _ _ rest, of "insert r D"] removed.prems(2) removed.hyps(4) same_owner_trans
    by (auto simp: insert_commute Un_commute)
qed

section \<open>The end of a transaction\<close>

abbreviation free_of :: "int \<Rightarrow> 'i db_world \<Rightarrow> bool" where
  "free_of tid w \<equiv> (\<forall>l. held_mode (snd (dw_locks w)) l tid = None)"

lemma txn_only:
  assumes k: "db_ok n fd h w" and w': "w' = w\<lparr>dw_locks := L\<rparr>"
  shows "locks_kept L L \<Longrightarrow> db_ok n fd h w'" "rows fd h w' = rows fd h w" "rm_ok fd (as_rm h w')"
    "hfind (dw_fhs w') n = Some (fd, h)" "log_of w' = log_of w"
proof -
  have "as_rm h w' = (as_rm h w)\<lparr>rw_locks := L\<rparr>" by (simp add: as_rm_def w')
  then have t: "rm_ok fd (as_rm h w') = rm_ok fd (as_rm h w)" "table fd (as_rm h w') = table fd (as_rm h w)"
    by (simp_all only: locks_irrelevant)
  show "db_ok n fd h w'" if "locks_kept L L" using k t that by (simp add: db_ok_def) (simp add: w')
  show "rows fd h w' = rows fd h w" "rm_ok fd (as_rm h w')" using k t by (simp_all add: rows_def db_ok_def)
  show "hfind (dw_fhs w') n = Some (fd, h)" "log_of w' = log_of w" using k by (simp_all add: db_ok_def w')
qed

lemma unlock_all_fields:
  "unlock_all ls (t, tab) = (r, (t', tab')) \<Longrightarrow> prev_lsn t' = prev_lsn t \<and> write_set t' = write_set t"
proof (induction ls arbitrary: t tab)
  case (Cons l ls)
  obtain y t1 tab1 where u: "unlock l (t, tab) = (y, (t1, tab1))" by (metis prod.exhaust)
  then have "prev_lsn t1 = prev_lsn t \<and> write_set t1 = write_set t \<and> (\<exists>x. y = Inr x)"
    by (auto simp: unlock_def Let_def split: option.splits if_splits)
  with Cons.IH [of t1 tab1] Cons.prems u show ?case by (auto simp: bindc_def)
qed simp

lemma release_step:
  assumes k: "db_ok n fd h w" and u: "on_locks (unlock_all (lock_set (this_txn w))) w = (r, w')"
  shows "db_ok n fd h w'" "rows fd h w' = rows fd h w" "same_owner w w'" "free_of (txn_id (this_txn w)) w'"
    "log_of w' = log_of w" "dw_log w' = dw_log w" "prev_lsn (this_txn w') = prev_lsn (this_txn w)"
proof -
  obtain t tab where L: "dw_locks w = (t, tab)" by fastforce
  have lk: "table_ok tab" "covers t tab" "txn_state t \<noteq> ABORTED" "txn_state t \<noteq> COMMITTED"
    using k by (auto simp: db_ok_def locks_kept_def L)
  obtain t' tab' where ua: "unlock_all (lock_set t) (t, tab) = (r, (t', tab'))" and w': "w' = w\<lparr>dw_locks := (t', tab')\<rparr>"
    using u by (auto simp: on_locks_def zoom_def this_txn_def L split: prod.splits)
  note e = unlock_all_effect [OF lk(1,3,4) ua]
  have none: "held_mode tab' l (txn_id t) = None" for l using e lk(2) by (auto simp: covers_def)
  have "prev_lsn t' = prev_lsn t" using unlock_all_fields [OF ua] by simp
  then show "prev_lsn (this_txn w') = prev_lsn (this_txn w)" by (simp add: this_txn_def L w')
  have "locks_kept (t', tab') (t', tab')" using e none by (simp add: locks_kept_def covers_def)
  from txn_only(1) [OF k w' this] txn_only(2,5) [OF k w'] show "db_ok n fd h w'" "rows fd h w' = rows fd h w" "log_of w' = log_of w" by simp_all
  show "same_owner w w'" "free_of (txn_id (this_txn w)) w'" "dw_log w' = dw_log w"
    using e none by (simp_all add: same_owner_def this_txn_def L w')
qed

lemma commit_effect:
  assumes k: "db_ok n fd h w" and c: "commit_cmd w = (Inr u, w')"
  shows "rows fd h w' = rows fd h w" "rm_ok fd (as_rm h w')" "hfind (dw_fhs w') n = Some (fd, h)" "same_owner w w'"
    "free_of (txn_id (this_txn w)) w'" "log_of w' = log_of w @ log_bytes (stamped (CommitLogRecord (txn_id (this_txn w))) w)"
    "txn_state (this_txn w') = COMMITTED" "write_set (this_txn w') = []"
proof -
  let ?w1 = "w\<lparr>dw_locks := ((fst (dw_locks w))\<lparr>write_set := []\<rparr>, snd (dw_locks w))\<rparr>"
  obtain a w2 b w3 where r: "on_locks (unlock_all (lock_set (this_txn ?w1))) ?w1 = (Inr a, w2)"
    and l: "log_write (CommitLogRecord (txn_id (this_txn w2))) w2 = (Inr b, w3)"
    and w': "w' = w3\<lparr>dw_locks := ((fst (dw_locks w3))\<lparr>txn_state := COMMITTED\<rparr>, snd (dw_locks w3))\<rparr>"
    using c by (auto simp: commit_cmd_def bindc_eq_Inr set_txn_def)
  have "set_txn (\<lambda>t. t\<lparr>write_set := []\<rparr>) w = (Inr (), ?w1)" by (simp add: set_txn_def)
  note e1 = set_write_set [OF k this]
  note e2 = release_step [OF e1(1) r]
  note e3 = log_step [OF e2(1) end_records_sized(2) l]
  note e4 = txn_only [OF movesD [OF e3(1)] w']
  show "rows fd h w' = rows fd h w" "rm_ok fd (as_rm h w')" "hfind (dw_fhs w') n = Some (fd, h)"
    using e1(2) e2(2) e3(2) e4(2-4) by simp_all
  have o: "same_owner w w3" using same_owner_trans [OF same_owner_trans [OF e1(3) e2(3)] moves_owner(1) [OF e3(1)]] .
  then show "same_owner w w'" by (simp add: same_owner_def this_txn_def w')
  show "free_of (txn_id (this_txn w)) w'" using e2(4) e3(5) by (simp add: w' this_txn_def)
  have "stamped (CommitLogRecord (txn_id (this_txn w2))) w2 = stamped (CommitLogRecord (txn_id (this_txn w))) w"
    using e2(3,6,7) e1(3) by (simp add: stamped_def same_owner_def this_txn_def)
  then show "log_of w' = log_of w @ log_bytes (stamped (CommitLogRecord (txn_id (this_txn w))) w)"
    using e4(5) e3(3) e2(5) by simp
  show "txn_state (this_txn w') = COMMITTED" by (simp add: w' this_txn_def)
  have "write_set (fst (dw_locks w2)) = []" using unlock_all_fields r by (force simp: on_locks_def zoom_def this_txn_def split: prod.splits)
  then show "write_set (this_txn w') = []" using e3(4) by (simp add: w' this_txn_def)
qed

lemma abort_effect:
  assumes sp: "index_spares ops fd" and k: "db_ok n fd h w" and hi: "history n (record_size h) T0 (write_set (this_txn w)) (rows fd h w)"
    and rg: "in_range 4 (num_pages h + int (length (write_set (this_txn w))))" and a: "abort_cmd ops db w = (Inr u, w')"
  obtains h' where "hfind (dw_fhs w') n = Some (fd, h')" "rm_ok fd (as_rm h' w')"
    "relocated (deleted_rids (write_set (this_txn w))) T0 (rows fd h' w')" "same_owner w w'" "free_of (txn_id (this_txn w)) w'"
    "txn_state (this_txn w') = ABORTED" "write_set (this_txn w') = []" "lock_set (this_txn w') = []"
proof -
  obtain a w1 b w2 c w3 where rb: "for_each (rollback_write ops db) (rev (write_set (this_txn w))) w = (Inr a, w1)"
    and r: "on_locks (unlock_all (lock_set (this_txn w1))) w1 = (Inr b, w2)"
    and l: "log_write (AbortLogRecord (txn_id (this_txn w2)))
      (w2\<lparr>dw_locks := ((fst (dw_locks w2))\<lparr>lock_set := [], write_set := []\<rparr>, snd (dw_locks w2))\<rparr>) = (Inr c, w3)"
    and w': "w' = w3\<lparr>dw_locks := ((fst (dw_locks w3))\<lparr>txn_state := ABORTED\<rparr>, snd (dw_locks w3))\<rparr>"
    using a by (auto simp: abort_cmd_def rollback_writes_def bindc_eq_Inr set_txn_def this_txn_def)
  have "undoing n fd (write_set (this_txn w)) {} (rows fd h w) (record_size h) w"
    using k rg relocated_refl by (auto simp: undoing_def)
  from undo_all [OF sp hi this _ rb] obtain h' where k1: "db_ok n fd h' w1"
    and rl: "relocated (deleted_rids (write_set (this_txn w))) T0 (rows fd h' w1)" and o1: "same_owner w w1"
    by (auto simp: undoing_def)
  note e2 = release_step [OF k1 r]
  let ?L = "((fst (dw_locks w2))\<lparr>lock_set := [], write_set := []\<rparr>, snd (dw_locks w2))"
  have fr: "free_of (txn_id (this_txn w)) w2" using e2(4) o1 by (simp add: same_owner_def)
  have id2: "txn_id (fst (dw_locks w2)) = txn_id (this_txn w)" using o1 e2(3) by (simp add: same_owner_def this_txn_def)
  have "locks_kept ?L ?L" using e2(1) fr id2 by (simp add: db_ok_def locks_kept_def covers_def)
  note e2' = txn_only [OF e2(1) refl, of ?L]
  note e3 = log_step [OF e2'(1) [OF \<open>locks_kept ?L ?L\<close>] end_records_sized(3) l]
  note e4 = txn_only [OF movesD [OF e3(1)] w']
  have t3: "fst (dw_locks w3) = (fst ?L)\<lparr>prev_lsn := global_lsn (dw_log w2)\<rparr>" "snd (dw_locks w3) = snd (dw_locks w2)"
    using e3(4,5) by (simp_all add: this_txn_def)
  show thesis
  proof (rule that [OF e4(4,3)])
    show "relocated (deleted_rids (write_set (this_txn w))) T0 (rows fd h' w')" using rl e2(2) e2'(2) e3(2) e4(2) by simp
    show "same_owner w w'" using same_owner_trans [OF o1 e2(3)] t3 by (simp add: same_owner_def this_txn_def w')
    show "free_of (txn_id (this_txn w)) w'" using fr t3 by (simp add: w')
  qed (use t3 in \<open>simp_all add: w' this_txn_def\<close>)
qed

end
