(* ===== verification/Statements.thy ===== *)
theory Statements
  imports Txn_Manager
begin

text \<open>
  A transaction from its first statement to its end: INSERT, DELETE and UPDATE change the
  table as they should and record in the write set what is needed to undo them; abort after any
  sequence of statements gives the table its rows back.
\<close>

section \<open>Records\<close>

lemma copy_n_length: "copy_n src i n dst j = Inr r \<Longrightarrow> length r = length dst"
  by (auto simp: copy_n_def length_write_at read_at_def split: if_splits)

lemma fresh_record_length [simp]: "length (fresh_record heap n) = n"
  by (simp add: fresh_record_def)

lemma make_record_length: "make_record cols vs rec = Inr r \<Longrightarrow> length r = length rec"
  by (induction cols vs rec rule: make_record.induct) (auto split: if_splits simp: ebind_eq_Inr dest: copy_n_length)

lemma set_field_length: "set_field tab old x rec = Inr r \<Longrightarrow> length r = length rec"
  by (auto simp: set_field_def ebind_eq_Inr split: if_splits option.splits dest: copy_n_length)

lemma set_fields_length: "set_fields tab old xs rec = Inr r \<Longrightarrow> length r = length rec"
  by (induction xs arbitrary: rec) (auto simp: ebind_eq_Inr dest: set_field_length)

section \<open>The effect of each statement\<close>

text \<open>
  What a statement leaves: the table in order, the locks of the others, and \<open>ws\<close> appended to
  the write set.
\<close>

definition wrote :: "string \<Rightarrow> int \<Rightarrow> RmFileHdr \<Rightarrow> 'i db_world \<Rightarrow> WriteRecord list \<Rightarrow> RmFileHdr \<Rightarrow> 'i db_world \<Rightarrow> bool" where
  "wrote n fd h w ws h' w' \<longleftrightarrow> db_ok n fd h' w' \<and> same_owner w w' \<and> record_size h' = record_size h \<and>
     write_set (this_txn w') = write_set (this_txn w) @ ws"

lemma wrote_moves: "moves n fd h w h' w' \<Longrightarrow> wrote n fd h w [] h' w'"
  using moves_owner [of n fd h w h' w'] by (simp add: wrote_def moves_def)

lemma wrote_trans: "wrote n fd h w ws h' w' \<Longrightarrow> wrote n fd h' w' vs h'' w'' \<Longrightarrow> wrote n fd h w (ws @ vs) h'' w''"
  unfolding wrote_def using same_owner_trans by fastforce

lemma wroteD: "wrote n fd h w ws h' w' \<Longrightarrow> db_ok n fd h' w'"
  by (simp add: wrote_def)

lemma append_step:
  assumes "db_ok n fd h w" and "set_txn (append_write_record x) w = (Inr u, w')"
  shows "wrote n fd h w [x] h w'" "rows fd h w' = rows fd h w"
proof -
  have "append_write_record x = (\<lambda>t. t\<lparr>write_set := write_set t @ [x]\<rparr>)" by (simp add: fun_eq_iff append_write_record_def)
  with assms(2) have "set_txn (\<lambda>t. t\<lparr>write_set := write_set t @ [x]\<rparr>) w = (Inr u, w')" by simp
  note e = set_write_set [OF assms(1) this]
  then show "wrote n fd h w [x] h w'" "rows fd h w' = rows fd h w" by (simp_all add: wrote_def)
qed

lemma row_size:
  assumes "db_ok n fd h w" and "rows fd h w r = Some x"
  shows "length x = record_size h"
proof -
  have k: "rm_ok fd (as_rm h w)" using assms(1) by (simp add: db_ok_def)
  show "length x = record_size h" using table_row_size [OF k] assms(2) by (simp add: rows_def)
qed

lemma rows_fit:
  assumes "db_ok n fd h w"
  shows "record_size h \<le> 4096"
proof -
  have "hdr_ok h" using assms by (simp add: db_ok_def rm_ok_def file_ok_def)
  then have "record_size h \<le> num_records_per_page h * record_size h" "num_records_per_page h * record_size h \<le> PAGE_SIZE"
    by (auto simp: hdr_ok_def)
  then show ?thesis unfolding PAGE_SIZE_def by (rule order_trans)
qed

lemma insert_effect:
  assumes sp: "index_spares ops fd" and k: "db_ok n fd h w" and nm: "length n \<le> 3000" and run: "insert_Next ops heap tab n values w = (Inr r, w')"
  obtains h' rec where "make_record (tab_cols tab) values (fresh_record heap (record_size h)) = Inr rec"
    "wrote n fd h w [\<lparr>wr_type = INSERT_TUPLE, wr_tab_name = n, wr_rid = r, wr_record = []\<rparr>] h' w'"
    "rows fd h w r = None" "rows fd h' w' = (rows fd h w)(r \<mapsto> rec)" "num_pages h' \<le> num_pages h + 1"
proof -
  obtain z w0 rec w1 keys w2 w3 a w4 b w5 where sz: "on_table n (\<lambda>fd s. (Inr (record_size (rw_hdr s)), s)) w = (Inr z, w0)"
    and mr: "of_res (make_record (tab_cols tab) values (fresh_record heap z)) w0 = (Inr rec, w1)"
    and ck: "map_each (\<lambda>ix.
        bindc (ih_at (get_index_name n (im_cols ix))) (\<lambda>_.
        bindc (of_res (index_key ix rec)) (\<lambda>key.
        bindc (on_index (get_index_name n (im_cols ix)) (ix_is_key_exist ops key)) (\<lambda>found.
          if found then throw (RMDBError ''index unique error!'') else ret key)))) (tab_indexes tab) w1 = (Inr keys, w2)"
    and ins: "on_table n (\<lambda>fd. insert_record fd rec True) w2 = (Inr r, w3)"
    and lg: "log_write (InsertLogRecord (txn_id (this_txn w3)) rec r (name_bytes n)) w3 = (Inr a, w4)"
    and ix: "for_each (\<lambda>(ix, key). on_index (get_index_name n (im_cols ix)) (ix_insert_entry ops key r))
              (zip (tab_indexes tab) keys) w4 = (Inr b, w5)"
    and ap: "set_txn (append_write_record \<lparr>wr_type = INSERT_TUPLE, wr_tab_name = n, wr_rid = r, wr_record = []\<rparr>) w5 = (Inr (), w')"
    using run unfolding insert_Next_def bindc_eq_Inr by auto
  have w1: "w1 = w0" "make_record (tab_cols tab) values (fresh_record heap z) = Inr rec" using mr by (auto simp: of_res_def)
  note e0 = look_step [where f = "\<lambda>fd s. (Inr (record_size (rw_hdr s)), s)", OF k refl sz]
  have rec: "make_record (tab_cols tab) values (fresh_record heap (record_size h)) = Inr rec" using w1(2) e0(1) by simp
  then have lr: "length rec = record_size h" using make_record_length by fastforce
  have "index_work fd w1 w2" by (rule index_map [OF ck]) (intro leaves_intros index_ops_work [OF sp]; assumption)
  note e1 = index_step [OF movesD [OF e0(2)] this [unfolded w1]]
  have e01: "moves n fd h w h w2" "rows fd h w2 = rows fd h w" using e0(2,3) e1 moves_trans by auto
  obtain h' where h': "moves n fd h w2 h' w3" "rows fd h w2 r = None" "rows fd h' w3 = (rows fd h w2)(r \<mapsto> rec)"
    "num_pages h' \<le> num_pages h + 1" using movesD [OF e01(1)] lr ins by (rule insert_step)
  have "well_sized (InsertLogRecord (txn_id (this_txn w3)) rec r (name_bytes n))"
    using nm rows_fit [OF k] lr by (intro data_records_sized) (simp add: name_bytes_def)
  note e3 = log_step [OF movesD [OF h'(1)] this lg]
  have "index_work fd w4 w5" by (rule index_for [OF ix]) (intro leaves_intros index_ops_work [OF sp]; assumption)
  note e4 = index_step [OF movesD [OF e3(1)] this]
  have m: "moves n fd h w h' w5" using moves_trans [OF moves_trans [OF e01(1) h'(1)] e3(1)] e4 moves_trans by blast
  note e5 = append_step [OF movesD [OF m] ap]
  show thesis
  proof (rule that [OF rec _ _ _ h'(4)])
    show "wrote n fd h w [\<lparr>wr_type = INSERT_TUPLE, wr_tab_name = n, wr_rid = r, wr_record = []\<rparr>] h' w'"
      using wrote_trans [OF wrote_moves [OF m] e5(1)] by simp
    show "rows fd h w r = None" using h'(2) e01(2) by simp
    show "rows fd h' w' = (rows fd h w)(r \<mapsto> rec)" using h'(3) e3(2) e4 e5(2) e01(2) by simp
  qed
qed

lemma delete_effect:
  assumes sp: "index_spares ops fd" and k: "db_ok n fd h w" and nm: "length n \<le> 3000" and t: "rows fd h w r = Some x" and rg: "in_range 4 (num_pages h)"
    and run: "delete_row ops tab n r w = (Inr u, w')"
  obtains h' where "wrote n fd h w [\<lparr>wr_type = DELETE_TUPLE, wr_tab_name = n, wr_rid = r, wr_record = x\<rparr>] h' w'"
    "rows fd h' w' = (rows fd h w)(r := None)" "num_pages h' = num_pages h"
proof -
  obtain bs w1 a w2 b w3 c w4 where g: "on_table n (\<lambda>fd. get_record fd r True) w = (Inr bs, w1)"
    and lg: "log_write (DeleteLogRecord (txn_id (this_txn w1)) bs r (name_bytes n)) w1 = (Inr a, w2)"
    and ix: "for_each (\<lambda>ix.
        bindc (ih_at (get_index_name n (im_cols ix))) (\<lambda>_.
        bindc (of_res (index_key ix bs)) (\<lambda>key. on_index (get_index_name n (im_cols ix)) (ix_delete_entry ops key))))
        (tab_indexes tab) w2 = (Inr b, w3)"
    and d: "on_table n (\<lambda>fd. delete_record fd r True) w3 = (Inr c, w4)"
    and ap: "set_txn (append_write_record \<lparr>wr_type = DELETE_TUPLE, wr_tab_name = n, wr_rid = r, wr_record = bs\<rparr>) w4 = (Inr u, w')"
    using run unfolding delete_row_def bindc_eq_Inr by auto
  note e1 = get_step [OF k t g]
  have "well_sized (DeleteLogRecord (txn_id (this_txn w1)) bs r (name_bytes n))"
    using nm rows_fit [OF k] row_size [OF k t] e1(1) by (intro data_records_sized) (simp add: name_bytes_def)
  note e2 = log_step [OF movesD [OF e1(2)] this lg]
  have "index_work fd w2 w3" by (rule index_for [OF ix]) (intro leaves_intros index_ops_work [OF sp]; assumption)
  note e3 = index_step [OF movesD [OF e2(1)] this]
  have m: "moves n fd h w h w3" "rows fd h w3 = rows fd h w" using moves_trans [OF moves_trans [OF e1(2) e2(1)]] e3 e1(3) e2(2) by auto
  have t3: "rows fd h w3 r = Some x" using t m(2) by simp
  obtain h' where h': "moves n fd h w3 h' w4" "rows fd h' w4 = (rows fd h w3)(r := None)" "num_pages h' = num_pages h"
    using movesD [OF m(1)] t3 rg d by (rule delete_step)
  note e5 = append_step [OF movesD [OF h'(1)] ap]
  show thesis
    by (rule that [OF _ _ h'(3)])
      (use wrote_trans [OF wrote_moves [OF moves_trans [OF m(1) h'(1)]] e5(1)] e5(2) h'(2) m(2) e1(1) in simp_all)
qed

lemma update_effect:
  assumes sp: "index_spares ops fd" and k: "db_ok n fd h w" and nm: "length n \<le> 3000" and t: "rows fd h w r = Some x"
    and run: "update_row ops tab n sets r w = (Inr u, w')"
  obtains y where "set_fields tab x sets x = Inr y"
    "wrote n fd h w [\<lparr>wr_type = UPDATE_TUPLE, wr_tab_name = n, wr_rid = r, wr_record = x\<rparr>] h w'"
    "rows fd h w' = (rows fd h w)(r \<mapsto> y)"
proof -
  obtain old w1 y w1' keys w2 a w3 b w4 c w5 where g: "on_table n (\<lambda>fd. get_record fd r True) w = (Inr old, w1)"
    and sf: "of_res (set_fields tab old sets old) w1 = (Inr y, w1')"
    and ck: "map_each (\<lambda>(i, ix).
        bindc (ih_at (get_index_name n (im_cols ix))) (\<lambda>_.
        bindc (of_res (index_key ix y)) (\<lambda>key1.
        bindc (of_res (index_key ix old)) (\<lambda>key2.
        bindc (of_res (same_prefix i ix key1 key2)) (\<lambda>same.
        bindc (if same then ret False else on_index (get_index_name n (im_cols ix)) (ix_is_key_exist ops key1)) (\<lambda>found.
          if found then throw (RMDBError ''update index unique error!'') else ret (key1, key2)))))))
        (enumerate 0 (tab_indexes tab)) w1' = (Inr keys, w2)"
    and lg: "log_write (UpdateLogRecord (txn_id (this_txn w2)) old y r (name_bytes n)) w2 = (Inr a, w3)"
    and ix: "for_each (\<lambda>((i, ix), (key1, key2)).
        bindc (of_res (same_prefix i ix key2 key1)) (\<lambda>same.
          if same then ret ()
          else bindc (on_index (get_index_name n (im_cols ix)) (ix_delete_entry ops key2)) (\<lambda>_.
                 on_index (get_index_name n (im_cols ix)) (ix_insert_entry ops key1 r))))
        (zip (enumerate 0 (tab_indexes tab)) keys) w3 = (Inr b, w4)"
    and d: "on_table n (\<lambda>fd. update_record fd r y True) w4 = (Inr c, w5)"
    and ap: "set_txn (append_write_record \<lparr>wr_type = UPDATE_TUPLE, wr_tab_name = n, wr_rid = r, wr_record = old\<rparr>) w5 = (Inr u, w')"
    using run unfolding update_row_def bindc_eq_Inr by auto
  note e1 = get_step [OF k t g]
  have w1: "w1' = w1" "set_fields tab x sets x = Inr y" using sf e1(1) by (auto simp: of_res_def)
  have ly: "length y = record_size h" "length old = record_size h"
    using set_fields_length [OF w1(2)] row_size [OF k t] e1(1) by simp_all
  have "index_work fd w1 w2" by (rule index_map [OF ck [unfolded w1(1)]]) (intro leaves_intros index_ops_work [OF sp]; assumption)
  note e2 = index_step [OF movesD [OF e1(2)] this]
  have "well_sized (UpdateLogRecord (txn_id (this_txn w2)) old y r (name_bytes n))"
    using nm rows_fit [OF k] ly by (intro data_records_sized) (simp_all add: name_bytes_def)
  note e3 = log_step [OF movesD [OF conjunct1 [OF e2]] this lg]
  have "index_work fd w3 w4"
    by (rule index_for [OF ix], simp only: split_paired_all prod.case, intro leaves_intros index_ops_work [OF sp]; assumption)
  note e4 = index_step [OF movesD [OF e3(1)] this]
  have m: "moves n fd h w h w4" "rows fd h w4 = rows fd h w"
    using moves_trans [OF moves_trans [OF e1(2) conjunct1 [OF e2]] moves_trans [OF e3(1)]] e4 e2 e3(2) e1(3) by auto
  have t4: "rows fd h w4 r = Some x" using t m(2) by simp
  note e5 = update_step [OF movesD [OF m(1)] t4 ly(1) d]
  note e6 = append_step [OF movesD [OF e5(1)] ap]
  show thesis
    by (rule that [OF w1(2)])
      (use wrote_trans [OF wrote_moves [OF moves_trans [OF m(1) e5(1)]] e6(1)] e6(2) e5(2) m(2) e1(1) in simp_all)
qed

section \<open>Statements\<close>

text \<open>
  A statement on table \<open>n\<close>: the executor's constructor, then its \<open>Next\<close>. The records to delete or
  to update are those the scan below it has found.
\<close>

datatype stmt = InsertStmt "byte list" "Value list" | DeleteStmt "rid list" | UpdateStmt "SetClause list" "rid list"

fun run_stmt :: "'i index_ops \<Rightarrow> DbMeta \<Rightarrow> string \<Rightarrow> stmt \<Rightarrow> ('i db_world, unit) rcmd" where
  "run_stmt ops db n (InsertStmt heap vs) = bindc (InsertExecutor db n vs) (\<lambda>tab. bindc (insert_Next ops heap tab n vs) (\<lambda>_. ret ()))"
| "run_stmt ops db n (DeleteStmt rids) = bindc (DeleteExecutor db n) (\<lambda>tab. delete_Next ops tab n rids)"
| "run_stmt ops db n (UpdateStmt sets rids) = bindc (UpdateExecutor db n) (\<lambda>tab. update_Next ops tab n sets rids)"

text \<open>The table as the world has it, and its number of pages.\<close>

definition table_of :: "string \<Rightarrow> 'i db_world \<Rightarrow> rid \<rightharpoonup> byte list" where
  "table_of n w = (case hfind (dw_fhs w) n of None \<Rightarrow> Map.empty | Some (fd, h) \<Rightarrow> rows fd h w)"

definition pages_of :: "string \<Rightarrow> 'i db_world \<Rightarrow> int" where
  "pages_of n w = (case hfind (dw_fhs w) n of None \<Rightarrow> 0 | Some (fd, h) \<Rightarrow> num_pages h)"

text \<open>
  The records named are records of the table; none is deleted twice, nor after the transaction
  has written it.
\<close>

fun stmt_ok :: "string \<Rightarrow> stmt \<Rightarrow> 'i db_world \<Rightarrow> bool" where
  "stmt_ok n (InsertStmt heap vs) w \<longleftrightarrow> True"
| "stmt_ok n (DeleteStmt rids) w \<longleftrightarrow> distinct rids \<and> set rids \<subseteq> dom (table_of n w) \<and>
     set rids \<inter> wr_rid ` set (write_set (this_txn w)) = {} \<and> in_range 4 (pages_of n w)"
| "stmt_ok n (UpdateStmt sets rids) w \<longleftrightarrow> set rids \<subseteq> dom (table_of n w)"

inductive statements :: "'i index_ops \<Rightarrow> DbMeta \<Rightarrow> string \<Rightarrow> 'i db_world \<Rightarrow> stmt list \<Rightarrow> 'i db_world \<Rightarrow> bool"
  for ops db n w where
  none: "statements ops db n w [] w"
| one_more: "statements ops db n w ss w1 \<Longrightarrow> stmt_ok n s w1 \<Longrightarrow> run_stmt ops db n s w1 = (Inr (), w2) \<Longrightarrow>
    statements ops db n w (ss @ [s]) w2"

lemma world_table: "db_ok n fd h w \<Longrightarrow> table_of n w = rows fd h w \<and> pages_of n w = num_pages h"
  by (simp add: table_of_def pages_of_def db_ok_def)

text \<open>The invariant of the statements: the write set is the history of the table since \<open>T0\<close>.\<close>

definition recorded :: "string \<Rightarrow> int \<Rightarrow> nat \<Rightarrow> (rid \<rightharpoonup> byte list) \<Rightarrow> 'i db_world \<Rightarrow> bool" where
  "recorded n fd sz T0 w \<longleftrightarrow> (\<exists>h. db_ok n fd h w \<and> record_size h = sz \<and> history n sz T0 (write_set (this_txn w)) (rows fd h w))"

lemma table_lock_step:
  assumes k: "db_ok n fd h w" and g: "on_table n (\<lambda>fd. in_locks (lock_IX_on_table fd)) w = (Inr u, w')"
  shows "moves n fd h w h w'" "rows fd h w' = rows fd h w"
proof -
  have "hfind (dw_fhs w) n = Some (fd, h)" using k by (simp add: db_ok_def)
  then obtain s where s: "in_locks (lock_IX_on_table fd) (as_rm h w) = (Inr u, s)"
    and w': "w' = w\<lparr>dw_fhs := hput n (fd, rw_hdr s) (dw_fhs w), dw_bpm := rw_bpm s, dw_locks := rw_locks s\<rparr>"
    using g by (rule on_table_Inr)
  then have e: "s = (as_rm h w)\<lparr>rw_locks := snd (lock_IX_on_table fd (dw_locks w))\<rparr>" by (auto simp: in_locks_run split: prod.splits)
  have k': "rm_ok fd (as_rm h w)" using k by (simp add: db_ok_def)
  then have r: "rm_ok fd s" "table fd s = table fd (as_rm h w)" "rw_hdr s = h" by (simp_all add: e locks_irrelevant)
  have lv: "leaves (file_names d L) (in_locks (lock_IX_on_table fd) (as_rm h w))" if "file_names d L (as_rm h w)" for d L
    using that request_kept [of L "fst (dw_locks w)" "snd (dw_locks w)" "TableIX fd"]
    by (simp add: leaves_def file_names_def in_locks_run split: prod.split) (metis snd_conv)
  note c = table_call [where f = "\<lambda>fd. in_locks (lock_IX_on_table fd)", OF k s r(1) lv, folded w']
  show "moves n fd h w h w'" "rows fd h w' = rows fd h w" using c r by (simp_all add: rows_def)
qed

lemma recorded_moves:
  "recorded n fd sz T0 w \<Longrightarrow> (\<And>h. db_ok n fd h w \<Longrightarrow> moves n fd h w h w' \<and> rows fd h w' = rows fd h w) \<Longrightarrow> recorded n fd sz T0 w'"
  unfolding recorded_def using movesD moves_owner(2) by metis

lemma recorded_insert:
  assumes "index_spares ops fd" and "recorded n fd sz T0 w" and "length n \<le> 3000" and "insert_Next ops heap tab n vs w = (Inr r, w')"
  shows "recorded n fd sz T0 w'"
proof -
  obtain h where h: "db_ok n fd h w" "record_size h = sz" "history n sz T0 (write_set (this_txn w)) (rows fd h w)"
    using assms(2) by (auto simp: recorded_def)
  obtain h' rec where e: "wrote n fd h w [\<lparr>wr_type = INSERT_TUPLE, wr_tab_name = n, wr_rid = r, wr_record = []\<rparr>] h' w'"
    "rows fd h w r = None" "rows fd h' w' = (rows fd h w)(r \<mapsto> rec)"
    using assms(1) h(1) assms(3,4) by (rule insert_effect)
  from history.inserted [OF h(3) e(2), of "[]" rec] e h(2) show ?thesis unfolding recorded_def wrote_def by (metis (no_types))
qed

lemma recorded_delete:
  assumes sp: "index_spares ops fd" and nm: "length n \<le> 3000"
  shows "recorded n fd sz T0 w \<Longrightarrow> stmt_ok n (DeleteStmt rids) w \<Longrightarrow> for_each (delete_row ops tab n) rids w = (Inr u, w') \<Longrightarrow>
    recorded n fd sz T0 w'"
proof (induction rids arbitrary: w)
  case (Cons r rids)
  obtain h where h: "db_ok n fd h w" "record_size h = sz" "history n sz T0 (write_set (this_txn w)) (rows fd h w)"
    using Cons.prems(1) by (auto simp: recorded_def)
  note wt = world_table [OF h(1)]
  have rg: "in_range 4 (num_pages h)" "r \<notin> wr_rid ` set (write_set (this_txn w))" using Cons.prems(2) wt by auto
  obtain x where x: "rows fd h w r = Some x" using Cons.prems(2) wt by auto
  obtain w1 where d: "delete_row ops tab n r w = (Inr (), w1)" and rest: "for_each (delete_row ops tab n) rids w1 = (Inr u, w')"
    using Cons.prems(3) by (auto simp: bindc_eq_Inr)
  obtain h' where e: "wrote n fd h w [\<lparr>wr_type = DELETE_TUPLE, wr_tab_name = n, wr_rid = r, wr_record = x\<rparr>] h' w1"
    "rows fd h' w1 = (rows fd h w)(r := None)" "num_pages h' = num_pages h"
    using sp h(1) nm x rg(1) d by (rule delete_effect)
  have "length x = sz" using row_size [OF h(1) x] h(2) by simp
  from history.removed [OF h(3) x this rg(2)] e h(2) have "recorded n fd sz T0 w1"
    unfolding recorded_def wrote_def by (metis (no_types))
  moreover have "stmt_ok n (DeleteStmt rids) w1"
    using Cons.prems(2) wt world_table [OF wroteD [OF e(1)]] e by (auto simp: wrote_def)
  ultimately show ?case using Cons.IH rest by blast
qed simp

lemma recorded_update:
  assumes sp: "index_spares ops fd" and nm: "length n \<le> 3000"
  shows "recorded n fd sz T0 w \<Longrightarrow> stmt_ok n (UpdateStmt sets rids) w \<Longrightarrow> for_each (update_row ops tab n sets) rids w = (Inr u, w') \<Longrightarrow>
    recorded n fd sz T0 w'"
proof (induction rids arbitrary: w)
  case (Cons r rids)
  obtain h where h: "db_ok n fd h w" "record_size h = sz" "history n sz T0 (write_set (this_txn w)) (rows fd h w)"
    using Cons.prems(1) by (auto simp: recorded_def)
  note wt = world_table [OF h(1)]
  obtain x where x: "rows fd h w r = Some x" using Cons.prems(2) wt by auto
  obtain w1 where d: "update_row ops tab n sets r w = (Inr (), w1)" and rest: "for_each (update_row ops tab n sets) rids w1 = (Inr u, w')"
    using Cons.prems(3) by (auto simp: bindc_eq_Inr)
  obtain y where e: "wrote n fd h w [\<lparr>wr_type = UPDATE_TUPLE, wr_tab_name = n, wr_rid = r, wr_record = x\<rparr>] h w1"
    "rows fd h w1 = (rows fd h w)(r \<mapsto> y)"
    using sp h(1) nm x d by (rule update_effect)
  have "length x = sz" using row_size [OF h(1) x] h(2) by simp
  from history.updated [OF h(3) x this, of y] e h(2) have "recorded n fd sz T0 w1"
    unfolding recorded_def wrote_def by (metis (no_types))
  moreover have "stmt_ok n (UpdateStmt sets rids) w1"
    using Cons.prems(2) wt world_table [OF wroteD [OF e(1)]] e by auto
  ultimately show ?case using Cons.IH rest by blast
qed simp

text \<open>The constructors look the table up and take the lock.\<close>

lemma constructor_run:
  assumes k: "recorded n fd sz T0 w" and s: "stmt_ok n s w" and c: "on_table n (\<lambda>fd. in_locks (lock_IX_on_table fd)) w = (Inr u, w')"
  shows "recorded n fd sz T0 w'" "stmt_ok n s w'"
proof -
  show "recorded n fd sz T0 w'" by (rule recorded_moves [OF k]) (use table_lock_step [OF _ c] in simp)
  obtain h where h: "db_ok n fd h w" using k by (auto simp: recorded_def)
  note e = table_lock_step [OF h c]
  show "stmt_ok n s w'"
    using s world_table [OF h] world_table [OF movesD [OF e(1)]] e(2) moves_owner(2) [OF e(1)] by (cases s) simp_all
qed

lemma recorded_stmt:
  assumes sp: "index_spares ops fd" and nm: "length n \<le> 3000" and k: "recorded n fd sz T0 w" and s: "stmt_ok n s w" and run: "run_stmt ops db n s w = (Inr u, w')"
  shows "recorded n fd sz T0 w'"
proof -
  obtain tab x w1 where c: "on_table n (\<lambda>fd. in_locks (lock_IX_on_table fd)) w = (Inr x, w1)"
    and body: "case s of InsertStmt heap vs \<Rightarrow> (\<exists>r. insert_Next ops heap tab n vs w1 = (Inr r, w'))
      | DeleteStmt rids \<Rightarrow> delete_Next ops tab n rids w1 = (Inr u, w')
      | UpdateStmt sets rids \<Rightarrow> update_Next ops tab n sets rids w1 = (Inr u, w')"
    using run by (cases s) (auto simp: InsertExecutor_def DeleteExecutor_def UpdateExecutor_def bindc_eq_Inr of_res_def split: if_splits)
  note k1 = constructor_run [OF k s c]
  show ?thesis
  proof (cases s)
    case (InsertStmt heap vs)
    with body k1(1) nm show ?thesis by (auto intro: recorded_insert [OF sp])
  next
    case (DeleteStmt rids)
    with body have "for_each (delete_row ops tab n) rids w1 = (Inr u, w')" by (simp add: delete_Next_def)
    with recorded_delete [OF sp nm k1(1)] k1(2) DeleteStmt show ?thesis by blast
  next
    case (UpdateStmt sets rids)
    with body have "for_each (update_row ops tab n sets) rids w1 = (Inr u, w')" by (simp add: update_Next_def)
    with recorded_update [OF sp nm k1(1)] k1(2) UpdateStmt show ?thesis by blast
  qed
qed

lemma recorded_statements:
  assumes sp: "index_spares ops fd" and nm: "length n \<le> 3000" and k: "recorded n fd sz T0 w"
  shows "statements ops db n w ss w' \<Longrightarrow> recorded n fd sz T0 w'"
  by (induction rule: statements.induct) (use k recorded_stmt [OF sp nm] in blast)+

section \<open>A transaction on a table of one page\<close>

lemma fetch_mapped: "frame_of b pid = Some f \<Longrightarrow> fetch_page pid b = (Inr (Some f), pin_frame f b)"
  by (simp add: fetch_page_def)

lemma unpin_mapped:
  "frame_of (snd (unpin_page pid d b)) = frame_of b" "bp_disk (snd (unpin_page pid d b)) = bp_disk b"
  by (simp_all add: unpin_page_def Let_def upd_page_def split: option.split)

lemma unpin_cmd_run: "unpin_cmd pid d s = (Inr (fst (unpin_page pid d (rw_bpm s))), s\<lparr>rw_bpm := snd (unpin_page pid d (rw_bpm s))\<rparr>)"
  by (simp add: unpin_cmd_def in_pool_run split: prod.split)

lemma get_record_run:
  assumes k: "rm_ok fd s" and t: "table fd s r = Some x" and l: "lock_shared_on_record r fd (rw_locks s) = (Inr a, lt)"
    and f: "fetch_page (PageId fd (rid_page_no r)) (rw_bpm s) = (Inr (Some f), b)"
  shows "\<exists>y. get_record fd r True s =
    (Inr y, s\<lparr>rw_locks := lt, rw_bpm := snd (unpin_page (PageId fd (rid_page_no r)) True b)\<rparr>)"
  using present_slot [OF k t] l f fetch_handle_returns [of fd "rid_page_no r" "s\<lparr>rw_locks := lt\<rparr>" f b]
  by (simp add: get_record_def bindc_def in_locks_run Let_def unpin_cmd_run)

lemma delete_record_run:
  assumes k: "rm_ok fd s" and t: "table fd s r = Some x" and l: "lock_exclusive_on_record r fd (rw_locks s) = (Inr a, lt)"
    and f: "frame_of (rw_bpm s) (PageId fd (rid_page_no r)) = Some f"
    and nf: "num_records (p_data (pages (rw_bpm s) ! f)) \<noteq> int (num_records_per_page (rw_hdr s))"
  shows "\<exists>s'. delete_record fd r True s = (Inr (), s') \<and> bp_disk (rw_bpm s') = bp_disk (rw_bpm s) \<and> rw_locks s' = lt"
proof -
  note ps = present_slot [OF k t]
  let ?s1 = "s\<lparr>rw_locks := lt\<rparr>" and ?s2 = "s\<lparr>rw_locks := lt, rw_bpm := pin_frame f (rw_bpm s)\<rparr>"
  have fh: "fetch_page_handle fd (rid_page_no r) ?s1 = (Inr f, ?s2)"
    using fetch_handle_returns [of fd "rid_page_no r" ?s1 f "pin_frame f (rw_bpm s)"] fetch_mapped [OF f] ps(2) by simp
  have "p_data (pages (pin_frame f b) ! f) = p_data (pages b ! f)" for b
    by (cases "f < length (pages b)") (simp_all add: pin_frame_def upd_page_def list_update_beyond)
  then have d: "num_records (data_of f ?s2) \<noteq> int (num_records_per_page (rw_hdr ?s2))" using nf by (simp add: data_of_def)
  define s3 where "s3 = stamp f (edit f (bitmap_reset bitmap_off (nat (rid_slot_no r))) (edit f (\<lambda>d. set_num_records (num_records d - 1) d) ?s2))"
  have b3: "bp_disk (rw_bpm s3) = bp_disk (rw_bpm s)" "rw_locks s3 = lt"
    by (simp_all add: s3_def stamp_def edit_def store_page_def upd_page_def pin_frame_def)
  have "delete_record fd r True s = (Inr (), s3\<lparr>rw_bpm := snd (unpin_page (page_id_of f s3) True (rw_bpm s3))\<rparr>)"
    using l fh d ps(1) by (simp add: delete_record_def bindc_def in_locks_run unpin_cmd_run s3_def)
  with b3 show ?thesis by (simp add: unpin_mapped)
qed

text \<open>Transaction 1 has inserted record (1, 0) of the table; the log is empty.\<close>

definition demo_write :: WriteRecord where
  "demo_write = \<lparr>wr_type = INSERT_TUPLE, wr_tab_name = ''t'', wr_rid = Rid 1 0, wr_record = []\<rparr>"

definition demo_world :: "unit db_world" where
  "demo_world = \<lparr>dw_fhs = [(''t'', (0, demo_hdr))], dw_ihs = [], dw_bpm = rw_bpm (page_world demo_hdr used_page),
     dw_locks = ((new_Transaction 1)\<lparr>write_set := [demo_write]\<rparr>, []), dw_log = LogManager 0\<rparr>"

definition demo_ops :: "unit index_ops" where
  "demo_ops = \<lparr>ix_is_key_exist = (\<lambda>k. ret False), ix_insert_entry = (\<lambda>k r. ret ()), ix_delete_entry = (\<lambda>k. ret ())\<rparr>"

lemma demo_world_ok: "db_ok ''t'' 0 demo_hdr demo_world" "rows 0 demo_hdr demo_world (Rid 1 0) = Some [7, 9]"
proof -
  have s: "as_rm demo_hdr demo_world = (page_world demo_hdr used_page)\<lparr>rw_locks := dw_locks demo_world\<rparr>"
    by (simp add: as_rm_def demo_world_def page_world_def)
  have r: "rm_ok 0 (as_rm demo_hdr demo_world)" unfolding s locks_irrelevant by (rule used_page_ok(4))
  show "rows 0 demo_hdr demo_world (Rid 1 0) = Some [7, 9]" unfolding rows_def s locks_irrelevant by (rule used_page_ok(5))
  have d: "bp_disk (dw_bpm demo_world) = page_disk used_page" by (simp add: demo_world_def page_world_def BufferPoolManager_def)
  have "disk_wf (page_disk used_page)" by (simp add: disk_wf_def page_disk_def)
  then have "log_inv (dw_log demo_world, page_disk used_page)"
    by (simp add: log_inv_def log_ready_def LogManager_def demo_world_def) (simp add: page_disk_def LOG_FILE_NAME_def)
  moreover have "apart (page_disk used_page) 0" by (simp add: apart_def page_disk_def LOG_FILE_NAME_def)
  moreover have "pool_names (page_disk used_page) (dw_bpm demo_world)"
    using d by (simp add: pool_names_def) (simp add: demo_world_def page_world_def BufferPoolManager_def)
  moreover have "locks_kept (dw_locks demo_world) (dw_locks demo_world)"
    using sys_ok_init by (simp add: locks_kept_def sys_ok_def demo_world_def covers_def new_Transaction_def held_mode_def
        queue_at_def empty_queue_def own_request_def)
  ultimately show "db_ok ''t'' 0 demo_hdr demo_world" using r d by (simp add: db_ok_def) (simp add: demo_world_def)
qed

lemma demo_history:
  "history ''t'' 2 ((rows 0 demo_hdr demo_world)(Rid 1 0 := None)) (write_set (this_txn demo_world)) (rows 0 demo_hdr demo_world)"
proof -
  let ?T = "rows 0 demo_hdr demo_world" and ?r = "Rid 1 0"
  have "history ''t'' 2 (?T(?r := None)) ([] @ [demo_write]) ((?T(?r := None))(?r \<mapsto> [7, 9]))"
    unfolding demo_write_def by (rule history.inserted [OF history.start]) simp
  moreover have "(?T(?r := None))(?r \<mapsto> [7, 9]) = ?T" using demo_world_ok(2) by (simp add: fun_eq_iff)
  ultimately show ?thesis by (simp add: demo_world_def this_txn_def)
qed

definition demo_db :: DbMeta where
  "demo_db = \<lparr>db_name = ''d'', db_tabs = [(''t'', \<lparr>tab_name = ''t'', tab_cols = [], tab_indexes = []\<rparr>)]\<rparr>"

lemma demo_locks:
  "\<exists>lt. lock_shared_on_record r fd (t, []) = (Inr True, lt) \<and> (\<exists>lt'. lock_exclusive_on_record r fd lt = (Inr True, lt'))"
  if "txn_state t = DEFAULT"
  using that by (simp add: lock_run)

lemma on_table_run:
  "hfind (dw_fhs w) n = Some (fd, h) \<Longrightarrow> f fd (as_rm h w) = (r, s) \<Longrightarrow>
   on_table n f w = (r, w\<lparr>dw_fhs := hput n (fd, rw_hdr s) (dw_fhs w), dw_bpm := rw_bpm s, dw_locks := rw_locks s\<rparr>)"
  by (simp add: on_table_def)

lemma used_page_used: "num_records used_page \<noteq> int (num_records_per_page demo_hdr)"
proof -
  have pv: "page_view demo_hdr demo_page 0 = None" using demo_blank(1) by simp
  have n: "0 < num_records_per_page demo_hdr" "length [7, 9 :: byte] = record_size demo_hdr" by (simp_all add: demo_hdr_def)
  have "page_used demo_hdr used_page = 1"
    using ins_page_ok(3) [OF demo_hdr_ok demo_blank(2) n pv, folded used_page_def] demo_blank(3) by simp
  then show ?thesis using used_page_ok(1) by (simp add: page_ok_def) (simp add: demo_hdr_def)
qed

lemma demo_rollback:
  "\<exists>w1. rollback_writes demo_ops demo_db demo_world = (Inr (), w1) \<and> bp_disk (dw_bpm w1) = page_disk used_page \<and> dw_log w1 = LogManager 0"
proof -
  let ?w = demo_world and ?r = "Rid 1 0" and ?pid = "PageId 0 1"
  let ?s = "as_rm demo_hdr ?w"
  have bp: "dw_bpm ?w = rw_bpm (page_world demo_hdr used_page)" by (simp add: demo_world_def)
  obtain b where b: "fetch_page ?pid (rw_bpm ?s) = (Inr (Some 0), b)"
    "pages b ! 0 = \<lparr>p_id = PageId 0 1, p_data = used_page, p_dirty = False, p_pin = 1\<rparr>"
    "bp_disk b = page_disk used_page" "frame_of b ?pid = Some 0"
    unfolding as_rm_fields bp by (rule page_world_fetch_state [OF used_page_ok(3)])
  obtain l1 l2 where l1: "lock_shared_on_record ?r 0 (dw_locks ?w) = (Inr True, l1)" and l2: "lock_exclusive_on_record ?r 0 l1 = (Inr True, l2)"
    using demo_locks [of "fst (dw_locks ?w)" ?r 0] by (auto simp: demo_world_def new_Transaction_def)
  have k: "rm_ok 0 ?s" "hfind (dw_fhs ?w) ''t'' = Some (0, demo_hdr)" using demo_world_ok(1) by (simp_all add: db_ok_def)
  define s1 where "s1 = ?s\<lparr>rw_locks := l1, rw_bpm := snd (unpin_page ?pid True b)\<rparr>"
  define w1 where "w1 = ?w\<lparr>dw_fhs := hput ''t'' (0, rw_hdr s1) (dw_fhs ?w), dw_bpm := rw_bpm s1, dw_locks := rw_locks s1\<rparr>"
  obtain y where g: "get_record 0 ?r True ?s = (Inr y, s1)"
    using get_record_run [OF k(1) demo_world_ok(2) [unfolded rows_def], of True l1 0 b] l1 b(1) by (auto simp: s1_def)
  have gr: "on_table ''t'' (\<lambda>fd. get_record fd ?r True) ?w = (Inr y, w1)" unfolding w1_def using k(2) g by (rule on_table_run)
  note gs = get_step [OF demo_world_ok gr]
  have s1: "as_rm demo_hdr w1 = s1" by (simp add: as_rm_def s1_def w1_def)
  have k1: "rm_ok 0 s1" "hfind (dw_fhs w1) ''t'' = Some (0, demo_hdr)" using movesD [OF gs(2)] s1 by (simp_all add: db_ok_def)
  have t1: "table 0 s1 ?r = Some [7, 9]" using gs(3) s1 demo_world_ok(2) by (simp add: rows_def)
  have "p_data (pages (snd (unpin_page ?pid True b)) ! 0) = used_page"
    using b(2,4) by (cases "pages b") (simp_all add: unpin_page_def upd_page_def Let_def)
  then have nf: "num_records (p_data (pages (rw_bpm s1) ! 0)) \<noteq> int (num_records_per_page (rw_hdr s1))"
    using used_page_used by (simp add: s1_def)
  have f1: "frame_of (rw_bpm s1) ?pid = Some 0" "rw_locks s1 = l1" "bp_disk (rw_bpm s1) = page_disk used_page"
    using b(3,4) by (simp_all add: s1_def unpin_mapped)
  obtain s2 where d: "delete_record 0 ?r True s1 = (Inr (), s2)" "bp_disk (rw_bpm s2) = page_disk used_page"
    using delete_record_run [OF k1(1) t1, of True l2 0] l2 nf f1 by auto
  define w2 where "w2 = w1\<lparr>dw_fhs := hput ''t'' (0, rw_hdr s2) (dw_fhs w1), dw_bpm := rw_bpm s2, dw_locks := rw_locks s2\<rparr>"
  have dr: "on_table ''t'' (\<lambda>fd. delete_record fd ?r True) w1 = (Inr (), w2)"
    unfolding w2_def using k1(2) d(1) [folded s1] by (rule on_table_run)
  have look: "on_table ''t'' (\<lambda>fd. ret ()) ?w = (Inr (), ?w)"
    by (simp add: on_table_def demo_world_def as_rm_def)
  have "rollback_insert demo_ops \<lparr>tab_name = ''t'', tab_cols = [], tab_indexes = []\<rparr> demo_write ?w = (Inr (), w2)"
    using gr dr by (simp add: rollback_insert_def demo_write_def bindc_def)
  then have rb: "rollback_write demo_ops demo_db demo_write ?w =
      set_txn (\<lambda>t. t\<lparr>write_set := butlast (write_set t)\<rparr>) w2"
    using look by (simp add: rollback_write_def demo_db_def get_table_def of_res_def bindc_def demo_write_def)
  have "write_set (this_txn ?w) = [demo_write]" by (simp add: demo_world_def this_txn_def)
  with rb have "rollback_writes demo_ops demo_db ?w =
      (Inr (), w2\<lparr>dw_locks := ((fst (dw_locks w2))\<lparr>write_set := butlast (write_set (fst (dw_locks w2)))\<rparr>, snd (dw_locks w2))\<rparr>)"
    by (simp add: rollback_writes_def set_txn_def bindc_def)
  moreover have "dw_log w2 = LogManager 0" "bp_disk (dw_bpm w2) = page_disk used_page" using d(2) by (simp_all add: w2_def w1_def demo_world_def)
  ultimately show ?thesis by simp
qed

lemma log_write_returns:
  assumes d: "bp_disk (dw_bpm w) = page_disk used_page" and m: "dw_log w = LogManager 0" and r: "well_sized r" "log_tot_len r = 20"
  shows "\<exists>w'. log_write r w = (Inr (), w')"
proof -
  let ?r = "r\<lparr>log_prev_lsn := prev_lsn (this_txn w), lsn := 0\<rparr>"
  have lb: "length (log_bytes ?r) = 20" "serialize ?r (replicate 20 0) = log_bytes ?r"
    using r by (auto simp: length_log_bytes well_sized_def intro!: serialize_log_bytes)
  have "\<exists>d. write_log (log_bytes ?r) (page_disk used_page) = (Inr (), d)"
    using lb(1) by (auto simp: write_log_def open_log_def bindc_def page_disk_def os_file_def os_write_def Let_def LOG_FILE_NAME_def
        open_file_def os_open_def lowest_fd_def used_fds_def emplace_def)
  then obtain d' where w: "write_log (log_bytes ?r) (page_disk used_page) = (Inr (), d')" by blast
  have L: "20 \<le> LOG_BUFFER_SIZE" by (simp add: LOG_BUFFER_SIZE_def PAGE_SIZE_def)
  obtain x m' where "add_log_to_buffer (r\<lparr>log_prev_lsn := prev_lsn (this_txn w)\<rparr>) (LogManager 0, page_disk used_page) = (Inr x, (m', d'))"
    using w L lb r(2) by (auto simp: add_log_to_buffer_def bindc_def LogManager_def is_full_def Let_def flush_log_to_disk_def write_at_def)
  then show ?thesis using d m by (simp add: log_write_def bindc_def on_log_def set_txn_def)
qed

lemma unlock_all_returns: "\<exists>s'. unlock_all ls s = (Inr (), s')"
proof (induction ls arbitrary: s)
  case (Cons l ls)
  obtain y s1 where u: "unlock l s = (y, s1)" by (cases "unlock l s")
  then have "\<exists>x. y = Inr x" by (auto simp: unlock_def Let_def split: prod.splits option.splits if_splits)
  with u Cons.IH [of s1] show ?case by (auto simp: bindc_def)
qed simp

lemma release_returns: "\<exists>L. on_locks (unlock_all ls) w = (Inr (), w\<lparr>dw_locks := L\<rparr>)"
proof -
  obtain s where "unlock_all ls (dw_locks w) = (Inr (), s)" using unlock_all_returns by blast
  then show ?thesis by (intro exI [of _ s]) (simp add: on_locks_def zoom_def)
qed

lemma end_records_length: "log_tot_len (CommitLogRecord t) = 20" "log_tot_len (AbortLogRecord t) = 20"
  by (simp_all add: CommitLogRecord_def AbortLogRecord_def new_LogRecord_def log_offsets)

lemma demo_end:
  "\<exists>w'. abort_cmd demo_ops demo_db demo_world = (Inr (), w')" "\<exists>w'. commit_cmd demo_world = (Inr (), w')"
proof -
  obtain w1 where w1: "rollback_writes demo_ops demo_db demo_world = (Inr (), w1)"
    "bp_disk (dw_bpm w1) = page_disk used_page" "dw_log w1 = LogManager 0" using demo_rollback by blast
  obtain L where L: "on_locks (unlock_all (lock_set (this_txn w1))) w1 = (Inr (), w1\<lparr>dw_locks := L\<rparr>)" using release_returns by blast
  let ?w2 = "w1\<lparr>dw_locks := ((fst L)\<lparr>lock_set := [], write_set := []\<rparr>, snd L)\<rparr>"
  obtain w3 where "log_write (AbortLogRecord (txn_id (fst L))) ?w2 = (Inr (), w3)"
    using log_write_returns [OF _ _ end_records_sized(3) end_records_length(2), of ?w2] w1(2,3) by auto
  then show "\<exists>w'. abort_cmd demo_ops demo_db demo_world = (Inr (), w')"
    using w1(1) L by (simp add: abort_cmd_def bindc_def set_txn_def this_txn_def)
  let ?v1 = "demo_world\<lparr>dw_locks := ((fst (dw_locks demo_world))\<lparr>write_set := []\<rparr>, snd (dw_locks demo_world))\<rparr>"
  obtain M where M: "on_locks (unlock_all (lock_set (this_txn ?v1))) ?v1 = (Inr (), ?v1\<lparr>dw_locks := M\<rparr>)" using release_returns by blast
  have "bp_disk (dw_bpm demo_world) = page_disk used_page" "dw_log demo_world = LogManager 0"
    by (simp_all add: demo_world_def page_world_def BufferPoolManager_def)
  then obtain w4 where "log_write (CommitLogRecord (txn_id (fst M))) (?v1\<lparr>dw_locks := M\<rparr>) = (Inr (), w4)"
    using log_write_returns [OF _ _ end_records_sized(2) end_records_length(1), of "?v1\<lparr>dw_locks := M\<rparr>"] by auto
  then show "\<exists>w'. commit_cmd demo_world = (Inr (), w')"
    using M by (simp add: commit_cmd_def bindc_def set_txn_def this_txn_def)
qed

section \<open>Properties\<close>

text \<open>
  Property C28. Abort undoes the transaction. A transaction has run INSERT, DELETE and UPDATE
  statements on a table, in any number and order, all of which returned; none deleted a row that
  the transaction itself had inserted or updated before, and the index operations keep to the
  pages of their own files and delete none from the pool. When abort then returns, the table has the rows it had before the
  first of the statements, each under its own identifier unless the transaction deleted it (a
  deleted row is inserted again, perhaps in another place), and the transaction holds no lock.
  (Rollback puts a deleted row back at any free place, so a row written and then deleted by the
  same transaction is not undone properly; statements that throw are not covered.)
\<close>

theorem abort_undoes_statements:
  assumes "recorded n fd sz T0 w" and "length n \<le> 3000" and "index_spares ops fd" and "statements ops db n w ss w1"
    and "in_range 4 (pages_of n w1 + int (length (write_set (this_txn w1))))"
    and "abort_cmd ops db w1 = (Inr u, w2)"
  shows "relocated (deleted_rids (write_set (this_txn w1))) T0 (table_of n w2) \<and>
     free_of (txn_id (this_txn w1)) w2 \<and> txn_state (this_txn w2) = ABORTED"
proof -
  obtain h where h: "db_ok n fd h w1" "history n (record_size h) T0 (write_set (this_txn w1)) (rows fd h w1)"
    using recorded_statements [OF assms(3,2,1,4)] by (auto simp: recorded_def)
  have rg: "in_range 4 (num_pages h + int (length (write_set (this_txn w1))))" using assms(5) world_table [OF h(1)] by simp
  obtain h' where "hfind (dw_fhs w2) n = Some (fd, h')" "relocated (deleted_rids (write_set (this_txn w1))) T0 (rows fd h' w2)"
    "free_of (txn_id (this_txn w1)) w2" "txn_state (this_txn w2) = ABORTED"
    using assms(3) h rg assms(6) by (rule abort_effect)
  then show ?thesis by (simp add: table_of_def)
qed

lemma demo_recorded: "recorded ''t'' 0 2 ((rows 0 demo_hdr demo_world)(Rid 1 0 := None)) demo_world"
  unfolding recorded_def using demo_world_ok(1) demo_history by (intro exI [of _ demo_hdr]) (simp add: demo_hdr_def)

theorem abort_undoes_statements_witness:
  "\<exists>w2. abort_cmd demo_ops demo_db demo_world = (Inr (), w2) \<and> table_of ''t'' demo_world (Rid 1 0) = Some [7, 9] \<and>
     table_of ''t'' w2 = (table_of ''t'' demo_world)(Rid 1 0 := None)"
proof -
  obtain w2 where a: "abort_cmd demo_ops demo_db demo_world = (Inr (), w2)" using demo_end(1) by blast
  have sp: "index_spares demo_ops 0" by (simp add: index_spares_def demo_ops_def)
  have s: "statements demo_ops demo_db ''t'' demo_world [] demo_world" by (rule statements.none)
  have p: "pages_of ''t'' demo_world = 2" "table_of ''t'' demo_world = rows 0 demo_hdr demo_world"
    using world_table [OF demo_world_ok(1)] by (simp_all add: demo_hdr_def)
  have ws: "write_set (this_txn demo_world) = [demo_write]" by (simp add: demo_world_def this_txn_def)
  have rg: "in_range 4 (pages_of ''t'' demo_world + int (length (write_set (this_txn demo_world))))"
    by (simp add: p ws in_range_def)
  have "relocated (deleted_rids [demo_write]) ((rows 0 demo_hdr demo_world)(Rid 1 0 := None)) (table_of ''t'' w2)"
    using abort_undoes_statements [OF demo_recorded _ sp s rg a] ws by simp
  then have "table_of ''t'' w2 = (rows 0 demo_hdr demo_world)(Rid 1 0 := None)"
    by (simp add: relocated_nothing demo_write_def)
  with a p demo_world_ok(2) show ?thesis by simp
qed

text \<open>
  Property C29. Commit: the tables stay as they are, the commit record is the next record of the
  log file, with the transaction's last log number as its predecessor, all locks of the
  transaction are released and those of the others untouched.
\<close>

theorem commit_releases_and_logs:
  assumes "db_ok n fd h w" and "commit_cmd w = (Inr u, w')"
  shows "rows fd h w' = rows fd h w \<and> log_of w' = log_of w @ log_bytes (stamped (CommitLogRecord (txn_id (this_txn w))) w) \<and>
     free_of (txn_id (this_txn w)) w' \<and> same_owner w w' \<and> txn_state (this_txn w') = COMMITTED \<and> write_set (this_txn w') = []"
  using commit_effect [OF assms] by simp

theorem commit_releases_and_logs_witness:
  "\<exists>w'. commit_cmd demo_world = (Inr (), w') \<and> txn_state (this_txn w') = COMMITTED \<and>
     log_of w' = log_of demo_world @ log_bytes (stamped (CommitLogRecord 1) demo_world)"
proof -
  obtain w' where c: "commit_cmd demo_world = (Inr (), w')" using demo_end(2) by blast
  have "txn_id (this_txn demo_world) = 1" by (simp add: demo_world_def this_txn_def new_Transaction_def)
  with commit_releases_and_logs [OF demo_world_ok(1) c] c show ?thesis by auto
qed

end
