(* ===== verification/Recovery.thy ===== *)
theory Recovery
  imports Dml
begin

text \<open>
  Recovery, \<open>src/src/recovery/log_recovery.{h,cpp}\<close>. \<open>analyze\<close> reads the log file a buffer at a time and
  fills the table of unfinished transactions, the table of pages with changes to repeat, and the
  map from numbers to log records; \<open>redo\<close> and \<open>undo\<close> go through the tables. The loops may run
  forever (on a record of no known type), so they are partial commands. The lemmas show that the
  byte loop goes through the records of the log in order, which transactions are found
  unfinished, and when undoing returns.
\<close>

section \<open>State\<close>

text \<open>
  \<open>RedoLogsInPage\<close>: the table whose handle \<open>table_file_\<close> points to, and the numbers. A \<open>std::map\<close> is an
  association list in the order of its keys.
\<close>

record RedoLogsInPage =
  rl_table :: string
  redo_logs :: "int list"

record recovery =
  active_txns :: "(int \<times> int list) list"
  dirty_pages :: "(page_id \<times> RedoLogsInPage) list"
  lsn2log :: "int \<rightharpoonup> LogRecord"

definition RecoveryManager :: recovery where
  "RecoveryManager = \<lparr>active_txns = [], dirty_pages = [], lsn2log = Map.empty\<rparr>"

type_synonym 'i rec_world = "recovery \<times> 'i db_world"

definition in_db :: "('i db_world, 'a) rcmd \<Rightarrow> ('i rec_world, 'a) rcmd" where
  "in_db = zoom snd (\<lambda>w s. (fst s, w))"

definition in_tables :: "(recovery \<Rightarrow> recovery) \<Rightarrow> ('i rec_world, unit) rcmd" where
  "in_tables f = modify (\<lambda>s. (f (fst s), snd s))"

text \<open>\<open>m[k] = v\<close> and \<open>m.emplace(k, v)\<close> of an ordered map.\<close>

fun map_put :: "('k \<Rightarrow> 'k \<Rightarrow> bool) \<Rightarrow> 'k \<Rightarrow> 'v \<Rightarrow> ('k \<times> 'v) list \<Rightarrow> ('k \<times> 'v) list" where
  "map_put lt k v [] = [(k, v)]"
| "map_put lt k v (e # m) = (if fst e = k then (k, v) # m else if lt k (fst e) then (k, v) # e # m else e # map_put lt k v m)"

definition map_emplace :: "('k \<Rightarrow> 'k \<Rightarrow> bool) \<Rightarrow> 'k \<Rightarrow> 'v \<Rightarrow> ('k \<times> 'v) list \<Rightarrow> ('k \<times> 'v) list" where
  "map_emplace lt k v m = (if map_of m k = None then map_put lt k v m else m)"

definition map_erase :: "'k \<Rightarrow> ('k \<times> 'v) list \<Rightarrow> ('k \<times> 'v) list" where
  "map_erase k m = filter (\<lambda>e. fst e \<noteq> k) m"

section \<open>One log record\<close>

definition bytes_name :: "byte list \<Rightarrow> string" where
  "bytes_name bs = map (\<lambda>b. char_of (unat b)) bs"

text \<open>
  A \<open>BEGIN\<close> record: the vector for the transaction is built from its number, so it holds that many
  zeros (a negative number is too long a vector).
\<close>

definition analyse_begin :: "LogRecord \<Rightarrow> ('i rec_world, unit) rcmd" where
  "analyse_begin r =
     (if lsn r < 0 then throw (InternalError ''std::length_error'')
      else bindc (in_tables (\<lambda>t. t\<lparr>active_txns := map_emplace (<) (log_tid r) (replicate (nat (lsn r)) 0) (active_txns t)\<rparr>))
        (\<lambda>_. in_tables (\<lambda>t. t\<lparr>lsn2log := (lsn2log t)(lsn r \<mapsto> r)\<rparr>)))"

definition analyse_end :: "LogRecord \<Rightarrow> ('i rec_world, unit) rcmd" where
  "analyse_end r =
     bindc (in_tables (\<lambda>t. t\<lparr>active_txns := map_erase (log_tid r) (active_txns t)\<rparr>))
       (\<lambda>_. in_tables (\<lambda>t. t\<lparr>lsn2log := (lsn2log t)(lsn r \<mapsto> r)\<rparr>))"

text \<open>
  The order of page identifiers is not an order across files: a map with two keys that are each
  less than the other has no defined behaviour.
\<close>

definition order_broken :: "page_id \<Rightarrow> recovery \<Rightarrow> bool" where
  "order_broken p t \<longleftrightarrow> (\<exists>(k, e) \<in> set (dirty_pages t). page_id_less p k \<and> page_id_less k p)"

definition push_redo :: "page_id \<Rightarrow> int \<Rightarrow> recovery \<Rightarrow> recovery" where
  "push_redo p l t =
     (case map_of (dirty_pages t) p of
        None \<Rightarrow> t
      | Some e \<Rightarrow> t\<lparr>dirty_pages := map_put page_id_less p (e\<lparr>redo_logs := redo_logs e @ [l]\<rparr>) (dirty_pages t)\<rparr>)"

definition first_redo :: "page_id \<Rightarrow> recovery \<Rightarrow> int list" where
  "first_redo p t = (case map_of (dirty_pages t) p of None \<Rightarrow> [] | Some e \<Rightarrow> redo_logs e)"

text \<open>A record of a change, of the record \<open>rid\<close> of the table \<open>tab\<close>; the three cases of the switch are alike.\<close>

definition analyse_change :: "LogRecord \<Rightarrow> string \<Rightarrow> rid \<Rightarrow> ('i rec_world, unit) rcmd" where
  "analyse_change r tab rid =
     bindc (in_tables (\<lambda>t. t\<lparr>active_txns := map_put (<) (log_tid r)
             ((case map_of (active_txns t) (log_tid r) of None \<Rightarrow> [] | Some ls \<Rightarrow> ls) @ [lsn r]) (active_txns t)\<rparr>)) (\<lambda>_ s.
     case hfind (dw_fhs (snd s)) tab of
       None \<Rightarrow> (Inl OutOfRange, s)
     | Some (fd, h) \<Rightarrow>
         let p = PageId fd (rid_page_no rid); fresh = (map_of (dirty_pages (fst s)) p = None) in
         if order_broken p (fst s) then (Inl (UndefinedBehaviour ''PageId::operator<''), s)
         else bindc (in_tables (\<lambda>t. t\<lparr>dirty_pages := map_emplace page_id_less p \<lparr>rl_table = tab, redo_logs = []\<rparr> (dirty_pages t)\<rparr>)) (\<lambda>_.
              bindc (if fresh
                     then bindc (in_db (on_table tab (\<lambda>fd. get_page_lsn fd (rid_page_no rid)))) (\<lambda>l. in_tables (push_redo p l))
                     else ret ()) (\<lambda>_ s.
              if first_redo p (fst s) = [] then (Inl (UndefinedBehaviour ''redo_logs_[0]''), s)
              else bindc (if hd (first_redo p (fst s)) < lsn r then in_tables (push_redo p (lsn r)) else ret ()) (\<lambda>_.
                   in_tables (\<lambda>t. t\<lparr>lsn2log := (lsn2log t)(lsn r \<mapsto> r)\<rparr>)) s)) s)"

definition analyse_record :: "LogRecord \<Rightarrow> ('i rec_world, unit) rcmd" where
  "analyse_record r =
     (case log_data r of
        InsertData v rid name \<Rightarrow> analyse_change r (bytes_name name) rid
      | DeleteData v rid name \<Rightarrow> analyse_change r (bytes_name name) rid
      | UpdateData old new rid name \<Rightarrow> analyse_change r (bytes_name name) rid
      | NoData \<Rightarrow> if log_type r = BEGIN then analyse_begin r else analyse_end r)"

section \<open>Reading the log\<close>

text \<open>
  The loop over the buffer. A read behind the buffer is undefined behaviour; a type that is none
  of the six leaves the position where it is.
\<close>

partial_function (option) parse_logs :: "byte list \<Rightarrow> nat \<Rightarrow> nat \<Rightarrow> ('i rec_world, nat) pcmd" where
  "parse_logs buf off log_off s =
     (if length buf < off + OFFSET_LOG_TOT_LEN + 4 then Some (Inl (UndefinedBehaviour ''buffer_.buffer_''), s)
      else let log_tot_len = le_val (read_at (off + OFFSET_LOG_TOT_LEN) 4 buf) in
        if LOG_BUFFER_SIZE \<le> (off + log_tot_len) mod 2 ^ 32 \<or> log_tot_len = 0 then Some (Inr log_off, s)
        else case log_type_of (get_int (read_at (off + OFFSET_LOG_TYPE) 4 buf)) of
            None \<Rightarrow> parse_logs buf off log_off s
          | Some ty \<Rightarrow> (case deserialize ty (drop off buf) of
                None \<Rightarrow> Some (Inl (UndefinedBehaviour ''deserialize''), s)
              | Some r \<Rightarrow> pbind (plift (analyse_record r)) (\<lambda>_. parse_logs buf (off + LogRecord.log_tot_len r) (log_off + LogRecord.log_tot_len r)) s))"

definition read_log_at :: "nat \<Rightarrow> ('i rec_world, int \<times> byte list) rcmd" where
  "read_log_at off = in_db (zoom (\<lambda>w. bp_disk (dw_bpm w)) (\<lambda>d w. w\<lparr>dw_bpm := (dw_bpm w)\<lparr>bp_disk := d\<rparr>\<rparr>) (read_log (int LOG_BUFFER_SIZE) (int off)))"

partial_function (option) analyze_from :: "nat \<Rightarrow> ('i rec_world, unit) pcmd" where
  "analyze_from log_off s =
     pbind (plift (read_log_at log_off)) (\<lambda>(n, got).
       if n < 0 then pres (Inl (UndefinedBehaviour ''std::fill''))
       else pbind (parse_logs (got @ replicate (LOG_BUFFER_SIZE + 1 - length got) 0) 0 log_off) (\<lambda>log_off'.
              if n < int LOG_BUFFER_SIZE then pret () else analyze_from log_off')) s"

definition analyze :: "('i rec_world, unit) pcmd" where
  "analyze = analyze_from 0"

section \<open>Redo and undo\<close>

text \<open>Both call the record file without a context.\<close>

definition redo_log :: "string \<Rightarrow> int \<Rightarrow> ('i rec_world, unit) rcmd" where
  "redo_log tab l s =
     (case lsn2log (fst s) l of
        None \<Rightarrow> (Inr (), s)
      | Some r \<Rightarrow> (case log_data r of
            InsertData v rid name \<Rightarrow>
              bindc (in_db (on_table tab (\<lambda>fd. insert_record fd v False)))
                (\<lambda>rid'. in_tables (\<lambda>t. t\<lparr>lsn2log := (lsn2log t)(l \<mapsto> r\<lparr>log_data := InsertData v rid' name\<rparr>)\<rparr>)) s
          | DeleteData v rid name \<Rightarrow> in_db (on_table tab (\<lambda>fd. delete_record fd rid False)) s
          | UpdateData old new rid name \<Rightarrow> in_db (on_table tab (\<lambda>fd. update_record fd rid new False)) s
          | NoData \<Rightarrow> (Inr (), s)))"

definition redo :: "('i rec_world, unit) rcmd" where
  "redo s =
     bindc (for_each (\<lambda>(p, e). for_each (redo_log (rl_table e)) (redo_logs e)) (dirty_pages (fst s)))
       (\<lambda>_. in_tables (\<lambda>t. t\<lparr>dirty_pages := []\<rparr>)) s"

definition undo_log :: "int \<Rightarrow> ('i rec_world, unit) rcmd" where
  "undo_log l s =
     (case lsn2log (fst s) l of
        None \<Rightarrow> (Inr (), s)
      | Some r \<Rightarrow> (case log_data r of
            InsertData v rid name \<Rightarrow> in_db (on_table (bytes_name name) (\<lambda>fd. delete_record fd rid False)) s
          | DeleteData v rid name \<Rightarrow> bindc (in_db (on_table (bytes_name name) (\<lambda>fd. insert_record fd v False))) (\<lambda>_. ret ()) s
          | UpdateData old new rid name \<Rightarrow> in_db (on_table (bytes_name name) (\<lambda>fd. update_record fd rid old False)) s
          | NoData \<Rightarrow> (Inr (), s)))"

definition undo :: "('i rec_world, unit) rcmd" where
  "undo s =
     bindc (for_each (\<lambda>(t, ls). for_each undo_log ls) (active_txns (fst s)))
       (\<lambda>_. in_tables (\<lambda>t. t\<lparr>active_txns := [], lsn2log := Map.empty\<rparr>)) s"

section \<open>The loop goes through the records\<close>

declare parse_logs.simps [simp del] analyze_from.simps [simp del]

lemma log_bytes_head:
  assumes "log_ok r"
  shows "get_int (read_at OFFSET_LOG_TYPE 4 (log_bytes r @ c)) = log_type_code (log_type r)"
    "le_val (read_at OFFSET_LOG_TOT_LEN 4 (log_bytes r @ c)) = log_tot_len r"
  using assms by (simp_all add: log_bytes_def log_ok_def log_offsets read_at_def le_val_le_bytes)

lemma read_at_behind: "read_at (length a + k) n (a @ b) = read_at k n b"
  by (simp add: read_at_def)

lemma log_ok_length: "log_ok r \<Longrightarrow> length (log_bytes r) = log_tot_len r"
  by (simp add: log_ok_def length_log_bytes)

lemma log_ok_pos: "log_ok r \<Longrightarrow> 20 \<le> log_tot_len r"
  by (simp add: log_ok_def log_offsets)

text \<open>One turn of the loop, at the start of a record.\<close>

lemma parse_logs_record:
  assumes r: "log_ok r" and buf: "buf = a @ log_bytes r @ c" and small: "length a + log_tot_len r < LOG_BUFFER_SIZE"
  shows "parse_logs buf (length a) lo s = pbind (plift (analyse_record r)) (\<lambda>_. parse_logs buf (length a + log_tot_len r) (lo + log_tot_len r)) s"
proof -
  have len: "length (log_bytes r) = log_tot_len r" "20 \<le> log_tot_len r" using log_ok_length [OF r] log_ok_pos [OF r] by simp_all
  have rd: "get_int (read_at (length a + OFFSET_LOG_TYPE) 4 buf) = log_type_code (log_type r)"
    "le_val (read_at (length a + OFFSET_LOG_TOT_LEN) 4 buf) = log_tot_len r"
    unfolding buf read_at_behind by (rule log_bytes_head [OF r])+
  have de: "deserialize (log_type r) (drop (length a) buf) = Some r" unfolding buf using deserialize_log_bytes [OF r] by simp
  have "\<not> length buf < length a + OFFSET_LOG_TOT_LEN + 4" using len by (simp add: buf log_offsets)
  moreover have "(length a + log_tot_len r) mod 2 ^ 32 = length a + log_tot_len r" using small by (simp add: LOG_BUFFER_SIZE_def PAGE_SIZE_def)
  ultimately show ?thesis using small len(2) by (subst parse_logs.simps) (simp add: rd de Let_def)
qed

lemma le_val_zeros: "le_val (replicate n 0) = 0"
  by (induction n) simp_all

lemma parse_logs_end:
  assumes "length a + 12 \<le> length buf" and "buf = a @ replicate k 0"
  shows "parse_logs buf (length a) lo s = Some (Inr lo, s)"
proof -
  have "read_at (length a + OFFSET_LOG_TOT_LEN) 4 buf = replicate 4 0"
    unfolding assms(2) read_at_behind using assms by (simp add: read_at_def log_offsets min_def)
  then show ?thesis using assms(1) by (subst parse_logs.simps) (simp add: log_offsets le_val_zeros)
qed

lemma plift_pbind: "pbind (plift m) (\<lambda>x. plift (f x)) = plift (bindc m f)"
  by (rule ext) (auto simp: pbind_def plift_def bindc_def split: prod.splits sum.splits)

lemma parse_logs_all:
  fixes s :: "'i rec_world"
  assumes "\<forall>r \<in> set rs. log_ok r" and "buf = a @ concat (map log_bytes rs) @ replicate k 0"
    and "length a + length (concat (map log_bytes rs)) + 12 \<le> LOG_BUFFER_SIZE" and "length buf = LOG_BUFFER_SIZE + 1"
  shows "parse_logs buf (length a) lo s =
    Some (bindc (for_each analyse_record rs) (\<lambda>_. ret (lo + length (concat (map log_bytes rs)))) s)"
  using assms
proof (induction rs arbitrary: a lo s)
  case Nil
  then show ?case using parse_logs_end [of a buf k lo s] by (simp add: bindc_def ret_def)
next
  case (Cons r rs)
  have r: "log_ok r" and l: "length (log_bytes r) = log_tot_len r" using Cons.prems(1) log_ok_length by simp_all
  have small: "length a + log_tot_len r < LOG_BUFFER_SIZE" using Cons.prems(3) l by simp
  have step: "parse_logs buf (length a) lo s =
      pbind (plift (analyse_record r)) (\<lambda>_. parse_logs buf (length a + log_tot_len r) (lo + log_tot_len r)) s"
    by (rule parse_logs_record [OF r _ small, of _ "concat (map log_bytes rs) @ replicate k 0"]) (simp add: Cons.prems(2))
  have ih: "parse_logs buf (length a + log_tot_len r) (lo + log_tot_len r) s' =
      plift (bindc (for_each analyse_record rs) (\<lambda>_. ret (lo + length (concat (map log_bytes (r # rs)))))) s'" for s' :: "'i rec_world"
  proof -
    have eq: "lo + log_tot_len r + length (concat (map log_bytes rs)) = lo + length (concat (map log_bytes (r # rs)))" using l by simp
    have "parse_logs buf (length (a @ log_bytes r)) (lo + log_tot_len r) s' =
        Some (bindc (for_each analyse_record rs) (\<lambda>_. ret (lo + log_tot_len r + length (concat (map log_bytes rs)))) s')"
      by (rule Cons.IH) (use Cons.prems in simp_all)
    then show ?thesis unfolding plift_def length_append l eq .
  qed
  have "parse_logs buf (length a) lo s = pbind (plift (analyse_record r)) (\<lambda>_. plift (bindc (for_each analyse_record rs)
      (\<lambda>_. ret (lo + length (concat (map log_bytes (r # rs))))))) s"
    unfolding step pbind_def ih by (rule refl)
  then show ?case unfolding plift_pbind by (simp only: plift_def for_each.simps bindc_assoc)
qed

text \<open>The log fits into one buffer and is read whole.\<close>

lemma read_log_whole:
  assumes r: "log_ready d" and f: "log_file d = f" "length f \<le> n" "in_range 4 (int n)"
  shows "read_log (int n) 0 d = bindc open_log (\<lambda>_. ret (int (length f), f)) d"
proof (cases "open_log d")
  case (Pair x d')
  show ?thesis
  proof (cases x)
    case (Inr u)
    have o: "disk_wf d'" "hfind (fd2path d') (log_fd d') = Some LOG_FILE_NAME" "os_files (dm_os d') = os_files (dm_os d)"
      using open_log_ready [OF r, of d'] Pair Inr by auto
    have fd: "hfind (os_fds (dm_os d')) (log_fd d') = Some LOG_FILE_NAME" using disk_wf_tables [OF o(1)] o(2) by simp
    have "os_files (dm_os d') LOG_FILE_NAME = Some f" using r f o(3) by (auto simp: log_ready_def)
    moreover have "wrap_int 4 (int (length f)) = int (length f)" using f(2,3) by (simp add: in_range_def)
    ultimately show ?thesis using Pair Inr fd f(2)
      by (auto simp: read_log_def bindc_def get_file_size_def os_read_def os_file_def Let_def min_def read_at_def)
  qed (simp add: read_log_def bindc_def Pair)
qed

text \<open>Opening the log, as every use of the log does first.\<close>

definition open_log_cmd :: "('i rec_world, unit) rcmd" where
  "open_log_cmd = in_db (zoom (\<lambda>w. bp_disk (dw_bpm w)) (\<lambda>d w. w\<lparr>dw_bpm := (dw_bpm w)\<lparr>bp_disk := d\<rparr>\<rparr>) open_log)"

abbreviation the_disk :: "'i rec_world \<Rightarrow> disk" where
  "the_disk s \<equiv> bp_disk (dw_bpm (snd s))"

lemma in_range_buffer: "in_range 4 (int LOG_BUFFER_SIZE)"
  by (simp add: in_range_def LOG_BUFFER_SIZE_def PAGE_SIZE_def)

lemma read_log_at_whole:
  assumes "log_ready (the_disk s)" and "log_file (the_disk s) = f" and "length f \<le> LOG_BUFFER_SIZE"
  shows "read_log_at 0 s = bindc open_log_cmd (\<lambda>_. ret (int (length f), f)) s"
  using read_log_whole [OF assms] in_range_buffer
  by (cases "open_log (the_disk s)") (auto simp: read_log_at_def open_log_cmd_def in_db_def zoom_def bindc_def ret_def split: sum.splits)

text \<open>
  Property C34. The analysis of the log reads it as it was written. If the log file is the sequence of
  the byte images of well-formed records and leaves twelve bytes of the buffer free, \<open>analyze\<close> comes
  to an end and does exactly what treating the records one after the other does, exceptions
  included: the loop over bytes refines the loop over records.
\<close>

theorem analyze_goes_through_the_log:
  fixes s :: "'i rec_world"
  assumes "log_ready (the_disk s)" and "log_file (the_disk s) = concat (map log_bytes rs)" and "\<forall>r \<in> set rs. log_ok r"
    and "length (log_file (the_disk s)) + 12 \<le> LOG_BUFFER_SIZE"
  shows "analyze s = Some (bindc open_log_cmd (\<lambda>_. for_each analyse_record rs) s)"
proof -
  let ?f = "concat (map log_bytes rs)" and ?n = "length (concat (map log_bytes rs))"
  let ?buf = "?f @ replicate (LOG_BUFFER_SIZE + 1 - ?n) 0"
  have small: "?n + 12 \<le> LOG_BUFFER_SIZE" using assms(2,4) by simp
  then have n: "int ?n < int LOG_BUFFER_SIZE" by simp
  have rd: "read_log_at 0 s = bindc open_log_cmd (\<lambda>_. ret (int ?n, ?f)) s"
    by (rule read_log_at_whole [OF assms(1,2)]) (use small in simp)
  have parse: "parse_logs ?buf 0 0 s' = plift (bindc (for_each analyse_record rs) (\<lambda>_. ret ?n)) s'" for s' :: "'i rec_world"
    using parse_logs_all [of rs ?buf "[]" "LOG_BUFFER_SIZE + 1 - ?n" 0 s'] assms(3) small by (simp add: plift_def)
  have body: "(if int ?n < 0 then pres (Inl (UndefinedBehaviour ''std::fill''))
      else pbind (parse_logs ?buf 0 0) (\<lambda>log_off'. if int ?n < int LOG_BUFFER_SIZE then pret () else analyze_from log_off')) s' =
    plift (for_each analyse_record rs) s'" for s' :: "'i rec_world"
    unfolding pbind_def parse using n
    by (cases "for_each analyse_record rs s'") (auto simp: plift_def bindc_def ret_def pret_def split: sum.splits)
  show ?thesis unfolding analyze_def
    by (subst analyze_from.simps, cases "open_log_cmd s")
      (use body in \<open>auto simp: pbind_def plift_def rd bindc_def ret_def split: sum.splits\<close>)
qed

section \<open>Unfinished transactions\<close>

text \<open>The changes of transactions that have neither committed nor aborted since.\<close>

definition finishes :: "LogRecord \<Rightarrow> bool" where
  "finishes r \<longleftrightarrow> log_type r = COMMIT \<or> log_type r = ABORT"

definition changes :: "LogRecord \<Rightarrow> bool" where
  "changes r \<longleftrightarrow> log_data r \<noteq> NoData"

definition open_changes :: "LogRecord list \<Rightarrow> LogRecord list" where
  "open_changes rs = foldl (\<lambda>os x. if finishes x then filter (\<lambda>r. log_tid r \<noteq> log_tid x) os else if changes x then os @ [x] else os) [] rs"

lemma open_changes_snoc:
  "open_changes (rs @ [x]) = (if finishes x then filter (\<lambda>r. log_tid r \<noteq> log_tid x) (open_changes rs)
     else if changes x then open_changes rs @ [x] else open_changes rs)"
  by (simp add: open_changes_def)

lemma open_changes_sub: "r \<in> set (open_changes rs) \<Longrightarrow> r \<in> set rs \<and> changes r"
  by (induction rs rule: rev_induct) (auto simp: open_changes_snoc open_changes_def split: if_splits)

lemma map_of_map_put [simp]: "map_of (map_put lt k v m) = (map_of m)(k \<mapsto> v)"
  by (induction m) (auto simp: fun_eq_iff)

lemma map_of_map_emplace [simp]: "map_of (map_emplace lt k v m) = (if map_of m k = None then (map_of m)(k \<mapsto> v) else map_of m)"
  by (simp add: map_emplace_def)

lemma map_of_map_erase [simp]: "map_of (map_erase k m) = (map_of m)(k := None)"
  by (induction m) (auto simp: map_erase_def fun_eq_iff)

abbreviation keys_up :: "(int \<times> 'v) list \<Rightarrow> bool" where
  "keys_up m \<equiv> sorted_wrt (<) (map fst m)"

lemma set_map_put: "fst ` set (map_put lt k v m) = insert k (fst ` set m)"
  by (induction m) auto

lemma keys_up_map_put: "keys_up m \<Longrightarrow> keys_up (map_put (<) k v m)"
proof (induction m)
  case (Cons e m)
  then show ?case using set_map_put [of "(<)" k v m] by (auto simp: image_iff)
qed simp

lemma keys_up_steps: "keys_up m \<Longrightarrow> keys_up (map_emplace (<) k v m)" "keys_up m \<Longrightarrow> keys_up (map_erase k m)"
proof -
  show "keys_up m \<Longrightarrow> keys_up (map_emplace (<) k v m)" by (simp add: map_emplace_def keys_up_map_put)
  show "keys_up m \<Longrightarrow> keys_up (map_erase k m)" by (induction m) (auto simp: map_erase_def)
qed

lemma in_tables_run [simp]: "in_tables f s = (Inr (), (f (fst s), snd s))"
  by (simp add: in_tables_def)

lemma in_db_keeps: "in_db m s = (x, s') \<Longrightarrow> fst s' = fst s"
  by (auto simp: in_db_def zoom_def split: prod.splits)

lemma push_redo_keeps [simp]: "active_txns (push_redo p l t) = active_txns t" "lsn2log (push_redo p l t) = lsn2log t"
  by (simp_all add: push_redo_def split: option.splits)

lemma analyse_change_tables:
  assumes "analyse_change r tab rid (R, w) = (Inr (), (R', w'))"
  shows "lsn2log R' = (lsn2log R)(lsn r \<mapsto> r)"
    "active_txns R' = map_put (<) (log_tid r) ((case map_of (active_txns R) (log_tid r) of None \<Rightarrow> [] | Some ls \<Rightarrow> ls) @ [lsn r]) (active_txns R)"
  using assms
  by (auto simp: analyse_change_def bindc_eq_Inr Let_def dest!: in_db_keeps split: option.splits if_splits prod.splits)

text \<open>What the tables hold after the records \<open>rs\<close>.\<close>

definition tables_after :: "LogRecord list \<Rightarrow> recovery \<Rightarrow> bool" where
  "tables_after rs R \<longleftrightarrow> keys_up (active_txns R) \<and> (\<forall>l r. lsn2log R l = Some r \<longleftrightarrow> r \<in> set rs \<and> lsn r = l) \<and>
     (\<forall>t ls. map_of (active_txns R) t = Some ls \<longrightarrow> (\<forall>l \<in> set ls. l = 0 \<or> (\<exists>r \<in> set (open_changes rs). lsn r = l \<and> log_tid r = t))) \<and>
     (\<forall>r \<in> set (open_changes rs). \<exists>ls. map_of (active_txns R) (log_tid r) = Some ls \<and> lsn r \<in> set ls)"

lemma payload_kinds: "log_ok r \<Longrightarrow> changes r \<or> log_type r = BEGIN \<or> finishes r" "log_ok r \<Longrightarrow> changes r \<Longrightarrow> \<not> finishes r \<and> log_type r \<noteq> BEGIN"
  by (cases "log_type r"; cases "log_data r"; simp add: log_ok_def changes_def finishes_def)+

lemma analyse_record_tables:
  assumes "analyse_record r (R, w) = (Inr (), (R', w'))" and "log_ok r"
  shows "lsn2log R' = (lsn2log R)(lsn r \<mapsto> r)"
    "active_txns R' = (if changes r then map_put (<) (log_tid r) ((case map_of (active_txns R) (log_tid r) of None \<Rightarrow> [] | Some ls \<Rightarrow> ls) @ [lsn r]) (active_txns R)
       else if finishes r then map_erase (log_tid r) (active_txns R)
       else map_emplace (<) (log_tid r) (replicate (nat (lsn r)) 0) (active_txns R))"
  using assms payload_kinds [OF assms(2)] analyse_change_tables [of r _ _ R w R' w']
  by (auto simp: analyse_record_def changes_def finishes_def analyse_begin_def analyse_end_def bindc_eq_Inr
      split: log_payload.splits if_splits)

lemma tables_after_step:
  assumes i: "tables_after rs R" and a: "analyse_record r (R, w) = (Inr (), (R', w'))" and ok: "log_ok r" and new: "lsn r \<notin> lsn ` set rs"
  shows "tables_after (rs @ [r]) R'"
  unfolding tables_after_def
proof (intro conjI allI ballI impI)
  note t = analyse_record_tables [OF a ok]
  note I = i [unfolded tables_after_def]
  have old: "l = 0 \<or> (\<exists>x \<in> set (open_changes rs). lsn x = l \<and> log_tid x = u)" if "map_of (active_txns R) u = Some ls" "l \<in> set ls" for u ls l
    using I that by blast
  have known: "\<exists>ls. map_of (active_txns R) (log_tid x) = Some ls \<and> lsn x \<in> set ls" if "x \<in> set (open_changes rs)" for x
    using I that by blast
  note kinds = payload_kinds [OF ok]
  show "keys_up (active_txns R')" using I by (simp add: t keys_up_map_put keys_up_steps)
  show "lsn2log R' l = Some x \<longleftrightarrow> x \<in> set (rs @ [r]) \<and> lsn x = l" for l x using I new by (auto simp: t) (metis imageI)
  show "l = 0 \<or> (\<exists>x \<in> set (open_changes (rs @ [r])). lsn x = l \<and> log_tid x = u)"
    if m: "map_of (active_txns R') u = Some ls" and l: "l \<in> set ls" for u ls l
  proof (cases "map_of (active_txns R) u = Some ls \<and> \<not> (finishes r \<and> u = log_tid r)")
    case True
    then show ?thesis using old [OF _ l] by (auto simp: open_changes_snoc)
  next
    case False
    then show ?thesis using m l kinds by (auto simp: t open_changes_snoc split: if_splits option.splits) (metis old)
  qed
  show "\<exists>ls. map_of (active_txns R') (log_tid x) = Some ls \<and> lsn x \<in> set ls" if x: "x \<in> set (open_changes (rs @ [r]))" for x
  proof (cases "x \<in> set (open_changes rs)")
    case True
    then obtain ls where "map_of (active_txns R) (log_tid x) = Some ls" "lsn x \<in> set ls" using known by blast
    moreover have "finishes r \<Longrightarrow> log_tid x \<noteq> log_tid r" using x by (simp add: open_changes_snoc)
    ultimately show ?thesis using kinds by (auto simp: t)
  next
    case False
    then show ?thesis using x by (auto simp: t open_changes_snoc split: if_splits)
  qed
qed

lemma for_each_snoc: "for_each f (xs @ [x]) = bindc (for_each f xs) (\<lambda>_. f x)"
proof (induction xs)
  case Nil
  show ?case by (rule ext) (auto simp: bindc_def ret_def split: prod.splits sum.splits)
qed (simp add: bindc_assoc)

lemma analysed_tables:
  assumes "for_each analyse_record rs (RecoveryManager, w) = (Inr (), (R, w'))" and "\<forall>r \<in> set rs. log_ok r" and "distinct (map lsn rs)"
  shows "tables_after rs R"
  using assms
proof (induction rs arbitrary: R w' rule: rev_induct)
  case Nil
  then show ?case by (auto simp: tables_after_def RecoveryManager_def open_changes_def)
next
  case (snoc r rs)
  obtain R1 w1 where s1: "for_each analyse_record rs (RecoveryManager, w) = (Inr (), (R1, w1))" "analyse_record r (R1, w1) = (Inr (), (R, w'))"
    using snoc.prems(1) by (auto simp: for_each_snoc bindc_eq_Inr)
  show ?case by (rule tables_after_step [OF snoc.IH [OF s1(1)] s1(2)]) (use snoc.prems in auto)
qed

section \<open>Undoing\<close>

text \<open>Every change of a file without a context fails.\<close>

lemma on_table_fails:
  assumes "\<And>fd x. \<exists>e y. f fd x = (Inl e, y)"
  shows "\<exists>e y. on_table n f w = (Inl e, y)"
  using assms by (cases "hfind (dw_fhs w) n") (auto simp: on_table_def split: prod.splits, metis Pair_inject)

lemma in_db_fails: "\<exists>e y. m (snd s) = (Inl e, y) \<Longrightarrow> \<exists>e y. in_db m s = (Inl e, y)"
  by (auto simp: in_db_def zoom_def)

lemma no_context_fails:
  "\<exists>e y. insert_record fd v False x = (Inl e, y)" "\<exists>e y. delete_record fd r False x = (Inl e, y)" "\<exists>e y. update_record fd r v False x = (Inl e, y)"
  by (auto simp: insert_record_def delete_record_def update_record_def bindc_def throw_def Let_def split: prod.splits sum.splits)

lemma file_call_fails:
  assumes "\<And>fd x. \<exists>e y. f fd x = (Inl e, y)"
  shows "\<exists>e y. in_db (on_table n f) s = (Inl e, y)"
  by (rule in_db_fails) (rule on_table_fails [OF assms])

lemma undo_log_fails:
  assumes "lsn2log (fst s) l = Some r" and "changes r"
  shows "\<exists>e y. undo_log l s = (Inl e, y)"
proof (cases "log_data r")
  case (InsertData v rid name)
  then show ?thesis using assms(1) file_call_fails [of "\<lambda>fd. delete_record fd rid False"] no_context_fails(2) by (simp add: undo_log_def)
next
  case (DeleteData v rid name)
  obtain e y where "in_db (on_table (bytes_name name) (\<lambda>fd. insert_record fd v False)) s = (Inl e, y)"
    using file_call_fails [of "\<lambda>fd. insert_record fd v False"] no_context_fails(1) by blast
  then show ?thesis using assms(1) DeleteData by (simp add: undo_log_def bindc_def)
next
  case (UpdateData old new rid name)
  then show ?thesis using assms(1) file_call_fails [of "\<lambda>fd. update_record fd rid old False"] no_context_fails(3) by (simp add: undo_log_def)
qed (use assms in \<open>simp add: changes_def\<close>)

lemma undo_log_idle: "(\<And>r. lsn2log (fst s) l = Some r \<Longrightarrow> \<not> changes r) \<Longrightarrow> undo_log l s = (Inr (), s)"
  by (auto simp: undo_log_def changes_def split: option.splits log_payload.splits)

lemma for_each_idle: "(\<And>x. x \<in> set xs \<Longrightarrow> f x s = (Inr (), s)) \<Longrightarrow> for_each f xs s = (Inr (), s)"
  by (induction xs) (simp_all add: bindc_def)

lemma for_each_fails:
  assumes "\<And>x. x \<in> set xs \<Longrightarrow> f x s = (Inr (), s) \<or> (\<exists>e y. f x s = (Inl e, y))" and "x \<in> set xs" and "f x s \<noteq> (Inr (), s)"
  shows "\<exists>e y. for_each f xs s = (Inl e, y)"
  using assms
proof (induction xs)
  case (Cons z zs)
  show ?case
  proof (cases "f z s = (Inr (), s)")
    case True
    then have "\<exists>e y. for_each f zs s = (Inl e, y)" using Cons.IH Cons.prems by (metis list.set_intros(2) set_ConsD)
    then show ?thesis using True by (simp add: bindc_def)
  next
    case False
    then obtain e y where "f z s = (Inl e, y)" using Cons.prems(1) [of z] by auto
    then show ?thesis by (simp add: bindc_def)
  qed
qed simp

lemma undo_log_either: "undo_log l s = (Inr (), s) \<or> (\<exists>e y. undo_log l s = (Inl e, y))"
  using undo_log_idle [of s l] undo_log_fails [of s l] by blast

text \<open>
  Property C35. When undoing works. After an analysis of a log whose records have different numbers,
  the one numbered 0 (if any) being no change, \<open>undo\<close> leaves the database as it is and returns if
  every transaction that changed something has committed or aborted since; otherwise it ends
  with an exception or undefined behaviour (the record file is called without a context), so a
  crash in the middle of a transaction cannot be recovered from.
\<close>

theorem undo_returns_iff_nothing_open:
  assumes a: "for_each analyse_record rs (RecoveryManager, w) = (Inr (), (R, w'))" and ok: "\<forall>r \<in> set rs. log_ok r"
    and d: "distinct (map lsn rs)" and z: "\<forall>r \<in> set rs. lsn r = 0 \<longrightarrow> \<not> changes r"
  shows "if open_changes rs = [] then undo (R, w') = (Inr (), (R\<lparr>active_txns := [], lsn2log := Map.empty\<rparr>, w'))
    else \<exists>e s. undo (R, w') = (Inl e, s)"
proof -
  note T = analysed_tables [OF a ok d, unfolded tables_after_def]
  let ?f = "\<lambda>(t :: int, ls). for_each undo_log ls"
  have dist: "distinct (map fst (active_txns R))" using T by (simp add: strict_sorted_iff)
  have entry: "map_of (active_txns R) t = Some ls \<longleftrightarrow> (t, ls) \<in> set (active_txns R)" for t ls using dist by simp
  have either: "?f e (R, w') = (Inr (), (R, w')) \<or> (\<exists>x y. ?f e (R, w') = (Inl x, y))" for e
  proof -
    obtain t ls where e: "e = (t, ls)" by (cases e)
    show ?thesis
    proof (cases "\<forall>l \<in> set ls. undo_log l (R, w') = (Inr (), (R, w'))")
      case True
      then show ?thesis using for_each_idle [of ls undo_log "(R, w')"] e by simp
    next
      case False
      then obtain l where "l \<in> set ls" "undo_log l (R, w') \<noteq> (Inr (), (R, w'))" by blast
      then have "\<exists>x y. for_each undo_log ls (R, w') = (Inl x, y)" by (intro for_each_fails undo_log_either)
      then show ?thesis using e by simp
    qed
  qed
  show ?thesis
  proof (cases "open_changes rs = []")
    case True
    have "undo_log l (R, w') = (Inr (), (R, w'))" if "(t, ls) \<in> set (active_txns R)" "l \<in> set ls" for t ls l
      by (rule undo_log_idle) (use T True that entry z in fastforce)
    then have "for_each ?f (active_txns R) (R, w') = (Inr (), (R, w'))"
      by (intro for_each_idle) (auto intro: for_each_idle)
    then show ?thesis using True by (simp add: undo_def bindc_def)
  next
    case False
    then obtain r where r: "r \<in> set (open_changes rs)" by (meson last_in_set)
    then obtain ls where ls: "(log_tid r, ls) \<in> set (active_txns R)" "lsn r \<in> set ls" using T entry by blast
    have c: "changes r" "lsn2log R (lsn r) = Some r" using open_changes_sub [OF r] T by auto
    have "\<exists>e y. for_each undo_log ls (R, w') = (Inl e, y)"
      by (rule for_each_fails [OF _ ls(2)]) (use undo_log_either undo_log_fails [of "(R, w')" "lsn r" r] c in auto)
    then have "\<exists>e y. for_each ?f (active_txns R) (R, w') = (Inl e, y)"
      by (intro for_each_fails [where f = ?f and x = "(log_tid r, ls)"] either ls(1)) auto
    then show ?thesis using False by (auto simp: undo_def bindc_def)
  qed
qed

section \<open>An example\<close>

text \<open>A log of one transaction that has committed.\<close>

definition rec_logs :: "LogRecord list" where
  "rec_logs = [(BeginLogRecord 5)\<lparr>lsn := 0\<rparr>, (CommitLogRecord 5)\<lparr>lsn := 1\<rparr>]"

definition rec_disk :: disk where
  "rec_disk = log_disk\<lparr>dm_os := (dm_os log_disk)\<lparr>os_files := (os_files (dm_os log_disk))(LOG_FILE_NAME \<mapsto> concat (map log_bytes rec_logs))\<rparr>\<rparr>"

lemma rec_logs_ok: "\<forall>r \<in> set rec_logs. log_ok r" "distinct (map lsn rec_logs)" "open_changes rec_logs = []"
  "\<forall>r \<in> set rec_logs. lsn r = 0 \<longrightarrow> \<not> changes r"
  by (simp_all add: rec_logs_def BeginLogRecord_def CommitLogRecord_def new_LogRecord_def log_ok_def in_range_def INVALID_LSN_def log_offsets
      open_changes_def finishes_def changes_def)

lemma rec_logs_analysed:
  "\<exists>R. for_each analyse_record rec_logs (RecoveryManager, w) = (Inr (), (R, w)) \<and> active_txns R = []"
  by (simp add: rec_logs_def BeginLogRecord_def CommitLogRecord_def new_LogRecord_def analyse_record_def analyse_begin_def analyse_end_def
      RecoveryManager_def map_emplace_def map_erase_def bindc_def)

lemma rec_disk_ready: "log_ready rec_disk" "log_file rec_disk = concat (map log_bytes rec_logs)" "log_fd rec_disk = 0"
  using log_disk_wf by (auto simp: log_ready_def rec_disk_def disk_wf_def) (auto simp: log_disk_def LOG_FILE_NAME_def)

theorem analyze_goes_through_the_log_witness:
  "\<forall>w :: unit db_world. let s = (RecoveryManager, w\<lparr>dw_bpm := (dw_bpm w)\<lparr>bp_disk := rec_disk\<rparr>\<rparr>) in
     \<exists>R. analyze s = Some (Inr (), (R, snd s)) \<and> active_txns R = []"
proof
  fix w :: "unit db_world"
  let ?s = "(RecoveryManager, w\<lparr>dw_bpm := (dw_bpm w)\<lparr>bp_disk := rec_disk\<rparr>\<rparr>)"
  have "length (concat (map log_bytes rec_logs)) = 40"
    by (simp add: rec_logs_def length_log_bytes BeginLogRecord_def CommitLogRecord_def new_LogRecord_def log_offsets)
  then have "analyze ?s = Some (bindc open_log_cmd (\<lambda>_. for_each analyse_record rec_logs) ?s)"
    by (intro analyze_goes_through_the_log) (simp_all add: rec_disk_ready rec_logs_ok LOG_BUFFER_SIZE_def PAGE_SIZE_def)
  moreover have "open_log_cmd ?s = (Inr (), ?s)" by (simp add: open_log_cmd_def open_log_def in_db_def zoom_def rec_disk_ready)
  ultimately show "let s = ?s in \<exists>R. analyze s = Some (Inr (), (R, snd s)) \<and> active_txns R = []"
    using rec_logs_analysed [of "snd ?s"] by (auto simp: bindc_def)
qed

theorem undo_returns_iff_nothing_open_witness:
  "\<forall>w :: unit db_world. \<exists>R. for_each analyse_record rec_logs (RecoveryManager, w) = (Inr (), (R, w)) \<and>
     undo (R, w) = (Inr (), (R\<lparr>active_txns := [], lsn2log := Map.empty\<rparr>, w))"
proof
  fix w :: "unit db_world"
  obtain R where R: "for_each analyse_record rec_logs (RecoveryManager, w) = (Inr (), (R, w))" using rec_logs_analysed by blast
  then show "\<exists>R. for_each analyse_record rec_logs (RecoveryManager, w) = (Inr (), (R, w)) \<and>
     undo (R, w) = (Inr (), (R\<lparr>active_txns := [], lsn2log := Map.empty\<rparr>, w))"
    using undo_returns_iff_nothing_open [OF R rec_logs_ok(1,2,4)] rec_logs_ok(3) by auto
qed

end
