(* ===== verification/Ix_Node.thy ===== *)
theory Ix_Node
  imports Log Sm_Meta "HOL-Library.List_Lexorder"
begin

text \<open>
  The nodes of the B+ tree index: the file header of \<open>src/src/index/ix_defs.h\<close>, the comparison
  of keys and \<open>IxNodeHandle\<close> of \<open>ix_index_handle.h\<close> and \<open>ix_index_handle.cpp\<close>. A node is the bytes
  of its page: a header of 24 bytes, the array of keys, the array of record identifiers. The
  operations move bytes as the code does; they are shown to work on the list of the node's
  entries, and a node with ascending keys to be an ordered map.
\<close>

section \<open>The file header\<close>

record IxFileHdr =
  ix_first_free_page_no :: int
  ix_num_pages :: int
  root_page :: int
  ix_col_num :: int
  col_types :: "ColType list"
  col_lens :: "int list"
  ix_col_tot_len :: int
  btree_order :: int
  keys_size :: int
  first_leaf :: int
  last_leaf :: int
  tot_len :: int

definition IX_NO_PAGE :: int where "IX_NO_PAGE = - 1"
definition IX_FILE_HDR_PAGE :: int where "IX_FILE_HDR_PAGE = 0"
definition IX_LEAF_HEADER_PAGE :: int where "IX_LEAF_HEADER_PAGE = 1"
definition IX_INIT_ROOT_PAGE :: int where "IX_INIT_ROOT_PAGE = 2"
definition IX_INIT_NUM_PAGES :: int where "IX_INIT_NUM_PAGES = 3"
definition IX_MAX_COL_LEN :: int where "IX_MAX_COL_LEN = 512"

definition update_tot_len :: "IxFileHdr \<Rightarrow> IxFileHdr" where
  "update_tot_len h = h\<lparr>tot_len := 4 * 4 + 4 * 6 + 4 * ix_col_num h + 4 * ix_col_num h\<rparr>"

text \<open>The fields in the order in which they are copied; the loops run over \<open>col_num_\<close> elements.\<close>

definition ix_hdr_fields :: "IxFileHdr \<Rightarrow> int list" where
  "ix_hdr_fields h =
     [tot_len h, ix_first_free_page_no h, ix_num_pages h, root_page h, ix_col_num h] @
     map (int \<circ> coltype_code) (take (nat (ix_col_num h)) (col_types h)) @ take (nat (ix_col_num h)) (col_lens h) @
     [ix_col_tot_len h, btree_order h, keys_size h, first_leaf h, last_leaf h]"

definition ix_serialize :: "IxFileHdr \<Rightarrow> byte list \<Rightarrow> rmdb_error + byte list" where
  "ix_serialize h dest =
     (if length (col_types h) < nat (ix_col_num h) \<or> length (col_lens h) < nat (ix_col_num h)
      then Inl (UndefinedBehaviour ''col_types_[i]'')
      else let fs = ix_hdr_fields h in
        if length dest < 4 * length fs then Inl (UndefinedBehaviour ''dest'')
        else if int (4 * length fs) \<noteq> tot_len h then Inl (AssertionFailure ''offset == tot_len_'')
        else Inr (put_chunks 0 (map (put_int 4) fs) dest))"

definition int_at :: "byte list \<Rightarrow> nat \<Rightarrow> int" where
  "int_at src off = get_int (read_at off 4 src)"

text \<open>
  \<open>deserialize\<close> fills a fresh object; a number that is not a \<open>ColType\<close> gives no value of the
  enumeration.
\<close>

definition ix_deserialize :: "byte list \<Rightarrow> rmdb_error + IxFileHdr" where
  "ix_deserialize src =
     (let n = nat (int_at src 16); off = 20 + 8 * n;
          ts = map (\<lambda>i. coltype_of (int_at src (20 + 4 * i))) [0..<n]
      in if length src < off + 20 \<or> None \<in> set ts
         then Inl (UndefinedBehaviour ''src'')
         else if int (off + 20) \<noteq> int_at src 0 then Inl (AssertionFailure ''offset == tot_len_'')
         else Inr \<lparr>ix_first_free_page_no = int_at src 4, ix_num_pages = int_at src 8, root_page = int_at src 12,
           ix_col_num = int_at src 16, col_types = map the ts, col_lens = map (\<lambda>i. int_at src (20 + 4 * n + 4 * i)) [0..<n],
           ix_col_tot_len = int_at src off, btree_order = int_at src (off + 4), keys_size = int_at src (off + 8),
           first_leaf = int_at src (off + 12), last_leaf = int_at src (off + 16), tot_len = int_at src 0\<rparr>)"

section \<open>Comparing keys\<close>

definition three_way :: "'a :: linorder \<Rightarrow> 'a \<Rightarrow> int" where
  "three_way x y = (if x < y then - 1 else if x > y then 1 else 0)"

text \<open>The values in the two columns; \<open>memcmp\<close> compares bytes as unsigned numbers.\<close>

definition ix_compare_col :: "byte list \<Rightarrow> byte list \<Rightarrow> ColType \<Rightarrow> int \<Rightarrow> int" where
  "ix_compare_col a b type col_len =
     (case type of
        TYPE_INT \<Rightarrow> three_way (get_int (take 4 a)) (get_int (take 4 b))
      | TYPE_FLOAT \<Rightarrow>
          (let fa = le_val (take 4 a); fb = le_val (take 4 b) in if float_lt fa fb then - 1 else if float_lt fb fa then 1 else 0)
      | TYPE_STRING \<Rightarrow> three_way (map (int \<circ> unat) (take (nat col_len) a)) (map (int \<circ> unat) (take (nat col_len) b))
      | TYPE_DATETIME \<Rightarrow> three_way (map (int \<circ> unat) (take (nat col_len) a)) (map (int \<circ> unat) (take (nat col_len) b))
      | TYPE_BIGINT \<Rightarrow> three_way (get_int (take 8 a)) (get_int (take 8 b)))"

text \<open>
  Two keys are compared column by column. The lists of types and of lengths have the same length
  (\<open>ix_hdr_ok\<close> below); the source does not define the comparison when lengths are missing.
\<close>

fun ix_compare :: "byte list \<Rightarrow> byte list \<Rightarrow> ColType list \<Rightarrow> int list \<Rightarrow> int" where
  "ix_compare a b [] lens = 0"
| "ix_compare a b (t # ts) [] = 0"
| "ix_compare a b (t # ts) (l # lens) =
     (let res = ix_compare_col a b t l in if res \<noteq> 0 then res else ix_compare (drop (nat l) a) (drop (nat l) b) ts lens)"

abbreviation key_compare :: "IxFileHdr \<Rightarrow> byte list \<Rightarrow> byte list \<Rightarrow> int" where
  "key_compare h a b \<equiv> ix_compare a b (col_types h) (col_lens h)"

section \<open>Nodes\<close>

definition PARENT_OFF :: nat where "PARENT_OFF = 4"
definition NUM_KEY_OFF :: nat where "NUM_KEY_OFF = 8"
definition IS_LEAF_OFF :: nat where "IS_LEAF_OFF = 12"
definition PREV_LEAF_OFF :: nat where "PREV_LEAF_OFF = 16"
definition NEXT_LEAF_OFF :: nat where "NEXT_LEAF_OFF = 20"
definition IX_PAGE_HDR_SIZE :: nat where "IX_PAGE_HDR_SIZE = 24"

lemmas ix_offs = PARENT_OFF_def NUM_KEY_OFF_def IS_LEAF_OFF_def PREV_LEAF_OFF_def NEXT_LEAF_OFF_def IX_PAGE_HDR_SIZE_def

definition get_size :: "byte list \<Rightarrow> int" where "get_size d = int_at d NUM_KEY_OFF"
definition set_size :: "int \<Rightarrow> byte list \<Rightarrow> byte list" where "set_size n d = write_at NUM_KEY_OFF (put_int 4 n) d"
definition get_max_size :: "IxFileHdr \<Rightarrow> int" where "get_max_size h = btree_order h + 1"
definition get_min_size :: "IxFileHdr \<Rightarrow> int" where "get_min_size h = get_max_size h div 2"
definition get_next_leaf :: "byte list \<Rightarrow> int" where "get_next_leaf d = int_at d NEXT_LEAF_OFF"
definition get_prev_leaf :: "byte list \<Rightarrow> int" where "get_prev_leaf d = int_at d PREV_LEAF_OFF"
definition get_parent_page_no :: "byte list \<Rightarrow> int" where "get_parent_page_no d = int_at d PARENT_OFF"
definition is_leaf_page :: "byte list \<Rightarrow> bool" where "is_leaf_page d \<longleftrightarrow> d ! IS_LEAF_OFF \<noteq> 0"
definition is_root_page :: "byte list \<Rightarrow> bool" where "is_root_page d \<longleftrightarrow> get_parent_page_no d = INVALID_PAGE_ID"
definition set_next_leaf :: "int \<Rightarrow> byte list \<Rightarrow> byte list" where "set_next_leaf p d = write_at NEXT_LEAF_OFF (put_int 4 p) d"
definition set_prev_leaf :: "int \<Rightarrow> byte list \<Rightarrow> byte list" where "set_prev_leaf p d = write_at PREV_LEAF_OFF (put_int 4 p) d"
definition set_parent_page_no :: "int \<Rightarrow> byte list \<Rightarrow> byte list" where "set_parent_page_no p d = write_at PARENT_OFF (put_int 4 p) d"
definition set_is_leaf :: "bool \<Rightarrow> byte list \<Rightarrow> byte list" where "set_is_leaf b d = write_at IS_LEAF_OFF [if b then 1 else 0] d"

definition key_len :: "IxFileHdr \<Rightarrow> nat" where "key_len h = nat (ix_col_tot_len h)"
definition key_off :: "IxFileHdr \<Rightarrow> nat \<Rightarrow> nat" where "key_off h i = IX_PAGE_HDR_SIZE + i * key_len h"
definition rid_off :: "IxFileHdr \<Rightarrow> nat \<Rightarrow> nat" where "rid_off h i = IX_PAGE_HDR_SIZE + nat (keys_size h) + i * 8"

definition get_key :: "IxFileHdr \<Rightarrow> byte list \<Rightarrow> nat \<Rightarrow> byte list" where
  "get_key h d i = read_at (key_off h i) (key_len h) d"

definition get_rid :: "IxFileHdr \<Rightarrow> byte list \<Rightarrow> nat \<Rightarrow> rid" where
  "get_rid h d i = read_rid (rid_off h i) d"

definition set_key :: "IxFileHdr \<Rightarrow> nat \<Rightarrow> byte list \<Rightarrow> byte list \<Rightarrow> byte list" where
  "set_key h i key d = write_at (key_off h i) (take (key_len h) key) d"

definition set_rid :: "IxFileHdr \<Rightarrow> nat \<Rightarrow> rid \<Rightarrow> byte list \<Rightarrow> byte list" where
  "set_rid h i r d = write_at (rid_off h i) (rid_bytes r) d"

definition value_at :: "IxFileHdr \<Rightarrow> byte list \<Rightarrow> nat \<Rightarrow> int" where
  "value_at h d i = rid_page_no (get_rid h d i)"

section \<open>Searching a node\<close>

definition binary_search :: bool where "binary_search = False"

text \<open>The loops: \<open>todo\<close> keys are still to be looked at.\<close>

fun lower_loop :: "IxFileHdr \<Rightarrow> byte list \<Rightarrow> byte list \<Rightarrow> nat \<Rightarrow> nat \<Rightarrow> nat" where
  "lower_loop h d target i 0 = i"
| "lower_loop h d target i (Suc todo) =
     (if key_compare h target (get_key h d i) \<le> 0 then i else lower_loop h d target (Suc i) todo)"

fun upper_loop :: "IxFileHdr \<Rightarrow> byte list \<Rightarrow> byte list \<Rightarrow> nat \<Rightarrow> nat \<Rightarrow> nat" where
  "upper_loop h d target i 0 = i"
| "upper_loop h d target i (Suc todo) =
     (if key_compare h target (get_key h d i) < 0 then i else upper_loop h d target (Suc i) todo)"

function lower_binary :: "IxFileHdr \<Rightarrow> byte list \<Rightarrow> byte list \<Rightarrow> nat \<Rightarrow> nat \<Rightarrow> nat" where
  "lower_binary h d target left right =
     (if left < right then
        let mid = left + (right - left) div 2 in
        if key_compare h (get_key h d mid) target < 0 then lower_binary h d target (mid + 1) right
        else lower_binary h d target left mid
      else left)"
  by auto
termination by (relation "measure (\<lambda>(h, d, t, l, r). r - l)") auto

function upper_binary :: "IxFileHdr \<Rightarrow> byte list \<Rightarrow> byte list \<Rightarrow> nat \<Rightarrow> nat \<Rightarrow> nat" where
  "upper_binary h d target left right =
     (if left < right then
        let mid = left + (right - left) div 2 in
        if key_compare h (get_key h d mid) target \<le> 0 then upper_binary h d target (mid + 1) right
        else upper_binary h d target left mid
      else left)"
  by auto
termination by (relation "measure (\<lambda>(h, d, t, l, r). r - l)") auto

declare lower_binary.simps [simp del] upper_binary.simps [simp del]

definition node_lower_bound :: "IxFileHdr \<Rightarrow> byte list \<Rightarrow> byte list \<Rightarrow> nat" where
  "node_lower_bound h d target =
     (if binary_search then lower_binary h d target 0 (nat (get_size d))
      else lower_loop h d target 0 (nat (get_size d)))"

definition node_upper_bound :: "IxFileHdr \<Rightarrow> byte list \<Rightarrow> byte list \<Rightarrow> nat" where
  "node_upper_bound h d target =
     (if binary_search then upper_binary h d target 1 (nat (get_size d))
      else upper_loop h d target 1 (nat (get_size d - 1)))"

definition leaf_lookup :: "IxFileHdr \<Rightarrow> byte list \<Rightarrow> byte list \<Rightarrow> rid option" where
  "leaf_lookup h d key =
     (let i = node_lower_bound h d key in
      if int i = get_size d \<or> get_size d = 0 then None
      else if key_compare h (get_key h d i) key = 0 then Some (get_rid h d i) else None)"

definition internal_lookup :: "IxFileHdr \<Rightarrow> byte list \<Rightarrow> byte list \<Rightarrow> int" where
  "internal_lookup h d key = value_at h d (node_upper_bound h d key - 1)"

section \<open>Changing a node\<close>

text \<open>\<open>memmove\<close> within the page.\<close>

definition move_bytes :: "nat \<Rightarrow> nat \<Rightarrow> nat \<Rightarrow> byte list \<Rightarrow> byte list" where
  "move_bytes dst src n d = write_at dst (read_at src n d) d"

definition insert_pairs :: "IxFileHdr \<Rightarrow> int \<Rightarrow> byte list \<Rightarrow> rid list \<Rightarrow> byte list \<Rightarrow> rmdb_error + byte list" where
  "insert_pairs h pos keys rids d =
     (let old_size = get_size d; n = length rids; p = nat pos; num = nat (old_size - pos) in
      if pos < 0 \<or> pos > old_size then Inl (RMDBError ''insert_pairs pos wrong'')
      else if length d < rid_off h (p + n + num) \<or> length d < key_off h (p + n + num) \<or> length keys < n * key_len h
      then Inl (UndefinedBehaviour ''insert_pairs'')
      else let d1 = move_bytes (key_off h (p + n)) (key_off h p) (num * key_len h) d;
               d2 = write_at (key_off h p) (take (n * key_len h) keys) d1;
               d3 = move_bytes (rid_off h (p + n)) (rid_off h p) (num * 8) d2;
               d4 = write_at (rid_off h p) (concat (map rid_bytes rids)) d3
           in Inr (set_size (get_size d4 + int n) d4))"

definition insert_pair :: "IxFileHdr \<Rightarrow> int \<Rightarrow> byte list \<Rightarrow> rid \<Rightarrow> byte list \<Rightarrow> rmdb_error + byte list" where
  "insert_pair h pos key r = insert_pairs h pos key [r]"

text \<open>\<open>insert\<close> returns the number of entries.\<close>

definition node_insert :: "IxFileHdr \<Rightarrow> byte list \<Rightarrow> rid \<Rightarrow> byte list \<Rightarrow> rmdb_error + int \<times> byte list" where
  "node_insert h key r d =
     (let i = node_lower_bound h d key; old_size = get_size d in
      if get_size d \<noteq> 0 \<and> key_compare h (get_key h d i) key = 0 then Inr (old_size, d)
      else ebind (insert_pair h (int i) key r d) (\<lambda>d'. Inr (old_size + 1, d')))"

definition erase_pair :: "IxFileHdr \<Rightarrow> int \<Rightarrow> byte list \<Rightarrow> rmdb_error + byte list" where
  "erase_pair h pos d =
     (let old_size = get_size d; num = nat (old_size - 1 - pos); p = nat pos in
      if pos < 0 \<or> pos \<ge> old_size then Inl (RMDBError ''erase_pair pos wrong!'')
      else let d1 = move_bytes (key_off h p) (key_off h p + key_len h) (num * key_len h) d;
               d2 = move_bytes (rid_off h p) (rid_off h p + 8) (num * 8) d1
           in Inr (set_size (old_size - 1) d2))"

text \<open>The message of \<open>remove\<close> in the bytes of its UTF-8 text, which is partly Chinese.\<close>

definition remove_message :: string where
  "remove_message = ''remove '' @
     map char_of [0xE4, 0xB8, 0xAD, 0xE8, 0xBE, 0x93, 0xE5, 0x85, 0xA5, 0xE9, 0x94, 0x99, 0xE8, 0xAF, 0xAF :: nat] @
     ''pos'' @ map char_of [0xEF, 0xBC, 0x81, 10 :: nat]"

definition node_remove :: "IxFileHdr \<Rightarrow> byte list \<Rightarrow> byte list \<Rightarrow> rmdb_error + int \<times> byte list" where
  "node_remove h key d =
     (let pos = node_lower_bound h d key; old_size = get_size d in
      if int pos \<ge> old_size then Inl (RMDBError remove_message)
      else if key_compare h (get_key h d pos) key \<noteq> 0 then Inr (- 1, d)
      else ebind (erase_pair h (int pos) d) (\<lambda>d'. Inr (old_size - 1, d')))"

definition remove_and_return_only_child :: "IxFileHdr \<Rightarrow> byte list \<Rightarrow> rmdb_error + int \<times> byte list" where
  "remove_and_return_only_child h d =
     (if get_size d \<noteq> 1 then Inl (AssertionFailure ''get_size() == 1'')
      else let child = value_at h d 0 in
        ebind (erase_pair h 0 d) (\<lambda>d'.
          if get_size d' \<noteq> 0 then Inl (AssertionFailure ''get_size() == 0'') else Inr (child, d')))"

definition find_child :: "IxFileHdr \<Rightarrow> byte list \<Rightarrow> int \<Rightarrow> rmdb_error + nat" where
  "find_child h d page_no =
     (case find (\<lambda>i. value_at h d i = page_no) [0..<nat (get_size d)] of
        None \<Rightarrow> Inl (AssertionFailure ''rid_idx < page_hdr->num_key'')
      | Some i \<Rightarrow> Inr i)"

section \<open>Arrays in a page\<close>

text \<open>The \<open>n\<close> elements of \<open>w\<close> bytes from an offset on.\<close>

definition slots :: "nat \<Rightarrow> nat \<Rightarrow> nat \<Rightarrow> byte list \<Rightarrow> byte list list" where
  "slots off w n d = map (\<lambda>i. read_at (off + i * w) w d) [0..<n]"

lemma length_slots [simp]: "length (slots off w n d) = n"
  by (simp add: slots_def)

lemma nth_slots [simp]: "i < n \<Longrightarrow> slots off w n d ! i = read_at (off + i * w) w d"
  by (simp add: slots_def)

lemma slot_below: "i < n \<Longrightarrow> i * w + w \<le> n * (w :: nat)"
  using mult_le_mono1 [of "Suc i" n w] by simp

lemma length_move_bytes: "src + n \<le> length d \<Longrightarrow> dst + n \<le> length d \<Longrightarrow> length (move_bytes dst src n d) = length d"
  by (simp add: move_bytes_def length_write_at length_read_at)

lemma read_at_read_at: "k + m \<le> n \<Longrightarrow> read_at k m (read_at off n d) = read_at (off + k) m d"
proof -
  assume "k + m \<le> n"
  then have "min m (n - k) = m" by simp
  then show ?thesis by (simp add: read_at_def drop_take add.commute)
qed

lemma slots_elsewhere:
  assumes "off' + length bs \<le> length d" and "off + n * w \<le> length d" and "off + n * w \<le> off' \<or> off' + length bs \<le> off"
  shows "slots off w n (write_at off' bs d) = slots off w n d"
proof (rule nth_equalityI)
  fix i assume "i < length (slots off w n (write_at off' bs d))"
  then have i: "i < n" by simp
  have "read_at (off + i * w) w (write_at off' bs d) = read_at (off + i * w) w d"
    by (rule read_write_disj) (use assms slot_below [OF i, of w] in auto)
  with i show "slots off w n (write_at off' bs d) ! i = slots off w n d ! i" by simp
qed simp

lemma move_elsewhere:
  assumes "src + m \<le> length d" and "dst + m \<le> length d" and "off + n * w \<le> length d" and "off + n * w \<le> dst \<or> dst + m \<le> off"
  shows "slots off w n (move_bytes dst src m d) = slots off w n d"
  unfolding move_bytes_def by (rule slots_elsewhere) (use assms in \<open>simp_all add: length_read_at\<close>)

text \<open>Making room for new elements and writing them.\<close>

lemma slots_insert:
  assumes fits: "off + (n + m) * w \<le> length d" and p: "p \<le> n" and bs: "length bs = m * w"
  shows "slots off w (n + m) (write_at (off + p * w) bs (move_bytes (off + (p + m) * w) (off + p * w) ((n - p) * w) d)) =
    take p (slots off w n d) @ slots 0 w m bs @ drop p (slots off w n d)"
proof (rule nth_equalityI)
  let ?d1 = "move_bytes (off + (p + m) * w) (off + p * w) ((n - p) * w) d" and ?S = "slots off w n d"
  have np: "(n - p) * w + p * w = n * w" using p by (simp flip: add_mult_distrib)
  have l1: "length ?d1 = length d" by (rule length_move_bytes) (use fits np in \<open>simp_all add: algebra_simps\<close>)
  have w2: "off + p * w + length bs \<le> length ?d1" using fits np bs l1 by (simp add: algebra_simps)
  show "length (slots off w (n + m) (write_at (off + p * w) bs ?d1)) = length (take p ?S @ slots 0 w m bs @ drop p ?S)" using p by simp
  fix i assume "i < length (slots off w (n + m) (write_at (off + p * w) bs ?d1))"
  then have i: "i < n + m" by simp
  note iw = slot_below [OF i, of w]
  have rl: "length (read_at (off + p * w) ((n - p) * w) d) = (n - p) * w" using fits np by (intro length_read_at) (simp add: algebra_simps)
  have wl: "off + (p + m) * w + (n - p) * w \<le> length d" using fits np by (simp add: algebra_simps)
  consider "i < p" | "p \<le> i" "i < p + m" | "p + m \<le> i" by linarith
  then have "read_at (off + i * w) w (write_at (off + p * w) bs ?d1) =
    (if i < p then read_at (off + i * w) w d else if i < p + m then read_at ((i - p) * w) w bs else read_at (off + (i - m) * w) w d)"
  proof cases
    case 1
    have "read_at (off + i * w) w (write_at (off + p * w) bs ?d1) = read_at (off + i * w) w ?d1"
      by (rule read_write_disj) (use w2 iw l1 fits slot_below [OF 1, of w] in auto)
    also have "\<dots> = read_at (off + i * w) w d"
      unfolding move_bytes_def by (rule read_write_disj) (use rl wl iw fits slot_below [OF 1, of w] in \<open>auto simp: algebra_simps\<close>)
    finally show ?thesis using 1 by simp
  next
    case 2
    have e: "i * w = p * w + (i - p) * w" using 2 by (simp flip: add_mult_distrib)
    have "read_at (off + p * w + (i - p) * w) w (write_at (off + p * w) bs ?d1) = read_at ((i - p) * w) w bs"
      by (rule read_write_sub) (use w2 bs slot_below [of "i - p" m w] 2 in auto)
    then show ?thesis using 2 e by (simp add: add.assoc)
  next
    case 3
    have e: "i * w = (p + m) * w + (i - p - m) * w" "(i - m) * w = p * w + (i - p - m) * w" using 3 by (simp_all flip: add_mult_distrib)
    have pm: "p * w + m * w \<le> i * w" using mult_le_mono1 [OF 3, of w] by (simp add: add_mult_distrib)
    have "read_at (off + i * w) w (write_at (off + p * w) bs ?d1) = read_at (off + i * w) w ?d1"
      by (rule read_write_disj) (use w2 iw l1 fits pm bs in linarith)+
    also have "\<dots> = read_at (off + (p + m) * w + (i - p - m) * w) w ?d1" using e(1) by (simp add: add.assoc)
    also have "\<dots> = read_at ((i - p - m) * w) w (read_at (off + p * w) ((n - p) * w) d)"
      unfolding move_bytes_def by (rule read_write_sub) (use rl wl slot_below [of "i - p - m" "n - p" w] 3 i in auto)
    also have "\<dots> = read_at (off + p * w + (i - p - m) * w) w d"
      by (rule read_at_read_at) (use slot_below [of "i - p - m" "n - p" w] 3 i in simp)
    also have "\<dots> = read_at (off + (i - m) * w) w d" using e(2) by (simp add: add.assoc)
    finally show ?thesis using 3 by simp
  qed
  then show "slots off w (n + m) (write_at (off + p * w) bs ?d1) ! i = (take p ?S @ slots 0 w m bs @ drop p ?S) ! i"
    using i p by (auto simp: nth_append min_def)
qed

lemma slots_erase:
  assumes fits: "off + n * w \<le> length d" and p: "p < n"
  shows "slots off w (n - 1) (move_bytes (off + p * w) (off + p * w + w) ((n - 1 - p) * w) d) =
    take p (slots off w n d) @ drop (Suc p) (slots off w n d)"
proof (rule nth_equalityI)
  let ?d1 = "move_bytes (off + p * w) (off + p * w + w) ((n - 1 - p) * w) d" and ?S = "slots off w n d"
  show "length (slots off w (n - 1) ?d1) = length (take p ?S @ drop (Suc p) ?S)" using p by simp
  fix i assume "i < length (slots off w (n - 1) ?d1)"
  then have i: "i < n - 1" "i < n" by simp_all
  have "n - 1 - p + Suc p = n" using p by simp
  then have np: "(n - 1 - p) * w + (p * w + w) = n * w" by (metis add_mult_distrib mult_Suc add.commute)
  have rl: "length (read_at (off + p * w + w) ((n - 1 - p) * w) d) = (n - 1 - p) * w" using fits np by (intro length_read_at) simp
  have wl: "off + p * w + (n - 1 - p) * w \<le> length d" using fits np by simp
  have "read_at (off + i * w) w ?d1 = (if i < p then read_at (off + i * w) w d else read_at (off + Suc i * w) w d)"
  proof (cases "i < p")
    case True
    have "read_at (off + i * w) w ?d1 = read_at (off + i * w) w d"
      unfolding move_bytes_def by (rule read_write_disj) (use rl wl slot_below [OF i(2), of w] fits slot_below [OF True, of w] in auto)
    with True show ?thesis by simp
  next
    case False
    have e: "i * w = p * w + (i - p) * w" using False by (simp flip: add_mult_distrib)
    have "read_at (off + p * w + (i - p) * w) w ?d1 = read_at ((i - p) * w) w (read_at (off + p * w + w) ((n - 1 - p) * w) d)"
      unfolding move_bytes_def by (rule read_write_sub) (use rl wl slot_below [of "i - p" "n - 1 - p" w] False i in auto)
    also have "\<dots> = read_at (off + p * w + w + (i - p) * w) w d"
      by (rule read_at_read_at) (use slot_below [of "i - p" "n - 1 - p" w] False i in simp)
    finally show ?thesis using False e by (simp add: ac_simps)
  qed
  then show "slots off w (n - 1) ?d1 ! i = (take p ?S @ drop (Suc p) ?S) ! i"
    using i p by (simp add: nth_append min_def)
qed

section \<open>The entries of a node\<close>

text \<open>
  What the index manager sets up: the keys have the length of their columns, and the two arrays
  have room for one entry more than the order, next to each other.
\<close>

definition capacity :: "IxFileHdr \<Rightarrow> nat" where
  "capacity h = nat (get_max_size h)"

fun col_width :: "ColType \<Rightarrow> int \<Rightarrow> bool" where
  "col_width TYPE_INT l \<longleftrightarrow> 4 \<le> l"
| "col_width TYPE_FLOAT l \<longleftrightarrow> 4 \<le> l"
| "col_width TYPE_BIGINT l \<longleftrightarrow> 8 \<le> l"
| "col_width _ l \<longleftrightarrow> 0 \<le> l"

definition ix_hdr_ok :: "IxFileHdr \<Rightarrow> bool" where
  "ix_hdr_ok h \<longleftrightarrow> 0 < key_len h \<and> list_all2 col_width (col_types h) (col_lens h) \<and> sum_list (col_lens h) = ix_col_tot_len h \<and>
     0 < btree_order h \<and> nat (keys_size h) = capacity h * key_len h \<and> rid_off h (capacity h) \<le> PAGE_SIZE"

definition node_ok :: "IxFileHdr \<Rightarrow> byte list \<Rightarrow> bool" where
  "node_ok h d \<longleftrightarrow> length d = PAGE_SIZE \<and> 0 \<le> get_size d \<and> get_size d \<le> get_max_size h"

definition node_keys :: "IxFileHdr \<Rightarrow> byte list \<Rightarrow> byte list list" where
  "node_keys h d = map (get_key h d) [0..<nat (get_size d)]"

definition node_rids :: "IxFileHdr \<Rightarrow> byte list \<Rightarrow> rid list" where
  "node_rids h d = map (get_rid h d) [0..<nat (get_size d)]"

definition rid_ok :: "rid \<Rightarrow> bool" where
  "rid_ok r \<longleftrightarrow> in_range 4 (rid_page_no r) \<and> in_range 4 (rid_slot_no r)"

definition bytes_rid :: "byte list \<Rightarrow> rid" where
  "bytes_rid bs = Rid (get_int (take 4 bs)) (get_int (read_at 4 4 bs))"

lemma bytes_rid_bytes [simp]: "rid_ok r \<Longrightarrow> bytes_rid (rid_bytes r) = r"
  by (cases r) (simp add: bytes_rid_def rid_bytes_def rid_ok_def read_at_def)

lemma read_rid_slot: "read_rid off d = bytes_rid (read_at off 8 d)"
proof -
  have "take 4 (read_at off 8 d) = read_at off 4 d" by (simp add: read_at_def)
  moreover have "read_at 4 4 (read_at off 8 d) = read_at (off + 4) 4 d" by (rule read_at_read_at) simp
  ultimately show ?thesis by (simp add: read_rid_def bytes_rid_def)
qed

lemma node_lists:
  "node_keys h d = slots IX_PAGE_HDR_SIZE (key_len h) (nat (get_size d)) d"
  "node_rids h d = map bytes_rid (slots (rid_off h 0) 8 (nat (get_size d)) d)"
  by (simp_all add: node_keys_def node_rids_def slots_def get_key_def get_rid_def key_off_def rid_off_def read_rid_slot)

lemma length_node_lists [simp]: "length (node_keys h d) = nat (get_size d)" "length (node_rids h d) = nat (get_size d)"
  by (simp_all add: node_keys_def node_rids_def)

lemma nth_node_lists [simp]:
  "i < nat (get_size d) \<Longrightarrow> node_keys h d ! i = get_key h d i" "i < nat (get_size d) \<Longrightarrow> node_rids h d ! i = get_rid h d i"
  by (simp_all add: node_keys_def node_rids_def)

lemma key_offs: "key_off h i = IX_PAGE_HDR_SIZE + i * key_len h" "rid_off h i = rid_off h 0 + i * 8"
  by (simp_all add: key_off_def rid_off_def)

lemma ix_hdr_room:
  assumes "ix_hdr_ok h" and "n \<le> capacity h"
  shows "key_off h n \<le> rid_off h 0" "rid_off h n \<le> PAGE_SIZE" "rid_off h 0 \<le> PAGE_SIZE" "IX_PAGE_HDR_SIZE \<le> rid_off h 0"
proof -
  have "n * key_len h \<le> capacity h * key_len h" using assms(2) by simp
  then show "key_off h n \<le> rid_off h 0" using assms(1) by (simp add: key_off_def rid_off_def ix_hdr_ok_def)
  show "rid_off h n \<le> PAGE_SIZE" using assms by (simp add: ix_hdr_ok_def rid_off_def)
  then show "rid_off h 0 \<le> PAGE_SIZE" "IX_PAGE_HDR_SIZE \<le> rid_off h 0" by (simp_all add: rid_off_def)
qed

text \<open>Changes of the header fields leave the arrays alone.\<close>

lemma get_size_set [simp]: "length d = PAGE_SIZE \<Longrightarrow> in_range 4 n \<Longrightarrow> get_size (set_size n d) = n"
  by (simp add: get_size_def set_size_def int_at_def read_write_same NUM_KEY_OFF_def PAGE_SIZE_def)

lemma length_set_size [simp]: "length d = PAGE_SIZE \<Longrightarrow> length (set_size n d) = PAGE_SIZE"
  by (simp add: set_size_def length_write_at NUM_KEY_OFF_def PAGE_SIZE_def)

lemma slots_set_size: "length d = PAGE_SIZE \<Longrightarrow> off + n * w \<le> PAGE_SIZE \<Longrightarrow> IX_PAGE_HDR_SIZE \<le> off \<Longrightarrow>
   slots off w n (set_size k d) = slots off w n d"
  unfolding set_size_def by (rule slots_elsewhere) (auto simp: ix_offs PAGE_SIZE_def)

lemma get_size_above:
  "length d = PAGE_SIZE \<Longrightarrow> IX_PAGE_HDR_SIZE \<le> off \<Longrightarrow> off + length bs \<le> PAGE_SIZE \<Longrightarrow> get_size (write_at off bs d) = get_size d"
  unfolding get_size_def int_at_def by (rule arg_cong [where f = get_int], rule read_write_disj) (auto simp: ix_offs)

lemma slots_concat: "\<forall>x \<in> set xs. length x = w \<Longrightarrow> slots 0 w (length xs) (concat xs) = xs"
proof (induction xs)
  case (Cons x xs)
  have "slots 0 w (length (x # xs)) (concat (x # xs)) =
      read_at 0 w (x @ concat xs) # map (\<lambda>i. read_at (w + i * w) w (x @ concat xs)) [0..<length xs]"
    by (simp add: slots_def upt_conv_Cons map_Suc_upt [symmetric] del: upt_Suc)
  also have "\<dots> = x # slots 0 w (length xs) (concat xs)"
    using Cons.prems by (simp add: slots_def read_at_skip read_at_first)
  finally show ?case using Cons by simp
qed (simp add: slots_def)

lemma length_rids_bytes [simp]: "length (concat (map rid_bytes rs)) = length rs * 8"
  by (induction rs) simp_all

lemma rids_slots: "\<forall>r \<in> set rs. rid_ok r \<Longrightarrow> map bytes_rid (slots 0 8 (length rs) (concat (map rid_bytes rs))) = rs"
  using slots_concat [of "map rid_bytes rs" 8] by (simp add: map_idI)

text \<open>The header fields other than the size.\<close>

definition same_header :: "byte list \<Rightarrow> byte list \<Rightarrow> bool" where
  "same_header d d' \<longleftrightarrow> (\<forall>off n. off + n \<le> IX_PAGE_HDR_SIZE \<and> (off + n \<le> NUM_KEY_OFF \<or> IS_LEAF_OFF \<le> off) \<longrightarrow> read_at off n d' = read_at off n d)"

lemma same_header_above:
  "length d = PAGE_SIZE \<Longrightarrow> IX_PAGE_HDR_SIZE \<le> off \<Longrightarrow> off + length bs \<le> PAGE_SIZE \<Longrightarrow> same_header e d \<Longrightarrow> same_header e (write_at off bs d)"
  by (auto simp: same_header_def intro!: trans [OF read_write_disj])

lemma same_header_size: "length d = PAGE_SIZE \<Longrightarrow> same_header e d \<Longrightarrow> same_header e (set_size k d)"
  unfolding same_header_def set_size_def
  by (intro allI impI, rule trans [OF read_write_disj]) (auto simp: ix_offs PAGE_SIZE_def)

definition hdr_eq :: "byte list \<Rightarrow> byte list \<Rightarrow> bool" where
  "hdr_eq e d \<longleftrightarrow> get_size d = get_size e \<and> same_header e d"

lemma hdr_eq_refl [simp]: "hdr_eq d d"
  by (simp add: hdr_eq_def same_header_def)

lemma hdr_eq_above:
  "length d = PAGE_SIZE \<Longrightarrow> IX_PAGE_HDR_SIZE \<le> off \<Longrightarrow> off + length bs \<le> PAGE_SIZE \<Longrightarrow> hdr_eq e d \<Longrightarrow> hdr_eq e (write_at off bs d)"
  by (simp add: hdr_eq_def get_size_above same_header_above)

lemma small_capacity: "ix_hdr_ok h \<Longrightarrow> n \<le> capacity h \<Longrightarrow> in_range 4 (int n)"
  by (auto simp: ix_hdr_ok_def rid_off_def in_range_def PAGE_SIZE_def)

lemma insert_pairs_effect:
  assumes h: "ix_hdr_ok h" and d: "node_ok h d" and p: "p \<le> nat (get_size d)" and room: "nat (get_size d) + length rs \<le> capacity h"
    and ks: "length ks = length rs * key_len h" and rs: "\<forall>r \<in> set rs. rid_ok r"
  obtains d' where "insert_pairs h (int p) ks rs d = Inr d'" "node_ok h d'" "get_size d' = get_size d + int (length rs)"
    "node_keys h d' = take p (node_keys h d) @ slots 0 (key_len h) (length rs) ks @ drop p (node_keys h d)"
    "node_rids h d' = take p (node_rids h d) @ rs @ drop p (node_rids h d)" "same_header d d'"
proof -
  let ?n = "nat (get_size d)" and ?m = "length rs" and ?w = "key_len h" and ?K = IX_PAGE_HDR_SIZE and ?R = "rid_off h 0"
  have ld: "length d = PAGE_SIZE" and sz: "0 \<le> get_size d" "get_size d = int ?n" using d by (simp_all add: node_ok_def)
  note rm = ix_hdr_room [OF h room]
  have num: "nat (get_size d - int p) = ?n - p" "nat (int p) = p" using sz by simp_all
  have np: "(?n - p) * w + p * w = ?n * w" for w using p by (simp flip: add_mult_distrib)
  have fk: "?K + (?n + ?m) * ?w \<le> ?R" "?R + (?n + ?m) * 8 \<le> PAGE_SIZE" "?R \<le> PAGE_SIZE" "?K \<le> ?R"
    using rm by (simp_all add: key_offs(1) key_offs(2) [of h "?n + ?m"])
  define d1 where "d1 = move_bytes (?K + (p + ?m) * ?w) (?K + p * ?w) ((?n - p) * ?w) d"
  define d2 where "d2 = write_at (?K + p * ?w) ks d1"
  define d3 where "d3 = move_bytes (?R + (p + ?m) * 8) (?R + p * 8) ((?n - p) * 8) d2"
  define d4 where "d4 = write_at (?R + p * 8) (concat (map rid_bytes rs)) d3"
  have b1: "?K + (p + ?m) * ?w + (?n - p) * ?w \<le> ?R" "?K + p * ?w + (?n - p) * ?w \<le> ?R" "?K + p * ?w + ?m * ?w \<le> ?R"
    using fk(1) np [of ?w] by (simp_all add: add_mult_distrib)
  have b2: "?R + (p + ?m) * 8 + (?n - p) * 8 \<le> PAGE_SIZE" "?R + p * 8 + (?n - p) * 8 \<le> PAGE_SIZE" "?R + p * 8 + ?m * 8 \<le> PAGE_SIZE"
    using fk(2) np [of 8] by (simp_all add: add_mult_distrib)
  have l1: "length d1 = PAGE_SIZE" unfolding d1_def by (subst length_move_bytes) (use ld b1 fk(3) in simp_all)
  have l2: "length d2 = PAGE_SIZE" unfolding d2_def by (subst length_write_at) (use l1 b1 fk(3) ks in simp_all)
  have l3: "length d3 = PAGE_SIZE" unfolding d3_def by (subst length_move_bytes) (use l2 b2 in simp_all)
  have l4: "length d4 = PAGE_SIZE" unfolding d4_def by (subst length_write_at) (use l3 b2 in simp_all)
  have r1: "length (read_at (?K + p * ?w) ((?n - p) * ?w) d) = (?n - p) * ?w" by (rule length_read_at) (use ld b1 fk(3) in simp)
  have r3: "length (read_at (?R + p * 8) ((?n - p) * 8) d2) = (?n - p) * 8" by (rule length_read_at) (use l2 b2 in simp)
  have s1: "hdr_eq d d1" unfolding d1_def move_bytes_def by (rule hdr_eq_above) (use ld b1 fk r1 in simp_all)
  have s2: "hdr_eq d d2" unfolding d2_def by (rule hdr_eq_above [OF l1 _ _ s1]) (use b1 fk ks in simp_all)
  have s3: "hdr_eq d d3" unfolding d3_def move_bytes_def by (rule hdr_eq_above [OF l2 _ _ s2]) (use b2 fk r3 in simp_all)
  have s4: "hdr_eq d d4" unfolding d4_def by (rule hdr_eq_above [OF l3 _ _ s3]) (use b2 fk in simp_all)
  let ?d = "set_size (get_size d + int ?m) d4"
  have rg: "in_range 4 (get_size d + int ?m)" using small_capacity [OF h room] sz(2) by simp
  have gs: "get_size ?d = get_size d + int ?m" "nat (get_size ?d) = ?n + ?m" using l4 rg sz(1) by (simp_all add: nat_add_distrib)
  have k2: "slots ?K ?w (?n + ?m) d2 = take p (slots ?K ?w ?n d) @ slots 0 ?w ?m ks @ drop p (slots ?K ?w ?n d)"
    unfolding d2_def d1_def by (rule slots_insert) (use fk ld p ks in simp_all)
  have k3: "slots ?K ?w (?n + ?m) d3 = slots ?K ?w (?n + ?m) d2"
    unfolding d3_def by (rule move_elsewhere) (use l2 b2 fk in simp_all)
  have k4: "slots ?K ?w (?n + ?m) d4 = slots ?K ?w (?n + ?m) d3"
    unfolding d4_def by (rule slots_elsewhere) (use l3 b2 fk in simp_all)
  have q1: "slots ?R 8 ?n d1 = slots ?R 8 ?n d" unfolding d1_def by (rule move_elsewhere) (use ld b1 fk in simp_all)
  have q2: "slots ?R 8 ?n d2 = slots ?R 8 ?n d1" unfolding d2_def by (rule slots_elsewhere) (use l1 b1 fk ks in simp_all)
  have q4: "slots ?R 8 (?n + ?m) d4 = take p (slots ?R 8 ?n d2) @ slots 0 8 ?m (concat (map rid_bytes rs)) @ drop p (slots ?R 8 ?n d2)"
    unfolding d4_def d3_def by (rule slots_insert) (use fk l2 p in simp_all)
  have ng: "\<not> (int p < 0 \<or> get_size d < int p)" using sz p by linarith
  have pn: "p + ?m + (?n - p) = ?n + ?m" using p by simp
  have nu: "\<not> (length d < rid_off h (?n + ?m) \<or> length d < key_off h (?n + ?m) \<or> length ks < ?m * ?w)"
    using rm ld ks by simp
  have e: "d1 = move_bytes (key_off h (p + ?m)) (key_off h p) ((?n - p) * ?w) d" "d2 = write_at (key_off h p) (take (?m * ?w) ks) d1"
    "d3 = move_bytes (rid_off h (p + ?m)) (rid_off h p) ((?n - p) * 8) d2" "d4 = write_at (rid_off h p) (concat (map rid_bytes rs)) d3"
    using ks by (simp_all add: d1_def d2_def d3_def d4_def key_off_def rid_off_def)
  have run: "insert_pairs h (int p) ks rs d = Inr ?d"
    unfolding insert_pairs_def Let_def num pn if_not_P [OF ng] if_not_P [OF nu] e [symmetric]
    using s4 by (simp add: hdr_eq_def)
  show thesis
  proof (rule that [OF run _ gs(1)])
    have "0 < get_max_size h" using h by (simp add: ix_hdr_ok_def get_max_size_def)
    then have "get_size d + int ?m \<le> get_max_size h" using room sz(1) unfolding capacity_def by linarith
    then show "node_ok h ?d" using l4 gs(1) sz(1) by (simp add: node_ok_def)
    show "node_keys h ?d = take p (node_keys h d) @ slots 0 (key_len h) (length rs) ks @ drop p (node_keys h d)"
      unfolding node_lists(1) gs(2) using k2 k3 k4 l4 fk by (subst slots_set_size) simp_all
    show "node_rids h ?d = take p (node_rids h d) @ rs @ drop p (node_rids h d)"
      unfolding node_lists(2) gs(2) using q1 q2 q4 l4 fk rids_slots [OF rs] by (subst slots_set_size) (simp_all add: take_map drop_map)
    show "same_header d ?d" using same_header_size [OF l4] s4 by (simp add: hdr_eq_def)
  qed
qed

lemma erase_pair_effect:
  assumes h: "ix_hdr_ok h" and d: "node_ok h d" and p: "p < nat (get_size d)"
  obtains d' where "erase_pair h (int p) d = Inr d'" "node_ok h d'" "get_size d' = get_size d - 1"
    "node_keys h d' = take p (node_keys h d) @ drop (Suc p) (node_keys h d)"
    "node_rids h d' = take p (node_rids h d) @ drop (Suc p) (node_rids h d)" "same_header d d'"
    "p + 1 = nat (get_size d) \<Longrightarrow> get_key h d' p = get_key h d p"
proof -
  let ?n = "nat (get_size d)" and ?w = "key_len h" and ?K = IX_PAGE_HDR_SIZE and ?R = "rid_off h 0"
  have ld: "length d = PAGE_SIZE" and sz: "0 \<le> get_size d" "get_size d \<le> get_max_size h" using d by (simp_all add: node_ok_def)
  have cap: "?n \<le> capacity h" using sz by (simp add: capacity_def nat_mono)
  note rm = ix_hdr_room [OF h cap]
  have num: "nat (get_size d - 1 - int p) = ?n - 1 - p" "nat (int p) = p" using p by simp_all
  have fk: "?K + ?n * ?w \<le> ?R" "?R + ?n * 8 \<le> PAGE_SIZE" "?R \<le> PAGE_SIZE" "?K \<le> ?R"
    using rm by (simp_all add: key_offs(1) key_offs(2) [of h ?n])
  have "?n - 1 - p + Suc p = ?n" using p by simp
  then have np: "(?n - 1 - p) * w + (p * w + w) = ?n * w" for w by (metis add_mult_distrib mult_Suc add.commute)
  define d1 where "d1 = move_bytes (?K + p * ?w) (?K + p * ?w + ?w) ((?n - 1 - p) * ?w) d"
  define d2 where "d2 = move_bytes (?R + p * 8) (?R + p * 8 + 8) ((?n - 1 - p) * 8) d1"
  have b1: "?K + p * ?w + ?w + (?n - 1 - p) * ?w \<le> ?R" "?K + p * ?w + (?n - 1 - p) * ?w \<le> ?R" using fk(1) np [of ?w] by simp_all
  have b2: "?R + p * 8 + 8 + (?n - 1 - p) * 8 \<le> PAGE_SIZE" "?R + p * 8 + (?n - 1 - p) * 8 \<le> PAGE_SIZE" using fk(2) np [of 8] by simp_all
  have l1: "length d1 = PAGE_SIZE" unfolding d1_def by (subst length_move_bytes) (use ld b1 fk(3) in simp_all)
  have l2: "length d2 = PAGE_SIZE" unfolding d2_def by (subst length_move_bytes) (use l1 b2 in simp_all)
  have r1: "length (read_at (?K + p * ?w + ?w) ((?n - 1 - p) * ?w) d) = (?n - 1 - p) * ?w" by (rule length_read_at) (use ld b1 fk(3) in simp)
  have r2: "length (read_at (?R + p * 8 + 8) ((?n - 1 - p) * 8) d1) = (?n - 1 - p) * 8" by (rule length_read_at) (use l1 b2 in simp)
  have s1: "hdr_eq d d1" unfolding d1_def move_bytes_def by (rule hdr_eq_above) (use ld b1 fk r1 in simp_all)
  have s2: "hdr_eq d d2" unfolding d2_def move_bytes_def by (rule hdr_eq_above [OF l1 _ _ s1]) (use b2 fk r2 in simp_all)
  let ?d = "set_size (get_size d - 1) d2"
  have rg: "in_range 4 (get_size d - 1)" using small_capacity [OF h cap] sz(1) by (simp add: in_range_def)
  have gs: "get_size ?d = get_size d - 1" "nat (get_size ?d) = ?n - 1" using l2 rg p by simp_all
  have less: "(?n - 1) * w \<le> ?n * w" for w by simp
  have k1: "slots ?K ?w (?n - 1) d1 = take p (slots ?K ?w ?n d) @ drop (Suc p) (slots ?K ?w ?n d)"
    unfolding d1_def by (rule slots_erase) (use fk ld p in simp_all)
  have k2: "slots ?K ?w m d2 = slots ?K ?w m d1" if "m \<le> ?n" for m
  proof -
    have "?K + m * ?w \<le> ?R" using fk(1) mult_le_mono1 [OF that, of ?w] by linarith
    then show ?thesis unfolding d2_def by (intro move_elsewhere) (use l1 b2 fk in simp_all)
  qed
  have q1: "slots ?R 8 ?n d1 = slots ?R 8 ?n d" unfolding d1_def by (rule move_elsewhere) (use ld b1 fk in simp_all)
  have q2: "slots ?R 8 (?n - 1) d2 = take p (slots ?R 8 ?n d1) @ drop (Suc p) (slots ?R 8 ?n d1)"
    unfolding d2_def by (rule slots_erase) (use fk l1 p in simp_all)
  have ng: "\<not> (int p < 0 \<or> get_size d \<le> int p)" using p by linarith
  have e: "d1 = move_bytes (key_off h p) (key_off h p + ?w) ((?n - 1 - p) * ?w) d"
    "d2 = move_bytes (rid_off h p) (rid_off h p + 8) ((?n - 1 - p) * 8) d1"
    by (simp_all add: d1_def d2_def key_off_def rid_off_def)
  have run: "erase_pair h (int p) d = Inr ?d" unfolding erase_pair_def Let_def num if_not_P [OF ng] e [symmetric] by simp
  show thesis
  proof (rule that [OF run _ gs(1)])
    show "node_ok h ?d" using l2 gs(1) sz p by (simp add: node_ok_def)
    show "node_keys h ?d = take p (node_keys h d) @ drop (Suc p) (node_keys h d)"
      unfolding node_lists(1) gs(2) using k1 k2 [of "?n - 1"] l2 order_trans [OF add_left_mono [OF less] fk(1)] fk by (subst slots_set_size) simp_all
    show "node_rids h ?d = take p (node_rids h d) @ drop (Suc p) (node_rids h d)"
      unfolding node_lists(2) gs(2) using q1 q2 l2 fk less [of 8] by (subst slots_set_size) (simp_all add: take_map drop_map)
    show "same_header d ?d" using same_header_size [OF l2] s2 by (simp add: hdr_eq_def)
    show "get_key h ?d p = get_key h d p" if "p + 1 = ?n"
    proof -
      have "slots ?K ?w ?n ?d = slots ?K ?w ?n d2" by (rule slots_set_size) (use l2 fk in simp_all)
      moreover have "d1 = d" using that by (simp add: d1_def move_bytes_def write_at_def read_at_def)
      ultimately have "slots ?K ?w ?n ?d ! p = slots ?K ?w ?n d ! p" using k2 [of ?n] by simp
      then show ?thesis using p by (simp add: get_key_def key_off_def)
    qed
  qed
qed

section \<open>The order of keys\<close>

text \<open>The value of a key: the values of its columns.\<close>

definition col_key :: "ColType \<Rightarrow> int \<Rightarrow> byte list \<Rightarrow> int list" where
  "col_key t l a =
     (case t of TYPE_INT \<Rightarrow> [get_int (take 4 a)] | TYPE_BIGINT \<Rightarrow> [get_int (take 8 a)]
      | TYPE_FLOAT \<Rightarrow> [float_key (le_val (take 4 a))] | _ \<Rightarrow> map (int \<circ> unat) (take (nat l) a))"

fun key_val :: "ColType list \<Rightarrow> int list \<Rightarrow> byte list \<Rightarrow> int list list" where
  "key_val [] lens a = []"
| "key_val (t # ts) [] a = []"
| "key_val (t # ts) (l # lens) a = col_key t l a # key_val ts lens (drop (nat l) a)"

fun key_no_nan :: "ColType list \<Rightarrow> int list \<Rightarrow> byte list \<Rightarrow> bool" where
  "key_no_nan [] lens a \<longleftrightarrow> True"
| "key_no_nan (t # ts) [] a \<longleftrightarrow> True"
| "key_no_nan (t # ts) (l # lens) a \<longleftrightarrow> (t = TYPE_FLOAT \<longrightarrow> \<not> float_nan (le_val (take 4 a))) \<and> key_no_nan ts lens (drop (nat l) a)"

lemma three_way_eq_0 [simp]: "three_way x y = 0 \<longleftrightarrow> x = y"
  by (auto simp: three_way_def)

lemma three_way_sign [simp]: "three_way x y < 0 \<longleftrightarrow> x < y" "0 < three_way x y \<longleftrightarrow> y < x" "three_way x y \<le> 0 \<longleftrightarrow> x \<le> y"
  by (auto simp: three_way_def)

lemma three_way_Cons: "three_way (x # xs) (y # ys) = (if x = y then three_way xs ys else three_way x y)"
  by (auto simp: three_way_def)

lemma ix_compare_col_val:
  "(t = TYPE_FLOAT \<Longrightarrow> \<not> float_nan (le_val (take 4 a)) \<and> \<not> float_nan (le_val (take 4 b))) \<Longrightarrow>
   ix_compare_col a b t l = three_way (col_key t l a) (col_key t l b)"
  by (cases t) (auto simp: ix_compare_col_def col_key_def three_way_Cons float_lt_def Let_def three_way_def)

lemma ix_compare_val:
  "key_no_nan ts lens a \<Longrightarrow> key_no_nan ts lens b \<Longrightarrow> ix_compare a b ts lens = three_way (key_val ts lens a) (key_val ts lens b)"
proof (induction a b ts lens rule: ix_compare.induct)
  case (3 a b t ts l lens)
  have "ix_compare_col a b t l = three_way (col_key t l a) (col_key t l b)"
    by (rule ix_compare_col_val) (use "3.prems" in simp)
  with 3 show ?case by (simp add: Let_def three_way_Cons)
qed (simp_all add: three_way_def)

text \<open>
  What the searches rely on: a comparison of keys whose sign is the order of their values.
\<close>

locale ordered_keys =
  fixes cmp :: "'k \<Rightarrow> 'k \<Rightarrow> int" and val :: "'k \<Rightarrow> 'o :: linorder" and valid :: "'k \<Rightarrow> bool"
  assumes cmp_val: "valid a \<Longrightarrow> valid b \<Longrightarrow> cmp a b = three_way (val a) (val b)"
begin

lemma cmp_sign:
  assumes "valid a" and "valid b"
  shows "cmp a b = 0 \<longleftrightarrow> val a = val b" "cmp a b < 0 \<longleftrightarrow> val a < val b" "0 < cmp a b \<longleftrightarrow> val b < val a" "cmp a b \<le> 0 \<longleftrightarrow> val a \<le> val b"
  using cmp_val [OF assms] by simp_all

text \<open>The sequential search stops at the number of smaller keys.\<close>

lemma smaller_first:
  assumes "sorted_wrt (<) (map val ks)" and "\<forall>k \<in> set ks. valid k" and "valid t" and "i < length ks"
  shows "val (ks ! i) < val t \<longleftrightarrow> i < length (takeWhile (\<lambda>k. 0 < cmp t k) ks)"
  using assms
proof (induction ks arbitrary: i)
  case (Cons k ks)
  show ?case
  proof (cases "val k < val t")
    case True
    then show ?thesis using Cons cmp_sign(3) [of t k] by (cases i) simp_all
  next
    case False
    have "val k \<le> val ((k # ks) ! i)" using Cons.prems by (cases i) (auto simp: less_imp_le)
    then have "\<not> val ((k # ks) ! i) < val t" using False by simp
    then show ?thesis using False Cons.prems cmp_sign(3) [of t k] by simp
  qed
qed simp

lemma not_larger_first:
  assumes "sorted_wrt (<) (map val ks)" and "\<forall>k \<in> set ks. valid k" and "valid t" and "i < length ks"
  shows "val (ks ! i) \<le> val t \<longleftrightarrow> i < length (takeWhile (\<lambda>k. \<not> cmp t k < 0) ks)"
  using assms
proof (induction ks arbitrary: i)
  case (Cons k ks)
  show ?case
  proof (cases "val k \<le> val t")
    case True
    then have "\<not> cmp t k < 0" using Cons.prems cmp_sign(2) [of t k] by simp
    then show ?thesis using True Cons by (cases i) simp_all
  next
    case False
    have "val k \<le> val ((k # ks) ! i)" using Cons.prems by (cases i) (auto simp: less_imp_le)
    then have "\<not> val ((k # ks) ! i) \<le> val t" using False by simp
    moreover have "cmp t k < 0" using False Cons.prems cmp_sign(2) [of t k] by simp
    ultimately show ?thesis by simp
  qed
qed simp

end

definition key_value :: "IxFileHdr \<Rightarrow> byte list \<Rightarrow> int list list" where
  "key_value h k = key_val (col_types h) (col_lens h) k"

definition valid_key :: "IxFileHdr \<Rightarrow> byte list \<Rightarrow> bool" where
  "valid_key h k \<longleftrightarrow> length k = key_len h \<and> key_no_nan (col_types h) (col_lens h) k"

interpretation ix: ordered_keys "key_compare h" "key_value h" "valid_key h" for h
  by unfold_locales (simp add: valid_key_def key_value_def ix_compare_val)

end
