(* ===== verification/Ix_Map.thy ===== *)
theory Ix_Map
  imports Ix_Node
begin

text \<open>
  A node of the index as an ordered map. The searches of \<open>IxNodeHandle\<close> find the place of a key
  among ascending keys, whichever of the two algorithms is compiled in; looking up, inserting and
  removing a key are the operations of a finite map from the values of keys to record
  identifiers. The header of the index file survives being written and read.
\<close>

section \<open>Lists of entries\<close>

lemma map_of_insert:
  assumes "map_of (zip ks rs) k = None" and "length rs = length ks"
  shows "map_of (zip (take p ks @ [k] @ drop p ks) (take p rs @ [r] @ drop p rs)) = (map_of (zip ks rs))(k \<mapsto> r)"
proof -
  have "zip ks rs = zip (take p ks) (take p rs) @ zip (drop p ks) (drop p rs)"
    using assms(2) by (metis append_take_drop_id take_zip drop_zip)
  then have "map_of (zip ks rs) = map_of (zip (drop p ks) (drop p rs)) ++ map_of (zip (take p ks) (take p rs))"
    by simp
  moreover from this assms(1) have "k \<notin> dom (map_of (zip (take p ks) (take p rs)))" by auto
  ultimately show ?thesis using assms(2) by (simp add: map_add_upd_left)
qed

lemma map_of_delete:
  assumes "distinct ks" and "p < length ks" and "length rs = length ks"
  shows "map_of (zip (take p ks @ drop (Suc p) ks) (take p rs @ drop (Suc p) rs)) = (map_of (zip ks rs))(ks ! p := None)"
proof -
  let ?A = "zip (take p ks) (take p rs)" and ?B = "zip (drop (Suc p) ks) (drop (Suc p) rs)"
  have "zip ks rs = zip (take p ks @ ks ! p # drop (Suc p) ks) (take p rs @ rs ! p # drop (Suc p) rs)"
    using assms by (simp add: id_take_nth_drop [symmetric])
  then have m: "map_of (zip ks rs) = (map_of ?B)(ks ! p \<mapsto> rs ! p) ++ map_of ?A" using assms by simp
  have "distinct (take p ks @ ks ! p # drop (Suc p) ks)" using assms by (simp add: id_take_nth_drop [symmetric])
  then have out: "ks ! p \<notin> set (take p ks)" "ks ! p \<notin> set (drop (Suc p) ks)" by simp_all
  have "ks ! p \<notin> dom (map_of ?A)" "ks ! p \<notin> dom (map_of ?B)"
    using out by (auto dest!: map_of_SomeD set_zip_leftD)
  then have "((map_of ?B)(ks ! p \<mapsto> rs ! p) ++ map_of ?A)(ks ! p := None) = map_of ?B ++ map_of ?A"
    by (intro ext) (auto simp: map_add_def split: option.splits)
  then show ?thesis using m assms by simp
qed

lemma map_of_zip_nth_distinct:
  "distinct ks \<Longrightarrow> p < length ks \<Longrightarrow> length rs = length ks \<Longrightarrow> map_of (zip ks rs) (ks ! p) = Some (rs ! p)"
  by (rule map_of_zip_nth) simp_all

lemma sorted_wrt_take_drop: "sorted_wrt R xs \<Longrightarrow> sorted_wrt R (take p xs @ drop (Suc p) xs)"
proof -
  assume "sorted_wrt R xs"
  then have "sorted_wrt R (take p xs @ drop p xs)" by simp
  moreover have "drop (Suc p) xs = tl (drop p xs)" by (simp add: drop_Suc tl_drop)
  ultimately show ?thesis by (cases "drop p xs") (auto simp: sorted_wrt_append)
qed

context ordered_keys
begin

text \<open>Where a key is, or belongs, among ascending keys.\<close>

definition ascending :: "'k list \<Rightarrow> bool" where
  "ascending ks \<longleftrightarrow> sorted_wrt (<) (map val ks) \<and> (\<forall>k \<in> set ks. valid k)"

definition place :: "'k \<Rightarrow> 'k list \<Rightarrow> nat" where
  "place t ks = length (takeWhile (\<lambda>k. 0 < cmp t k) ks)"

lemma place_le: "place t ks \<le> length ks"
  by (simp add: place_def length_takeWhile_le)

lemma place_less: "ascending ks \<Longrightarrow> valid t \<Longrightarrow> i < length ks \<Longrightarrow> val (ks ! i) < val t \<longleftrightarrow> i < place t ks"
  unfolding place_def ascending_def by (rule smaller_first) simp_all

lemma place_found:
  assumes "ascending ks" and "valid t"
  shows "val t \<in> val ` set ks \<longleftrightarrow> place t ks < length ks \<and> val (ks ! place t ks) = val t"
proof
  assume "val t \<in> val ` set ks"
  then obtain i where i: "i < length ks" "val (ks ! i) = val t" by (force simp: in_set_conv_nth)
  then have "place t ks \<le> i" using place_less [OF assms i(1)] by simp
  moreover have "val (ks ! place t ks) = val t"
  proof (rule ccontr)
    assume ne: "val (ks ! place t ks) \<noteq> val t"
    then have "place t ks < i" using i \<open>place t ks \<le> i\<close> by (cases "place t ks = i") auto
    then have "val (ks ! place t ks) < val t"
      using i assms(1) sorted_wrt_nth_less [of "(<)" "map val ks" "place t ks" i] by (simp add: ascending_def)
    then show False using place_less [OF assms, of "place t ks"] \<open>place t ks < i\<close> i(1) by simp
  qed
  ultimately show "place t ks < length ks \<and> val (ks ! place t ks) = val t" using i by simp
next
  assume "place t ks < length ks \<and> val (ks ! place t ks) = val t"
  then show "val t \<in> val ` set ks" by (metis image_eqI nth_mem)
qed

lemma ascending_insert:
  assumes a: "ascending ks" and t: "valid t" and new: "val t \<notin> val ` set ks"
  shows "ascending (take (place t ks) ks @ [t] @ drop (place t ks) ks)"
proof -
  let ?p = "place t ks"
  have lo: "val x < val t" if "x \<in> set (take ?p ks)" for x
    using that place_less [OF a t] place_le [of t ks] by (auto simp: in_set_conv_nth)
  have hi: "val t < val x" if "x \<in> set (drop ?p ks)" for x
  proof -
    from that obtain i where "i < length ks - ?p" "x = ks ! (?p + i)"
      using place_le [of t ks] by (auto simp: in_set_conv_nth)
    then have i: "?p + i < length ks" "x = ks ! (?p + i)" by simp_all
    then have "\<not> val x < val t" using place_less [OF a t i(1)] by simp
    moreover have "x \<in> set ks" using i by simp
    then have "val x \<noteq> val t" using new by (metis imageI)
    ultimately show ?thesis by simp
  qed
  have "sorted_wrt (<) (map val (take ?p ks @ drop ?p ks))" using a by (simp add: ascending_def)
  then have "sorted_wrt (<) (map val (take ?p ks @ [t] @ drop ?p ks))" using lo hi
    unfolding map_append sorted_wrt_append by auto
  then show ?thesis using a t by (auto simp: ascending_def dest: in_set_takeD in_set_dropD)
qed

lemma ascending_erase: "ascending ks \<Longrightarrow> ascending (take p ks @ drop (Suc p) ks)"
  using sorted_wrt_take_drop [of "(<)" "map val ks" p]
  by (auto simp: ascending_def take_map drop_map dest: in_set_takeD in_set_dropD)

end

section \<open>Searching\<close>

definition node_sorted :: "IxFileHdr \<Rightarrow> byte list \<Rightarrow> bool" where
  "node_sorted h d \<longleftrightarrow> ix.ascending h (node_keys h d)"

definition node_map :: "IxFileHdr \<Rightarrow> byte list \<Rightarrow> int list list \<rightharpoonup> rid" where
  "node_map h d = map_of (zip (map (key_value h) (node_keys h d)) (node_rids h d))"

lemma lower_loop_takeWhile:
  "lower_loop h d t i n = i + length (takeWhile (\<lambda>k. 0 < key_compare h t k) (map (get_key h d) [i..<i + n]))"
  by (induction h d t i n rule: lower_loop.induct) (simp_all add: upt_conv_Cons not_le del: upt_Suc)

lemma upper_loop_takeWhile:
  "upper_loop h d t i n = i + length (takeWhile (\<lambda>k. \<not> key_compare h t k < 0) (map (get_key h d) [i..<i + n]))"
  by (induction h d t i n rule: upper_loop.induct) (simp_all add: upt_conv_Cons del: upt_Suc)

lemma node_lower_bound_place: "node_lower_bound h d t = ix.place h t (node_keys h d)"
  by (simp add: node_lower_bound_def binary_search_def lower_loop_takeWhile ix.place_def node_keys_def)

lemma lower_binary_place:
  assumes "node_sorted h d" and "valid_key h t" and "l \<le> ix.place h t (node_keys h d)" and "ix.place h t (node_keys h d) \<le> r" and "r \<le> nat (get_size d)"
  shows "lower_binary h d t l r = ix.place h t (node_keys h d)"
  using assms
proof (induction h d t l r rule: lower_binary.induct)
  case (1 h d t l r)
  let ?m = "l + (r - l) div 2" and ?p = "ix.place h t (node_keys h d)"
  show ?case
  proof (cases "l < r")
    case True
    then have m: "?m < r" "?m < nat (get_size d)" using "1.prems" by simp_all
    then have "valid_key h (get_key h d ?m)"
      using "1.prems"(1) nth_mem [of ?m "node_keys h d"] by (simp add: node_sorted_def ix.ascending_def)
    then have "key_compare h (get_key h d ?m) t < 0 \<longleftrightarrow> key_value h (get_key h d ?m) < key_value h t"
      using "1.prems"(2) by (rule ix.cmp_sign)
    also have "\<dots> \<longleftrightarrow> ?m < ?p"
      using ix.place_less [of h "node_keys h d" t ?m] "1.prems" m by (simp add: node_sorted_def)
    finally have "key_compare h (get_key h d ?m) t < 0 \<longleftrightarrow> ?m < ?p" .
    then show ?thesis using True "1.IH" [OF True refl] "1.prems" m
      by (subst lower_binary.simps) (simp add: Let_def)
  next
    case False
    then show ?thesis using "1.prems" by (subst lower_binary.simps) simp
  qed
qed


lemma node_key_valid: "node_sorted h d \<Longrightarrow> i < nat (get_size d) \<Longrightarrow> valid_key h (get_key h d i)"
  using nth_mem [of i "node_keys h d"] by (simp add: node_sorted_def ix.ascending_def)

text \<open>The place after the keys that are not larger, the first key apart.\<close>

definition last_not_larger :: "IxFileHdr \<Rightarrow> byte list \<Rightarrow> byte list \<Rightarrow> nat" where
  "last_not_larger h d t = 1 + length (takeWhile (\<lambda>k. \<not> key_compare h t k < 0) (tl (node_keys h d)))"

lemma node_upper_bound_last: "node_upper_bound h d t = last_not_larger h d t"
proof (cases "0 < get_size d")
  case True
  then have "tl (node_keys h d) = map (get_key h d) [1..<1 + nat (get_size d - 1)]"
    by (simp add: node_keys_def map_tl [symmetric] tl_upt nat_diff_distrib)
  then show ?thesis by (simp add: node_upper_bound_def binary_search_def upper_loop_takeWhile last_not_larger_def)
qed (simp add: node_upper_bound_def binary_search_def last_not_larger_def node_keys_def)

lemma last_not_larger_le:
  assumes "node_sorted h d" and "valid_key h t" and "1 \<le> i" and "i < nat (get_size d)"
  shows "key_value h (get_key h d i) \<le> key_value h t \<longleftrightarrow> i < last_not_larger h d t"
proof -
  have "sorted_wrt (<) (map (key_value h) (tl (node_keys h d)))" "\<forall>k \<in> set (tl (node_keys h d)). valid_key h k"
    using assms(1) by (cases "node_keys h d"; simp add: node_sorted_def ix.ascending_def)+
  from ix.not_larger_first [OF this assms(2), of "i - 1"] show ?thesis
    using assms(3,4) by (auto simp: nth_tl last_not_larger_def)
qed

lemma upper_binary_last:
  assumes "node_sorted h d" and "valid_key h t" and "1 \<le> l" and "l \<le> last_not_larger h d t" and "last_not_larger h d t \<le> r" and "r \<le> nat (get_size d)"
  shows "upper_binary h d t l r = last_not_larger h d t"
  using assms
proof (induction h d t l r rule: upper_binary.induct)
  case (1 h d t l r)
  let ?m = "l + (r - l) div 2"
  show ?case
  proof (cases "l < r")
    case True
    then have m: "?m < r" "?m < nat (get_size d)" using "1.prems" by simp_all
    have "key_compare h (get_key h d ?m) t \<le> 0 \<longleftrightarrow> key_value h (get_key h d ?m) \<le> key_value h t"
      by (rule ix.cmp_sign [OF node_key_valid [OF "1.prems"(1) m(2)] "1.prems"(2)])
    also have "\<dots> \<longleftrightarrow> ?m < last_not_larger h d t"
      by (rule last_not_larger_le) (use "1.prems" m in simp_all)
    finally have "key_compare h (get_key h d ?m) t \<le> 0 \<longleftrightarrow> ?m < last_not_larger h d t" .
    then show ?thesis using True "1.IH" [OF True refl] "1.prems" m
      by (subst upper_binary.simps) (simp add: Let_def)
  next
    case False
    then show ?thesis using "1.prems" by (subst upper_binary.simps) simp
  qed
qed

lemma last_not_larger_bound: "1 \<le> last_not_larger h d t" "0 < get_size d \<Longrightarrow> last_not_larger h d t \<le> nat (get_size d)"
  using length_takeWhile_le [of "\<lambda>k. \<not> key_compare h t k < 0" "tl (node_keys h d)"] by (auto simp: last_not_larger_def)

text \<open>
  Property C32. The choice between sequential and binary search, made by a constant of the source,
  does not matter: on a node whose keys ascend, the binary searches compute the results of
  \<open>lower_bound\<close> and \<open>upper_bound\<close> as compiled, so \<open>internal_lookup\<close> follows the last child whose
  key is not larger than the target (the first child when there is none).
\<close>

theorem node_searches_agree:
  assumes "node_sorted h d" and "valid_key h t"
  shows "lower_binary h d t 0 (nat (get_size d)) = node_lower_bound h d t \<and>
    upper_binary h d t 1 (nat (get_size d)) = node_upper_bound h d t \<and>
    (0 < get_size d \<longrightarrow> (\<exists>i. internal_lookup h d t = value_at h d i \<and> i < nat (get_size d) \<and>
       (0 < i \<longrightarrow> key_value h (get_key h d i) \<le> key_value h t) \<and>
       (\<forall>j. i < j \<and> j < nat (get_size d) \<longrightarrow> key_value h t < key_value h (get_key h d j))))"
proof (intro conjI impI)
  show "lower_binary h d t 0 (nat (get_size d)) = node_lower_bound h d t"
    using lower_binary_place [OF assms] ix.place_le [of h t "node_keys h d"] by (simp add: node_lower_bound_place)
  show "upper_binary h d t 1 (nat (get_size d)) = node_upper_bound h d t"
  proof (cases "0 < get_size d")
    case True
    then show ?thesis unfolding node_upper_bound_last
      by (intro upper_binary_last) (use assms last_not_larger_bound in simp_all)
  next
    case False
    then show ?thesis by (subst upper_binary.simps) (simp add: node_upper_bound_def binary_search_def)
  qed
  assume "0 < get_size d"
  then show "\<exists>i. internal_lookup h d t = value_at h d i \<and> i < nat (get_size d) \<and>
       (0 < i \<longrightarrow> key_value h (get_key h d i) \<le> key_value h t) \<and>
       (\<forall>j. i < j \<and> j < nat (get_size d) \<longrightarrow> key_value h t < key_value h (get_key h d j))"
    using last_not_larger_bound(1) [of h d t] last_not_larger_bound(2) [of d h t] last_not_larger_le [OF assms]
    by (intro exI [of _ "last_not_larger h d t - 1"]) (auto simp: internal_lookup_def node_upper_bound_last not_le [symmetric])
qed


section \<open>The node as a map\<close>

lemma dom_node_map: "dom (node_map h d) = key_value h ` set (node_keys h d)"
  by (simp add: node_map_def)

lemma node_map_key:
  "node_sorted h d \<Longrightarrow> i < nat (get_size d) \<Longrightarrow> node_map h d (key_value h (get_key h d i)) = Some (get_rid h d i)"
  using map_of_zip_nth_distinct [of "map (key_value h) (node_keys h d)" i "node_rids h d"]
  by (simp add: node_map_def node_sorted_def ix.ascending_def strict_sorted_iff)

text \<open>Where the searches lead: to the entry of a key that is there, and to no entry otherwise.\<close>

lemma node_place:
  assumes "node_sorted h d" and "valid_key h k" and "0 \<le> get_size d"
  shows "node_map h d (key_value h k) =
    (let i = node_lower_bound h d k in
     if i < nat (get_size d) \<and> key_compare h (get_key h d i) k = 0 then Some (get_rid h d i) else None)"
proof -
  let ?i = "node_lower_bound h d k"
  have c: "key_compare h (get_key h d ?i) k = 0 \<longleftrightarrow> key_value h (get_key h d ?i) = key_value h k" if "?i < nat (get_size d)"
    by (rule ix.cmp_sign [OF node_key_valid [OF assms(1) that] assms(2)])
  have "key_value h k \<in> dom (node_map h d) \<longleftrightarrow> ?i < nat (get_size d) \<and> key_value h (get_key h d ?i) = key_value h k"
    using ix.place_found [of h "node_keys h d" k] assms unfolding dom_node_map node_lower_bound_place node_sorted_def by auto
  then show ?thesis using c node_map_key [OF assms(1), of ?i] by (auto simp: Let_def domIff)
qed

lemma leaf_lookup_map:
  assumes "node_sorted h d" and "valid_key h k" and "0 \<le> get_size d"
  shows "leaf_lookup h d k = node_map h d (key_value h k)"
  using ix.place_le [of h k "node_keys h d"] assms(3)
  unfolding node_place [OF assms] leaf_lookup_def Let_def node_lower_bound_place by auto

text \<open>Where the search for a key ends: behind the last entry exactly if all keys are smaller.\<close>

lemma node_place_end:
  assumes "node_sorted h d" and "valid_key h k"
  shows "(\<forall>v \<in> dom (node_map h d). v < key_value h k) \<longleftrightarrow> \<not> node_lower_bound h d k < nat (get_size d)"
proof -
  have "key_value h (get_key h d i) < key_value h k \<longleftrightarrow> i < node_lower_bound h d k" if "i < nat (get_size d)" for i
    using ix.place_less [of h "node_keys h d" k i] assms that by (simp add: node_sorted_def node_lower_bound_place)
  then show ?thesis unfolding dom_node_map node_keys_def by (auto simp: not_less intro: less_le_trans)
qed

text \<open>
  Inserting a key larger than all compares it with whatever the slot after the last entry holds,
  unless the node is empty. The slot may still hold the bytes of the key, left over from a removed
  entry.
\<close>

definition leftover :: "IxFileHdr \<Rightarrow> byte list \<Rightarrow> byte list \<Rightarrow> bool" where
  "leftover h d k \<longleftrightarrow> get_size d \<noteq> 0 \<and> (\<forall>v \<in> dom (node_map h d). v < key_value h k) \<and>
     key_compare h (get_key h d (nat (get_size d))) k = 0"

lemma node_insert_same:
  assumes s: "node_sorted h d" and k: "valid_key h k" and sz: "0 \<le> get_size d"
  shows "(get_size d \<noteq> 0 \<and> key_compare h (get_key h d (node_lower_bound h d k)) k = 0) \<longleftrightarrow>
    node_map h d (key_value h k) \<noteq> None \<or> leftover h d k"
proof -
  have "node_lower_bound h d k \<le> nat (get_size d)" using ix.place_le [of h k "node_keys h d"] by (simp add: node_lower_bound_place)
  then show ?thesis
    using sz unfolding leftover_def node_place_end [OF s k] node_place [OF s k sz] by (auto simp: Let_def le_less)
qed

lemma node_insert_effect:
  assumes h: "ix_hdr_ok h" and d: "node_ok h d" and s: "node_sorted h d" and k: "valid_key h k" and r: "rid_ok r"
    and new: "node_map h d (key_value h k) = None" and free: "\<not> leftover h d k" and room: "get_size d < get_max_size h"
  obtains d' where "node_insert h k r d = Inr (get_size d + 1, d')" "node_ok h d'" "node_sorted h d'"
    "node_map h d' = (node_map h d)(key_value h k \<mapsto> r)" "same_header d d'" "get_size d' = get_size d + 1"
proof -
  let ?p = "node_lower_bound h d k"
  have sz: "0 \<le> get_size d" using d by (simp add: node_ok_def)
  have p: "?p \<le> nat (get_size d)" using ix.place_le [of h k "node_keys h d"] by (simp add: node_lower_bound_place)
  have room': "nat (get_size d) + length [r] \<le> capacity h" using room sz by (simp add: capacity_def)
  have kl: "length k = key_len h" using k by (simp add: valid_key_def)
  obtain d' where d': "insert_pairs h (int ?p) k [r] d = Inr d'" "node_ok h d'" "get_size d' = get_size d + int (length [r])"
    "node_keys h d' = take ?p (node_keys h d) @ slots 0 (key_len h) (length [r]) k @ drop ?p (node_keys h d)"
    "node_rids h d' = take ?p (node_rids h d) @ [r] @ drop ?p (node_rids h d)" "same_header d d'"
    by (rule insert_pairs_effect [OF h d p room', of k]) (use kl r in simp_all)
  have one: "slots 0 (key_len h) (length [r]) k = [k]" using kl by (simp add: slots_def read_at_def)
  have nd: "\<not> (get_size d \<noteq> 0 \<and> key_compare h (get_key h d ?p) k = 0)"
    using new free node_insert_same [OF s k sz] by simp
  show thesis
  proof (rule that [of d'])
    show "node_insert h k r d = Inr (get_size d + 1, d')"
      unfolding node_insert_def Let_def if_not_P [OF nd] using d'(1) by (simp add: insert_pair_def)
    have "key_value h k \<notin> key_value h ` set (node_keys h d)" using new unfolding dom_node_map [symmetric] by auto
    then show "node_sorted h d'"
      using ix.ascending_insert [of h "node_keys h d" k] s k d'(4) one by (simp add: node_sorted_def node_lower_bound_place)
    show "node_map h d' = (node_map h d)(key_value h k \<mapsto> r)"
      using map_of_insert [OF new [unfolded node_map_def], of ?p r] unfolding node_map_def d'(4,5) one by (simp add: take_map drop_map)
  qed (use d' in simp_all)
qed

lemma node_remove_effect:
  assumes h: "ix_hdr_ok h" and d: "node_ok h d" and s: "node_sorted h d" and k: "valid_key h k"
    and old: "node_map h d (key_value h k) \<noteq> None"
  obtains d' where "node_remove h k d = Inr (get_size d - 1, d')" "node_ok h d'" "node_sorted h d'"
    "node_map h d' = (node_map h d)(key_value h k := None)" "same_header d d'" "get_size d' = get_size d - 1"
    "node_keys h d' = take (node_lower_bound h d k) (node_keys h d) @ drop (Suc (node_lower_bound h d k)) (node_keys h d)"
    "node_lower_bound h d k + 1 = nat (get_size d) \<Longrightarrow> get_key h d' (nat (get_size d')) = get_key h d (node_lower_bound h d k)"
proof -
  let ?p = "node_lower_bound h d k"
  have sz: "0 \<le> get_size d" using d by (simp add: node_ok_def)
  have p: "?p < nat (get_size d)" and c: "key_compare h (get_key h d ?p) k = 0"
    using old node_place [OF s k sz] by (auto simp: Let_def split: if_splits)
  have v: "key_value h (get_key h d ?p) = key_value h k" using ix.cmp_sign(1) [OF node_key_valid [OF s p] k] c by simp
  obtain d' where d': "erase_pair h (int ?p) d = Inr d'" "node_ok h d'" "get_size d' = get_size d - 1"
    "node_keys h d' = take ?p (node_keys h d) @ drop (Suc ?p) (node_keys h d)"
    "node_rids h d' = take ?p (node_rids h d) @ drop (Suc ?p) (node_rids h d)" "same_header d d'"
    "?p + 1 = nat (get_size d) \<Longrightarrow> get_key h d' ?p = get_key h d ?p"
    by (rule erase_pair_effect [OF h d p]) blast
  show thesis
  proof (rule that [of d'])
    show "node_remove h k d = Inr (get_size d - 1, d')"
      using p c d'(1) by (simp add: node_remove_def Let_def)
    show "node_sorted h d'" using ix.ascending_erase s d'(4) by (simp add: node_sorted_def)
    have "distinct (map (key_value h) (node_keys h d))"
      using s by (simp add: node_sorted_def ix.ascending_def strict_sorted_iff)
    from map_of_delete [OF this, of ?p "node_rids h d"] p v
    show "node_map h d' = (node_map h d)(key_value h k := None)"
      unfolding node_map_def d'(4,5) by (simp add: take_map drop_map)
    show "get_key h d' (nat (get_size d')) = get_key h d ?p" if "?p + 1 = nat (get_size d)"
    proof -
      have "nat (get_size d') = ?p" using that d'(3) by linarith
      then show ?thesis using d'(7) that by simp
    qed
  qed (use d' in simp_all)
qed


text \<open>
  Property C30. A leaf with ascending keys is an ordered map from the values of keys to record
  identifiers, up to the slot behind its last entry. \<open>leaf_lookup\<close> finds what the map holds. \<open>insert\<close>
  adds a new key, if the node has room, and changes nothing for a key that is there; it also
  changes nothing for a new key that is larger than all and whose bytes the slot behind the last
  entry happens to hold (\<open>leftover\<close>). \<open>remove\<close> deletes the key, reports -1 for a key that is not
  there, and throws for a key larger than all. The node stays well-formed with ascending keys, and
  the page's other header fields stay.
\<close>

theorem node_is_ordered_map:
  assumes "ix_hdr_ok h" and "node_ok h d" and "node_sorted h d" and "valid_key h k" and "rid_ok r"
  shows "leaf_lookup h d k = node_map h d (key_value h k) \<and>
    (node_map h d (key_value h k) \<noteq> None \<or> leftover h d k \<longrightarrow> node_insert h k r d = Inr (get_size d, d)) \<and>
    (node_map h d (key_value h k) = None \<and> \<not> leftover h d k \<and> get_size d < get_max_size h \<longrightarrow>
       (\<exists>d'. node_insert h k r d = Inr (get_size d + 1, d') \<and> node_ok h d' \<and> node_sorted h d' \<and> same_header d d' \<and>
             node_map h d' = (node_map h d)(key_value h k \<mapsto> r))) \<and>
    (node_map h d (key_value h k) \<noteq> None \<longrightarrow>
       (\<exists>d'. node_remove h k d = Inr (get_size d - 1, d') \<and> node_ok h d' \<and> node_sorted h d' \<and> same_header d d' \<and>
             node_map h d' = (node_map h d)(key_value h k := None))) \<and>
    (node_map h d (key_value h k) = None \<longrightarrow>
       node_remove h k d = (if \<forall>v \<in> dom (node_map h d). v < key_value h k then Inl (RMDBError remove_message) else Inr (- 1, d)))"
proof (intro conjI impI)
  have sz: "0 \<le> get_size d" using assms by (simp add: node_ok_def)
  show "leaf_lookup h d k = node_map h d (key_value h k)" by (rule leaf_lookup_map [OF assms(3,4) sz])
  show "node_insert h k r d = Inr (get_size d, d)" if "node_map h d (key_value h k) \<noteq> None \<or> leftover h d k"
    using that node_insert_same [OF assms(3,4) sz] by (simp add: node_insert_def Let_def)
  show "\<exists>d'. node_insert h k r d = Inr (get_size d + 1, d') \<and> node_ok h d' \<and> node_sorted h d' \<and> same_header d d' \<and>
      node_map h d' = (node_map h d)(key_value h k \<mapsto> r)"
    if "node_map h d (key_value h k) = None \<and> \<not> leftover h d k \<and> get_size d < get_max_size h"
    by (rule node_insert_effect [OF assms]) (use that in auto)
  show "\<exists>d'. node_remove h k d = Inr (get_size d - 1, d') \<and> node_ok h d' \<and> node_sorted h d' \<and> same_header d d' \<and>
      node_map h d' = (node_map h d)(key_value h k := None)" if "node_map h d (key_value h k) \<noteq> None"
    by (rule node_remove_effect [OF assms(1-4) that]) auto
  show "node_remove h k d = (if \<forall>v \<in> dom (node_map h d). v < key_value h k then Inl (RMDBError remove_message) else Inr (- 1, d))"
    if "node_map h d (key_value h k) = None"
    unfolding node_place_end [OF assms(3,4)] using that node_place [OF assms(3,4) sz] sz
    by (auto simp: node_remove_def Let_def split: if_splits)
qed

text \<open>
  Property C31. A key that was the largest of a node of more than one entry cannot be put back: \<open>remove\<close> leaves its bytes in
  the slot after the last entry, and \<open>insert\<close> compares with that slot as if it were an entry, so the
  insertion reports the old size and stores nothing.
\<close>

theorem removed_largest_key_is_not_reinserted:
  assumes "ix_hdr_ok h" and "node_ok h d" and "node_sorted h d" and "valid_key h k" and "1 < get_size d"
    and "key_value h k = key_value h (get_key h d (nat (get_size d) - 1))"
  shows "\<exists>d'. node_remove h k d = Inr (get_size d - 1, d') \<and>
    node_insert h k r d' = Inr (get_size d - 1, d') \<and> leaf_lookup h d' k = None"
proof -
  let ?n = "nat (get_size d)" and ?p = "node_lower_bound h d k"
  have n: "?n - 1 < ?n" "?n - 1 + 1 = ?n" using assms(5) by simp_all
  have some: "node_map h d (key_value h k) \<noteq> None" using node_map_key [OF assms(3) n(1)] assms(6) by simp
  have "\<not> ?n - 1 < ?p"
    using ix.place_less [of h "node_keys h d" k "?n - 1"] assms(3,4,6) n(1) by (simp add: node_sorted_def node_lower_bound_place)
  moreover have "\<not> ?p < ?n - 1"
  proof
    assume lt: "?p < ?n - 1"
    then have "key_value h (get_key h d ?p) < key_value h (get_key h d (?n - 1))"
      using assms(3) n sorted_wrt_nth_less [of "(<)" "map (key_value h) (node_keys h d)" ?p "?n - 1"]
      by (simp add: node_sorted_def ix.ascending_def)
    moreover have "?p < ?n" using lt by simp
    ultimately show False using ix.place_less [of h "node_keys h d" k ?p] assms(3,4,6) n(1)
      by (simp add: node_sorted_def node_lower_bound_place)
  qed
  ultimately have p: "?p = ?n - 1" by simp
  obtain d' where d': "node_remove h k d = Inr (get_size d - 1, d')" "node_ok h d'" "node_sorted h d'"
    "node_map h d' = (node_map h d)(key_value h k := None)" "get_size d' = get_size d - 1"
    "node_keys h d' = take ?p (node_keys h d) @ drop (Suc ?p) (node_keys h d)" "get_key h d' (nat (get_size d')) = get_key h d ?p"
    by (rule node_remove_effect [OF assms(1-4) some]) (use p n in simp)
  have sz: "0 \<le> get_size d'" "get_size d' \<noteq> 0" "nat (get_size d') = ?n - 1" using d'(5) assms(5) by simp_all
  have "node_lower_bound h d' k = nat (get_size d')"
    using d'(6) p sz(3) by (simp add: node_lower_bound_place ix.place_def takeWhile_eq_take [symmetric])
  then have "key_compare h (get_key h d' (node_lower_bound h d' k)) k = 0"
    using d'(7) p assms(6) ix.cmp_sign(1) [OF node_key_valid [OF assms(3) n(1)] assms(4)] by simp
  then have "node_insert h k r d' = Inr (get_size d - 1, d')" using sz d'(5) by (simp add: node_insert_def)
  moreover have "leaf_lookup h d' k = None" using leaf_lookup_map [OF d'(3) assms(4) sz(1)] d'(4) by simp
  ultimately show ?thesis using d'(1) by blast
qed


section \<open>The file header\<close>

definition ix_hdr_storable :: "IxFileHdr \<Rightarrow> bool" where
  "ix_hdr_storable h \<longleftrightarrow> 0 \<le> ix_col_num h \<and> length (col_types h) = nat (ix_col_num h) \<and> length (col_lens h) = nat (ix_col_num h) \<and>
     (\<forall>f \<in> set (ix_hdr_fields h). in_range 4 f)"

lemma int_at_put:
  "i < length fs \<Longrightarrow> \<forall>f \<in> set fs. in_range 4 f \<Longrightarrow> off = 4 * i \<Longrightarrow> int_at (concat (map (put_int 4) fs) @ rest) off = fs ! i"
proof (induction fs arbitrary: i off)
  case (Cons f fs)
  then show ?case
    by (cases i) (simp_all add: int_at_def read_at_def)
qed simp

text \<open>
  The header of an index file survives a round trip: after \<open>update_tot_len\<close>, \<open>serialize\<close>
  into a large enough buffer passes its assertion and \<open>deserialize\<close> of the buffer gives the header
  back, for every number of columns.
\<close>

theorem ix_header_roundtrip:
  assumes "ix_hdr_storable (update_tot_len h)" and "tot_len (update_tot_len h) \<le> int (length dest)"
  shows "\<exists>bs. ix_serialize (update_tot_len h) dest = Inr bs \<and> length bs = length dest \<and> ix_deserialize bs = Inr (update_tot_len h)"
proof -
  define g where "g = update_tot_len h"
  define n where "n = nat (ix_col_num g)"
  let ?fs = "ix_hdr_fields g"
  have st: "int n = ix_col_num g" "length (col_types g) = n" "length (col_lens g) = n" "\<forall>f \<in> set ?fs. in_range 4 f"
    using assms(1) by (simp_all add: ix_hdr_storable_def g_def n_def)
  have tot: "tot_len g = int (40 + 8 * n)" using st(1) by (simp add: g_def update_tot_len_def)
  have len: "length ?fs = 10 + 2 * n" using st by (simp add: ix_hdr_fields_def n_def)
  let ?b = "concat (map (put_int 4) ?fs)" and ?bs = "put_chunks 0 (map (put_int 4) ?fs) dest"
  have lb: "length ?b = 40 + 8 * n" using len by (simp add: length_concat comp_def sum_list_triv)
  have ld: "40 + 8 * n \<le> length dest" using assms(2) tot by (simp add: g_def)
  have bs: "?bs = ?b @ drop (40 + 8 * n) dest" using lb ld by (simp add: put_chunks_concat write_at_def)
  have ser: "ix_serialize g dest = Inr ?bs"
    using st(2,3) len tot ld by (simp add: ix_serialize_def n_def Let_def)
  have rd: "int_at ?bs (4 * i) = ?fs ! i" if "i < 10 + 2 * n" for i
    unfolding bs by (rule int_at_put) (use that len st(4) in simp_all)
  have ix: "?fs ! 0 = tot_len g" "?fs ! 1 = ix_first_free_page_no g" "?fs ! 2 = ix_num_pages g" "?fs ! 3 = root_page g" "?fs ! 4 = ix_col_num g"
    "?fs ! (5 + 2 * n) = ix_col_tot_len g" "?fs ! (6 + 2 * n) = btree_order g" "?fs ! (7 + 2 * n) = keys_size g"
    "?fs ! (8 + 2 * n) = first_leaf g" "?fs ! (9 + 2 * n) = last_leaf g"
    using st(2,3) by (simp_all add: ix_hdr_fields_def n_def nth_append)
  have ty: "?fs ! (5 + i) = int (coltype_code (col_types g ! i))" "?fs ! (5 + n + i) = col_lens g ! i" if "i < n" for i
    using st(2,3) that by (simp_all add: ix_hdr_fields_def n_def nth_append)
  have r: "int_at ?bs 0 = tot_len g" "int_at ?bs 4 = ix_first_free_page_no g" "int_at ?bs 8 = ix_num_pages g" "int_at ?bs 12 = root_page g"
    "int_at ?bs 16 = ix_col_num g" "int_at ?bs (20 + 8 * n) = ix_col_tot_len g" "int_at ?bs (20 + 8 * n + 4) = btree_order g"
    "int_at ?bs (20 + 8 * n + 8) = keys_size g" "int_at ?bs (20 + 8 * n + 12) = first_leaf g" "int_at ?bs (20 + 8 * n + 16) = last_leaf g"
    using rd [of 0] rd [of 1] rd [of 2] rd [of 3] rd [of 4] rd [of "5 + 2 * n"] rd [of "6 + 2 * n"] rd [of "7 + 2 * n"]
      rd [of "8 + 2 * n"] rd [of "9 + 2 * n"] ix by (simp_all add: algebra_simps)
  have ts: "map (\<lambda>i. coltype_of (int_at ?bs (20 + 4 * i))) [0..<n] = map Some (col_types g)"
    using rd [of "5 + _"] ty(1) st(2) by (intro nth_equalityI) (simp_all add: algebra_simps)
  have ls: "map (\<lambda>i. int_at ?bs (20 + 4 * n + 4 * i)) [0..<n] = col_lens g"
    using rd [of "5 + n + _"] ty(2) st(3) by (intro nth_equalityI) (simp_all add: algebra_simps)
  have "nat (int_at ?bs 16) = n" using r(5) by (simp add: n_def)
  then have "ix_deserialize ?bs = Inr g"
    unfolding ix_deserialize_def Let_def by (simp only: ts ls r) (use tot bs lb ld in \<open>simp add: image_iff\<close>)
  then show ?thesis using ser bs lb ld by (auto simp: g_def)
qed

section \<open>An example\<close>

text \<open>A leaf of an index on one integer column, with the keys 5 and 7.\<close>

definition ix_demo_hdr :: IxFileHdr where
  "ix_demo_hdr = \<lparr>ix_first_free_page_no = IX_NO_PAGE, ix_num_pages = IX_INIT_NUM_PAGES, root_page = IX_INIT_ROOT_PAGE, ix_col_num = 1,
     col_types = [TYPE_INT], col_lens = [4], ix_col_tot_len = 4, btree_order = 338, keys_size = 1356,
     first_leaf = IX_INIT_ROOT_PAGE, last_leaf = IX_INIT_ROOT_PAGE, tot_len = 48\<rparr>"

definition ix_demo_node :: "byte list" where
  "ix_demo_node = replicate 8 0 @ put_int 4 2 @ replicate 12 0 @ put_int 4 5 @ put_int 4 7 @ replicate 1348 0 @
     rid_bytes (Rid 1 0) @ rid_bytes (Rid 1 1) @ replicate 2700 0"

lemma ix_demo_hdr_ok: "ix_hdr_ok ix_demo_hdr"
  by (simp add: ix_hdr_ok_def ix_demo_hdr_def capacity_def get_max_size_def key_len_def rid_off_def IX_PAGE_HDR_SIZE_def PAGE_SIZE_def)

lemma ix_demo_node_reads:
  "length ix_demo_node = PAGE_SIZE" "get_size ix_demo_node = 2" "get_key ix_demo_hdr ix_demo_node 0 = put_int 4 5" "get_key ix_demo_hdr ix_demo_node (Suc 0) = put_int 4 7"
  "get_rid ix_demo_hdr ix_demo_node 0 = Rid 1 0" "get_rid ix_demo_hdr ix_demo_node (Suc 0) = Rid 1 1"
  by (simp_all add: ix_demo_node_def get_size_def get_key_def get_rid_def int_at_def read_rid_def read_at_def rid_bytes_def ix_demo_hdr_def
        key_off_def rid_off_def key_len_def ix_offs PAGE_SIZE_def in_range_def)

lemma ix_demo_key: "in_range 4 i \<Longrightarrow> key_value ix_demo_hdr (put_int 4 i) = [[i]]" "valid_key ix_demo_hdr (put_int 4 i)"
  by (simp_all add: key_value_def valid_key_def ix_demo_hdr_def col_key_def key_len_def)

lemma ix_demo_node_ok: "node_ok ix_demo_hdr ix_demo_node" "node_sorted ix_demo_hdr ix_demo_node"
proof -
  have "node_keys ix_demo_hdr ix_demo_node = [put_int 4 5, put_int 4 7]"
    by (simp add: node_keys_def ix_demo_node_reads upt_conv_Cons)
  then show "node_sorted ix_demo_hdr ix_demo_node"
    by (simp add: node_sorted_def ix.ascending_def ix_demo_key in_range_def)
  show "node_ok ix_demo_hdr ix_demo_node"
    by (simp add: node_ok_def ix_demo_node_reads) (simp add: ix_demo_hdr_def get_max_size_def)
qed

theorem node_searches_agree_witness:
  "lower_binary ix_demo_hdr ix_demo_node (put_int 4 6) 0 2 = node_lower_bound ix_demo_hdr ix_demo_node (put_int 4 6)"
  using node_searches_agree [OF ix_demo_node_ok(2) ix_demo_key(2) [of 6]] by (simp add: ix_demo_node_reads)

lemma ix_demo_map: "node_map ix_demo_hdr ix_demo_node = [[[5]] \<mapsto> Rid 1 0, [[7]] \<mapsto> Rid 1 1]"
  by (simp add: node_map_def node_keys_def node_rids_def ix_demo_node_reads upt_conv_Cons ix_demo_key in_range_def fun_upd_twist)

theorem node_is_ordered_map_witness:
  "leaf_lookup ix_demo_hdr ix_demo_node (put_int 4 5) = Some (Rid 1 0) \<and>
   (\<exists>d'. node_remove ix_demo_hdr (put_int 4 5) ix_demo_node = Inr (1, d') \<and> node_map ix_demo_hdr d' = [[[7]] \<mapsto> Rid 1 1])"
proof -
  have "rid_ok (Rid 1 0)" by (simp add: rid_ok_def in_range_def)
  from node_is_ordered_map [OF ix_demo_hdr_ok ix_demo_node_ok ix_demo_key(2) [of 5] this] show ?thesis
    by (simp add: ix_demo_key in_range_def ix_demo_map ix_demo_node_reads) (auto simp: fun_upd_def)
qed

theorem removed_largest_key_is_not_reinserted_witness:
  "\<exists>d'. node_remove ix_demo_hdr (put_int 4 7) ix_demo_node = Inr (1, d') \<and>
     node_insert ix_demo_hdr (put_int 4 7) (Rid 1 1) d' = Inr (1, d') \<and> leaf_lookup ix_demo_hdr d' (put_int 4 7) = None"
  using removed_largest_key_is_not_reinserted [OF ix_demo_hdr_ok ix_demo_node_ok ix_demo_key(2) [of 7], of "Rid 1 1"]
  by (simp add: ix_demo_node_reads)

theorem ix_header_roundtrip_witness:
  "\<exists>bs. ix_serialize ix_demo_hdr (replicate PAGE_SIZE 0) = Inr bs \<and> ix_deserialize bs = Inr ix_demo_hdr"
proof -
  have "update_tot_len ix_demo_hdr = ix_demo_hdr" by (simp add: update_tot_len_def ix_demo_hdr_def)
  moreover have "ix_hdr_storable ix_demo_hdr" "tot_len ix_demo_hdr \<le> int (length (replicate PAGE_SIZE (0 :: byte)))"
    by (simp_all add: ix_hdr_storable_def ix_demo_hdr_def ix_hdr_fields_def in_range_def PAGE_SIZE_def IX_NO_PAGE_def
          IX_INIT_NUM_PAGES_def IX_INIT_ROOT_PAGE_def)
  ultimately show ?thesis using ix_header_roundtrip [of ix_demo_hdr "replicate PAGE_SIZE 0"] by auto
qed

end
