(* ===== verification/Ix_Tree.thy ===== *)
theory Ix_Tree
  imports Ix_Map Record_Spec Partial_Commands
begin

text \<open>
  The B+ tree of an index, \<open>IxIndexHandle\<close> of \<open>src/src/index/ix_index_handle.{h,cpp}\<close>, on the buffer
  pool, and the cursor \<open>IxScan\<close> of \<open>ix_scan.{h,cpp}\<close>. A node handle is the frame of its page, as a
  page handle of a table file is. One thread runs: to lock a latch it holds already, or to
  unlock one it does not hold, is undefined behaviour. A null transaction is \<open>False\<close>, the pointer
  \<open>root_is_latched\<close> an option. The loops follow page numbers stored in pages and may run forever,
  so they are partial commands.
\<close>

section \<open>State\<close>

datatype Operation = FIND | INSERT | DELETE

datatype page_latch = Unlocked | ReadLocked | WriteLocked

record ix_world =
  ix_fd :: int
  file_hdr :: IxFileHdr
  ix_bpm :: bpm
  root_latch :: bool
  rwlock :: "frame_id \<Rightarrow> page_latch"
  index_latch_page_set :: "frame_id list"
  index_deleted_page_set :: "frame_id list"

datatype Iid = Iid (iid_page_no: int) (iid_slot_no: int)

definition in_ix_pool :: "(bpm, 'a) rcmd \<Rightarrow> (ix_world, 'a) rcmd" where
  "in_ix_pool = zoom ix_bpm (\<lambda>b s. s\<lparr>ix_bpm := b\<rparr>)"

definition set_hdr :: "(IxFileHdr \<Rightarrow> IxFileHdr) \<Rightarrow> (ix_world, unit) rcmd" where
  "set_hdr g = modify (\<lambda>s. s\<lparr>file_hdr := g (file_hdr s)\<rparr>)"

text \<open>The bytes and the identifier of the page a handle points to, at the time of the access.\<close>

definition node_data :: "frame_id \<Rightarrow> ix_world \<Rightarrow> byte list" where
  "node_data f s = p_data (pages (ix_bpm s) ! f)"

definition node_page_id :: "frame_id \<Rightarrow> ix_world \<Rightarrow> page_id" where
  "node_page_id f s = p_id (pages (ix_bpm s) ! f)"

definition get_page_no :: "frame_id \<Rightarrow> ix_world \<Rightarrow> int" where
  "get_page_no f s = pid_page_no (node_page_id f s)"

definition first_key :: "frame_id \<Rightarrow> ix_world \<Rightarrow> byte list" where
  "first_key f s = get_key (file_hdr s) (node_data f s) 0"

definition edit_node :: "frame_id \<Rightarrow> (byte list \<Rightarrow> rmdb_error + byte list) \<Rightarrow> (ix_world, unit) rcmd" where
  "edit_node f g s =
     (case g (node_data f s) of
        Inl e \<Rightarrow> (Inl e, s) | Inr d \<Rightarrow> (Inr (), s\<lparr>ix_bpm := store_page f d (ix_bpm s)\<rparr>))"

definition poke :: "frame_id \<Rightarrow> (byte list \<Rightarrow> byte list) \<Rightarrow> (ix_world, unit) rcmd" where
  "poke f g = edit_node f (\<lambda>d. Inr (g d))"

definition unpin_node :: "frame_id \<Rightarrow> bool \<Rightarrow> (ix_world, bool) rcmd" where
  "unpin_node f dirty = (\<lambda>s. in_ix_pool (\<lambda>b. case unpin_page (node_page_id f s) dirty b of (r, b') \<Rightarrow> (Inr r, b')) s)"

text \<open>Latches.\<close>

definition lock_root :: "(ix_world, unit) rcmd" where
  "lock_root s = (if root_latch s then (Inl (UndefinedBehaviour ''root_latch_.lock()''), s) else (Inr (), s\<lparr>root_latch := True\<rparr>))"

definition unlock_root :: "(ix_world, unit) rcmd" where
  "unlock_root s = (if root_latch s then (Inr (), s\<lparr>root_latch := False\<rparr>) else (Inl (UndefinedBehaviour ''root_latch_.unlock()''), s))"

definition move_latch :: "page_latch \<Rightarrow> page_latch \<Rightarrow> frame_id \<Rightarrow> (ix_world, unit) rcmd" where
  "move_latch a b f s =
     (if rwlock s f = a then (Inr (), s\<lparr>rwlock := (rwlock s)(f := b)\<rparr>) else (Inl (UndefinedBehaviour ''rwlock''), s))"

abbreviation "RLock \<equiv> move_latch Unlocked ReadLocked"
abbreviation "RUnLock \<equiv> move_latch ReadLocked Unlocked"
abbreviation "WLock \<equiv> move_latch Unlocked WriteLocked"
abbreviation "WUnLock \<equiv> move_latch WriteLocked Unlocked"

definition append_index_latch_page :: "bool \<Rightarrow> frame_id \<Rightarrow> (ix_world, unit) rcmd" where
  "append_index_latch_page txn f =
     (if txn then modify (\<lambda>s. s\<lparr>index_latch_page_set := index_latch_page_set s @ [f]\<rparr>)
      else throw (UndefinedBehaviour ''transaction''))"

section \<open>Nodes\<close>

definition fetch_node :: "int \<Rightarrow> (ix_world, frame_id) rcmd" where
  "fetch_node page_no = (\<lambda>s.
     bindc (in_ix_pool (fetch_page (PageId (ix_fd s) page_no)))
       (\<lambda>r. case r of None \<Rightarrow> throw (UndefinedBehaviour ''page->get_data()'') | Some f \<Rightarrow> ret f) s)"

definition create_node :: "(ix_world, frame_id) rcmd" where
  "create_node =
     bindc (set_hdr (\<lambda>h. h\<lparr>ix_num_pages := ix_num_pages h + 1\<rparr>)) (\<lambda>_ s.
     bindc (in_ix_pool (new_page (ix_fd s))) (\<lambda>r.
       case r of
         None \<Rightarrow> throw (UndefinedBehaviour ''page->get_data()'')
       | Some (f, pid) \<Rightarrow> bindc (poke f (set_size 0)) (\<lambda>_. ret f)) s)"

definition release_node_handle :: "(ix_world, unit) rcmd" where
  "release_node_handle = set_hdr (\<lambda>h. h\<lparr>ix_num_pages := ix_num_pages h - 1\<rparr>)"

definition maintain_child :: "frame_id \<Rightarrow> nat \<Rightarrow> (ix_world, unit) rcmd" where
  "maintain_child node child_idx = (\<lambda>s.
     if is_leaf_page (node_data node s) then (Inr (), s)
     else bindc (fetch_node (value_at (file_hdr s) (node_data node s) child_idx)) (\<lambda>child.
          bindc (\<lambda>s. poke child (set_parent_page_no (get_page_no node s)) s) (\<lambda>_.
          bindc (unpin_node child True) (\<lambda>_. ret ()))) s)"

text \<open>\<open>maintain_child(node, i)\<close> for the indexes of a list.\<close>

fun maintain_children :: "frame_id \<Rightarrow> nat list \<Rightarrow> (ix_world, unit) rcmd" where
  "maintain_children node [] = ret ()"
| "maintain_children node (i # is) = bindc (maintain_child node i) (\<lambda>_. maintain_children node is)"

definition erase_leaf :: "frame_id \<Rightarrow> (ix_world, unit) rcmd" where
  "erase_leaf leaf = (\<lambda>s.
     if \<not> is_leaf_page (node_data leaf s) then (Inl (AssertionFailure ''leaf->is_leaf_page()''), s)
     else bindc (fetch_node (get_prev_leaf (node_data leaf s))) (\<lambda>prev.
          bindc (\<lambda>s. poke prev (set_next_leaf (get_next_leaf (node_data leaf s))) s) (\<lambda>_.
          bindc (unpin_node prev True) (\<lambda>_.
          bindc (\<lambda>s. fetch_node (get_next_leaf (node_data leaf s)) s) (\<lambda>next.
          bindc (\<lambda>s. poke next (set_prev_leaf (get_prev_leaf (node_data leaf s))) s) (\<lambda>_.
          bindc (unpin_node next True) (\<lambda>_. ret ())))))) s)"

definition is_secure :: "frame_id \<Rightarrow> Operation \<Rightarrow> ix_world \<Rightarrow> bool" where
  "is_secure node operation s =
     (let d = node_data node s; h = file_hdr s in
      if operation = INSERT then get_size d + 1 < get_max_size h
      else if is_root_page d then get_size d - 1 \<ge> 2
      else get_size d - 1 \<ge> get_min_size h)"

fun unlock_unpin :: "frame_id list \<Rightarrow> (ix_world, unit) rcmd" where
  "unlock_unpin [] = ret ()"
| "unlock_unpin (f # fs) = bindc (WUnLock f) (\<lambda>_. bindc (unpin_node f False) (\<lambda>_. unlock_unpin fs))"

definition unlock_unpin_all_pages :: "bool \<Rightarrow> (ix_world, unit) rcmd" where
  "unlock_unpin_all_pages txn =
     (if txn then (\<lambda>s. bindc (unlock_unpin (index_latch_page_set s)) (\<lambda>_. modify (\<lambda>s. s\<lparr>index_latch_page_set := []\<rparr>)) s)
      else ret ())"

section \<open>Searching the tree\<close>

text \<open>One turn of the loop: from an inner node to its child; the flag is \<open>root_is_latch\<close>.\<close>

definition descend_step :: "byte list \<Rightarrow> Operation \<Rightarrow> bool \<Rightarrow> frame_id \<Rightarrow> bool \<Rightarrow> (ix_world, frame_id \<times> bool) rcmd" where
  "descend_step key operation txn tem root_is_latch = (\<lambda>s.
     let child_page_no = internal_lookup (file_hdr s) (node_data tem s) key in
     bindc (unpin_node tem False) (\<lambda>_.
     bindc (if operation = FIND then bindc (RUnLock tem) (\<lambda>_. unpin_node tem False) else ret True) (\<lambda>_.
     bindc (fetch_node child_page_no) (\<lambda>child.
     bindc (if operation = FIND then RLock child else WLock child) (\<lambda>_.
     if operation = FIND then ret (child, root_is_latch)
     else (\<lambda>s.
       bindc (if is_secure child operation s
              then bindc (if root_is_latch then unlock_root else ret ()) (\<lambda>_.
                   bindc (unlock_unpin_all_pages txn) (\<lambda>_. ret False))
              else ret root_is_latch) (\<lambda>rl.
       bindc (append_index_latch_page txn child) (\<lambda>_. ret (child, rl))) s))))) s)"

partial_function (option) descend :: "byte list \<Rightarrow> Operation \<Rightarrow> bool \<Rightarrow> frame_id \<Rightarrow> bool \<Rightarrow> (ix_world, frame_id \<times> bool) pcmd" where
  "descend key operation txn tem root_is_latch s =
     (if is_leaf_page (node_data tem s) then Some (Inr (tem, root_is_latch), s)
      else pbind (plift (descend_step key operation txn tem root_is_latch)) (\<lambda>x. descend key operation txn (fst x) (snd x)) s)"

definition pop_leaf :: "Operation \<Rightarrow> (ix_world, unit) rcmd" where
  "pop_leaf operation =
     (if operation \<noteq> FIND then modify (\<lambda>s. s\<lparr>index_latch_page_set := butlast (index_latch_page_set s)\<rparr>) else ret ())"

definition find_leaf_page :: "byte list \<Rightarrow> Operation \<Rightarrow> bool \<Rightarrow> (ix_world, frame_id \<times> bool) pcmd" where
  "find_leaf_page key operation txn =
     pbind (plift lock_root) (\<lambda>_.
     pbind (\<lambda>s. plift (fetch_node (root_page (file_hdr s))) s) (\<lambda>root_node.
     pbind (plift (if operation = FIND then bindc (RLock root_node) (\<lambda>_. unlock_root)
                   else bindc (WLock root_node) (\<lambda>_. append_index_latch_page txn root_node))) (\<lambda>_.
     pbind (descend key operation txn root_node (operation \<noteq> FIND)) (\<lambda>x.
     pbind (plift (pop_leaf operation)) (\<lambda>_. pret x)))))"

text \<open>What the callers do with a leaf they have read.\<close>

definition release_leaf :: "frame_id \<Rightarrow> (ix_world, unit) rcmd" where
  "release_leaf leaf = bindc (RUnLock leaf) (\<lambda>_. bindc (unpin_node leaf False) (\<lambda>_. ret ()))"

text \<open>\<open>get_value\<close> returns whether the key is there, and appends its record identifier to the result.\<close>

definition get_value :: "byte list \<Rightarrow> (ix_world, bool \<times> rid list) pcmd" where
  "get_value key =
     pbind (find_leaf_page key FIND False) (\<lambda>(leaf, _) s.
       let found = leaf_lookup (file_hdr s) (node_data leaf s) key in
       pbind (plift (release_leaf leaf)) (\<lambda>_. pret (found \<noteq> None, case found of None \<Rightarrow> [] | Some r \<Rightarrow> [r])) s)"

definition is_key_exist :: "byte list \<Rightarrow> (ix_world, bool) pcmd" where
  "is_key_exist key =
     pbind (find_leaf_page key FIND False) (\<lambda>(leaf, _) s.
       let found = list_ex (\<lambda>i. key_compare (file_hdr s) key (get_key (file_hdr s) (node_data leaf s) i) = 0)
             [0..<nat (get_size (node_data leaf s))]
       in pbind (plift (release_leaf leaf)) (\<lambda>_. pret found) s)"

definition leaf_end :: "(ix_world, Iid) rcmd" where
  "leaf_end = (\<lambda>s.
     bindc (fetch_node (last_leaf (file_hdr s))) (\<lambda>node s.
       let iid = Iid (last_leaf (file_hdr s)) (get_size (node_data node s)) in
       bindc (unpin_node node False) (\<lambda>_. ret iid) s) s)"

definition leaf_begin :: "ix_world \<Rightarrow> Iid" where
  "leaf_begin s = Iid (first_leaf (file_hdr s)) 0"

definition ix_lower_bound :: "byte list \<Rightarrow> (ix_world, Iid) pcmd" where
  "ix_lower_bound key =
     pbind (find_leaf_page key FIND False) (\<lambda>(leaf, _) s.
       let iid = Iid (get_page_no leaf s) (int (node_lower_bound (file_hdr s) (node_data leaf s) key)) in
       pbind (plift (release_leaf leaf)) (\<lambda>_. pret iid) s)"

definition ix_upper_bound :: "byte list \<Rightarrow> (ix_world, Iid) pcmd" where
  "ix_upper_bound key =
     pbind (find_leaf_page key FIND False) (\<lambda>(leaf, _) s.
       let key_idx = int (node_upper_bound (file_hdr s) (node_data leaf s) key) in
       pbind (plift (if key_idx = get_size (node_data leaf s) then leaf_end else ret (Iid (get_page_no leaf s) key_idx))) (\<lambda>iid.
       pbind (plift (release_leaf leaf)) (\<lambda>_. pret iid)) s)"

definition ix_get_rid :: "Iid \<Rightarrow> (ix_world, rid) rcmd" where
  "ix_get_rid iid =
     bindc (fetch_node (iid_page_no iid)) (\<lambda>node.
     bindc (RLock node) (\<lambda>_ s.
     bindc (RUnLock node) (\<lambda>_.
     bindc (unpin_node node False) (\<lambda>_ t.
       if iid_slot_no iid \<ge> get_size (node_data node s) then (Inl IndexEntryNotFoundError, t)
       else if iid_slot_no iid < 0 then (Inl (UndefinedBehaviour ''rids[slot_no]''), t)
       else (Inr (get_rid (file_hdr t) (node_data node t) (nat (iid_slot_no iid))), t))) s))"

section \<open>Inserting\<close>

text \<open>The loop of \<open>maintain_parent\<close>: what is done at one level; whether to go on, and with which node.\<close>

definition maintain_parent_step :: "frame_id \<Rightarrow> (ix_world, frame_id option) rcmd" where
  "maintain_parent_step cur = (\<lambda>s.
     bindc (fetch_node (get_parent_page_no (node_data cur s))) (\<lambda>parent s.
       case find_child (file_hdr s) (node_data parent s) (get_page_no cur s) of
         Inl e \<Rightarrow> (Inl e, s)
       | Inr rank \<Rightarrow>
           (let same = (get_key (file_hdr s) (node_data parent s) rank = first_key cur s) in
            bindc (if same then ret () else poke parent (set_key (file_hdr s) rank (first_key cur s))) (\<lambda>_.
            bindc (unpin_node parent True) (\<lambda>ok.
              if ok then ret (if same then None else Some parent) else throw (AssertionFailure ''unpin_page''))) s)) s)"

partial_function (option) maintain_parent :: "frame_id \<Rightarrow> (ix_world, unit) pcmd" where
  "maintain_parent cur s =
     (if get_parent_page_no (node_data cur s) = IX_NO_PAGE then Some (Inr (), s)
      else pbind (plift (maintain_parent_step cur)) (\<lambda>r s. case r of None \<Rightarrow> Some (Inr (), s) | Some parent \<Rightarrow> maintain_parent parent s) s)"

text \<open>The entries from a position on, as \<open>insert_pairs\<close> gets them by pointer.\<close>

definition pairs_from :: "frame_id \<Rightarrow> nat \<Rightarrow> ix_world \<Rightarrow> byte list \<times> rid list" where
  "pairs_from f i s =
     (let h = file_hdr s; d = node_data f s; n = nat (get_size d) - i in
      (read_at (key_off h i) (n * key_len h) d, map (get_rid h d) [i..<i + n]))"

definition split :: "frame_id \<Rightarrow> (ix_world, frame_id) rcmd" where
  "split node = (\<lambda>s.
     let total = get_size (node_data node s); left = total div 2 in
     bindc create_node (\<lambda>new.
     bindc (poke new (set_size 0)) (\<lambda>_.
     bindc (\<lambda>s. poke new (set_parent_page_no (get_parent_page_no (node_data node s))) s) (\<lambda>_.
     bindc (\<lambda>s. poke new (set_is_leaf (is_leaf_page (node_data node s))) s) (\<lambda>_.
     bindc (\<lambda>s. edit_node new (insert_pairs (file_hdr s) 0 (fst (pairs_from node (nat left) s)) (snd (pairs_from node (nat left) s))) s) (\<lambda>_.
     bindc (poke node (set_size left)) (\<lambda>_ s.
     if is_leaf_page (node_data new s) then
       bindc (\<lambda>s. poke new (set_prev_leaf (get_page_no node s)) s) (\<lambda>_.
       bindc (\<lambda>s. poke new (set_next_leaf (get_next_leaf (node_data node s))) s) (\<lambda>_.
       bindc (\<lambda>s. poke node (set_next_leaf (get_page_no new s)) s) (\<lambda>_.
       bindc (\<lambda>s. if last_leaf (file_hdr s) = get_page_no node s then set_hdr (\<lambda>h. h\<lparr>last_leaf := get_page_no new s\<rparr>) s else (Inr (), s))
         (\<lambda>_. ret new)))) s
     else bindc (maintain_children new [0..<nat (total - left)]) (\<lambda>_. ret new) s)))))) s)"

text \<open>A new root above the two halves of the old one.\<close>

definition new_root :: "frame_id \<Rightarrow> frame_id \<Rightarrow> (ix_world, unit) rcmd" where
  "new_root old new =
     bindc create_node (\<lambda>root.
     bindc (poke root (set_size 0)) (\<lambda>_.
     bindc (poke root (set_parent_page_no INVALID_PAGE_ID)) (\<lambda>_.
     bindc (poke root (set_is_leaf False)) (\<lambda>_.
     bindc (\<lambda>s. edit_node root (insert_pair (file_hdr s) 0 (first_key old s) (Rid (get_page_no old s) (- 1))) s) (\<lambda>_.
     bindc (\<lambda>s. edit_node root (insert_pair (file_hdr s) 1 (first_key new s) (Rid (get_page_no new s) (- 1))) s) (\<lambda>_.
     bindc (\<lambda>s. poke old (set_parent_page_no (get_page_no root s)) s) (\<lambda>_.
     bindc (\<lambda>s. poke new (set_parent_page_no (get_page_no root s)) s) (\<lambda>_.
     bindc (\<lambda>s. set_hdr (\<lambda>h. h\<lparr>root_page := get_page_no root s\<rparr>) s) (\<lambda>_.
     bindc (unpin_node root True) (\<lambda>_. ret ()))))))))))"

definition node_insert_cmd :: "frame_id \<Rightarrow> byte list \<Rightarrow> rid \<Rightarrow> (ix_world, unit) rcmd" where
  "node_insert_cmd f key r = (\<lambda>s. edit_node f (\<lambda>d. map_sum id snd (node_insert (file_hdr s) key r d)) s)"

definition node_full :: "frame_id \<Rightarrow> ix_world \<Rightarrow> bool" where
  "node_full f s \<longleftrightarrow> get_size (node_data f s) = get_max_size (file_hdr s)"

definition move_last_leaf :: "frame_id \<Rightarrow> frame_id \<Rightarrow> (ix_world, unit) rcmd" where
  "move_last_leaf node new = (\<lambda>s.
     if get_page_no node s = last_leaf (file_hdr s) then set_hdr (\<lambda>h. h\<lparr>last_leaf := get_page_no new s\<rparr>) s else (Inr (), s))"

text \<open>The argument \<open>key\<close> of \<open>insert_into_parent\<close> is not used.\<close>

partial_function (option) insert_into_parent :: "frame_id \<Rightarrow> frame_id \<Rightarrow> (ix_world, unit) pcmd" where
  "insert_into_parent old new s =
     (if is_root_page (node_data old s) then plift (new_root old new) s
      else pbind (\<lambda>s. plift (fetch_node (get_parent_page_no (node_data new s))) s) (\<lambda>parent.
           pbind (\<lambda>s. plift (node_insert_cmd parent (first_key new s) (Rid (get_page_no new s) (- 1))) s) (\<lambda>_.
           pbind (\<lambda>s. if node_full parent s
             then pbind (plift (split parent)) (\<lambda>new_pnode.
                  pbind (insert_into_parent parent new_pnode) (\<lambda>_.
                  pbind (plift (move_last_leaf parent new_pnode)) (\<lambda>_. plift (unpin_node new_pnode True)))) s
             else Some (Inr True, s)) (\<lambda>_.
           pbind (plift (unpin_node parent True)) (\<lambda>_. pret ())))) s)"

definition insert_entry :: "byte list \<Rightarrow> rid \<Rightarrow> bool \<Rightarrow> (ix_world, int) pcmd" where
  "insert_entry key value txn =
     pbind (find_leaf_page key INSERT txn) (\<lambda>(leaf, root_is_latch).
     pbind (plift (node_insert_cmd leaf key value)) (\<lambda>_.
     pbind (maintain_parent leaf) (\<lambda>_.
     pbind (\<lambda>s. if node_full leaf s
       then pbind (plift (split leaf)) (\<lambda>new.
            pbind (insert_into_parent leaf new) (\<lambda>_.
            pbind (plift (move_last_leaf leaf new)) (\<lambda>_. plift (unpin_node new True)))) s
       else Some (Inr True, s)) (\<lambda>_.
     pbind (plift (if root_is_latch then unlock_root else ret ())) (\<lambda>_.
     pbind (plift (unlock_unpin_all_pages txn)) (\<lambda>_ s.
       let id = get_page_no leaf s in
       pbind (plift (WUnLock leaf)) (\<lambda>_. pbind (plift (unpin_node leaf True)) (\<lambda>_. pret id)) s))))))"

section \<open>Deleting\<close>

definition adjust_root :: "frame_id \<Rightarrow> (ix_world, bool) rcmd" where
  "adjust_root old = (\<lambda>s.
     if \<not> is_leaf_page (node_data old s) \<and> get_size (node_data old s) = 1 then
       bindc (fetch_node (value_at (file_hdr s) (node_data old s) 0)) (\<lambda>child s.
         let new_id = value_at (file_hdr s) (node_data old s) 0 in
         bindc (poke child (set_parent_page_no INVALID_PAGE_ID)) (\<lambda>_.
         bindc (unpin_node child True) (\<lambda>_.
         bindc release_node_handle (\<lambda>_.
         bindc (set_hdr (\<lambda>h. h\<lparr>root_page := new_id\<rparr>)) (\<lambda>_. ret False)))) s) s
     else (Inr False, s))"

definition pair_at :: "frame_id \<Rightarrow> nat \<Rightarrow> ix_world \<Rightarrow> byte list \<times> rid" where
  "pair_at f i s = (get_key (file_hdr s) (node_data f s) i, get_rid (file_hdr s) (node_data f s) i)"

definition node_size :: "frame_id \<Rightarrow> ix_world \<Rightarrow> int" where
  "node_size f s = get_size (node_data f s)"

definition insert_pair_cmd :: "frame_id \<Rightarrow> int \<Rightarrow> byte list \<times> rid \<Rightarrow> (ix_world, unit) rcmd" where
  "insert_pair_cmd f pos kr = (\<lambda>s. edit_node f (insert_pair (file_hdr s) pos (fst kr) (snd kr)) s)"

definition erase_pair_cmd :: "frame_id \<Rightarrow> int \<Rightarrow> (ix_world, unit) rcmd" where
  "erase_pair_cmd f pos = (\<lambda>s. edit_node f (erase_pair (file_hdr s) pos) s)"

definition redistribute :: "frame_id \<Rightarrow> frame_id \<Rightarrow> nat \<Rightarrow> (ix_world, unit) pcmd" where
  "redistribute neighbor node index =
     (if index = 0 then
        pbind (\<lambda>s. plift (insert_pair_cmd node (node_size node s) (pair_at neighbor 0 s)) s) (\<lambda>_.
        pbind (plift (erase_pair_cmd neighbor 0)) (\<lambda>_.
        pbind (\<lambda>s. plift (maintain_child node (nat (node_size node s - 1))) s) (\<lambda>_.
        maintain_parent neighbor)))
      else
        pbind (\<lambda>s. plift (insert_pair_cmd node 0 (pair_at neighbor (nat (node_size neighbor s - 1)) s)) s) (\<lambda>_.
        pbind (\<lambda>s. plift (erase_pair_cmd neighbor (node_size neighbor s - 1)) s) (\<lambda>_.
        pbind (maintain_parent node) (\<lambda>_. plift (maintain_child node 0)))))"

text \<open>\<open>coalesce\<close> up to its recursive call; \<open>left\<close> and \<open>right\<close> are its two nodes after the exchange.\<close>

definition merge_nodes :: "frame_id \<Rightarrow> frame_id \<Rightarrow> frame_id \<Rightarrow> (ix_world, unit) rcmd" where
  "merge_nodes left right parent = (\<lambda>s.
     let pre = nat (node_size left s) in
     bindc (\<lambda>s. edit_node left (insert_pairs (file_hdr s) (node_size left s) (fst (pairs_from right 0 s)) (snd (pairs_from right 0 s))) s) (\<lambda>_.
     bindc (\<lambda>s. maintain_children left (map (\<lambda>i. i + pre) [pre..<nat (node_size right s)]) s) (\<lambda>_.
     bindc (\<lambda>s. if is_leaf_page (node_data right s)
       then bindc (erase_leaf right) (\<lambda>_ s.
            if last_leaf (file_hdr s) = get_page_no right s then set_hdr (\<lambda>h. h\<lparr>last_leaf := get_page_no left s\<rparr>) s else (Inr (), s)) s
       else (Inr (), s)) (\<lambda>_.
     bindc release_node_handle (\<lambda>_ s.
       erase_pair_cmd parent (int (node_lower_bound (file_hdr s) (node_data parent s) (first_key right s))) s)))) s)"

text \<open>The end of \<open>coalesce_or_redistribute\<close>: the root latch, through a pointer that may be null.\<close>

definition release_root :: "bool option \<Rightarrow> (ix_world, bool option) rcmd" where
  "release_root rl =
     (case rl of
        None \<Rightarrow> throw (UndefinedBehaviour ''*root_is_latched'')
      | Some l \<Rightarrow> bindc (if l then unlock_root else ret ()) (\<lambda>_. ret (Some False)))"

text \<open>
  The result is whether the node is to be deleted, and \<open>*root_is_latched\<close>. The recursive call
  leaves out the transaction and the pointer. After a merge \<open>father\<close> is deleted; a parent to be
  deleted would be taken from it.
\<close>

partial_function (option) coalesce_or_redistribute :: "frame_id \<Rightarrow> bool \<Rightarrow> bool option \<Rightarrow> (ix_world, bool \<times> bool option) pcmd" where
  "coalesce_or_redistribute node txn rl s =
     (if is_root_page (node_data node s) then
        pbind (plift (adjust_root node)) (\<lambda>need_delete.
        pbind (plift (release_root rl)) (\<lambda>rl'.
        pbind (plift (unlock_unpin_all_pages txn)) (\<lambda>_. pret (need_delete, rl')))) s
      else if node_size node s \<ge> get_min_size (file_hdr s) then
        pbind (maintain_parent node) (\<lambda>_. pbind (plift (unlock_unpin_all_pages txn)) (\<lambda>_. pret (False, rl))) s
      else
        pbind (\<lambda>s. plift (fetch_node (get_parent_page_no (node_data node s))) s) (\<lambda>father.
        pbind (\<lambda>s. pres (find_child (file_hdr s) (node_data father s) (get_page_no node s)) s) (\<lambda>index.
        pbind (\<lambda>s. plift (fetch_node (value_at (file_hdr s) (node_data father s) (if index = 0 then 1 else 0))) s) (\<lambda>brother.
        pbind (plift (WLock brother)) (\<lambda>_ s.
        let pos = node_lower_bound (file_hdr s) (node_data father s) (first_key node s) in
        if node_size node s + node_size brother s \<ge> 2 * get_min_size (file_hdr s) then
          pbind (redistribute brother node pos) (\<lambda>_.
          pbind (plift (WUnLock brother)) (\<lambda>_.
          pbind (plift (unpin_node brother True)) (\<lambda>_.
          pbind (plift (unpin_node father True)) (\<lambda>_.
          pbind (plift (unlock_unpin_all_pages txn)) (\<lambda>_.
          pbind (plift (release_root rl)) (\<lambda>rl'. pret (False, rl'))))))) s
        else
          pbind (plift (if pos = 0 then merge_nodes node brother father else merge_nodes brother node father)) (\<lambda>_.
          pbind (coalesce_or_redistribute father False None) (\<lambda>delete_pa.
          pbind (plift (WUnLock brother)) (\<lambda>_.
          pbind (plift (unpin_node brother True)) (\<lambda>_.
          pbind (plift (unpin_node father True)) (\<lambda>_.
          pbind (plift (if fst delete_pa then throw (UndefinedBehaviour ''father->page'') else ret ())) (\<lambda>_.
          pbind (plift (unlock_unpin_all_pages txn)) (\<lambda>_.
          pbind (plift (release_root rl)) (\<lambda>rl'. pret (True, rl'))))))))) s)))) s)"

definition coalesce :: "frame_id \<Rightarrow> frame_id \<Rightarrow> frame_id \<Rightarrow> nat \<Rightarrow> (ix_world, bool) pcmd" where
  "coalesce neighbor node parent index =
     pbind (plift (if index = 0 then merge_nodes node neighbor parent else merge_nodes neighbor node parent)) (\<lambda>_.
     pbind (coalesce_or_redistribute parent False None) (\<lambda>r. pret (fst r)))"

fun delete_pages :: "frame_id list \<Rightarrow> (ix_world, unit) rcmd" where
  "delete_pages [] = ret ()"
| "delete_pages (f # fs) = bindc (\<lambda>s. in_ix_pool (delete_page (node_page_id f s)) s) (\<lambda>_. delete_pages fs)"

definition delete_entry :: "byte list \<Rightarrow> bool \<Rightarrow> (ix_world, bool) pcmd" where
  "delete_entry key txn =
     pbind (find_leaf_page key DELETE txn) (\<lambda>(leaf, root_is_latch).
     pbind (\<lambda>s. plift (erase_pair_cmd leaf (int (node_lower_bound (file_hdr s) (node_data leaf s) key))) s) (\<lambda>_.
     pbind (coalesce_or_redistribute leaf txn (Some root_is_latch)) (\<lambda>(need_delete, _).
     pbind (plift (WUnLock leaf)) (\<lambda>_.
     pbind (plift (unpin_node leaf True)) (\<lambda>_.
     pbind (plift (if need_delete then modify (\<lambda>s. s\<lparr>index_deleted_page_set := index_deleted_page_set s @ [leaf]\<rparr>) else ret ())) (\<lambda>_.
     pbind (\<lambda>s. plift (delete_pages (index_deleted_page_set s)) s) (\<lambda>_.
     pbind (plift (modify (\<lambda>s. s\<lparr>index_deleted_page_set := []\<rparr>))) (\<lambda>_. pret False))))))))"

text \<open>\<open>update_node\<close>, which nothing calls.\<close>

partial_function (option) update_node :: "frame_id \<Rightarrow> frame_id \<Rightarrow> (ix_world, unit) pcmd" where
  "update_node parent_node node s =
     (let pos = node_lower_bound (file_hdr s) (node_data parent_node s) (first_key node s) in
      if pos = 0 \<and> \<not> is_root_page (node_data node s) then
        pbind (\<lambda>s. plift (fetch_node (get_parent_page_no (node_data parent_node s))) s) (\<lambda>parent.
        pbind (update_node parent parent_node) (\<lambda>_.
        pbind (\<lambda>s. plift (poke parent_node (set_key (file_hdr s) pos (first_key node s))) s) (\<lambda>_.
        pbind (plift (unpin_node parent True)) (\<lambda>_. pret ())))) s
      else plift (poke parent_node (set_key (file_hdr s) pos (first_key node s))) s)"

section \<open>Scanning the leaves\<close>

text \<open>A cursor is its position and its end.\<close>

definition ix_scan_is_end :: "Iid \<times> Iid \<Rightarrow> bool" where
  "ix_scan_is_end c \<longleftrightarrow> fst c = snd c"

definition ix_scan_next :: "Iid \<times> Iid \<Rightarrow> (ix_world, Iid \<times> Iid) rcmd" where
  "ix_scan_next c =
     (if ix_scan_is_end c then throw (AssertionFailure ''!is_end()'')
      else bindc (fetch_node (iid_page_no (fst c))) (\<lambda>node.
           bindc (RLock node) (\<lambda>_ s.
           if \<not> is_leaf_page (node_data node s) then (Inl (AssertionFailure ''node->is_leaf_page()''), s)
           else if \<not> iid_slot_no (fst c) < node_size node s then (Inl (AssertionFailure ''iid_.slot_no < node->get_size()''), s)
           else let slot = iid_slot_no (fst c) + 1;
                    iid = (if iid_page_no (fst c) \<noteq> last_leaf (file_hdr s) \<and> slot = node_size node s
                           then Iid (get_next_leaf (node_data node s)) 0 else Iid (iid_page_no (fst c)) slot)
                in bindc (RUnLock node) (\<lambda>_. ret (iid, snd c)) s)))"

definition ix_scan_rid :: "Iid \<times> Iid \<Rightarrow> (ix_world, rid) rcmd" where
  "ix_scan_rid c = ix_get_rid (fst c)"

end
