(* ===== verification/Ix_Search.thy ===== *)
theory Ix_Search
  imports Ix_Tree
begin

text \<open>
  Searching a B+ tree of any height. A tree of pages represents a map from the values of keys to
  record identifiers; \<open>get_value\<close> goes down from the root, one page pinned and latched at a time, and
  delivers what the map holds, leaving pages, pins and latches as they were.
\<close>

section \<open>One page of an idle file\<close>

text \<open>Nobody has a page of the file pinned but those of a set; all known pages are in the pool.\<close>

definition unpinned :: "bpm \<Rightarrow> int \<Rightarrow> int set \<Rightarrow> bool" where
  "unpinned b fd X \<longleftrightarrow> (\<forall>q g. frame_of b (PageId fd q) = Some g \<longrightarrow> q \<notin> X \<longrightarrow> p_pin (pages b ! g) = 0)"

definition all_cached :: "bpm \<Rightarrow> int \<Rightarrow> bool" where
  "all_cached b fd \<longleftrightarrow> (\<forall>q. content b (PageId fd q) \<noteq> None \<longrightarrow> frame_of b (PageId fd q) \<noteq> None)"

lemma fetch_unpinned:
  assumes p: "pool_ok b" and i: "unpinned b fd {}" and ft: "fetch_page (PageId fd p) b = (Inr (Some f), b')"
  shows "unpinned b' fd {p}" "p_pin (pages b' ! f) = 1"
proof -
  note w = pool_ok_wf(1) [OF p]
  have "unpinned b' fd {p} \<and> p_pin (pages b' ! f) = 1"
  proof (cases "frame_of b (PageId fd p)")
    case (Some g)
    then have b': "g = f" "b' = pin_frame f b" using ft by (auto simp: fetch_page_hit)
    have f: "f < length (pages b)" using bp_wf_mapped(1) [OF w Some] bp_wf_basic(1) [OF w] b'(1) by simp
    have "h \<noteq> f" if "frame_of b (PageId fd q) = Some h" "q \<noteq> p" for q h
      using frame_unique [OF w that(1), of "PageId fd p"] Some b'(1) that(2) by auto
    then show ?thesis using i Some f b' by (auto simp: unpinned_def pin_frame_def nth_upd)
  next
    case None
    from w None ft obtain fl r d buf where v: "victim_of b f fl r" and b': "b' = install f (PageId fd p) buf d fl r b"
      by (rule fetch_page_miss)
    have f: "f < length (pages b)" using v bp_wf_basic(1) [OF w] by (simp add: victim_of_def)
    have "p_pin (pages b' ! h) = 0" if h: "frame_of b' (PageId fd q) = Some h" and q: "q \<noteq> p" for q h
    proof -
      from h q have m: "frame_of b (PageId fd q) = Some h" "PageId fd q \<noteq> p_id (pages b ! f)"
        by (auto simp: b' install_frame_of [OF None] split: if_splits)
      have "h \<noteq> f" by (rule victim_other [OF w v m])
      with m(1) i show ?thesis by (auto simp: unpinned_def b')
    qed
    with f show ?thesis by (auto simp: unpinned_def b')
  qed
  then show "unpinned b' fd {p}" "p_pin (pages b' ! f) = 1" by simp_all
qed

lemma fetch_cached:
  assumes "pool_ok b" and "all_cached b fd" and "content b (PageId fd p) \<noteq> None"
  obtains f where "fetch_page (PageId fd p) b = (Inr (Some f), pin_frame f b)" "all_cached (pin_frame f b) fd"
proof -
  from assms obtain f where f: "frame_of b (PageId fd p) = Some f" by (auto simp: all_cached_def)
  note w = pool_ok_wf(1) [OF assms(1)]
  have "f < length (pages b)" using bp_wf_mapped(1) [OF w f] bp_wf_basic(1) [OF w] by simp
  then have "content (pin_frame f b) q = content b q" for q
    by (cases "frame_of b q") (auto simp: content_def pin_frame_def nth_upd)
  then have "all_cached (pin_frame f b) fd" using assms(2) by (simp add: all_cached_def pin_frame_def)
  with f show thesis by (intro that) (simp_all add: fetch_page_hit)
qed

lemma unpin_idle:
  assumes p: "pinned_at b (PageId fd p) f" and one: "p_pin (pages b ! f) = 1" and u: "unpinned b fd {p}"
    and cl: "dirty \<or> p_dirty (pages b ! f) \<or> page_at b (PageId fd p) = Some (p_data (pages b ! f))"
    and r: "unpin_page (PageId fd p) dirty b = (r, b')"
  shows "pool_ok b'" "content b' = content b" "page_table b' = page_table b" "bp_disk b' = bp_disk b"
    "unpinned b' fd {}" "r" "p_id (pages b' ! f) = PageId fd p" "p_data (pages b' ! f) = p_data (pages b ! f)"
proof -
  note us = unpin_session_any [OF p r cl]
  show "pool_ok b'" "content b' = content b" "page_table b' = page_table b" "bp_disk b' = bp_disk b" "r"
    "p_id (pages b' ! f) = PageId fd p" "p_data (pages b' ! f) = p_data (pages b ! f)" using us by simp_all
  note w = pool_ok_wf(1) [OF pinned_ok [OF p]] and pf = pinned_frame [OF p]
  have pin: "p_pin (pages b ! f) \<noteq> 0" using one by simp
  note a = unpin_page_adjust [OF w pf(5) pin, of dirty]
  show "unpinned b' fd {}" unfolding unpinned_def
  proof (intro allI impI)
    fix q g assume g: "frame_of b' (PageId fd q) = Some g"
    then have "frame_of b (PageId fd q) = Some g" using us(3) by simp
    with a r one u pf frame_unique [OF w, of "PageId fd q" g "PageId fd p"] show "p_pin (pages b' ! g) = 0"
      by (cases "q = p") (auto simp: adjust_def unpinned_def nth_list_update)
  qed
qed

text \<open>A second release of the same page does nothing.\<close>

lemma unpin_again: "unpinned b fd {} \<Longrightarrow> unpin_page (PageId fd p) dirty b = (False, b)"
  by (auto simp: unpin_page_def unpinned_def split: option.split)

section \<open>The pages of a tree\<close>

text \<open>
  The tree of height \<open>n\<close> below a page, over the contents of the pages, and the map it represents. The
  keys below the child \<open>i\<close> of an inner node lie between key \<open>i\<close> (the first child has no lower bound)
  and key \<open>i + 1\<close>.
\<close>

definition inner_bounds :: "IxFileHdr \<Rightarrow> byte list \<Rightarrow> (int list list \<rightharpoonup> rid) list \<Rightarrow> bool" where
  "inner_bounds h d ms \<longleftrightarrow> (\<forall>i < length ms. \<forall>k \<in> dom (ms ! i).
     (0 < i \<longrightarrow> key_value h (get_key h d i) \<le> k) \<and> (i + 1 < length ms \<longrightarrow> k < key_value h (get_key h d (i + 1))))"

fun tree_at :: "IxFileHdr \<Rightarrow> int \<Rightarrow> (page_id \<rightharpoonup> byte list) \<Rightarrow> nat \<Rightarrow> int \<Rightarrow> (int list list \<rightharpoonup> rid) \<Rightarrow> bool" where
  "tree_at h fd C 0 p m \<longleftrightarrow> p \<noteq> INVALID_PAGE_ID \<and>
     (\<exists>d. C (PageId fd p) = Some d \<and> node_ok h d \<and> node_sorted h d \<and> is_leaf_page d \<and> m = node_map h d)"
| "tree_at h fd C (Suc n) p m \<longleftrightarrow> p \<noteq> INVALID_PAGE_ID \<and>
     (\<exists>d ms. C (PageId fd p) = Some d \<and> node_ok h d \<and> node_sorted h d \<and> \<not> is_leaf_page d \<and> ms \<noteq> [] \<and> get_size d = int (length ms) \<and>
        (\<forall>i < length ms. tree_at h fd C n (value_at h d i) (ms ! i)) \<and> inner_bounds h d ms \<and> m = foldr (++) ms Map.empty)"

lemma tree_at_mono: "tree_at h fd C n p m \<Longrightarrow> C \<subseteq>\<^sub>m C' \<Longrightarrow> tree_at h fd C' n p m"
proof (induction n arbitrary: p m)
  case 0
  then show ?case by (auto simp: map_le_def dom_def)
next
  case (Suc n)
  from Suc.prems obtain d ms where d: "p \<noteq> INVALID_PAGE_ID" "C (PageId fd p) = Some d" "node_ok h d" "node_sorted h d" "\<not> is_leaf_page d"
    "ms \<noteq> []" "get_size d = int (length ms)" "\<forall>i < length ms. tree_at h fd C n (value_at h d i) (ms ! i)" "inner_bounds h d ms"
    "m = foldr (++) ms Map.empty"
    by auto
  from d(2) Suc.prems(2) have "C' (PageId fd p) = Some d" by (metis map_le_def domI)
  with d Suc.IH [OF _ Suc.prems(2)] show ?case by auto
qed

lemma map_add_at: "(m ++ n) k = (case n k of None \<Rightarrow> m k | Some x \<Rightarrow> Some x)"
  by (simp add: map_add_def)

lemma foldr_map_add_only:
  "i < length ms \<Longrightarrow> (\<And>j. j < length ms \<Longrightarrow> j \<noteq> i \<Longrightarrow> (ms ! j) k = None) \<Longrightarrow> foldr (++) ms Map.empty k = (ms ! i) k"
proof (induction ms arbitrary: i)
  case (Cons a ms)
  note step = map_add_at [of a "foldr (++) ms Map.empty" k]
  show ?case
  proof (cases i)
    case 0
    have "foldr (++) ms Map.empty k = None"
    proof -
      have "\<forall>x \<in> set ms. x k = None" using Cons.prems(2) [of "Suc _"] 0 by (auto simp: in_set_conv_nth)
      then show ?thesis by (induction ms) (simp_all add: map_add_None)
    qed
    then show ?thesis using 0 step by simp
  next
    case (Suc i')
    have "foldr (++) ms Map.empty k = (ms ! i') k"
      by (rule Cons.IH) (use Cons.prems(1) Cons.prems(2) [of "Suc _"] Suc in auto)
    moreover have "a k = None" using Cons.prems(2) [of 0] Suc by simp
    ultimately show ?thesis using Suc step by (simp split: option.splits)
  qed
qed simp

lemma node_keys_mono:
  assumes "node_sorted h d" and "i \<le> j" and "j < nat (get_size d)"
  shows "key_value h (get_key h d i) \<le> key_value h (get_key h d j)"
proof (cases "i = j")
  case False
  then show ?thesis
    using assms sorted_wrt_nth_less [of "(<)" "map (key_value h) (node_keys h d)" i j]
    by (simp add: node_sorted_def ix.ascending_def)
qed simp

text \<open>The child \<open>internal_lookup\<close> leads to is the one below which the key is, if anywhere.\<close>

lemma lookup_child:
  assumes s: "node_sorted h d" and n: "ms \<noteq> []" "get_size d = int (length ms)" and b: "inner_bounds h d ms" and k: "valid_key h k"
  obtains i where "i < length ms" "internal_lookup h d k = value_at h d i"
    "foldr (++) ms Map.empty (key_value h k) = (ms ! i) (key_value h k)"
proof -
  let ?i = "last_not_larger h d k - 1" and ?v = "key_value h k"
  have sz: "0 < get_size d" "nat (get_size d) = length ms" using n by simp_all
  have i: "?i < length ms" "Suc ?i = last_not_larger h d k" using last_not_larger_bound(1) [of h d k] last_not_larger_bound(2) [OF sz(1), of h k] sz(2) by linarith+
  have le: "key_value h (get_key h d j) \<le> ?v \<longleftrightarrow> j \<le> ?i" if "1 \<le> j" "j < length ms" for j
    using last_not_larger_le [OF s k that(1)] that(2) sz(2) i(2) by auto
  show thesis
  proof (rule that [OF i(1)])
    show "internal_lookup h d k = value_at h d ?i" by (simp add: internal_lookup_def node_upper_bound_last)
    show "foldr (++) ms Map.empty ?v = (ms ! ?i) ?v"
    proof (rule foldr_map_add_only [OF i(1)], rule ccontr)
      fix j assume j: "j < length ms" "j \<noteq> ?i" "(ms ! j) ?v \<noteq> None"
      then have bj: "0 < j \<longrightarrow> key_value h (get_key h d j) \<le> ?v" "j + 1 < length ms \<longrightarrow> ?v < key_value h (get_key h d (j + 1))"
        using b by (auto simp: inner_bounds_def dom_def)
      show False
      proof (cases "j < ?i")
        case True
        then have "key_value h (get_key h d (j + 1)) \<le> ?v" using le [of "j + 1"] i(1) by simp
        with bj(2) True i(1) show False by simp
      next
        case False
        with j have "1 \<le> j" "\<not> j \<le> ?i" by simp_all
        with le [of j] j(1) bj(1) show False by simp
      qed
    qed
  qed
qed

section \<open>Going down\<close>

text \<open>The index at rest, and with one of its pages pinned.\<close>

definition pool_idle :: "bool \<Rightarrow> ix_world \<Rightarrow> bool" where
  "pool_idle G s \<longleftrightarrow> pool_ok (ix_bpm s) \<and> unpinned (ix_bpm s) (ix_fd s) {} \<and> (G \<longrightarrow> all_cached (ix_bpm s) (ix_fd s))"

definition at_page :: "bool \<Rightarrow> int \<Rightarrow> byte list \<Rightarrow> frame_id \<Rightarrow> ix_world \<Rightarrow> bool" where
  "at_page G p d f s \<longleftrightarrow> (let b = ix_bpm s; pid = PageId (ix_fd s) p in
     pinned_at b pid f \<and> p_pin (pages b ! f) = 1 \<and> (p_dirty (pages b ! f) \<or> page_at b pid = Some (p_data (pages b ! f))) \<and>
     unpinned b (ix_fd s) {p} \<and> p_data (pages b ! f) = d \<and> (G \<longrightarrow> all_cached b (ix_fd s)))"

definition pool_grows :: "ix_world \<Rightarrow> ix_world \<Rightarrow> bool" where
  "pool_grows s t \<longleftrightarrow> t = s\<lparr>ix_bpm := ix_bpm t\<rparr> \<and> content (ix_bpm s) \<subseteq>\<^sub>m content (ix_bpm t)"

lemma at_page_reads: "at_page G p d f s \<Longrightarrow> node_data f s = d" "at_page G p d f s \<Longrightarrow> node_page_id f s = PageId (ix_fd s) p"
  by (auto simp: at_page_def Let_def node_data_def node_page_id_def pinned_frame)

lemma at_page_latch [simp]:
  "at_page G p d f (s\<lparr>rwlock := l\<rparr>) = at_page G p d f s" "at_page G p d f (s\<lparr>root_latch := x\<rparr>) = at_page G p d f s"
  "pool_idle G (s\<lparr>rwlock := l\<rparr>) = pool_idle G s" "pool_idle G (s\<lparr>root_latch := x\<rparr>) = pool_idle G s"
  by (simp_all add: at_page_def pool_idle_def)

lemma fetch_node_run:
  "fetch_node p s = (case fetch_page (PageId (ix_fd s) p) (ix_bpm s) of (r, b) \<Rightarrow>
     (case r of Inl e \<Rightarrow> Inl e | Inr None \<Rightarrow> Inl (UndefinedBehaviour ''page->get_data()'') | Inr (Some f) \<Rightarrow> Inr f, s\<lparr>ix_bpm := b\<rparr>))"
  by (simp add: fetch_node_def in_ix_pool_def zoom_def bindc_def split: prod.split sum.split option.split)

lemma fetch_node_ends:
  assumes i: "pool_idle G s" and c: "content (ix_bpm s) (PageId (ix_fd s) p) = Some d" and n: "p \<noteq> INVALID_PAGE_ID"
  shows "ends (plift (fetch_node p)) s G (\<lambda>f t. at_page G p d f t \<and> pool_grows s t)"
proof -
  let ?pid = "PageId (ix_fd s) p"
  have ok: "pool_ok (ix_bpm s)" "unpinned (ix_bpm s) (ix_fd s) {}" using i by (simp_all add: pool_idle_def)
  have hit: "at_page G p d f (s\<lparr>ix_bpm := b\<rparr>) \<and> pool_grows s (s\<lparr>ix_bpm := b\<rparr>)"
    if ft: "fetch_page ?pid (ix_bpm s) = (Inr (Some f), b)" and g: "G \<Longrightarrow> all_cached b (ix_fd s)" for f b
  proof -
    have n': "pid_page_no ?pid \<noteq> INVALID_PAGE_ID" using n by simp
    note fs = fetch_session [OF ok(1) n' ft] and fu = fetch_unpinned [OF ok ft]
    have "content b ?pid = Some d" using fs(2) c by (metis map_le_def domI)
    then have "p_data (pages b ! f) = d" using pinned_frame(4) [OF fs(1)] by simp
    then show ?thesis
      using fs(1,2) fu g fetch_clean [OF pool_ok_wf [OF ok(1)] ft fu(2)] by (simp add: at_page_def pool_grows_def)
  qed
  show ?thesis
  proof (cases G)
    case True
    then have "all_cached (ix_bpm s) (ix_fd s)" using i by (simp add: pool_idle_def)
    then obtain f where "fetch_page ?pid (ix_bpm s) = (Inr (Some f), pin_frame f (ix_bpm s))" "all_cached (pin_frame f (ix_bpm s)) (ix_fd s)"
      using fetch_cached [OF ok(1), of "ix_fd s" p] c by auto
    with hit show ?thesis by (simp add: fetch_node_run)
  next
    case False
    with hit show ?thesis by (simp add: fetch_node_run split: prod.split sum.split option.split)
  qed
qed

lemma unpin_node_run:
  "unpin_node f dirty s = (case unpin_page (node_page_id f s) dirty (ix_bpm s) of (r, b) \<Rightarrow> (Inr r, s\<lparr>ix_bpm := b\<rparr>))"
  by (simp add: unpin_node_def in_ix_pool_def zoom_def split: prod.split)

lemma unpin_node_idle:
  assumes a: "at_page G p d f s"
  obtains t where "unpin_node f False s = (Inr True, t)" "pool_idle G t" "pool_grows s t" "node_page_id f t = PageId (ix_fd t) p" "node_data f t = d"
    "content (ix_bpm t) = content (ix_bpm s)"
proof -
  obtain r b where u: "unpin_page (PageId (ix_fd s) p) False (ix_bpm s) = (r, b)" by fastforce
  have h: "pinned_at (ix_bpm s) (PageId (ix_fd s) p) f" "p_pin (pages (ix_bpm s) ! f) = 1" "unpinned (ix_bpm s) (ix_fd s) {p}"
    "False \<or> p_dirty (pages (ix_bpm s) ! f) \<or> page_at (ix_bpm s) (PageId (ix_fd s) p) = Some (p_data (pages (ix_bpm s) ! f))"
    "p_data (pages (ix_bpm s) ! f) = d" "G \<longrightarrow> all_cached (ix_bpm s) (ix_fd s)"
    using a unfolding at_page_def Let_def by blast+
  note k = unpin_idle [OF h(1-4) u]
  let ?t = "s\<lparr>ix_bpm := b\<rparr>"
  show thesis
  proof (rule that [of ?t])
    show "unpin_node f False s = (Inr True, ?t)" using u k(6) by (simp add: unpin_node_run at_page_reads(2) [OF a])
    show "pool_idle G ?t" using k h(6) by (simp add: pool_idle_def all_cached_def)
    show "pool_grows s ?t" using k(2) by (simp add: pool_grows_def)
    show "node_page_id f ?t = PageId (ix_fd ?t) p" "node_data f ?t = d" using k(7,8) h(5) by (simp_all add: node_page_id_def node_data_def)
    show "content (ix_bpm ?t) = content (ix_bpm s)" using k(2) by simp
  qed
qed

lemma unpin_node_again:
  "pool_idle G s \<Longrightarrow> node_page_id f s = PageId (ix_fd s) p \<Longrightarrow> unpin_node f False s = (Inr False, s)"
  by (simp add: unpin_node_run unpin_again pool_idle_def)

lemma plift_bindc: "plift (bindc m f) = pbind (plift m) (\<lambda>a. plift (f a))"
  by (rule ext) (auto simp: plift_def pbind_def bindc_def split: prod.split sum.split)

text \<open>Reading a page: it is pinned and read-latched, and nothing else is.\<close>

definition no_latch :: "ix_world \<Rightarrow> bool" where
  "no_latch s \<longleftrightarrow> \<not> root_latch s \<and> rwlock s = (\<lambda>_. Unlocked)"

lemma no_latchD: "no_latch s \<Longrightarrow> rwlock s = (\<lambda>_. Unlocked)"
  by (simp add: no_latch_def)

definition reading :: "bool \<Rightarrow> ix_world \<Rightarrow> int \<Rightarrow> byte list \<Rightarrow> frame_id \<Rightarrow> ix_world \<Rightarrow> bool" where
  "reading G s0 p d f s \<longleftrightarrow> at_page G p d f s \<and> content (ix_bpm s0) \<subseteq>\<^sub>m content (ix_bpm s) \<and>
     s = s0\<lparr>ix_bpm := ix_bpm s, rwlock := (\<lambda>_. Unlocked)(f := ReadLocked)\<rparr>"

lemma reading_same: "reading G s0 p d f s \<Longrightarrow> file_hdr s = file_hdr s0 \<and> ix_fd s = ix_fd s0 \<and> node_data f s = d"
  unfolding reading_def using at_page_reads(1) [of G p d f s]
  by (metis ix_world.select_convs(1,2) ix_world.surjective ix_world.update_convs(3,5))

text \<open>Releasing a page that is read gives back the world as it was, with perhaps more pages known.\<close>

lemma stop_reading:
  assumes r: "reading G s0 p d f s" and l: "no_latch s0"
  obtains t where "unpin_node f False s = (Inr True, t)" "RUnLock f t = (Inr (), t\<lparr>rwlock := \<lambda>_. Unlocked\<rparr>)"
    "RUnLock f s = (Inr (), s\<lparr>rwlock := \<lambda>_. Unlocked\<rparr>)"
    "unpin_node f False (s\<lparr>rwlock := \<lambda>_. Unlocked\<rparr>) = (Inr True, t\<lparr>rwlock := \<lambda>_. Unlocked\<rparr>)"
    "pool_idle G (t\<lparr>rwlock := \<lambda>_. Unlocked\<rparr>)" "pool_grows s0 (t\<lparr>rwlock := \<lambda>_. Unlocked\<rparr>)" "node_page_id f t = PageId (ix_fd t) p"
    "content (ix_bpm t) = content (ix_bpm s)" "ix_fd t = ix_fd s"
proof -
  have a: "at_page G p d f s" and s: "s = s0\<lparr>ix_bpm := ix_bpm s, rwlock := (\<lambda>_. Unlocked)(f := ReadLocked)\<rparr>"
    and c: "content (ix_bpm s0) \<subseteq>\<^sub>m content (ix_bpm s)" using r by (auto simp: reading_def)
  obtain t where t: "unpin_node f False s = (Inr True, t)" "pool_idle G t" "pool_grows s t" "node_page_id f t = PageId (ix_fd t) p" "content (ix_bpm t) = content (ix_bpm s)"
    using a by (rule unpin_node_idle)
  have ts: "t = s\<lparr>ix_bpm := ix_bpm t\<rparr>" using t(3) by (simp add: pool_grows_def)
  have w: "rwlock s = (\<lambda>_. Unlocked)(f := ReadLocked)" by (subst s) simp
  have wt: "rwlock t = (\<lambda>_. Unlocked)(f := ReadLocked)" by (subst ts) (simp add: w)
  have g: "t\<lparr>rwlock := \<lambda>_. Unlocked\<rparr> = s0\<lparr>ix_bpm := ix_bpm t\<rparr>"
    using l by (subst ts, subst s) (simp add: no_latch_def)
  show thesis
  proof (rule that [OF t(1)])
    show "RUnLock f t = (Inr (), t\<lparr>rwlock := \<lambda>_. Unlocked\<rparr>)" "RUnLock f s = (Inr (), s\<lparr>rwlock := \<lambda>_. Unlocked\<rparr>)"
      by (simp_all add: move_latch_def w wt fun_upd_idem_iff)
    show "unpin_node f False (s\<lparr>rwlock := \<lambda>_. Unlocked\<rparr>) = (Inr True, t\<lparr>rwlock := \<lambda>_. Unlocked\<rparr>)"
      using t(1) by (auto simp: unpin_node_run node_page_id_def split: prod.splits)
    show "pool_idle G (t\<lparr>rwlock := \<lambda>_. Unlocked\<rparr>)" using t(2) by simp
    show "pool_grows s0 (t\<lparr>rwlock := \<lambda>_. Unlocked\<rparr>)"
      unfolding g using c t(3) by (simp add: pool_grows_def) (metis map_le_trans)
    show "node_page_id f t = PageId (ix_fd t) p" "content (ix_bpm t) = content (ix_bpm s)" by (rule t(4), rule t(5))
    show "ix_fd t = ix_fd s" by (subst ts) simp
  qed
qed

lemma start_latch:
  assumes a: "at_page G p d f u" and g: "pool_grows s0 u" and l: "rwlock s0 = (\<lambda>_. Unlocked)"
  shows "RLock f u = (Inr (), u\<lparr>rwlock := (\<lambda>_. Unlocked)(f := ReadLocked)\<rparr>)" "reading G s0 p d f (u\<lparr>rwlock := (\<lambda>_. Unlocked)(f := ReadLocked)\<rparr>)"
proof -
  have s: "u = s0\<lparr>ix_bpm := ix_bpm u\<rparr>" using g by (simp add: pool_grows_def)
  then have "rwlock u = (\<lambda>_. Unlocked)" using l by (metis ix_world.select_convs(5) ix_world.surjective ix_world.update_convs(3))
  then show "RLock f u = (Inr (), u\<lparr>rwlock := (\<lambda>_. Unlocked)(f := ReadLocked)\<rparr>)" by (simp add: move_latch_def)
  have "u\<lparr>rwlock := (\<lambda>_. Unlocked)(f := ReadLocked)\<rparr> = s0\<lparr>ix_bpm := ix_bpm u, rwlock := (\<lambda>_. Unlocked)(f := ReadLocked)\<rparr>"
    by (subst s) simp
  then show "reading G s0 p d f (u\<lparr>rwlock := (\<lambda>_. Unlocked)(f := ReadLocked)\<rparr>)"
    using a g unfolding reading_def at_page_latch by (simp add: pool_grows_def)
qed

lemma pool_grows_trans: "pool_grows s t \<Longrightarrow> pool_grows t u \<Longrightarrow> pool_grows s u"
  unfolding pool_grows_def by (metis ix_world.surjective ix_world.update_convs(3) map_le_trans)

lemma start_reading:
  assumes i: "pool_idle G t" and g: "pool_grows s0 t" and l: "rwlock s0 = (\<lambda>_. Unlocked)" and n: "p \<noteq> INVALID_PAGE_ID"
    and c: "content (ix_bpm t) (PageId (ix_fd t) p) = Some d"
  shows "ends (pbind (plift (fetch_node p)) (\<lambda>f. pbind (plift (RLock f)) (\<lambda>_. pret f))) t G (\<lambda>f s. reading G s0 p d f s)"
proof (rule ends_pbind [OF fetch_node_ends [OF i c n]], elim conjE)
  fix f u assume a: "at_page G p d f u" and u: "pool_grows t u"
  note st = start_latch [OF a pool_grows_trans [OF g u] l]
  show "ends (pbind (plift (RLock f)) (\<lambda>_. pret f)) u G (\<lambda>f s. reading G s0 p d f s)"
    by (rule ends_pbind [where R = "\<lambda>_ s. reading G s0 p d f s"]) (use st in simp_all)
qed

lemma descend_step_ends:
  assumes r: "reading G s0 p d f s" and l: "no_latch s0" and n: "c \<noteq> INVALID_PAGE_ID"
    and c: "c = internal_lookup (file_hdr s0) d key" and e: "content (ix_bpm s) (PageId (ix_fd s) c) = Some e"
  shows "ends (plift (descend_step key FIND txn f False)) s G (\<lambda>x t. snd x = False \<and> reading G s0 c e (fst x) t)"
proof -
  obtain t where t: "unpin_node f False s = (Inr True, t)" "RUnLock f t = (Inr (), t\<lparr>rwlock := \<lambda>_. Unlocked\<rparr>)"
    "pool_idle G (t\<lparr>rwlock := \<lambda>_. Unlocked\<rparr>)" "pool_grows s0 (t\<lparr>rwlock := \<lambda>_. Unlocked\<rparr>)" "node_page_id f t = PageId (ix_fd t) p"
    "content (ix_bpm t) = content (ix_bpm s)" "ix_fd t = ix_fd s"
    using stop_reading [OF r l] by metis
  let ?t = "t\<lparr>rwlock := \<lambda>_. Unlocked\<rparr>"
  have again: "unpin_node f False ?t = (Inr False, ?t)"
    by (rule unpin_node_again [OF t(3)]) (use t(5) in \<open>simp add: node_page_id_def\<close>)
  have e': "content (ix_bpm ?t) (PageId (ix_fd ?t) c) = Some e" using e t(6,7) by simp
  have ch: "internal_lookup (file_hdr s) (node_data f s) key = c" using reading_same [OF r] c by simp
  have run: "descend_step key FIND txn f False s = bindc (fetch_node c) (\<lambda>g. bindc (RLock g) (\<lambda>_. ret (g, False))) ?t"
    unfolding descend_step_def Let_def ch using t(1,2) again by (simp add: bindc_def)
  from start_reading [OF t(3,4) no_latchD [OF l] n e']
  have "ends (plift (bindc (fetch_node c) (\<lambda>g. bindc (RLock g) (\<lambda>_. ret (g, False))))) ?t G (\<lambda>x t. snd x = False \<and> reading G s0 c e (fst x) t)"
    by (auto simp: plift_def pbind_def ends_def bindc_def pret_def split: prod.splits sum.splits)
  then show ?thesis by (simp add: run)
qed


text \<open>
  From a page of the tree the descent comes to the leaf where the key is, if it is below that page.
\<close>

definition leaf_for :: "IxFileHdr \<Rightarrow> byte list \<Rightarrow> (int list list \<rightharpoonup> rid) \<Rightarrow> byte list \<Rightarrow> bool" where
  "leaf_for h key m d \<longleftrightarrow> node_ok h d \<and> node_sorted h d \<and> is_leaf_page d \<and> node_map h d (key_value h key) = m (key_value h key)"

lemma descend_ends:
  assumes "tree_at (file_hdr s0) (ix_fd s0) (content (ix_bpm s0)) n p m" and "content (ix_bpm s0) (PageId (ix_fd s0) p) = Some d"
    and "reading G s0 p d f s" and "no_latch s0" and "valid_key (file_hdr s0) key"
  shows "ends (descend key FIND txn f False) s G (\<lambda>x t. \<exists>q e. reading G s0 q e (fst x) t \<and> leaf_for (file_hdr s0) key m e)"
  using assms
proof (induction n arbitrary: p m d f s)
  case 0
  then have "leaf_for (file_hdr s0) key m d" by (auto simp: leaf_for_def)
  moreover have "is_leaf_page (node_data f s)" using 0 reading_same [OF "0.prems"(3)] by auto
  ultimately show ?case using "0.prems"(3) by (subst descend.simps) (auto simp: ends_def descend.simps)
next
  case (Suc n)
  let ?h = "file_hdr s0" and ?fd = "ix_fd s0" and ?C = "content (ix_bpm s0)"
  obtain ms where d: "node_sorted ?h d" "\<not> is_leaf_page d" "ms \<noteq> []" "get_size d = int (length ms)"
    "\<forall>i < length ms. tree_at ?h ?fd ?C n (value_at ?h d i) (ms ! i)" "inner_bounds ?h d ms" "m = foldr (++) ms Map.empty"
    using Suc.prems(1,2) by auto
  obtain i where i: "i < length ms" "internal_lookup ?h d key = value_at ?h d i" "m (key_value ?h key) = (ms ! i) (key_value ?h key)"
    using lookup_child [OF d(1,3,4,6) Suc.prems(5)] d(7) by metis
  define c where "c = value_at ?h d i"
  have tc: "tree_at ?h ?fd ?C n c (ms ! i)" using d(5) i(1) by (simp add: c_def)
  then obtain e where e: "c \<noteq> INVALID_PAGE_ID" "?C (PageId ?fd c) = Some e" by (cases n) auto
  have "content (ix_bpm s) (PageId (ix_fd s) c) = Some e"
    using e(2) Suc.prems(3) reading_same [OF Suc.prems(3)] by (auto simp: reading_def map_le_def dom_def)
  from descend_step_ends [OF Suc.prems(3,4) e(1) _ this, of key txn] i(2)
  have step: "ends (plift (descend_step key FIND txn f False)) s G (\<lambda>x t. snd x = False \<and> reading G s0 c e (fst x) t)" by (simp add: c_def)
  have lf: "leaf_for ?h key (ms ! i) e' = leaf_for ?h key m e'" for e' using i(3) by (simp add: leaf_for_def)
  have "\<not> is_leaf_page (node_data f s)" using d(2) reading_same [OF Suc.prems(3)] by simp
  moreover have "ends (pbind (plift (descend_step key FIND txn f False)) (\<lambda>x. descend key FIND txn (fst x) (snd x))) s G
      (\<lambda>x t. \<exists>q e. reading G s0 q e (fst x) t \<and> leaf_for ?h key m e)"
    by (rule ends_pbind [OF step]) (use Suc.IH [OF tc e(2) _ Suc.prems(4,5)] lf in auto)
  ultimately show ?case unfolding ends_def by (subst descend.simps) simp
qed


lemma find_leaf_ends:
  assumes i: "pool_idle G s0" and l: "no_latch s0" and k: "valid_key (file_hdr s0) key"
    and tr: "tree_at (file_hdr s0) (ix_fd s0) (content (ix_bpm s0)) n (root_page (file_hdr s0)) m"
  shows "ends (find_leaf_page key FIND txn) s0 G (\<lambda>x t. \<exists>q e. reading G s0 q e (fst x) t \<and> leaf_for (file_hdr s0) key m e)"
    (is "ends _ _ _ ?Q")
proof -
  let ?p = "root_page (file_hdr s0)" and ?s = "s0\<lparr>root_latch := True\<rparr>"
  obtain d where d: "?p \<noteq> INVALID_PAGE_ID" "content (ix_bpm s0) (PageId (ix_fd s0) ?p) = Some d" using tr by (cases n) auto
  have lock: "lock_root s0 = (Inr (), ?s)" using l by (simp add: lock_root_def no_latch_def)
  have ft: "ends (plift (fetch_node ?p)) ?s G (\<lambda>f t. at_page G ?p d f t \<and> pool_grows ?s t)"
    by (rule fetch_node_ends) (use i d in simp_all)
  have latched: "ends (plift (bindc (RLock f) (\<lambda>_. unlock_root))) u G (\<lambda>_ t. reading G s0 ?p d f t)"
    if a: "at_page G ?p d f u" and g: "pool_grows ?s u" for f u
  proof -
    let ?w = "u\<lparr>rwlock := (\<lambda>_. Unlocked)(f := ReadLocked)\<rparr>"
    have st: "RLock f u = (Inr (), ?w)" "reading G ?s ?p d f ?w" using start_latch [OF a g] l by (simp_all add: no_latch_def)
    have u: "u = ?s\<lparr>ix_bpm := ix_bpm u\<rparr>" using g by (simp add: pool_grows_def)
    then have rl: "root_latch u" by (metis ix_world.select_convs(4) ix_world.surjective ix_world.update_convs(3,4))
    have "?w\<lparr>root_latch := False\<rparr> = s0\<lparr>ix_bpm := ix_bpm u, rwlock := (\<lambda>_. Unlocked)(f := ReadLocked)\<rparr>"
      using l by (subst u) (simp add: no_latch_def)
    then have "reading G s0 ?p d f (?w\<lparr>root_latch := False\<rparr>)"
      using a g unfolding reading_def at_page_latch by (simp add: pool_grows_def)
    then show ?thesis using st(1) rl by (simp add: bindc_def unlock_root_def)
  qed
  have after: "ends (pbind (descend key FIND txn f False) (\<lambda>x. pbind (plift (pop_leaf FIND)) (\<lambda>_. pret x))) t G ?Q"
    if "reading G s0 ?p d f t" for f t
    by (rule ends_pbind [OF descend_ends [OF tr d(2) that l k]], rule ends_pbind [where R = "\<lambda>_. ?Q _"]) (auto simp: pop_leaf_def)
  have rest: "ends (pbind (plift (bindc (RLock f) (\<lambda>_. unlock_root))) (\<lambda>_. pbind (descend key FIND txn f False)
      (\<lambda>x. pbind (plift (pop_leaf FIND)) (\<lambda>_. pret x)))) u G ?Q" if "at_page G ?p d f u \<and> pool_grows ?s u" for f u
    by (rule ends_pbind [OF latched after]) (use that in simp_all)
  have ft': "ends (\<lambda>s. plift (fetch_node (root_page (file_hdr s))) s) ?s G (\<lambda>f t. at_page G ?p d f t \<and> pool_grows ?s t)"
    using ft by (simp add: ends_def)
  have "ends (pbind (\<lambda>s. plift (fetch_node (root_page (file_hdr s))) s) (\<lambda>root. pbind (plift (bindc (RLock root) (\<lambda>_. unlock_root)))
      (\<lambda>_. pbind (descend key FIND txn root False) (\<lambda>x. pbind (plift (pop_leaf FIND)) (\<lambda>_. pret x))))) ?s G ?Q"
    by (rule ends_pbind [OF ft' rest])
  then show ?thesis unfolding find_leaf_page_def
    by - (rule ends_pbind [where R = "\<lambda>_ s. s = ?s"], simp_all add: lock)
qed

lemma release_leaf_ends:
  assumes "reading G s0 p d f s" and "no_latch s0"
  shows "ends (plift (release_leaf f)) s G (\<lambda>_ t. pool_idle G t \<and> pool_grows s0 t)"
proof -
  obtain t where "RUnLock f s = (Inr (), s\<lparr>rwlock := \<lambda>_. Unlocked\<rparr>)"
    "unpin_node f False (s\<lparr>rwlock := \<lambda>_. Unlocked\<rparr>) = (Inr True, t\<lparr>rwlock := \<lambda>_. Unlocked\<rparr>)"
    "pool_idle G (t\<lparr>rwlock := \<lambda>_. Unlocked\<rparr>)" "pool_grows s0 (t\<lparr>rwlock := \<lambda>_. Unlocked\<rparr>)"
    using stop_reading [OF assms] by metis
  then show ?thesis by (simp add: release_leaf_def bindc_def)
qed

text \<open>Everything that reads a value off the leaf of a key: the value, and the index as it was.\<close>

lemma read_leaf_ends:
  assumes i: "pool_idle G s0" and l: "no_latch s0" and k: "valid_key (file_hdr s0) key"
    and tr: "tree_at (file_hdr s0) (ix_fd s0) (content (ix_bpm s0)) n (root_page (file_hdr s0)) m"
    and v: "\<And>d. leaf_for (file_hdr s0) key m d \<Longrightarrow> g (file_hdr s0) d = v"
  shows "ends (pbind (find_leaf_page key FIND txn) (\<lambda>x s. let y = g (file_hdr s) (node_data (fst x) s) in
      pbind (plift (release_leaf (fst x))) (\<lambda>_. pret y) s)) s0 G (\<lambda>y t. y = v \<and> pool_idle G t \<and> pool_grows s0 t)"
proof (rule ends_pbind [OF find_leaf_ends [OF i l k tr]], elim exE conjE)
  fix x s q e assume r: "reading G s0 q e (fst x) s" and e: "leaf_for (file_hdr s0) key m e"
  have "g (file_hdr s) (node_data (fst x) s) = v" using reading_same [OF r] v [OF e] by simp
  moreover have "ends (pbind (plift (release_leaf (fst x))) (\<lambda>_. pret v)) s G (\<lambda>y t. y = v \<and> pool_idle G t \<and> pool_grows s0 t)"
    by (rule ends_pbind [OF release_leaf_ends [OF r l]]) simp
  ultimately show "ends (\<lambda>s. let y = g (file_hdr s) (node_data (fst x) s) in pbind (plift (release_leaf (fst x))) (\<lambda>_. pret y) s)
      s G (\<lambda>y t. y = v \<and> pool_idle G t \<and> pool_grows s0 t)"
    by (simp add: ends_def)
qed

section \<open>Searching\<close>

text \<open>The index at rest: its pool in order, no page of it pinned, no latch held.\<close>

definition ix_ready :: "ix_world \<Rightarrow> bool" where
  "ix_ready s \<longleftrightarrow> pool_ok (ix_bpm s) \<and> unpinned (ix_bpm s) (ix_fd s) {} \<and> no_latch s"

definition ix_map :: "ix_world \<Rightarrow> nat \<Rightarrow> (int list list \<rightharpoonup> rid) \<Rightarrow> bool" where
  "ix_map s n m \<longleftrightarrow> tree_at (file_hdr s) (ix_fd s) (content (ix_bpm s)) n (root_page (file_hdr s)) m"

lemma ready_idle: "ix_ready s \<Longrightarrow> pool_idle (all_cached (ix_bpm s) (ix_fd s)) s"
  by (simp add: ix_ready_def pool_idle_def)

lemma grows_ready: "ix_ready s \<Longrightarrow> pool_idle G t \<Longrightarrow> pool_grows s t \<Longrightarrow> ix_ready t \<and> file_hdr t = file_hdr s \<and> (ix_map s n m \<longrightarrow> ix_map t n m)"
  unfolding ix_ready_def pool_idle_def pool_grows_def no_latch_def ix_map_def
  by (metis ix_world.select_convs(1,2,4,5) ix_world.surjective ix_world.update_convs(3) tree_at_mono)

lemma leaf_key_exists:
  assumes "leaf_for h key m d" and "valid_key h key"
  shows "list_ex (\<lambda>i. key_compare h key (get_key h d i) = 0) [0..<nat (get_size d)] \<longleftrightarrow> m (key_value h key) \<noteq> None"
proof -
  have d: "node_sorted h d" "node_map h d (key_value h key) = m (key_value h key)" using assms(1) by (simp_all add: leaf_for_def)
  have "key_compare h key (get_key h d i) = 0 \<longleftrightarrow> key_value h key = key_value h (get_key h d i)" if "i < nat (get_size d)" for i
    by (rule ix.cmp_sign(1) [OF assms(2) node_key_valid [OF d(1) that]])
  moreover have "key_value h key \<in> dom (node_map h d) \<longleftrightarrow> (\<exists>i < nat (get_size d). key_value h key = key_value h (get_key h d i))"
    unfolding dom_node_map by (auto simp: node_keys_def)
  ultimately show ?thesis using d(2) by (auto simp: list_ex_iff domIff)
qed

text \<open>
  A search ends. What it returns is \<open>v\<close>, with the index at rest again and representing the same
  map. It returns without an exception if the pages of the index are in the pool.
\<close>

definition answers :: "(ix_world, 'a) pcmd \<Rightarrow> ix_world \<Rightarrow> nat \<Rightarrow> (int list list \<rightharpoonup> rid) \<Rightarrow> 'a \<Rightarrow> bool" where
  "answers c s n m v \<longleftrightarrow> (\<exists>r t. c s = Some (r, t) \<and>
     (\<forall>x. r = Inr x \<longrightarrow> x = v \<and> ix_ready t \<and> file_hdr t = file_hdr s \<and> ix_map t n m) \<and> (all_cached (ix_bpm s) (ix_fd s) \<longrightarrow> \<not> isl r))"

lemma leaf_answers:
  assumes r: "ix_ready s" and t: "ix_map s n m" and k: "valid_key (file_hdr s) key"
    and v: "\<And>d. leaf_for (file_hdr s) key m d \<Longrightarrow> g (file_hdr s) d = v"
    and c: "c = pbind (find_leaf_page key FIND txn) (\<lambda>x s. let y = g (file_hdr s) (node_data (fst x) s) in
      pbind (plift (release_leaf (fst x))) (\<lambda>_. pret y) s)"
  shows "answers c s n m v"
proof -
  let ?G = "all_cached (ix_bpm s) (ix_fd s)"
  have nl: "no_latch s" using r by (simp add: ix_ready_def)
  from t have "tree_at (file_hdr s) (ix_fd s) (content (ix_bpm s)) n (root_page (file_hdr s)) m" by (simp add: ix_map_def)
  from read_leaf_ends [OF ready_idle [OF r] nl k this, of g v txn, OF v]
  have "ends c s ?G (\<lambda>y t. y = v \<and> pool_idle ?G t \<and> pool_grows s t)" unfolding c by simp
  then obtain x w where w: "c s = Some (x, w)" "case x of Inl e \<Rightarrow> \<not> ?G | Inr y \<Rightarrow> y = v \<and> pool_idle ?G w \<and> pool_grows s w"
    unfolding ends_def by blast
  show ?thesis
  proof (cases x)
    case (Inl e)
    with w show ?thesis by (simp add: answers_def)
  next
    case (Inr y)
    with w grows_ready [OF r, of ?G w n m] t show ?thesis by (simp add: answers_def)
  qed
qed

lemma leaf_lookup_for: "leaf_for h key m d \<Longrightarrow> valid_key h key \<Longrightarrow> leaf_lookup h d key = m (key_value h key)"
  using leaf_lookup_map [of h d key] by (simp add: leaf_for_def node_ok_def)

text \<open>
  Property C36. Searching the B+ tree, of any height: on a tree of pages that represents the map \<open>m\<close>,
  \<open>get_value\<close> and \<open>is_key_exist\<close> come to an end, and what they return is what \<open>m\<close> holds for the key; pins
  and latches are released, and the tree still represents \<open>m\<close>. If the pages of the index are in the
  buffer pool, they return without an exception.
\<close>

theorem index_search:
  assumes "ix_ready s" and "ix_map s n m" and "valid_key (file_hdr s) key"
  shows "answers (get_value key) s n m (case m (key_value (file_hdr s) key) of None \<Rightarrow> (False, []) | Some r \<Rightarrow> (True, [r])) \<and>
    answers (is_key_exist key) s n m (m (key_value (file_hdr s) key) \<noteq> None)"
proof
  let ?f = "\<lambda>h d. (leaf_lookup h d key \<noteq> None, case leaf_lookup h d key of None \<Rightarrow> [] | Some r \<Rightarrow> [r])"
  show "answers (get_value key) s n m (case m (key_value (file_hdr s) key) of None \<Rightarrow> (False, []) | Some r \<Rightarrow> (True, [r]))"
    by (rule leaf_answers [OF assms, where g = ?f and txn = False])
      (auto simp: get_value_def case_prod_unfold Let_def leaf_lookup_for [OF _ assms(3)] split: option.split)
  show "answers (is_key_exist key) s n m (m (key_value (file_hdr s) key) \<noteq> None)"
    by (rule leaf_answers [OF assms, where txn = False and
          g = "\<lambda>h d. list_ex (\<lambda>i. key_compare h key (get_key h d i) = 0) [0..<nat (get_size d)]"])
      (simp_all add: is_key_exist_def case_prod_unfold Let_def leaf_key_exists assms(3))
qed

section \<open>An example\<close>

text \<open>A page of an index on one integer column, with two entries.\<close>

definition demo_page :: "bool \<Rightarrow> int \<times> rid \<Rightarrow> int \<times> rid \<Rightarrow> byte list" where
  "demo_page leaf a b =
     replicate 4 0 @ put_int 4 (- 1) @ put_int 4 2 @ [if leaf then 1 else 0] @ replicate 11 0 @
     put_int 4 (fst a) @ put_int 4 (fst b) @ replicate 1348 0 @ rid_bytes (snd a) @ rid_bytes (snd b) @ replicate 2700 0"

lemma demo_page_reads:
  assumes "in_range 4 (fst a)" "in_range 4 (fst b)" "rid_ok (snd a)" "rid_ok (snd b)"
  shows "length (demo_page l a b) = PAGE_SIZE" "get_size (demo_page l a b) = 2" "is_leaf_page (demo_page l a b) = l" "is_root_page (demo_page l a b)"
    "get_key ix_demo_hdr (demo_page l a b) 0 = put_int 4 (fst a)" "get_key ix_demo_hdr (demo_page l a b) (Suc 0) = put_int 4 (fst b)"
    "get_rid ix_demo_hdr (demo_page l a b) 0 = snd a" "get_rid ix_demo_hdr (demo_page l a b) (Suc 0) = snd b"
  using assms
  by (simp_all add: demo_page_def nth_append get_size_def get_key_def get_rid_def int_at_def read_rid_def read_at_def rid_bytes_def ix_demo_hdr_def
        key_off_def rid_off_def key_len_def ix_offs PAGE_SIZE_def in_range_def is_leaf_page_def is_root_page_def get_parent_page_no_def
        INVALID_PAGE_ID_def rid_ok_def)

lemma demo_page_ok:
  assumes "in_range 4 (fst a)" "in_range 4 (fst b)" "rid_ok (snd a)" "rid_ok (snd b)" "fst a < fst b"
  shows "node_ok ix_demo_hdr (demo_page l a b)" "node_sorted ix_demo_hdr (demo_page l a b)"
    "node_map ix_demo_hdr (demo_page l a b) = [[[fst a]] \<mapsto> snd a, [[fst b]] \<mapsto> snd b]"
proof -
  note r = demo_page_reads [OF assms(1-4), of l]
  have k: "node_keys ix_demo_hdr (demo_page l a b) = [put_int 4 (fst a), put_int 4 (fst b)]" "node_rids ix_demo_hdr (demo_page l a b) = [snd a, snd b]"
    by (simp_all add: node_keys_def node_rids_def r upt_conv_Cons)
  show "node_ok ix_demo_hdr (demo_page l a b)" by (simp add: node_ok_def r) (simp add: ix_demo_hdr_def get_max_size_def)
  show "node_sorted ix_demo_hdr (demo_page l a b)" using assms(5) by (simp add: node_sorted_def ix.ascending_def k ix_demo_key assms(1,2))
  show "node_map ix_demo_hdr (demo_page l a b) = [[[fst a]] \<mapsto> snd a, [[fst b]] \<mapsto> snd b]"
    using assms(5) by (simp add: node_map_def k ix_demo_key assms(1,2) fun_upd_twist)
qed

text \<open>An inner root with two leaves below it, on disk; an empty pool.\<close>

definition demo_root :: "byte list" where "demo_root = demo_page False (1, Rid 3 (- 1)) (5, Rid 4 (- 1))"
definition demo_left :: "byte list" where "demo_left = demo_page True (1, Rid 1 0) (3, Rid 1 1)"
definition demo_right :: "byte list" where "demo_right = demo_page True (5, Rid 2 0) (7, Rid 2 1)"

definition pages_disk :: "byte list list \<Rightarrow> disk" where
  "pages_disk ps =
     \<lparr>dm_os = \<lparr>os_files = [''i'' \<mapsto> concat ps], os_fds = [(0, ''i'')], os_other = [], os_denied = (\<lambda>_. False), os_limit = 1000000\<rparr>,
      path2fd = [(''i'', 0)], fd2path = [(0, ''i'')], log_fd = - 1, fd2pageno = (\<lambda>_. int (length ps))\<rparr>"

definition index_on_disk :: "IxFileHdr \<Rightarrow> byte list list \<Rightarrow> ix_world" where
  "index_on_disk h ps =
     \<lparr>ix_fd = 0, file_hdr = h, ix_bpm = BufferPoolManager 0 3 (pages_disk ps), root_latch = False, rwlock = (\<lambda>_. Unlocked),
      index_latch_page_set = [], index_deleted_page_set = []\<rparr>"

lemma concat_page: "\<forall>p \<in> set ps. length p = w \<Longrightarrow> i < length ps \<Longrightarrow> read_at (i * w) w (concat ps) = ps ! i"
proof (induction ps arbitrary: i)
  case (Cons p ps)
  then show ?case by (cases i) (simp_all add: read_at_def)
qed simp

lemma pages_disk_page:
  assumes "\<forall>p \<in> set ps. length p = PAGE_SIZE" and "i < length ps" and "length ps < 1000"
  shows "content (ix_bpm (index_on_disk h ps)) (PageId 0 (int i)) = Some (ps ! i)"
proof -
  have "length (concat ps) = length ps * PAGE_SIZE" using assms(1) by (induction ps) simp_all
  moreover have "i * PAGE_SIZE + PAGE_SIZE \<le> length ps * PAGE_SIZE" using mult_le_mono1 [of "Suc i" "length ps" PAGE_SIZE] assms(2) by simp
  moreover have "in_range 4 (int i * int PAGE_SIZE)" using assms(2,3) by (simp add: in_range_def PAGE_SIZE_def)
  ultimately show ?thesis using concat_page [OF assms(1,2)]
    by (simp add: content_def index_on_disk_def BufferPoolManager_def disk_page_def pages_disk_def os_file_def)
qed

lemma index_on_disk_ready: "ix_ready (index_on_disk h ps)"
proof -
  have "disk_wf (pages_disk ps)" by (simp add: disk_wf_def pages_disk_def)
  then show ?thesis
    using initial_ok by (auto simp: ix_ready_def no_latch_def index_on_disk_def unpinned_def pool_ok_def BufferPoolManager_def new_Page_def)
qed

definition demo_index :: ix_world where
  "demo_index = index_on_disk ix_demo_hdr [replicate PAGE_SIZE 0, replicate PAGE_SIZE 0, demo_root, demo_left, demo_right]"

lemma rid_small [simp]: "- 2147483648 \<le> p \<Longrightarrow> p < 2147483648 \<Longrightarrow> - 2147483648 \<le> i \<Longrightarrow> i < 2147483648 \<Longrightarrow> rid_ok (Rid p i)"
  by (simp add: rid_ok_def in_range_def)

lemmas demo_nodes = demo_root_def demo_left_def demo_right_def demo_page_reads demo_page_ok in_range_def

lemma demo_content:
  "content (ix_bpm demo_index) (PageId 0 2) = Some demo_root" "content (ix_bpm demo_index) (PageId 0 3) = Some demo_left"
  "content (ix_bpm demo_index) (PageId 0 4) = Some demo_right"
  using pages_disk_page [of "[replicate PAGE_SIZE 0, replicate PAGE_SIZE 0, demo_root, demo_left, demo_right]" "2" ix_demo_hdr]
    pages_disk_page [of "[replicate PAGE_SIZE 0, replicate PAGE_SIZE 0, demo_root, demo_left, demo_right]" "3" ix_demo_hdr]
    pages_disk_page [of "[replicate PAGE_SIZE 0, replicate PAGE_SIZE 0, demo_root, demo_left, demo_right]" "4" ix_demo_hdr]
  by (simp_all add: demo_index_def demo_nodes)

lemma demo_index_map:
  "ix_map demo_index 1 ([[[1]] \<mapsto> Rid 1 0, [[3]] \<mapsto> Rid 1 1] ++ [[[5]] \<mapsto> Rid 2 0, [[7]] \<mapsto> Rid 2 1])"
proof -
  let ?l = "[[[1]] \<mapsto> Rid 1 0, [[3]] \<mapsto> Rid 1 1]" and ?r = "[[[5]] \<mapsto> Rid 2 0, [[7]] \<mapsto> Rid 2 1]"
  have h: "file_hdr demo_index = ix_demo_hdr" "ix_fd demo_index = 0" "root_page ix_demo_hdr = 2"
    by (simp_all add: demo_index_def index_on_disk_def ix_demo_hdr_def IX_INIT_ROOT_PAGE_def)
  have leaves: "tree_at ix_demo_hdr 0 (content (ix_bpm demo_index)) 0 3 ?l" "tree_at ix_demo_hdr 0 (content (ix_bpm demo_index)) 0 4 ?r"
    by (simp_all add: demo_content demo_nodes INVALID_PAGE_ID_def)
  have v: "value_at ix_demo_hdr demo_root 0 = 3" "value_at ix_demo_hdr demo_root (Suc 0) = 4" by (simp_all add: value_at_def demo_nodes)
  have b: "inner_bounds ix_demo_hdr demo_root [?l, ?r]"
    by (auto simp: inner_bounds_def demo_nodes less_Suc_eq ix_demo_key split: if_splits)
  have "tree_at ix_demo_hdr 0 (content (ix_bpm demo_index)) (Suc 0) 2 (?l ++ ?r)"
    unfolding tree_at.simps(2)
    by (intro conjI exI [of _ demo_root] exI [of _ "[?l, ?r]"])
      (use leaves v b in \<open>simp_all add: demo_content demo_nodes INVALID_PAGE_ID_def less_Suc_eq all_conj_distrib imp_conjL\<close>)
  then show ?thesis by (simp add: ix_map_def h)
qed

theorem index_search_witness:
  "\<exists>n m. m [[7]] = Some (Rid 2 1) \<and> answers (get_value (put_int 4 7)) demo_index n m (True, [Rid 2 1]) \<and>
     answers (is_key_exist (put_int 4 4)) demo_index n m False"
proof -
  let ?m = "[[[1 :: int]] \<mapsto> Rid 1 0, [[3]] \<mapsto> Rid 1 1] ++ [[[5]] \<mapsto> Rid 2 0, [[7]] \<mapsto> Rid 2 1]"
  have h: "file_hdr demo_index = ix_demo_hdr" by (simp add: demo_index_def index_on_disk_def)
  have r: "ix_ready demo_index" unfolding demo_index_def by (rule index_on_disk_ready)
  have m: "?m [[7]] = Some (Rid 2 1)" by simp
  have "answers (get_value (put_int 4 7)) demo_index 1 ?m (True, [Rid 2 1])"
    using index_search [OF r demo_index_map, of "put_int 4 7"] by (simp add: h ix_demo_key in_range_def)
  moreover have "answers (is_key_exist (put_int 4 4)) demo_index 1 ?m False"
    using index_search [OF r demo_index_map, of "put_int 4 4"] by (simp add: h ix_demo_key in_range_def)
  ultimately show ?thesis using m by (intro exI [of _ 1] exI [of _ ?m]) simp
qed

end
