(* ===== verification/Ix_Update.thy ===== *)
theory Ix_Update
  imports Ix_Search
begin

text \<open>
  Changing an index of one leaf, and what goes wrong on larger ones: \<open>insert_entry\<close> puts an entry into
  the leaf; \<open>delete_entry\<close> removes the entry at the place of the key, whether or not it is the key's;
  merging two nodes below the root follows a null pointer.
\<close>

section \<open>The leaf of a one-leaf index, write-latched\<close>

definition writing :: "bool \<Rightarrow> ix_world \<Rightarrow> int \<Rightarrow> byte list \<Rightarrow> frame_id \<Rightarrow> ix_world \<Rightarrow> bool" where
  "writing G s0 p d f s \<longleftrightarrow> at_page G p d f s \<and> content (ix_bpm s0) \<subseteq>\<^sub>m content (ix_bpm s) \<and>
     s = s0\<lparr>ix_bpm := ix_bpm s, root_latch := True, rwlock := (\<lambda>_. Unlocked)(f := WriteLocked)\<rparr>"

lemma writing_same:
  "writing G s0 p d f s \<Longrightarrow> file_hdr s = file_hdr s0" "writing G s0 p d f s \<Longrightarrow> ix_fd s = ix_fd s0"
  "writing G s0 p d f s \<Longrightarrow> node_data f s = d" "writing G s0 p d f s \<Longrightarrow> root_latch s"
  "writing G s0 p d f s \<Longrightarrow> rwlock s = (\<lambda>_. Unlocked)(f := WriteLocked)"
  "writing G s0 p d f s \<Longrightarrow> index_latch_page_set s = index_latch_page_set s0"
  "writing G s0 p d f s \<Longrightarrow> index_deleted_page_set s = index_deleted_page_set s0"
  "writing G s0 p d f s \<Longrightarrow> node_page_id f s = PageId (ix_fd s0) p"
proof -
  assume w: "writing G s0 p d f s"
  then have s: "s = s0\<lparr>ix_bpm := ix_bpm s, root_latch := True, rwlock := (\<lambda>_. Unlocked)(f := WriteLocked)\<rparr>" by (simp add: writing_def)
  show "file_hdr s = file_hdr s0" "root_latch s" "rwlock s = (\<lambda>_. Unlocked)(f := WriteLocked)"
    "index_latch_page_set s = index_latch_page_set s0" "index_deleted_page_set s = index_deleted_page_set s0" by (subst s, simp)+
  show fd: "ix_fd s = ix_fd s0" by (subst s) simp
  show "node_data f s = d" "node_page_id f s = PageId (ix_fd s0) p" using w at_page_reads [of G p d f s] fd by (simp_all add: writing_def)
qed

definition quiet :: "ix_world \<Rightarrow> bool" where
  "quiet s \<longleftrightarrow> ix_ready s \<and> index_latch_page_set s = [] \<and> index_deleted_page_set s = []"

lemma find_one_leaf:
  assumes q: "quiet s0" and G: "G \<longrightarrow> all_cached (ix_bpm s0) (ix_fd s0)" and op: "operation \<noteq> FIND"
    and p: "root_page (file_hdr s0) = p" "p \<noteq> INVALID_PAGE_ID" and d: "content (ix_bpm s0) (PageId (ix_fd s0) p) = Some d" "is_leaf_page d"
  shows "ends (find_leaf_page key operation True) s0 G (\<lambda>x t. snd x \<and> writing G s0 p d (fst x) t)"
proof -
  let ?s = "s0\<lparr>root_latch := True\<rparr>"
  have r: "ix_ready s0" "index_latch_page_set s0 = []" using q by (simp_all add: quiet_def)
  then have l: "\<not> root_latch s0" "rwlock s0 = (\<lambda>_. Unlocked)" by (simp_all add: ix_ready_def no_latch_def)
  have i: "pool_idle G ?s" using r(1) G by (simp add: pool_idle_def ix_ready_def)
  have ft: "ends (plift (fetch_node p)) ?s G (\<lambda>f t. at_page G p d f t \<and> pool_grows ?s t)"
    by (rule fetch_node_ends [OF i]) (use d p in simp_all)
  have rest: "ends (pbind (plift (bindc (WLock f) (\<lambda>_. append_index_latch_page True f)))
      (\<lambda>_. pbind (descend key operation True f True) (\<lambda>x. pbind (plift (pop_leaf operation)) (\<lambda>_. pret x)))) u G
      (\<lambda>x t. snd x \<and> writing G s0 p d (fst x) t)" if u: "at_page G p d f u \<and> pool_grows ?s u" for f u
  proof -
    have "u = ?s\<lparr>ix_bpm := ix_bpm u\<rparr>" using u unfolding pool_grows_def by blast
    also have "\<dots> = s0\<lparr>ix_bpm := ix_bpm u, root_latch := True\<rparr>" by simp
    finally have us: "u = s0\<lparr>ix_bpm := ix_bpm u, root_latch := True\<rparr>" .
    let ?l = "(\<lambda>_. Unlocked)(f := WriteLocked)"
    let ?v = "u\<lparr>rwlock := ?l, index_latch_page_set := [f]\<rparr>" and ?w = "u\<lparr>rwlock := ?l\<rparr>"
    have "rwlock u = (\<lambda>_. Unlocked)" "index_latch_page_set u = []" by (subst us, simp add: l r(2))+
    then have lk: "bindc (WLock f) (\<lambda>_. append_index_latch_page True f) u = (Inr (), ?v)"
      by (simp add: bindc_def move_latch_def append_index_latch_page_def)
    have "is_leaf_page (node_data f ?v)" using u at_page_reads(1) [of G p d f u] d(2) by (simp add: node_data_def)
    then have de: "descend key operation True f True ?v = Some (Inr (f, True), ?v)" by (subst descend.simps) simp
    have po: "pop_leaf operation ?v = (Inr (), ?w)" using op \<open>index_latch_page_set u = []\<close> by (simp add: pop_leaf_def)
    have "?w = s0\<lparr>ix_bpm := ix_bpm u, root_latch := True, rwlock := ?l\<rparr>" by (subst us) simp
    moreover have "content (ix_bpm s0) \<subseteq>\<^sub>m content (ix_bpm u)" using u by (simp add: pool_grows_def)
    ultimately have "writing G s0 p d f ?w" using u unfolding writing_def at_page_latch by simp
    then show ?thesis using lk de po by (simp add: ends_def pbind_def plift_def pret_def)
  qed
  have ft': "ends (\<lambda>s. plift (fetch_node (root_page (file_hdr s))) s) ?s G (\<lambda>f t. at_page G p d f t \<and> pool_grows ?s t)"
    using ft p(1) by (simp add: ends_def)
  have lock: "lock_root s0 = (Inr (), ?s)" using l by (simp add: lock_root_def)
  from ends_pbind [OF ft' rest] op show ?thesis unfolding find_leaf_page_def
    by - (rule ends_pbind [where R = "\<lambda>_ s. s = ?s"], simp_all add: lock)
qed

text \<open>After new bytes have been written into the page.\<close>

definition edited :: "ix_world \<Rightarrow> int \<Rightarrow> byte list \<Rightarrow> frame_id \<Rightarrow> ix_world \<Rightarrow> bool" where
  "edited s0 p d f s \<longleftrightarrow> s = s0\<lparr>ix_bpm := ix_bpm s, root_latch := True, rwlock := (\<lambda>_. Unlocked)(f := WriteLocked)\<rparr> \<and>
     pinned_at (ix_bpm s) (PageId (ix_fd s0) p) f \<and> p_pin (pages (ix_bpm s) ! f) = 1 \<and> unpinned (ix_bpm s) (ix_fd s0) {p} \<and>
     node_data f s = d"

lemma edited_fields:
  assumes "edited s0 p d f s"
  shows "file_hdr s = file_hdr s0" "node_data f s = d" "node_page_id f s = PageId (ix_fd s0) p"
    "content (ix_bpm s) (PageId (ix_fd s0) p) = Some d" "root_latch s" "rwlock s = (\<lambda>_. Unlocked)(f := WriteLocked)"
proof -
  have s: "s = s0\<lparr>ix_bpm := ix_bpm s, root_latch := True, rwlock := (\<lambda>_. Unlocked)(f := WriteLocked)\<rparr>"
    and p: "pinned_at (ix_bpm s) (PageId (ix_fd s0) p) f" and d: "node_data f s = d" using assms by (simp_all add: edited_def)
  show "file_hdr s = file_hdr s0" "root_latch s" "rwlock s = (\<lambda>_. Unlocked)(f := WriteLocked)" by (subst s, simp)+
  show "node_data f s = d" "node_page_id f s = PageId (ix_fd s0) p" "content (ix_bpm s) (PageId (ix_fd s0) p) = Some d"
    using pinned_frame [OF p] d by (simp_all add: node_data_def node_page_id_def)
qed

lemma writing_edit:
  assumes w: "writing G s0 p d f s" and e: "g d = Inr d'" and l: "length d' = PAGE_SIZE"
  obtains t where "edit_node f g s = (Inr (), t)" "edited s0 p d' f t"
proof -
  note ws = writing_same [OF w]
  have a: "pinned_at (ix_bpm s) (PageId (ix_fd s0) p) f" "p_pin (pages (ix_bpm s) ! f) = 1" "unpinned (ix_bpm s) (ix_fd s0) {p}"
    using w ws(2) unfolding writing_def at_page_def Let_def by auto
  have s: "s = s0\<lparr>ix_bpm := ix_bpm s, root_latch := True, rwlock := (\<lambda>_. Unlocked)(f := WriteLocked)\<rparr>" using w by (simp add: writing_def)
  note ss = store_session [OF a(1) l] and pf = pinned_frame [OF a(1)]
  let ?b = "store_page f d' (ix_bpm s)" let ?t = "s\<lparr>ix_bpm := ?b\<rparr>"
  have pg: "p_pin (pages ?b ! g) = p_pin (pages (ix_bpm s) ! g)" for g
    using pf(1) by (simp add: store_page_def nth_upd)
  have t: "?t = s0\<lparr>ix_bpm := ix_bpm ?t, root_latch := True, rwlock := (\<lambda>_. Unlocked)(f := WriteLocked)\<rparr>" by (subst s) simp
  show thesis
  proof (rule that [of ?t])
    show "edit_node f g s = (Inr (), ?t)" using e ws(3) by (simp add: edit_node_def)
    show "edited s0 p d' f ?t" unfolding edited_def
      by (intro conjI t) (use a ss pg in \<open>simp_all add: unpinned_def node_data_def\<close>)
  qed
qed

text \<open>Giving the leaf and the root latch back.\<close>

lemma edited_release:
  assumes q: "quiet s0" and e: "edited s0 p d f s"
  obtains t u z where "unlock_root s = (Inr (), t)" "unlock_unpin_all_pages True t = (Inr (), t)" "get_page_no f t = p"
    "WUnLock f t = (Inr (), u)" "unpin_node f True u = (Inr True, z)"
    "quiet z" "file_hdr z = file_hdr s0" "ix_fd z = ix_fd s0" "content (ix_bpm z) (PageId (ix_fd s0) p) = Some d"
proof -
  have l: "no_latch s0" "index_latch_page_set s0 = []" "index_deleted_page_set s0 = []" using q by (simp_all add: quiet_def ix_ready_def)
  have s: "s = s0\<lparr>ix_bpm := ix_bpm s, root_latch := True, rwlock := (\<lambda>_. Unlocked)(f := WriteLocked)\<rparr>"
    and a: "pinned_at (ix_bpm s) (PageId (ix_fd s0) p) f" "p_pin (pages (ix_bpm s) ! f) = 1" "unpinned (ix_bpm s) (ix_fd s0) {p}"
    using e by (simp_all add: edited_def)
  note ef = edited_fields [OF e]
  let ?t = "s0\<lparr>ix_bpm := ix_bpm s, rwlock := (\<lambda>_. Unlocked)(f := WriteLocked)\<rparr>" and ?u = "s0\<lparr>ix_bpm := ix_bpm s\<rparr>"
  obtain r b where u: "unpin_page (PageId (ix_fd s0) p) True (ix_bpm s) = (r, b)" by fastforce
  note k = unpin_idle [OF a _ u, simplified]
  have t: "s\<lparr>root_latch := False\<rparr> = ?t" using l by (subst s) (simp add: no_latch_def)
  have u': "?t\<lparr>rwlock := \<lambda>_. Unlocked\<rparr> = ?u" using l by (simp add: no_latch_def)
  show thesis
  proof (rule that [of ?t ?u "s0\<lparr>ix_bpm := b\<rparr>"])
    show "unlock_root s = (Inr (), ?t)" using ef(5) t by (simp add: unlock_root_def)
    show "unlock_unpin_all_pages True ?t = (Inr (), ?t)" using l by (simp add: unlock_unpin_all_pages_def)
    show "get_page_no f ?t = p" using ef(3) by (simp add: get_page_no_def node_page_id_def)
    show "WUnLock f ?t = (Inr (), ?u)" using u' by (simp add: move_latch_def fun_upd_idem)
    show "unpin_node f True ?u = (Inr True, s0\<lparr>ix_bpm := b\<rparr>)"
      using u k(6) ef(3) by (simp add: unpin_node_run node_page_id_def)
    show "quiet (s0\<lparr>ix_bpm := b\<rparr>)" using k l by (simp add: quiet_def ix_ready_def no_latch_def)
  qed (use k ef in simp_all)
qed

section \<open>Inserting into the leaf\<close>

lemma ix_map_leaf:
  "ix_map s 0 m \<longleftrightarrow> root_page (file_hdr s) \<noteq> INVALID_PAGE_ID \<and> (\<exists>d. content (ix_bpm s) (PageId (ix_fd s) (root_page (file_hdr s))) = Some d \<and>
     node_ok (file_hdr s) d \<and> node_sorted (file_hdr s) d \<and> is_leaf_page d \<and> m = node_map (file_hdr s) d)"
  by (simp add: ix_map_def)

text \<open>The bytes of the root page.\<close>

definition root_data :: "ix_world \<Rightarrow> byte list" where
  "root_data s = the (content (ix_bpm s) (PageId (ix_fd s) (root_page (file_hdr s))))"

lemma same_header_fields:
  "same_header d d' \<Longrightarrow> length d = PAGE_SIZE \<Longrightarrow> length d' = PAGE_SIZE \<Longrightarrow> is_leaf_page d' = is_leaf_page d \<and> get_parent_page_no d' = get_parent_page_no d"
proof -
  assume h: "same_header d d'" and l: "length d = PAGE_SIZE" "length d' = PAGE_SIZE"
  have "read_at IS_LEAF_OFF 1 d' = read_at IS_LEAF_OFF 1 d" using h by (simp add: same_header_def ix_offs)
  moreover have "read_at IS_LEAF_OFF 1 x = [x ! IS_LEAF_OFF]" if "length x = PAGE_SIZE" for x :: "byte list"
    using that by (simp add: read_at_def ix_offs PAGE_SIZE_def take_Suc_conv_app_nth nth_via_drop hd_drop_conv_nth take_Suc)
  ultimately have "d' ! IS_LEAF_OFF = d ! IS_LEAF_OFF" using l by simp
  moreover have "read_at PARENT_OFF 4 d' = read_at PARENT_OFF 4 d" using h by (simp add: same_header_def ix_offs)
  ultimately show ?thesis by (simp add: is_leaf_page_def get_parent_page_no_def int_at_def)
qed

lemma insert_one_leaf:
  assumes q: "quiet s" and G: "G \<longrightarrow> all_cached (ix_bpm s) (ix_fd s)" and p: "root_page (file_hdr s) = p" "p \<noteq> INVALID_PAGE_ID"
    and d: "content (ix_bpm s) (PageId (ix_fd s) p) = Some d" "is_leaf_page d"
    and ins: "node_insert (file_hdr s) key r d = Inr (n, d')" and d': "length d' = PAGE_SIZE" "is_root_page d'"
      "get_size d' < get_max_size (file_hdr s)"
  shows "ends (insert_entry key r True) s G (\<lambda>x t. x = p \<and> quiet t \<and> file_hdr t = file_hdr s \<and> ix_fd t = ix_fd s \<and>
    content (ix_bpm t) (PageId (ix_fd s) p) = Some d')"
    (is "ends _ _ _ ?Q")
  unfolding insert_entry_def
proof (rule ends_pbind [OF find_one_leaf [OF q G Operation.distinct(2) p d]], elim conjE)
  fix x w assume x: "snd x" and w: "writing G s p d (fst x) w"
  obtain f where f: "x = (f, True)" "fst x = f" using x by (cases x) simp
  note w = w [unfolded f(2)]
  have ed: "map_sum id snd (node_insert (file_hdr w) key r d) = Inr d'" using ins writing_same(1) [OF w] by simp
  obtain t where t: "edit_node f (\<lambda>d. map_sum id snd (node_insert (file_hdr w) key r d)) w = (Inr (), t)" and et: "edited s p d' f t"
    by (rule writing_edit [OF w, where g = "\<lambda>d. map_sum id snd (node_insert (file_hdr w) key r d)", OF ed d'(1)])
  note ef = edited_fields [OF et]
  have cmd: "node_insert_cmd f key r w = (Inr (), t)" using t by (simp add: node_insert_cmd_def)
  have mp: "maintain_parent f t = Some (Inr (), t)"
    using d'(2) ef(2) by (subst maintain_parent.simps) (simp add: is_root_page_def INVALID_PAGE_ID_def IX_NO_PAGE_def)
  have nf: "\<not> node_full f t" using d'(3) ef(1,2) by (simp add: node_full_def)
  obtain t1 u z where z: "unlock_root t = (Inr (), t1)" "unlock_unpin_all_pages True t1 = (Inr (), t1)" "get_page_no f t1 = p"
    "WUnLock f t1 = (Inr (), u)" "unpin_node f True u = (Inr True, z)"
    "quiet z" "file_hdr z = file_hdr s" "ix_fd z = ix_fd s" "content (ix_bpm z) (PageId (ix_fd s) p) = Some d'"
    using q et by (rule edited_release)
  show "ends (case x of (leaf, rl) \<Rightarrow>
     pbind (plift (node_insert_cmd leaf key r)) (\<lambda>_. pbind (maintain_parent leaf) (\<lambda>_.
     pbind (\<lambda>s. if node_full leaf s
       then pbind (plift (split leaf)) (\<lambda>new. pbind (insert_into_parent leaf new) (\<lambda>_.
            pbind (plift (move_last_leaf leaf new)) (\<lambda>_. plift (unpin_node new True)))) s
       else Some (Inr True, s)) (\<lambda>_.
     pbind (plift (if rl then unlock_root else ret ())) (\<lambda>_. pbind (plift (unlock_unpin_all_pages True)) (\<lambda>_ s.
       let id = get_page_no leaf s in
       pbind (plift (WUnLock leaf)) (\<lambda>_. pbind (plift (unpin_node leaf True)) (\<lambda>_. pret id)) s)))))) w G ?Q"
    using cmd mp nf z by (simp add: f ends_def pbind_def plift_def pret_def Let_def)
qed

text \<open>The facts about the root leaf of a one-leaf index.\<close>

lemma one_leaf:
  assumes "ix_map s 0 m"
  obtains p d where "p = root_page (file_hdr s)" "p \<noteq> INVALID_PAGE_ID" "content (ix_bpm s) (PageId (ix_fd s) p) = Some d" "d = root_data s"
    "node_ok (file_hdr s) d" "node_sorted (file_hdr s) d" "is_leaf_page d" "m = node_map (file_hdr s) d" "length d = PAGE_SIZE"
  using assms by (auto simp: ix_map_leaf root_data_def node_ok_def)

lemma one_leafI:
  "file_hdr t = h \<Longrightarrow> root_page h \<noteq> INVALID_PAGE_ID \<Longrightarrow> content (ix_bpm t) (PageId (ix_fd t) (root_page h)) = Some d \<Longrightarrow>
   node_ok h d \<Longrightarrow> node_sorted h d \<Longrightarrow> is_leaf_page d \<Longrightarrow> m = node_map h d \<Longrightarrow> ix_map t 0 m"
  by (simp add: ix_map_leaf)

lemma node_insert_any:
  assumes "ix_hdr_ok h" and "node_ok h d" and "node_sorted h d" and "valid_key h k" and "rid_ok r"
    and "get_size d + 1 < get_max_size h" and "length d = PAGE_SIZE"
  obtains n d' where "node_insert h k r d = Inr (n, d')" "node_ok h d'" "node_sorted h d'" "same_header d d'" "get_size d' < get_max_size h"
    "node_map h d' = (if node_map h d (key_value h k) = None \<and> \<not> leftover h d k then (node_map h d)(key_value h k \<mapsto> r) else node_map h d)"
proof (cases "node_map h d (key_value h k) = None \<and> \<not> leftover h d k")
  case True
  from assms(6) have "get_size d < get_max_size h" by simp
  then obtain d' where "node_insert h k r d = Inr (get_size d + 1, d')" "node_ok h d'" "node_sorted h d'"
    "node_map h d' = (node_map h d)(key_value h k \<mapsto> r)" "same_header d d'" "get_size d' = get_size d + 1"
    by (rule node_insert_effect [OF assms(1-5) conjunct1 [OF True] conjunct2 [OF True]])
  with True assms(6) show thesis by (intro that) simp_all
next
  case False
  have "0 \<le> get_size d" using assms(2) by (simp add: node_ok_def)
  from node_insert_same [OF assms(3,4) this] False have "node_insert h k r d = Inr (get_size d, d)"
    by (simp add: node_insert_def Let_def)
  then show thesis using assms False by (intro that) (auto simp: same_header_def)
qed

text \<open>
  Property C37. Inserting into an index of one leaf that does not become full: \<open>insert_entry\<close> comes to
  an end, and when it returns, the result is the number of the leaf and the index represents the map
  with the new entry, with pins, latches and the transaction's page sets as they were. The map stays
  the old one if the key was there, and also if the key is larger than all and the slot behind the
  leaf's last entry still holds its bytes (\<open>leftover\<close>), as after its deletion. It returns without an
  exception if the pages of the index are in the pool.
\<close>

theorem one_leaf_insert:
  assumes "quiet s" and "ix_hdr_ok (file_hdr s)" and "ix_map s 0 m" and "is_root_page (root_data s)" and "valid_key (file_hdr s) key"
    and "rid_ok r" and "get_size (root_data s) + 1 < get_max_size (file_hdr s)"
  shows "\<exists>x t. insert_entry key r True s = Some (x, t) \<and>
    (\<forall>p. x = Inr p \<longrightarrow> p = root_page (file_hdr s) \<and> quiet t \<and> file_hdr t = file_hdr s \<and>
       ix_map t 0 (if m (key_value (file_hdr s) key) = None \<and> \<not> leftover (file_hdr s) (root_data s) key
                   then m(key_value (file_hdr s) key \<mapsto> r) else m)) \<and>
    (all_cached (ix_bpm s) (ix_fd s) \<longrightarrow> \<not> isl x)"
proof -
  let ?h = "file_hdr s"
  obtain p d where d: "p = root_page ?h" "p \<noteq> INVALID_PAGE_ID" "content (ix_bpm s) (PageId (ix_fd s) p) = Some d" "d = root_data s"
    "node_ok ?h d" "node_sorted ?h d" "is_leaf_page d" "m = node_map ?h d" "length d = PAGE_SIZE"
    using assms(3) by (rule one_leaf)
  obtain n d' where i: "node_insert ?h key r d = Inr (n, d')" "node_ok ?h d'" "node_sorted ?h d'" "same_header d d'" "get_size d' < get_max_size ?h"
    "node_map ?h d' = (if m (key_value ?h key) = None \<and> \<not> leftover ?h d key then m(key_value ?h key \<mapsto> r) else m)"
    using node_insert_any [OF assms(2) d(5,6) assms(5,6)] assms(7) d(4,8,9) by metis
  have l: "length d' = PAGE_SIZE" using i(2) by (simp add: node_ok_def)
  note sh = same_header_fields [OF i(4) d(9) l]
  have "is_root_page d'" "is_leaf_page d'" using sh assms(4) d(4,7) by (simp_all add: is_root_page_def)
  from insert_one_leaf [where G = "all_cached (ix_bpm s) (ix_fd s)", OF assms(1) _ d(1) [symmetric] d(2,3,7) i(1) l this(1) i(5)] this(2)
  obtain x t where x: "insert_entry key r True s = Some (x, t)" "case x of Inl e \<Rightarrow> \<not> all_cached (ix_bpm s) (ix_fd s)
      | Inr y \<Rightarrow> y = p \<and> quiet t \<and> file_hdr t = ?h \<and> ix_fd t = ix_fd s \<and> content (ix_bpm t) (PageId (ix_fd s) p) = Some d'"
    unfolding ends_def by blast
  show ?thesis
  proof (intro exI conjI allI impI)
    show "insert_entry key r True s = Some (x, t)" by (rule x(1))
    show "\<not> isl x" if "all_cached (ix_bpm s) (ix_fd s)" using x(2) that by (cases x) simp_all
    fix y assume y: "x = Inr y"
    with x(2) d(1) show "y = root_page ?h" "quiet t" "file_hdr t = ?h" by simp_all
    show "ix_map t 0 (if m (key_value ?h key) = None \<and> \<not> leftover ?h (root_data s) key then m(key_value ?h key \<mapsto> r) else m)"
      by (rule one_leafI [where h = ?h and d = d']) (use x(2) y d(1,2) i d(4) \<open>is_leaf_page d'\<close> in simp_all)
  qed
qed

section \<open>Deleting from the leaf\<close>

lemma delete_one_leaf:
  assumes q: "quiet s" and G: "G \<longrightarrow> all_cached (ix_bpm s) (ix_fd s)" and p: "root_page (file_hdr s) = p" "p \<noteq> INVALID_PAGE_ID"
    and d: "content (ix_bpm s) (PageId (ix_fd s) p) = Some d" "is_leaf_page d"
    and er: "erase_pair (file_hdr s) (int (node_lower_bound (file_hdr s) d key)) d = Inr d'"
    and d': "length d' = PAGE_SIZE" "is_root_page d'" "is_leaf_page d'"
  shows "ends (delete_entry key True) s G (\<lambda>x t. \<not> x \<and> quiet t \<and> file_hdr t = file_hdr s \<and> ix_fd t = ix_fd s \<and>
    content (ix_bpm t) (PageId (ix_fd s) p) = Some d')"
    (is "ends _ _ _ ?Q")
  unfolding delete_entry_def
proof (rule ends_pbind [OF find_one_leaf [OF q G Operation.distinct(4) p d]], elim conjE)
  fix x w assume x: "snd x" and w: "writing G s p d (fst x) w"
  obtain f where f: "x = (f, True)" "fst x = f" using x by (cases x) simp
  note w = w [unfolded f(2)]
  have ed: "erase_pair (file_hdr w) (int (node_lower_bound (file_hdr w) d key)) d = Inr d'" using er writing_same(1) [OF w] by simp
  obtain t where t: "edit_node f (erase_pair (file_hdr w) (int (node_lower_bound (file_hdr w) d key))) w = (Inr (), t)" and et: "edited s p d' f t"
    by (rule writing_edit [OF w, where g = "erase_pair (file_hdr w) (int (node_lower_bound (file_hdr w) d key))", OF ed d'(1)])
  note ef = edited_fields [OF et]
  have cmd: "erase_pair_cmd f (int (node_lower_bound (file_hdr w) (node_data f w) key)) w = (Inr (), t)"
    using t writing_same(3) [OF w] by (simp add: erase_pair_cmd_def)
  obtain t1 u z where z: "unlock_root t = (Inr (), t1)" "unlock_unpin_all_pages True t1 = (Inr (), t1)" "get_page_no f t1 = p"
    "WUnLock f t1 = (Inr (), u)" "unpin_node f True u = (Inr True, z)"
    "quiet z" "file_hdr z = file_hdr s" "ix_fd z = ix_fd s" "content (ix_bpm z) (PageId (ix_fd s) p) = Some d'"
    using q et by (rule edited_release)
  have ar: "adjust_root f t = (Inr False, t)" using d'(3) ef(2) by (simp add: adjust_root_def)
  have cr: "coalesce_or_redistribute f True (Some True) t = Some (Inr (False, Some False), t1)"
    using d'(2) ef(2) ar z(1,2)
    by (subst coalesce_or_redistribute.simps) (simp add: pbind_def plift_def pret_def release_root_def bindc_def)
  have ds: "index_deleted_page_set z = []" "quiet (z\<lparr>index_deleted_page_set := []\<rparr>)"
    using z(6) by (simp_all add: quiet_def ix_ready_def no_latch_def)
  show "ends (case x of (leaf, rl) \<Rightarrow>
     pbind (\<lambda>s. plift (erase_pair_cmd leaf (int (node_lower_bound (file_hdr s) (node_data leaf s) key))) s) (\<lambda>_.
     pbind (coalesce_or_redistribute leaf True (Some rl)) (\<lambda>(need_delete, _). pbind (plift (WUnLock leaf)) (\<lambda>_.
     pbind (plift (unpin_node leaf True)) (\<lambda>_.
     pbind (plift (if need_delete then modify (\<lambda>s. s\<lparr>index_deleted_page_set := index_deleted_page_set s @ [leaf]\<rparr>) else ret ())) (\<lambda>_.
     pbind (\<lambda>s. plift (delete_pages (index_deleted_page_set s)) s) (\<lambda>_.
     pbind (plift (modify (\<lambda>s. s\<lparr>index_deleted_page_set := []\<rparr>))) (\<lambda>_. pret False)))))))) w G ?Q"
    using cmd cr z ds by (simp add: f ends_def pbind_def plift_def pret_def)
qed

lemma delete_one_leaf_throws:
  assumes q: "quiet s" and G: "G \<longrightarrow> all_cached (ix_bpm s) (ix_fd s)" and p: "root_page (file_hdr s) = p" "p \<noteq> INVALID_PAGE_ID"
    and d: "content (ix_bpm s) (PageId (ix_fd s) p) = Some d" "is_leaf_page d"
    and er: "erase_pair (file_hdr s) (int (node_lower_bound (file_hdr s) d key)) d = Inl e"
  shows "\<exists>x t. delete_entry key True s = Some (Inl x, t) \<and> (G \<longrightarrow> x = e \<and> root_latch t)"
proof -
  from find_one_leaf [OF q G Operation.distinct(4) p d, of key]
  obtain x w where x: "find_leaf_page key DELETE True s = Some (x, w)" "case x of Inl e \<Rightarrow> \<not> G | Inr y \<Rightarrow> snd y \<and> writing G s p d (fst y) w"
    unfolding ends_def by blast
  show ?thesis
  proof (cases x)
    case (Inl e')
    then show ?thesis using x by (simp add: delete_entry_def pbind_def)
  next
    case (Inr y)
    then obtain f where f: "y = (f, True)" "writing G s p d f w" using x(2) by (cases y) auto
    note ws = writing_same [OF f(2)]
    have "erase_pair_cmd f (int (node_lower_bound (file_hdr w) (node_data f w) key)) w = (Inl e, w)"
      using er ws(1,3) by (simp add: erase_pair_cmd_def edit_node_def)
    then show ?thesis using x(1) Inr f(1) ws(4) by (simp add: delete_entry_def pbind_def plift_def)
  qed
qed

lemma lower_bound_least:
  assumes s: "node_sorted h d" and k: "valid_key h k" and p: "node_lower_bound h d k < nat (get_size d)"
  shows "key_value h (get_key h d (node_lower_bound h d k)) \<in> dom (node_map h d)" "key_value h k \<le> key_value h (get_key h d (node_lower_bound h d k))"
    "\<forall>u \<in> dom (node_map h d). key_value h k \<le> u \<longrightarrow> key_value h (get_key h d (node_lower_bound h d k)) \<le> u"
proof -
  let ?p = "node_lower_bound h d k"
  have less: "key_value h (get_key h d i) < key_value h k \<longleftrightarrow> i < ?p" if "i < nat (get_size d)" for i
    using ix.place_less [of h "node_keys h d" k i] s k that by (simp add: node_sorted_def node_lower_bound_place)
  show "key_value h (get_key h d ?p) \<in> dom (node_map h d)" using node_map_key [OF s p] by blast
  show "key_value h k \<le> key_value h (get_key h d ?p)" using less [OF p] by simp
  show "\<forall>u \<in> dom (node_map h d). key_value h k \<le> u \<longrightarrow> key_value h (get_key h d ?p) \<le> u"
  proof (intro ballI impI)
    fix u assume "u \<in> dom (node_map h d)" and le: "key_value h k \<le> u"
    then obtain i where i: "i < nat (get_size d)" "u = key_value h (get_key h d i)" unfolding dom_node_map by (auto simp: node_keys_def)
    with le less [OF i(1)] have "?p \<le> i" by (simp add: not_less [symmetric])
    then show "key_value h (get_key h d ?p) \<le> u" using node_keys_mono [OF s _ i(1)] i(2) by simp
  qed
qed

lemma erase_at_lower_bound:
  assumes h: "ix_hdr_ok h" and d: "node_ok h d" and s: "node_sorted h d" and k: "valid_key h k" and p: "node_lower_bound h d k < nat (get_size d)"
  obtains d' where "erase_pair h (int (node_lower_bound h d k)) d = Inr d'" "node_ok h d'" "node_sorted h d'" "same_header d d'"
    "node_map h d' = (node_map h d)(key_value h (get_key h d (node_lower_bound h d k)) := None)"
proof -
  let ?p = "node_lower_bound h d k"
  obtain d' where d': "erase_pair h (int ?p) d = Inr d'" "node_ok h d'"
    "node_keys h d' = take ?p (node_keys h d) @ drop (Suc ?p) (node_keys h d)"
    "node_rids h d' = take ?p (node_rids h d) @ drop (Suc ?p) (node_rids h d)" "same_header d d'"
    by (rule erase_pair_effect [OF h d p]) blast
  have "distinct (map (key_value h) (node_keys h d))" using s by (simp add: node_sorted_def ix.ascending_def strict_sorted_iff)
  from map_of_delete [OF this, of ?p "node_rids h d"] p
  have "node_map h d' = (node_map h d)(key_value h (get_key h d ?p) := None)" unfolding node_map_def d'(3,4) by (simp add: take_map drop_map)
  moreover have "node_sorted h d'" using ix.ascending_erase s d'(3) by (simp add: node_sorted_def)
  ultimately show thesis using d' by (intro that)
qed

text \<open>
  Property C38. Deleting from an index of one leaf: \<open>delete_entry\<close> comes to an end and, when it returns,
  has removed the entry with the least key that is not less than the given one, whether or not it
  is the given key; pins, latches and page sets are as they were. If all keys are less (in
  particular on an empty index) it throws and leaves the root latch locked, so that the next
  operation on the index locks a mutex it holds. (With the pages of the index in the pool these
  are the only cases.)
\<close>

theorem one_leaf_delete:
  assumes "quiet s" and "ix_hdr_ok (file_hdr s)" and "ix_map s 0 m" and "is_root_page (root_data s)" and "valid_key (file_hdr s) key"
  shows "\<exists>x t. delete_entry key True s = Some (x, t) \<and>
    (\<forall>y. x = Inr y \<longrightarrow> quiet t \<and> file_hdr t = file_hdr s \<and>
       (\<exists>v. v \<in> dom m \<and> key_value (file_hdr s) key \<le> v \<and> (\<forall>u \<in> dom m. key_value (file_hdr s) key \<le> u \<longrightarrow> v \<le> u) \<and> ix_map t 0 (m(v := None)))) \<and>
    (all_cached (ix_bpm s) (ix_fd s) \<longrightarrow>
       (if \<forall>v \<in> dom m. v < key_value (file_hdr s) key then x = Inl (RMDBError ''erase_pair pos wrong!'') \<and> root_latch t \<and> isl (fst (lock_root t))
        else \<not> isl x))"
proof -
  let ?h = "file_hdr s" and ?G = "all_cached (ix_bpm s) (ix_fd s)"
  obtain p d where d: "p = root_page ?h" "p \<noteq> INVALID_PAGE_ID" "content (ix_bpm s) (PageId (ix_fd s) p) = Some d" "d = root_data s"
    "node_ok ?h d" "node_sorted ?h d" "is_leaf_page d" "m = node_map ?h d" "length d = PAGE_SIZE"
    using assms(3) by (rule one_leaf)
  let ?i = "node_lower_bound ?h d key"
  note lb = lower_bound_least [OF d(6) assms(5)]
  show ?thesis
  proof (cases "?i < nat (get_size d)")
    case True
    obtain d' where d': "erase_pair ?h (int ?i) d = Inr d'" "node_ok ?h d'" "node_sorted ?h d'" "same_header d d'"
      "node_map ?h d' = (node_map ?h d)(key_value ?h (get_key ?h d ?i) := None)"
      by (rule erase_at_lower_bound [OF assms(2) d(5,6) assms(5) True])
    have l: "length d' = PAGE_SIZE" using d'(2) by (simp add: node_ok_def)
    have hd: "is_root_page d'" "is_leaf_page d'" using same_header_fields [OF d'(4) d(9) l] assms(4) d(4,7) by (simp_all add: is_root_page_def)
    from delete_one_leaf [where G = ?G, OF assms(1) _ d(1) [symmetric] d(2,3,7) d'(1) l hd]
    obtain x t where x: "delete_entry key True s = Some (x, t)" "case x of Inl e \<Rightarrow> \<not> ?G
        | Inr y \<Rightarrow> \<not> y \<and> quiet t \<and> file_hdr t = ?h \<and> ix_fd t = ix_fd s \<and> content (ix_bpm t) (PageId (ix_fd s) p) = Some d'"
      unfolding ends_def by blast
    have mt: "ix_map t 0 (m(key_value ?h (get_key ?h d ?i) := None))" if "x = Inr y" for y
      by (rule one_leafI [where h = ?h and d = d']) (use x(2) that d d' hd in simp_all)
    have "\<not> (\<forall>v \<in> dom m. v < key_value ?h key)" unfolding d(8) using lb(1,2) [OF True] by (meson leD)
    then show ?thesis using x mt lb [OF True] d(8)
      by (intro exI [of _ x] exI [of _ t]) (cases x, auto)
  next
    case False
    have "0 \<le> get_size d" using d(5) by (simp add: node_ok_def)
    then have "erase_pair ?h (int ?i) d = Inl (RMDBError ''erase_pair pos wrong!'')" using False by (simp add: erase_pair_def Let_def)
    from delete_one_leaf_throws [where G = ?G, OF assms(1) _ d(1) [symmetric] d(2,3,7) this]
    obtain x t where x: "delete_entry key True s = Some (Inl x, t)" "?G \<longrightarrow> x = RMDBError ''erase_pair pos wrong!'' \<and> root_latch t" by blast
    have "v < key_value ?h key" if "v \<in> dom m" for v
    proof -
      from that obtain i where "i < nat (get_size d)" "v = key_value ?h (get_key ?h d i)" unfolding d(8) dom_node_map by (auto simp: node_keys_def)
      with False ix.place_less [of ?h "node_keys ?h d" key i] d(6) assms(5) show ?thesis by (simp add: node_sorted_def node_lower_bound_place)
    qed
    then show ?thesis using x by (auto simp: lock_root_def)
  qed
qed

section \<open>Examples\<close>

text \<open>An index whose only leaf holds the keys 1 and 3.\<close>

definition demo_leaf_index :: ix_world where
  "demo_leaf_index = index_on_disk ix_demo_hdr [replicate PAGE_SIZE 0, replicate PAGE_SIZE 0, demo_left]"

lemma demo_leaf_fields [simp]: "file_hdr demo_leaf_index = ix_demo_hdr" "ix_fd demo_leaf_index = 0" "root_page ix_demo_hdr = 2"
  by (simp_all add: demo_leaf_index_def index_on_disk_def ix_demo_hdr_def IX_INIT_ROOT_PAGE_def)

lemma demo_leaf_content: "content (ix_bpm demo_leaf_index) (PageId 0 2) = Some demo_left"
  using pages_disk_page [of "[replicate PAGE_SIZE 0, replicate PAGE_SIZE 0, demo_left]" 2 ix_demo_hdr]
  by (simp add: demo_leaf_index_def demo_nodes)

lemma demo_leaf_index_ok:
  "quiet demo_leaf_index" "ix_map demo_leaf_index 0 [[[1]] \<mapsto> Rid 1 0, [[3]] \<mapsto> Rid 1 1]" "root_data demo_leaf_index = demo_left" "is_root_page demo_left"
proof -
  show "quiet demo_leaf_index"
    using index_on_disk_ready by (simp add: quiet_def demo_leaf_index_def) (simp add: index_on_disk_def)
  show "ix_map demo_leaf_index 0 [[[1]] \<mapsto> Rid 1 0, [[3]] \<mapsto> Rid 1 1]"
    by (simp add: ix_map_leaf demo_leaf_content INVALID_PAGE_ID_def) (simp add: demo_nodes)
  show "root_data demo_leaf_index = demo_left" by (simp add: root_data_def demo_leaf_content)
  show "is_root_page demo_left" by (simp add: demo_nodes)
qed

lemma demo_compare: "in_range 4 i \<Longrightarrow> in_range 4 j \<Longrightarrow> key_compare ix_demo_hdr (put_int 4 i) (put_int 4 j) = three_way i j"
  using ix.cmp_val [of ix_demo_hdr "put_int 4 i" "put_int 4 j"] by (simp add: ix_demo_key three_way_Cons) (simp add: three_way_def)

theorem one_leaf_insert_witness:
  "\<exists>x t. insert_entry (put_int 4 2) (Rid 9 9) True demo_leaf_index = Some (x, t) \<and>
     (\<forall>p. x = Inr p \<longrightarrow> p = 2 \<and> quiet t \<and> ix_map t 0 [[[1]] \<mapsto> Rid 1 0, [[3]] \<mapsto> Rid 1 1, [[2]] \<mapsto> Rid 9 9])"
proof -
  have "node_map ix_demo_hdr demo_left = [[[1]] \<mapsto> Rid 1 0, [[3]] \<mapsto> Rid 1 1]"
    using demo_leaf_index_ok(2,3) by (auto simp: ix_map_leaf root_data_def)
  then have "\<not> leftover ix_demo_hdr demo_left (put_int 4 2)" by (simp add: leftover_def ix_demo_key in_range_def)
  moreover have "get_size demo_left + 1 < get_max_size ix_demo_hdr"
    by (simp add: demo_nodes) (simp add: ix_demo_hdr_def get_max_size_def)
  ultimately show ?thesis
    using one_leaf_insert [OF demo_leaf_index_ok(1) _ demo_leaf_index_ok(2), of "put_int 4 2" "Rid 9 9"] ix_demo_hdr_ok demo_leaf_index_ok(3,4)
    by (auto simp: ix_demo_key in_range_def)
qed

text \<open>Deleting the key 2, which is not there, removes the key 3.\<close>

theorem one_leaf_delete_witness:
  "\<exists>x t. delete_entry (put_int 4 2) True demo_leaf_index = Some (x, t) \<and> (\<forall>y. x = Inr y \<longrightarrow> quiet t \<and> ix_map t 0 [[[1]] \<mapsto> Rid 1 0])"
proof -
  let ?m = "[[[1 :: int]] \<mapsto> Rid 1 0, [[3]] \<mapsto> Rid 1 1]"
  have v: "v = [[3]]" if "v \<in> dom ?m" "[[2]] \<le> v" for v :: "int list list" using that by (auto split: if_splits)
  have m: "?m([[3]] := None) = [[[1]] \<mapsto> Rid 1 0]" by (simp add: fun_eq_iff)
  from one_leaf_delete [OF demo_leaf_index_ok(1) _ demo_leaf_index_ok(2), of "put_int 4 2"] ix_demo_hdr_ok demo_leaf_index_ok(3,4)
  obtain x t where x: "delete_entry (put_int 4 2) True demo_leaf_index = Some (x, t)"
    "\<forall>y. x = Inr y \<longrightarrow> quiet t \<and> (\<exists>v. v \<in> dom ?m \<and> [[2]] \<le> v \<and> ix_map t 0 (?m(v := None)))"
    by (auto simp: ix_demo_key in_range_def)
  then have "\<forall>y. x = Inr y \<longrightarrow> quiet t \<and> ix_map t 0 [[[1]] \<mapsto> Rid 1 0]" using v m by metis
  with x(1) show ?thesis by blast
qed

end
