(* ===== verification/Ix_Manager.thy ===== *)
theory Ix_Manager
  imports Ix_Update Dml
begin

text \<open>
  Index files, \<open>IxManager\<close> of \<open>src/src/index/ix_manager.h\<close> and the constructor of \<open>IxIndexHandle\<close>:
  creating, opening, closing and removing the file of an index. A created index opens with a header
  whose nodes fit into a page, as a tree of one empty leaf.
\<close>

section \<open>Operations\<close>

text \<open>\<open>get_index_name\<close> for names of columns.\<close>

definition get_index_name_of :: "string \<Rightarrow> string list \<Rightarrow> string" where
  "get_index_name_of filename index_cols = filename @ concat (map (\<lambda>c. ''_'' @ c) index_cols) @ ''.idx''"

definition ix_exists :: "string \<Rightarrow> string list \<Rightarrow> disk \<Rightarrow> bool" where
  "ix_exists filename index_cols d = is_file (get_index_name_of filename index_cols) d"

text \<open>
  The order of the tree: unsigned arithmetic of 64 bits, converted to an \<open>int\<close>. A page has a header of
  24 bytes, an entry the key and a record identifier of 8 bytes.
\<close>

definition btree_order_of :: "int \<Rightarrow> int option" where
  "btree_order_of tot =
     (let w = (tot + 8) mod 2 ^ 64 in
      if w = 0 then None else Some (wrap_int 4 (((int PAGE_SIZE - int IX_PAGE_HDR_SIZE) div w - 1) mod 2 ^ 64)))"

definition new_ix_hdr :: "ColMeta list \<Rightarrow> int \<Rightarrow> IxFileHdr" where
  "new_ix_hdr cols order =
     (let tot = sum_list (map cm_len cols) in
      update_tot_len \<lparr>ix_first_free_page_no = IX_NO_PAGE, ix_num_pages = IX_INIT_NUM_PAGES, root_page = IX_INIT_ROOT_PAGE,
        ix_col_num = int (length cols), col_types = map cm_type cols, col_lens = map cm_len cols, ix_col_tot_len = tot,
        btree_order = order, keys_size = (order + 1) * tot, first_leaf = IX_INIT_ROOT_PAGE, last_leaf = IX_INIT_ROOT_PAGE, tot_len = 0\<rparr>)"

text \<open>A page with the header of an empty leaf.\<close>

definition empty_leaf_page :: "int \<Rightarrow> int \<Rightarrow> byte list" where
  "empty_leaf_page prev next =
     put_int 4 IX_NO_PAGE @ put_int 4 IX_NO_PAGE @ put_int 4 0 @ [1, 0, 0, 0] @ put_int 4 prev @ put_int 4 next @
     replicate (PAGE_SIZE - IX_PAGE_HDR_SIZE) 0"

text \<open>A refused length leaves the new file behind, open.\<close>

definition ix_create_index :: "string \<Rightarrow> ColMeta list \<Rightarrow> (disk, unit) rcmd" where
  "ix_create_index filename cols =
     (let ix_name = get_index_name filename cols; tot = sum_list (map cm_len cols) in
      bindc (create_file ix_name) (\<lambda>_.
      bindc (open_file ix_name) (\<lambda>fd.
      if \<not> in_range 4 tot then throw (UndefinedBehaviour ''col_tot_len += col.len'')
      else if tot > IX_MAX_COL_LEN then throw (InvalidColLengthError tot)
      else case btree_order_of tot of
        None \<Rightarrow> throw (UndefinedBehaviour ''division by zero'')
      | Some order \<Rightarrow>
          if \<not> order > 2 then throw (AssertionFailure ''btree_order > 2'')
          else let h = new_ix_hdr cols order in
            bindc (of_res (ix_serialize h (replicate (nat (tot_len h)) 0))) (\<lambda>data.
            bindc (write_page fd IX_FILE_HDR_PAGE data) (\<lambda>_.
            bindc (write_page fd IX_LEAF_HEADER_PAGE (empty_leaf_page IX_INIT_ROOT_PAGE IX_INIT_ROOT_PAGE)) (\<lambda>_.
            bindc (write_page fd IX_INIT_ROOT_PAGE (empty_leaf_page IX_LEAF_HEADER_PAGE IX_LEAF_HEADER_PAGE)) (\<lambda>_.
            bindc (set_fd2pageno fd (IX_INIT_NUM_PAGES - 1)) (\<lambda>_.
            close_file fd))))))))"

definition ix_destroy_index :: "string \<Rightarrow> string list \<Rightarrow> (disk, unit) rcmd" where
  "ix_destroy_index filename index_cols = destroy_file (get_index_name_of filename index_cols)"

text \<open>
  The constructor first reads eight bytes over the pointer \<open>file_hdr_\<close> itself, which it then sets.
\<close>

definition IxIndexHandle :: "int \<Rightarrow> (disk, IxFileHdr) rcmd" where
  "IxIndexHandle fd d =
     (case read_page fd IX_FILE_HDR_PAGE (replicate 8 0) 8 d of
        (Inl e, _) \<Rightarrow> (Inl e, d)
      | (Inr _, _) \<Rightarrow>
          (case read_page fd IX_FILE_HDR_PAGE (replicate PAGE_SIZE 0) PAGE_SIZE d of
             (Inl e, _) \<Rightarrow> (Inl e, d)
           | (Inr _, buf) \<Rightarrow>
               bindc (of_res (ix_deserialize buf)) (\<lambda>h. bindc (set_fd2pageno fd (ix_num_pages h - 1 + 1)) (\<lambda>_. ret h)) d))"

definition ix_open_index :: "string \<Rightarrow> (disk, int \<times> IxFileHdr) rcmd" where
  "ix_open_index ix_name = bindc (open_file ix_name) (\<lambda>fd. bindc (IxIndexHandle fd) (\<lambda>h. ret (fd, h)))"

definition ix_close_index :: "int \<Rightarrow> IxFileHdr \<Rightarrow> (bpm, unit) rcmd" where
  "ix_close_index fd h =
     bindc (of_res (ix_serialize h (replicate (nat (tot_len h)) 0))) (\<lambda>data.
     bindc (on_disk (write_page fd IX_FILE_HDR_PAGE data)) (\<lambda>_.
     bindc (flush_all_pages fd) (\<lambda>_. on_disk (close_file fd))))"

section \<open>The header of a new index\<close>

lemma btree_order_small:
  assumes "0 < t" and "t \<le> 512"
  shows "btree_order_of t = Some (4072 div (t + 8) - 1)" "6 \<le> 4072 div (t + 8) - 1" "4072 div (t + 8) \<le> 4072" "4072 div (t + 8) * (t + 8) \<le> 4072"
proof -
  have q: "4072 div 520 \<le> 4072 div (t + 8)" by (rule zdiv_mono2) (use assms in auto)
  then show l: "6 \<le> 4072 div (t + 8) - 1" by simp
  have "4072 div (t + 8) \<le> 4072 div 1" by (rule zdiv_mono2) (use assms in auto)
  then show u: "4072 div (t + 8) \<le> 4072" by simp
  show "4072 div (t + 8) * (t + 8) \<le> 4072"
    using assms div_mult_mod_eq [of 4072 "t + 8"] pos_mod_sign [of "t + 8" 4072] by linarith
  have w: "(t + 8) mod 2 ^ 64 = t + 8" using assms by simp
  have "(4072 div (t + 8) - 1) mod 2 ^ 64 = 4072 div (t + 8) - 1" using l u by (intro mod_pos_pos_trivial) simp_all
  moreover have "in_range 4 (4072 div (t + 8) - 1)" using l u by (simp add: in_range_def)
  ultimately show "btree_order_of t = Some (4072 div (t + 8) - 1)"
    using assms unfolding btree_order_of_def w by (simp add: Let_def PAGE_SIZE_def ix_offs)
qed

text \<open>Columns an index can be made of.\<close>

definition index_cols_ok :: "ColMeta list \<Rightarrow> bool" where
  "index_cols_ok cols \<longleftrightarrow> (\<forall>c \<in> set cols. col_width (cm_type c) (cm_len c)) \<and> 0 < sum_list (map cm_len cols) \<and>
     sum_list (map cm_len cols) \<le> IX_MAX_COL_LEN \<and> length cols \<le> 507"

definition ix_order :: "ColMeta list \<Rightarrow> int" where
  "ix_order cols = 4072 div (sum_list (map cm_len cols) + 8) - 1"

lemma new_ix_hdr_ok:
  assumes "index_cols_ok cols"
  shows "ix_hdr_ok (new_ix_hdr cols (ix_order cols))" "ix_hdr_storable (new_ix_hdr cols (ix_order cols))"
    "tot_len (new_ix_hdr cols (ix_order cols)) = int (40 + 8 * length cols)"
proof -
  let ?t = "sum_list (map cm_len cols)" and ?o = "ix_order cols" and ?h = "new_ix_hdr cols (ix_order cols)"
  have t: "0 < ?t" "?t \<le> 512" using assms by (simp_all add: index_cols_ok_def IX_MAX_COL_LEN_def)
  note b = btree_order_small [OF t]
  have o: "6 \<le> ?o" "?o + 1 \<le> 4072" "(?o + 1) * (?t + 8) \<le> 4072" using b by (simp_all add: ix_order_def)
  have ot: "0 \<le> (?o + 1) * ?t" "(?o + 1) * ?t + (?o + 1) * 8 \<le> 4072" using o t by (simp_all add: algebra_simps)
  have f: "ix_col_tot_len ?h = ?t" "btree_order ?h = ?o" "keys_size ?h = (?o + 1) * ?t" "col_types ?h = map cm_type cols" "col_lens ?h = map cm_len cols"
    "ix_col_num ?h = int (length cols)"
    by (simp_all add: new_ix_hdr_def Let_def update_tot_len_def)
  have c: "int (capacity ?h) = ?o + 1" using o by (simp add: capacity_def get_max_size_def f)
  have "list_all2 col_width (map cm_type cols) (map cm_len cols)"
    using assms by (simp add: index_cols_ok_def list_all2_conv_all_nth)
  moreover have "nat (keys_size ?h) = capacity ?h * key_len ?h"
    using o(1) t by (simp add: f key_len_def capacity_def get_max_size_def nat_mult_distrib)
  moreover have "rid_off ?h (capacity ?h) \<le> PAGE_SIZE"
  proof -
    have "int (rid_off ?h (capacity ?h)) = 24 + (?o + 1) * ?t + (?o + 1) * 8" using c ot(1) by (simp add: rid_off_def f ix_offs)
    then show ?thesis using ot(2) by (simp add: PAGE_SIZE_def)
  qed
  ultimately show "ix_hdr_ok ?h" using o t by (simp add: ix_hdr_ok_def f key_len_def)
  show tl: "tot_len ?h = int (40 + 8 * length cols)" by (simp add: new_ix_hdr_def Let_def update_tot_len_def)
  have len: "0 \<le> cm_len c \<and> cm_len c \<le> 512" if "c \<in> set cols" for c
  proof -
    have nn: "\<forall>c \<in> set cols. 0 \<le> cm_len c" using assms by (auto simp: index_cols_ok_def dest!: bspec elim: col_width.elims)
    have "cm_len c \<le> sum_list (map cm_len cols)" by (rule member_le_sum_list) (use that nn in auto)
    with that nn t show ?thesis by auto
  qed
  have ty: "in_range 4 (int (coltype_code ty))" for ty by (cases ty) (simp_all add: in_range_def)
  have fs: "ix_hdr_fields ?h = [int (40 + 8 * length cols), - 1, 3, 2, int (length cols)] @ map (int \<circ> coltype_code) (map cm_type cols) @
      map cm_len cols @ [?t, ?o, (?o + 1) * ?t, 2, 2]"
    by (simp add: ix_hdr_fields_def f tl) (simp add: new_ix_hdr_def Let_def update_tot_len_def IX_NO_PAGE_def IX_INIT_NUM_PAGES_def IX_INIT_ROOT_PAGE_def)
  have n: "length cols \<le> 507" using assms by (simp add: index_cols_ok_def)
  have small: "in_range 4 x" if "0 \<le> x" "x \<le> 5000" for x using that by (simp add: in_range_def)
  have lens: "in_range 4 (cm_len c)" if "c \<in> set cols" for c using len [OF that] by (simp add: in_range_def)
  have "\<forall>x \<in> set (ix_hdr_fields ?h). in_range 4 x"
    unfolding fs using n ty lens o ot t by (auto intro: small simp: in_range_small(2))
  then show "ix_hdr_storable ?h" by (simp add: ix_hdr_storable_def f)
qed

section \<open>Creating and opening\<close>

lemma length_empty_leaf [simp]: "length (empty_leaf_page a b) = PAGE_SIZE"
  by (simp add: empty_leaf_page_def PAGE_SIZE_def ix_offs)

lemma empty_leaf_reads:
  "get_size (empty_leaf_page a b) = 0" "is_leaf_page (empty_leaf_page a b)" "is_root_page (empty_leaf_page a b)"
  by (simp_all add: empty_leaf_page_def get_size_def is_leaf_page_def is_root_page_def get_parent_page_no_def int_at_def read_at_def ix_offs
        PAGE_SIZE_def INVALID_PAGE_ID_def IX_NO_PAGE_def in_range_def nth_append)

lemma empty_leaf_node:
  "ix_hdr_ok h \<Longrightarrow> node_ok h (empty_leaf_page a b) \<and> node_sorted h (empty_leaf_page a b) \<and> node_map h (empty_leaf_page a b) = Map.empty"
  by (simp add: node_ok_def empty_leaf_reads node_sorted_def ix.ascending_def node_keys_def node_map_def ix_hdr_ok_def get_max_size_def)

text \<open>The image of a header: \<open>serialize\<close> into a buffer of its length, and what is read back with anything behind it.\<close>

lemma serialize_exact:
  assumes "ix_hdr_storable h" and "update_tot_len h = h" and "ix_serialize h (replicate (nat (tot_len h)) 0) = Inr bs"
  shows "length bs = nat (tot_len h)" "ix_deserialize (bs @ replicate k 0) = Inr h"
proof -
  let ?fs = "ix_hdr_fields h" and ?n = "nat (tot_len h)"
  let ?b = "concat (map (put_int 4) ?fs)"
  have t: "int (4 * length ?fs) = tot_len h" "\<not> length (col_types h) < nat (ix_col_num h)" "\<not> length (col_lens h) < nat (ix_col_num h)"
    using assms(3) by (auto simp: ix_serialize_def Let_def split: if_splits)
  have lb: "length ?b = ?n" using t(1) by (simp add: length_concat comp_def sum_list_triv)
  have bs: "bs = ?b" using assms(3) lb t by (simp add: ix_serialize_def Let_def put_chunks_concat write_at_def split: if_splits)
  show "length bs = ?n" using bs lb by simp
  have "0 \<le> tot_len h" using t(1) by linarith
  then obtain bs' where bs': "ix_serialize h (replicate (?n + k) 0) = Inr bs'" "ix_deserialize bs' = Inr h"
    using ix_header_roundtrip [of h "replicate (?n + k) 0"] assms(1,2) by auto
  have "bs' = ?b @ replicate k 0" using bs'(1) lb t by (simp add: ix_serialize_def Let_def put_chunks_concat write_at_def split: if_splits)
  with bs'(2) bs show "ix_deserialize (bs @ replicate k 0) = Inr h" by simp
qed

lemma write_page_fds: "write_page fd p bs d = (r, d') \<Longrightarrow> os_fds (dm_os d') = os_fds (dm_os d)"
  using os_write_fields by (fastforce simp: write_page_def Let_def split: if_splits prod.splits)

lemma create_index_file:
  assumes w: "disk_wf d" and cols: "index_cols_ok cols" and c: "ix_create_index filename cols d = (Inr (), d1)"
  obtains bs where "disk_wf d1" "ix_serialize (new_ix_hdr cols (ix_order cols)) (replicate (nat (tot_len (new_ix_hdr cols (ix_order cols)))) 0) = Inr bs"
    "os_files (dm_os d1) (get_index_name filename cols) =
       Some (file_write 8192 (empty_leaf_page IX_LEAF_HEADER_PAGE IX_LEAF_HEADER_PAGE) (file_write 4096 (empty_leaf_page IX_INIT_ROOT_PAGE IX_INIT_ROOT_PAGE) bs))"
proof -
  let ?n = "get_index_name filename cols" and ?h = "new_ix_hdr cols (ix_order cols)" and ?t = "sum_list (map cm_len cols)"
  have t: "0 < ?t" "?t \<le> 512" using cols by (simp_all add: index_cols_ok_def IX_MAX_COL_LEN_def)
  have o: "btree_order_of ?t = Some (ix_order cols)" "2 < ix_order cols" using btree_order_small [OF t] by (simp_all add: ix_order_def)
  have r: "in_range 4 ?t" using t by (simp add: in_range_def)
  obtain d2 fd d3 bs d4 d5 d6 d7 where s: "create_file ?n d = (Inr (), d2)" "open_file ?n d2 = (Inr fd, d3)"
    "ix_serialize ?h (replicate (nat (tot_len ?h)) 0) = Inr bs" "write_page fd 0 bs d3 = (Inr (), d4)"
    "write_page fd 1 (empty_leaf_page IX_INIT_ROOT_PAGE IX_INIT_ROOT_PAGE) d4 = (Inr (), d5)"
    "write_page fd 2 (empty_leaf_page IX_LEAF_HEADER_PAGE IX_LEAF_HEADER_PAGE) d5 = (Inr (), d6)"
    "set_fd2pageno fd 2 d6 = (Inr (), d7)" "close_file fd d7 = (Inr (), d1)"
    using c r t o by (auto simp: ix_create_index_def Let_def bindc_eq_Inr IX_MAX_COL_LEN_def of_res_def IX_FILE_HDR_PAGE_def
        IX_LEAF_HEADER_PAGE_def IX_INIT_ROOT_PAGE_def IX_INIT_NUM_PAGES_def)
  have w2: "disk_wf d2" using disk_wf_create_file [OF w, of ?n] s(1) by simp
  have w3: "disk_wf d3" using disk_wf_open_file [OF w2, of ?n] s(2) by simp
  have w4: "disk_wf d4" using disk_wf_write_page [OF w3, of fd] s(4) by (metis snd_conv)
  have w5: "disk_wf d5" using disk_wf_write_page [OF w4, of fd] s(5) by (metis snd_conv)
  have w6: "disk_wf d6" using disk_wf_write_page [OF w5, of fd] s(6) by (metis snd_conv)
  have d7: "dm_os d7 = dm_os d6" "disk_wf d7" using s(7) w6 by (auto simp: set_fd2pageno_def disk_wf_def split: if_splits)
  have w1: "disk_wf d1" using disk_wf_close_file [OF d7(2), of fd] s(8) by simp
  have fds: "os_fds (dm_os d6) = os_fds (dm_os d3)" using write_page_fds [OF s(4)] write_page_fds [OF s(5)] write_page_fds [OF s(6)] by simp
  have f2: "os_files (dm_os d2) ?n = Some []"
    using s(1) by (auto simp: create_file_def os_creat_def os_close_def Let_def split: if_splits)
  have f3: "hfind (os_fds (dm_os d3)) fd = Some ?n" "os_file (dm_os d3) fd = Some []"
    using s(2) f2 used_fds_None [of "dm_os d2"] by (auto simp: open_file_def os_open_def os_file_def Let_def split: if_splits)
  have f4: "os_file (dm_os d4) fd = Some bs" by (rule write_page_ok [OF w3 s(4)]) (use f3 in \<open>simp add: file_write_def write_at_def\<close>)
  let ?f1 = "file_write 4096 (empty_leaf_page IX_INIT_ROOT_PAGE IX_INIT_ROOT_PAGE) bs"
  have f5: "os_file (dm_os d5) fd = Some ?f1" by (rule write_page_ok [OF w4 s(5)]) (use f4 in \<open>simp add: PAGE_SIZE_def\<close>)
  have "os_file (dm_os d6) fd = Some (file_write 8192 (empty_leaf_page IX_LEAF_HEADER_PAGE IX_LEAF_HEADER_PAGE) ?f1)"
    by (rule write_page_ok [OF w5 s(6)]) (use f5 in \<open>simp add: PAGE_SIZE_def\<close>)
  then have "os_files (dm_os d6) ?n = Some (file_write 8192 (empty_leaf_page IX_LEAF_HEADER_PAGE IX_LEAF_HEADER_PAGE) ?f1)"
    using fds f3(1) by (simp add: os_file_def)
  moreover have "os_files (dm_os d1) = os_files (dm_os d7)"
    using s(8) by (auto simp: close_file_def os_close_def split: option.splits if_splits)
  ultimately show thesis using that [OF w1 s(3)] d7(1) by simp
qed

lemma open_handle:
  assumes rd: "read_page fd 0 (replicate PAGE_SIZE 0) PAGE_SIZE d = (Inr (), buf)" and g: "ix_deserialize buf = Inr g"
    and o: "IxIndexHandle fd d = (Inr h, d')"
  shows "h = g" "dm_os d' = dm_os d" "disk_wf d \<Longrightarrow> disk_wf d'"
proof -
  obtain r b where r: "read_page fd 0 (replicate 8 0) 8 d = (r, b)" by fastforce
  then have run: "bindc (of_res (Inr g)) (\<lambda>h. bindc (set_fd2pageno fd (ix_num_pages h - 1 + 1)) (\<lambda>_. ret h)) d = (Inr h, d')"
    using o rd g by (cases r) (simp_all add: IxIndexHandle_def IX_FILE_HDR_PAGE_def)
  then show "h = g" "dm_os d' = dm_os d" "disk_wf d \<Longrightarrow> disk_wf d'"
    by (auto simp: bindc_def of_res_def set_fd2pageno_def disk_wf_def split: if_splits)
qed

text \<open>The three pages of the new file.\<close>

lemma new_index_pages:
  assumes l: "length bs \<le> PAGE_SIZE" and a: "length a = PAGE_SIZE" and b: "length b = PAGE_SIZE"
  defines "f \<equiv> file_write 8192 b (file_write 4096 a bs)"
  shows "length f = 3 * PAGE_SIZE" "read_at 0 PAGE_SIZE f = bs @ replicate (PAGE_SIZE - length bs) 0" "read_at 8192 PAGE_SIZE f = b"
proof -
  have p: "PAGE_SIZE = 4096" by (simp add: PAGE_SIZE_def)
  have f1: "file_write 4096 a bs = bs @ replicate (4096 - length bs) 0 @ a" using l a by (simp add: file_write_def write_at_def p)
  then have f: "f = bs @ replicate (4096 - length bs) 0 @ a @ b" using l a b by (simp add: f_def file_write_def write_at_def p)
  show "length f = 3 * PAGE_SIZE" "read_at 0 PAGE_SIZE f = bs @ replicate (PAGE_SIZE - length bs) 0" "read_at 8192 PAGE_SIZE f = b"
    using l a b by (simp_all add: f read_at_def p)
qed

definition opened_index :: "int \<Rightarrow> IxFileHdr \<Rightarrow> bpm \<Rightarrow> ix_world" where
  "opened_index fd h b =
     \<lparr>ix_fd = fd, file_hdr = h, ix_bpm = b, root_latch = False, rwlock = (\<lambda>_. Unlocked), index_latch_page_set = [], index_deleted_page_set = []\<rparr>"

text \<open>
  Property C40. A created index opens as an empty tree: if \<open>create_index\<close> of the index manager returns
  for columns of at least their types' widths, opening the file gives the header it computed, whose
  arrays of keys and record identifiers fit into a page, and the index, over a fresh buffer pool, is
  at rest and is a tree of one empty leaf that is the root.
\<close>

theorem created_index_is_empty:
  assumes "disk_wf d" and "index_cols_ok cols" and "ix_create_index filename cols d = (Inr (), d1)"
    and "ix_open_index (get_index_name filename cols) d1 = (Inr (fd, h), d2)"
  shows "h = new_ix_hdr cols (ix_order cols) \<and> ix_hdr_ok h \<and> quiet (opened_index fd h (BufferPoolManager fd0 k d2)) \<and>
    ix_map (opened_index fd h (BufferPoolManager fd0 k d2)) 0 Map.empty \<and> is_root_page (root_data (opened_index fd h (BufferPoolManager fd0 k d2)))"
proof -
  let ?n = "get_index_name filename cols" and ?h = "new_ix_hdr cols (ix_order cols)" and ?s = "opened_index fd h (BufferPoolManager fd0 k d2)"
  let ?leaf = "empty_leaf_page IX_LEAF_HEADER_PAGE IX_LEAF_HEADER_PAGE"
  note ho = new_ix_hdr_ok [OF assms(2)]
  have up: "update_tot_len ?h = ?h" by (simp add: new_ix_hdr_def Let_def update_tot_len_def)
  obtain bs where bs: "disk_wf d1" "ix_serialize ?h (replicate (nat (tot_len ?h)) 0) = Inr bs"
    "os_files (dm_os d1) ?n = Some (file_write 8192 ?leaf (file_write 4096 (empty_leaf_page IX_INIT_ROOT_PAGE IX_INIT_ROOT_PAGE) bs))"
    using assms(1-3) by (rule create_index_file)
  note se = serialize_exact [OF ho(2) up bs(2)]
  have "length bs = 40 + 8 * length cols" using se(1) ho(3) by (metis nat_int)
  then have lb: "length bs \<le> PAGE_SIZE" using assms(2) by (simp add: index_cols_ok_def PAGE_SIZE_def)
  define F where "F = file_write 8192 ?leaf (file_write 4096 (empty_leaf_page IX_INIT_ROOT_PAGE IX_INIT_ROOT_PAGE) bs)"
  note pg = new_index_pages [OF lb length_empty_leaf length_empty_leaf, of IX_LEAF_HEADER_PAGE IX_LEAF_HEADER_PAGE IX_INIT_ROOT_PAGE IX_INIT_ROOT_PAGE, folded F_def]
  obtain d3 where o: "open_file ?n d1 = (Inr fd, d3)" and hd: "IxIndexHandle fd d3 = (Inr h, d2)"
    using assms(4) by (auto simp: ix_open_index_def bindc_eq_Inr)
  have f3: "os_file (dm_os d3) fd = Some F"
    using o bs(3) used_fds_None [of "dm_os d1"] by (auto simp: open_file_def os_open_def os_file_def Let_def F_def split: if_splits)
  have rd: "read_page fd 0 (replicate PAGE_SIZE 0) PAGE_SIZE d3 = (Inr (), bs @ replicate (PAGE_SIZE - length bs) 0)"
    using f3 pg(1,2) lb by (simp add: read_page_def in_range_def os_lseek_def os_read_def Let_def write_at_def)
  note x = open_handle [OF rd se(2) hd]
  have os: "dm_os d2 = dm_os d3" "disk_wf d2" using x(2,3) disk_wf_open_file [OF bs(1), of ?n] o by simp_all
  have root: "content (BufferPoolManager fd0 k d2) (PageId fd 2) = Some ?leaf"
    using f3 os(1) pg(1,3) by (simp add: content_def BufferPoolManager_def disk_page_def in_range_def PAGE_SIZE_def)
  have rp: "root_page h = 2" by (simp add: x(1) new_ix_hdr_def Let_def update_tot_len_def IX_INIT_ROOT_PAGE_def)
  have "quiet ?s" using initial_ok [OF os(2)]
    by (auto simp: quiet_def ix_ready_def no_latch_def opened_index_def unpinned_def pool_ok_def BufferPoolManager_def new_Page_def)
  moreover have "ix_map ?s 0 Map.empty" using ho(1) root rp x(1) empty_leaf_node empty_leaf_reads(2)
    by (simp add: ix_map_leaf opened_index_def INVALID_PAGE_ID_def)
  moreover have "root_data ?s = ?leaf" using root rp by (simp add: root_data_def opened_index_def)
  ultimately show ?thesis using ho(1) x(1) empty_leaf_reads(3) by simp
qed

section \<open>An example\<close>

text \<open>An index on the integer column \<open>a\<close> of the table \<open>t\<close>.\<close>

definition demo_col :: ColMeta where
  "demo_col = \<lparr>cm_tab_name = ''t'', cm_name = ''a'', cm_type = TYPE_INT, cm_len = 4, cm_offset = 0, cm_index = True\<rparr>"

lemma demo_col_ok: "index_cols_ok [demo_col]"
  by (simp add: index_cols_ok_def demo_col_def IX_MAX_COL_LEN_def)

lemmas disk_run = create_file_def os_creat_def empty_os_def DiskManager_def Let_def os_close_def open_file_def os_open_def used_fds_def
  lowest_fd_def write_page_def in_range_def os_lseek_def os_file_def os_write_def close_file_def MAX_FD_def emplace_def herase_def
  set_fd2pageno_def

lemma demo_create:
  "\<exists>d1 h d2. ix_create_index ''t'' [demo_col] (DiskManager empty_os) = (Inr (), d1) \<and>
     ix_open_index (get_index_name ''t'' [demo_col]) d1 = (Inr (3, h), d2)"
proof -
  let ?h = "new_ix_hdr [demo_col] (ix_order [demo_col])"
  note ho = new_ix_hdr_ok [OF demo_col_ok]
  have up: "update_tot_len ?h = ?h" by (simp add: new_ix_hdr_def Let_def update_tot_len_def)
  have tl: "tot_len ?h = 48" using ho(3) by simp
  obtain bs where bs: "ix_serialize ?h (replicate 48 0) = Inr bs" "length bs = 48"
    using ix_header_roundtrip [of ?h "replicate 48 0"] ho(2) tl by (auto simp: up)
  have ix: "ix_order [demo_col] = 338" "btree_order_of 4 = Some 338" using btree_order_small [of 4] by (simp_all add: ix_order_def demo_col_def)
  have t: "sum_list (map cm_len [demo_col]) = 4" by (simp add: demo_col_def)
  have n: "get_index_name ''t'' [demo_col] = ''t_a.idx''" by (simp add: get_index_name_def demo_col_def)
  define F where "F = file_write 8192 (empty_leaf_page 1 1) (file_write 4096 (empty_leaf_page 2 2) bs)"
  obtain d1 where d1: "ix_create_index ''t'' [demo_col] (DiskManager empty_os) = (Inr (), d1)"
    "os_files (dm_os d1) ''t_a.idx'' = Some F" "path2fd d1 = []" "os_fds (dm_os d1) = []" "os_other (dm_os d1) = [0, 1, 2]" "\<not> os_denied (dm_os d1) ''t_a.idx''"
    using bs tl unfolding ix_create_index_def Let_def t n ix(2) option.case ix(1)
    by (simp add: bindc_def of_res_def IX_MAX_COL_LEN_def disk_run PAGE_SIZE_def IX_FILE_HDR_PAGE_def IX_LEAF_HEADER_PAGE_def IX_INIT_ROOT_PAGE_def
        IX_INIT_NUM_PAGES_def F_def file_write_def write_at_def)
  have lb: "length bs \<le> PAGE_SIZE" using bs(2) by (simp add: PAGE_SIZE_def)
  note pg = new_index_pages [OF lb length_empty_leaf length_empty_leaf, of 1 1 2 2, folded F_def]
  have des: "ix_deserialize (bs @ replicate (PAGE_SIZE - length bs) 0) = Inr ?h"
    by (rule serialize_exact(2) [OF ho(2) up]) (use bs(1) tl in simp)
  obtain d3 where o: "open_file ''t_a.idx'' d1 = (Inr 3, d3)" and f3: "os_file (dm_os d3) 3 = Some F"
    using d1 by (simp add: open_file_def os_open_def Let_def used_fds_def lowest_fd_def os_file_def emplace_def)
  have rd: "read_page 3 0 (replicate PAGE_SIZE 0) PAGE_SIZE d3 = (Inr (), bs @ replicate (PAGE_SIZE - length bs) 0)"
    using f3 pg(1,2) lb by (simp add: read_page_def in_range_def os_lseek_def os_read_def Let_def write_at_def)
  have rd8: "read_page 3 0 (replicate 8 0) 8 d3 = (Inr (), read_at 0 8 F)"
    using f3 pg(1) by (simp add: read_page_def in_range_def os_lseek_def os_read_def Let_def write_at_def length_read_at PAGE_SIZE_def)
  have "ix_open_index ''t_a.idx'' d1 = (Inr (3, ?h), d3\<lparr>fd2pageno := (fd2pageno d3)(3 := ix_num_pages ?h)\<rparr>)"
    using o rd rd8 des by (simp add: ix_open_index_def IxIndexHandle_def IX_FILE_HDR_PAGE_def bindc_def of_res_def set_fd2pageno_def MAX_FD_def)
  with d1(1) show ?thesis unfolding n by blast
qed

theorem created_index_is_empty_witness:
  "\<exists>d1 h d2. ix_create_index ''t'' [demo_col] (DiskManager empty_os) = (Inr (), d1) \<and>
     ix_open_index ''t_a.idx'' d1 = (Inr (3, h), d2) \<and> ix_map (opened_index 3 h (BufferPoolManager 0 8 d2)) 0 Map.empty"
proof -
  obtain d1 h d2 where d: "ix_create_index ''t'' [demo_col] (DiskManager empty_os) = (Inr (), d1)"
    "ix_open_index (get_index_name ''t'' [demo_col]) d1 = (Inr (3, h), d2)" using demo_create by blast
  have n: "get_index_name ''t'' [demo_col] = ''t_a.idx''" by (simp add: get_index_name_def demo_col_def)
  have "disk_wf (DiskManager empty_os)" by (rule disk_wf_new) (simp add: empty_os_def)
  from created_index_is_empty [OF this demo_col_ok d, of 0 8] d n show ?thesis by metis
qed

end
