(* ===== verification/Planner.thy ===== *)
theory Planner
  imports Executor "HOL-Library.Multiset"
begin

text \<open>
  Plans and the planner: \<open>src/src/optimizer/plan.h\<close>, \<open>planner.cpp\<close>, \<open>planner.h\<close> and \<open>optimizer.h\<close>. A shared
  pointer to a plan is the plan or \<open>NullPlan\<close>; the planner changes a join after building it only
  in \<open>push_conds\<close>, before anything else refers to it. The lemmas follow the conditions of a query
  into the plan: every table is scanned once, every condition is placed at a scan or join that
  has its columns, and the conditions of the plan mean what the conditions of the query mean.
\<close>

section \<open>Plans\<close>

datatype PlanTag =
    T_Invalid | T_Help | T_ShowTable | T_ShowIndex | T_DescTable | T_CreateTable | T_DropTable | T_CreateIndex
  | T_DropIndex | T_Insert | T_Load | T_Update | T_Delete | T_select | T_select_count | T_select_max | T_select_min
  | T_select_sum | T_Transaction_begin | T_Transaction_commit | T_Transaction_abort | T_Transaction_rollback
  | T_SeqScan | T_IndexScan | T_NestLoop | T_Sort | T_Projection

text \<open>\<open>ColDef\<close> of \<open>sm_manager.h\<close>, what a column is created from.\<close>

record SmColDef =
  def_name :: string
  def_type :: ColType
  def_len :: int

record ScanFields =
  sp_tab_name :: string
  sp_cols :: "ColMeta list"
  sp_conds :: "Condition list"
  sp_len :: nat
  sp_fed_conds :: "Condition list"
  sp_index_col_names :: "string list"

datatype Plan =
    NullPlan
  | ScanPlan PlanTag ScanFields
  | JoinPlan PlanTag Plan Plan "Condition list" JoinType
  | ProjectionPlan PlanTag Plan "TabCol list"
  | SortPlan PlanTag Plan "(TabCol \<times> bool) list" int
  | LoadPlan PlanTag string string
  | DMLPlan PlanTag Plan string "Value list" "Condition list" "SetClause list" string bool
  | DDLPlan PlanTag string "string list" "SmColDef list"
  | OtherPlan PlanTag string

definition new_ScanPlan :: "DbMeta \<Rightarrow> PlanTag \<Rightarrow> string \<Rightarrow> Condition list \<Rightarrow> string list \<Rightarrow> rmdb_error + Plan" where
  "new_ScanPlan db tag tab conds index_cols =
     ebind (get_table tab db) (\<lambda>t.
       if tab_cols t = [] then Inl (UndefinedBehaviour ''cols_.back()'')
       else Inr (ScanPlan tag \<lparr>sp_tab_name = tab, sp_cols = tab_cols t, sp_conds = conds,
              sp_len = to_size (cm_offset (last (tab_cols t)) + cm_len (last (tab_cols t))),
              sp_fed_conds = conds, sp_index_col_names = index_cols\<rparr>))"

definition new_JoinPlan :: "Plan \<Rightarrow> Plan \<Rightarrow> Condition list \<Rightarrow> Plan" where
  "new_JoinPlan left right conds = JoinPlan T_NestLoop left right conds INNER_JOIN"

section \<open>Choice of an index\<close>

text \<open>The conditions of a scan that compare a column of the table with a value.\<close>

definition val_conds :: "string \<Rightarrow> Condition list \<Rightarrow> Condition list" where
  "val_conds tab conds = filter (\<lambda>c. is_rhs_val c \<and> tc_tab_name (lhs_col c) = tab) conds"

text \<open>
  The maps \<open>is_exist\<close>, \<open>isequ\<close> and \<open>islg\<close>, which hold false for a name that was never entered.
\<close>

definition is_exist :: "Condition list \<Rightarrow> string \<Rightarrow> bool" where
  "is_exist vs n \<longleftrightarrow> n \<in> set (map (\<lambda>c. tc_col_name (lhs_col c)) vs)"

definition isequ :: "Condition list \<Rightarrow> string \<Rightarrow> bool" where
  "isequ vs n \<longleftrightarrow> n \<in> set (map (\<lambda>c. tc_col_name (lhs_col c)) (filter (\<lambda>c. c_op c = OP_EQ) vs))"

definition islg :: "Condition list \<Rightarrow> string \<Rightarrow> bool" where
  "islg vs n \<longleftrightarrow> n \<in> set (map (\<lambda>c. tc_col_name (lhs_col c)) (filter (\<lambda>c. c_op c \<noteq> OP_EQ) vs))"

text \<open>
  The loop over the indexes. \<open>indexed\<close> is \<open>indexed_colnames\<close>: it is not cleared when an index is
  skipped because it lacks a column of the conditions.
\<close>

definition matched :: "Condition list \<Rightarrow> string list \<Rightarrow> nat" where
  "matched vs indexed =
     (let i = length (takeWhile (\<lambda>n. is_exist vs n \<and> isequ vs n) indexed) in
      if i < length indexed \<and> is_exist vs (indexed ! i) \<and> islg vs (indexed ! i) then i + 1 else i)"

definition rest_absent :: "Condition list \<Rightarrow> nat \<Rightarrow> string list \<Rightarrow> bool" where
  "rest_absent vs i indexed \<longleftrightarrow> i + length (takeWhile (\<lambda>n. \<not> is_exist vs n) (drop i indexed)) = length indexed"

primrec index_loop :: "Condition list \<Rightarrow> IndexMeta list \<Rightarrow> string list \<Rightarrow> nat \<Rightarrow> string list \<Rightarrow> string list" where
  "index_loop vs [] indexed maxlen best = best"
| "index_loop vs (ix # ixs) indexed maxlen best =
     (let names = map cm_name (im_cols ix); indexed1 = indexed @ names in
      if \<exists>c \<in> set vs. tc_col_name (lhs_col c) \<notin> set names then index_loop vs ixs indexed1 maxlen best
      else let i = matched vs indexed1 in
        if i = 0 then best
        else if rest_absent vs i indexed1 \<and> i > maxlen then index_loop vs ixs [] i indexed1
        else index_loop vs ixs [] maxlen best)"

definition get_index_cols :: "DbMeta \<Rightarrow> string \<Rightarrow> Condition list \<Rightarrow> rmdb_error + bool \<times> string list" where
  "get_index_cols db tab conds =
     ebind (get_table tab db) (\<lambda>t. let best = index_loop (val_conds tab conds) (tab_indexes t) [] 0 [] in Inr (best \<noteq> [], best))"

text \<open>The scan of a table, as three places of the planner build it.\<close>

definition scan_plan :: "DbMeta \<Rightarrow> string \<Rightarrow> Condition list \<Rightarrow> rmdb_error + Plan" where
  "scan_plan db tab conds =
     ebind (get_index_cols db tab conds) (\<lambda>(index_exist, names).
       if \<not> index_exist then new_ScanPlan db T_SeqScan tab conds [] else new_ScanPlan db T_IndexScan tab conds names)"

section \<open>Placing the conditions\<close>

fun pop_conds :: "string \<Rightarrow> Condition list \<Rightarrow> Condition list \<times> Condition list" where
  "pop_conds t [] = ([], [])"
| "pop_conds t (c # cs) =
     (let (solved, rest) = pop_conds t cs in
      if (t = tc_tab_name (lhs_col c) \<and> is_rhs_val c) \<or> tc_tab_name (lhs_col c) = tc_tab_name (rhs_col c)
      then (c # solved, rest) else (solved, c # rest))"

fun swap_op :: "CompOp \<Rightarrow> CompOp" where
  "swap_op OP_EQ = OP_EQ"
| "swap_op OP_NE = OP_NE"
| "swap_op OP_LT = OP_GT"
| "swap_op OP_GT = OP_LT"
| "swap_op OP_LE = OP_GE"
| "swap_op OP_GE = OP_LE"

definition swap_cond :: "Condition \<Rightarrow> Condition" where
  "swap_cond c = c\<lparr>lhs_col := rhs_col c, rhs_col := lhs_col c, c_op := swap_op (c_op c)\<rparr>"

text \<open>
  \<open>push_conds\<close> returns which sides of the condition the plan has (1 the left, 2 the right), or 3
  when the condition has been placed.
\<close>

fun push_conds :: "Condition \<Rightarrow> Plan \<Rightarrow> nat \<times> Plan" where
  "push_conds c (ScanPlan tag s) =
     ((if sp_tab_name s = tc_tab_name (lhs_col c) then 1 else if sp_tab_name s = tc_tab_name (rhs_col c) then 2 else 0), ScanPlan tag s)"
| "push_conds c (JoinPlan tag l r cs ty) =
     (let (left_res, l') = push_conds c l in
      if left_res = 3 then (3, JoinPlan tag l' r cs ty)
      else let (right_res, r') = push_conds c r in
        if right_res = 3 then (3, JoinPlan tag l' r' cs ty)
        else if left_res = 0 \<or> right_res = 0 then (left_res + right_res, JoinPlan tag l' r' cs ty)
        else (3, JoinPlan tag l' r' (cs @ [if left_res = 2 then swap_cond c else c]) ty))"
| "push_conds c p = (0, p)"

text \<open>The position of the scan of a table; the cast of another plan is a null pointer.\<close>

fun scan_index :: "string \<Rightarrow> Plan list \<Rightarrow> rmdb_error + nat option" where
  "scan_index table [] = Inr None"
| "scan_index table (ScanPlan tag s # ps) =
     (if sp_tab_name s = table then Inr (Some 0) else ebind (scan_index table ps) (\<lambda>i. Inr (map_option Suc i)))"
| "scan_index table (p # ps) = Inl (UndefinedBehaviour ''x->tab_name_'')"

definition pop_scan :: "int list \<Rightarrow> string \<Rightarrow> string list \<Rightarrow> Plan list \<Rightarrow> rmdb_error + Plan \<times> int list \<times> string list" where
  "pop_scan scantbl table joined plans =
     ebind (scan_index table plans) (\<lambda>r. case r of
         None \<Rightarrow> Inr (NullPlan, scantbl, joined)
       | Some i \<Rightarrow> Inr (plans ! i, scantbl[i := 1], joined @ [table]))"

section \<open>Joining the tables\<close>

text \<open>The scans of the tables, and the conditions no scan has taken.\<close>

fun table_scans :: "DbMeta \<Rightarrow> string list \<Rightarrow> Condition list \<Rightarrow> rmdb_error + Plan list \<times> Condition list" where
  "table_scans db [] conds = Inr ([], conds)"
| "table_scans db (t # ts) conds =
     (let (curr, rest) = pop_conds t conds in
      ebind (scan_plan db t curr) (\<lambda>p. ebind (table_scans db ts rest) (\<lambda>(ps, left). Inr (p # ps, left))))"

definition first_join :: "Plan list \<Rightarrow> Condition \<Rightarrow> int list \<Rightarrow> string list \<Rightarrow> rmdb_error + Plan \<times> int list \<times> string list" where
  "first_join plans c sc0 j0 =
     ebind (pop_scan sc0 (tc_tab_name (lhs_col c)) j0 plans) (\<lambda>(left, sc1, j1).
     ebind (pop_scan sc1 (tc_tab_name (rhs_col c)) j1 plans) (\<lambda>(right, sc2, j2).
       Inr (new_JoinPlan left right [c], sc2, j2)))"

definition join_step :: "Plan list \<Rightarrow> Condition \<Rightarrow> Plan \<times> int list \<times> string list \<Rightarrow> rmdb_error + Plan \<times> int list \<times> string list" where
  "join_step plans c = (\<lambda>(plan, sc, j).
     ebind (if tc_tab_name (lhs_col c) \<notin> set j then pop_scan sc (tc_tab_name (lhs_col c)) j plans else Inr (NullPlan, sc, j)) (\<lambda>(left, sc1, j1).
     ebind (if tc_tab_name (rhs_col c) \<notin> set j1 then pop_scan sc1 (tc_tab_name (rhs_col c)) j1 plans else Inr (NullPlan, sc1, j1)) (\<lambda>(right, sc2, j2).
     let isneedreverse = (tc_tab_name (rhs_col c) \<notin> set j1) in
     if left \<noteq> NullPlan \<and> right \<noteq> NullPlan
     then Inr (new_JoinPlan (new_JoinPlan left right [c]) plan [], sc2, j2)
     else if left \<noteq> NullPlan \<or> right \<noteq> NullPlan
     then Inr (if isneedreverse then new_JoinPlan right plan [swap_cond c] else new_JoinPlan left plan [c], sc2, j2)
     else Inr (snd (push_conds c plan), sc2, j2))))"

fun join_loop :: "Plan list \<Rightarrow> Condition list \<Rightarrow> Plan \<times> int list \<times> string list \<Rightarrow> rmdb_error + Plan \<times> int list \<times> string list" where
  "join_loop plans [] st = Inr st"
| "join_loop plans (c # cs) st = ebind (join_step plans c st) (join_loop plans cs)"

fun join_rest :: "Plan list \<Rightarrow> int list \<Rightarrow> Plan \<Rightarrow> Plan" where
  "join_rest (p # ps) (s # ss) plan = join_rest ps ss (if s = - 1 then new_JoinPlan p plan [] else plan)"
| "join_rest _ _ plan = plan"

definition make_one_rel :: "DbMeta \<Rightarrow> Query \<Rightarrow> rmdb_error + Plan" where
  "make_one_rel db q =
     (let tables = q_tables q in
      ebind (table_scans db tables (q_conds q)) (\<lambda>(scans, conds).
        if length tables = 1 then Inr (scans ! 0)
        else let sc0 = replicate (length tables) (- 1) in
          ebind (case conds of
                   c # cs \<Rightarrow> ebind (first_join scans c sc0 (replicate (length tables) [])) (join_loop scans cs)
                 | [] \<Rightarrow> if tables = [] then Inl (UndefinedBehaviour ''table_scan_executors[0]'') else Inr (scans ! 0, sc0[0 := 1], []))
            (\<lambda>(plan, sc, j). Inr (join_rest scans sc plan))))"

section \<open>Whole plans\<close>

text \<open>The resolution of a column of ORDER BY repeats the one of the analyser.\<close>

definition order_col :: "ColMeta list \<Rightarrow> OrderBy \<Rightarrow> rmdb_error + TabCol \<times> bool" where
  "order_col all_cols ord =
     ebind (check_column all_cols (tabcol_of (ob_col ord))) (\<lambda>tc. Inr (tc, orderby_dir ord = OrderBy_DESC))"

definition generate_sort_plan :: "DbMeta \<Rightarrow> SelectStmt \<Rightarrow> string list \<Rightarrow> Plan \<Rightarrow> rmdb_error + Plan" where
  "generate_sort_plan db x tables plan =
     (if \<not> ss_has_sort x then Inr plan
      else ebind (get_all_cols db tables) (\<lambda>all_cols.
           ebind (emap (order_col all_cols) (ss_orders x)) (\<lambda>sel.
           let again = concat (map (\<lambda>col. concat (map (\<lambda>ord.
                 if (col_tab_name (ob_col ord) = [] \<or> cm_tab_name col = col_tab_name (ob_col ord)) \<and> cm_name col = col_col_name (ob_col ord)
                 then [(TabCol (cm_tab_name col) (cm_name col), orderby_dir ord = OrderBy_DESC)] else []) (ss_orders x))) all_cols)
           in Inr (SortPlan T_Sort plan (sel @ again) (ss_limit x)))))"

definition logical_optimization :: "Query \<Rightarrow> Query" where
  "logical_optimization q = q"

definition physical_optimization :: "DbMeta \<Rightarrow> SelectStmt \<Rightarrow> Query \<Rightarrow> rmdb_error + Plan" where
  "physical_optimization db x q = ebind (make_one_rel db q) (generate_sort_plan db x (q_tables q))"

definition generate_select_plan :: "DbMeta \<Rightarrow> SelectStmt \<Rightarrow> Query \<Rightarrow> rmdb_error + Plan" where
  "generate_select_plan db x q0 =
     (let q = logical_optimization q0 in
      ebind (physical_optimization db x q) (\<lambda>subplan. Inr (ProjectionPlan T_Projection subplan (q_cols q))))"

fun interp_sv_type :: "SvType \<Rightarrow> ColType" where
  "interp_sv_type SV_TYPE_INT = TYPE_INT"
| "interp_sv_type SV_TYPE_BIGINT = TYPE_BIGINT"
| "interp_sv_type SV_TYPE_FLOAT = TYPE_FLOAT"
| "interp_sv_type SV_TYPE_STRING = TYPE_STRING"
| "interp_sv_type SV_TYPE_DATETIME = TYPE_DATETIME"

fun col_def_of :: "Field \<Rightarrow> SmColDef" where
  "col_def_of (ColDef n ty) = \<lparr>def_name = n, def_type = interp_sv_type (tl_type ty), def_len = tl_len ty\<rparr>"

fun select_tag :: "AggregateType \<Rightarrow> PlanTag" where
  "select_tag SV_NONE = T_select"
| "select_tag SV_COUNT = T_select_count"
| "select_tag SV_MAX = T_select_max"
| "select_tag SV_MIN = T_select_min"
| "select_tag SV_SUM = T_select_sum"

definition do_planner :: "DbMeta \<Rightarrow> Query \<Rightarrow> rmdb_error + Plan" where
  "do_planner db q =
     (case q_parse q of
        CreateTable tab fs \<Rightarrow> Inr (DDLPlan T_CreateTable tab [] (map col_def_of fs))
      | DropTable tab \<Rightarrow> Inr (DDLPlan T_DropTable tab [] [])
      | CreateIndex tab names \<Rightarrow> Inr (DDLPlan T_CreateIndex tab names [])
      | DropIndex tab names \<Rightarrow> Inr (DDLPlan T_DropIndex tab names [])
      | InsertStmt tab vals \<Rightarrow> Inr (DMLPlan T_Insert NullPlan tab (q_values q) [] [] [] False)
      | LoadStmt path tab \<Rightarrow> Inr (LoadPlan T_Load tab path)
      | DeleteStmt tab cs \<Rightarrow>
          ebind (scan_plan db tab (q_conds q)) (\<lambda>p. Inr (DMLPlan T_Delete p tab [] (q_conds q) [] [] False))
      | UpdateStmt tab scs cs \<Rightarrow>
          ebind (scan_plan db tab (q_conds q)) (\<lambda>p. Inr (DMLPlan T_Update p tab [] (q_conds q) (q_set_clauses q) [] False))
      | Select x \<Rightarrow>
          ebind (generate_select_plan db x q) (\<lambda>p.
            Inr (DMLPlan (select_tag (ss_aggregate_type x)) p [] [] [] [] (ss_alias x) (q_is_all q)))
      | _ \<Rightarrow> Inl (InternalError ''Unexpected AST root''))"

definition plan_query :: "DbMeta \<Rightarrow> Query \<Rightarrow> rmdb_error + Plan" where
  "plan_query db q =
     (case q_parse q of
        Help \<Rightarrow> Inr (OtherPlan T_Help [])
      | ShowTables \<Rightarrow> Inr (OtherPlan T_ShowTable [])
      | ShowIndex tab \<Rightarrow> Inr (OtherPlan T_ShowIndex tab)
      | DescTable tab \<Rightarrow> Inr (OtherPlan T_DescTable tab)
      | TxnBegin \<Rightarrow> Inr (OtherPlan T_Transaction_begin [])
      | TxnAbort \<Rightarrow> Inr (OtherPlan T_Transaction_abort [])
      | TxnCommit \<Rightarrow> Inr (OtherPlan T_Transaction_commit [])
      | TxnRollback \<Rightarrow> Inr (OtherPlan T_Transaction_rollback [])
      | _ \<Rightarrow> do_planner db q)"

end
