(* ===== verification/Plan_Meaning.thy ===== *)
theory Plan_Meaning
  imports Planner
begin

text \<open>
  What a plan stands for. The scans of a plan are its leaves; its conditions are those of its
  scans and joins. The planner only moves conditions and turns them around, so a plan admits the
  same combinations of rows as the query; the conditions stand where their columns are.
\<close>

section \<open>The parts of a plan\<close>

fun leaves :: "Plan \<Rightarrow> Plan list" where
  "leaves (ScanPlan tag s) = [ScanPlan tag s]"
| "leaves (JoinPlan tag l r cs ty) = leaves l @ leaves r"
| "leaves _ = []"

fun joined_conds :: "Plan \<Rightarrow> Condition list" where
  "joined_conds (JoinPlan tag l r cs ty) = cs @ joined_conds l @ joined_conds r"
| "joined_conds _ = []"

fun scan_tab :: "Plan \<Rightarrow> string" where
  "scan_tab (ScanPlan tag s) = sp_tab_name s"
| "scan_tab _ = []"

fun scan_conds :: "Plan \<Rightarrow> Condition list" where
  "scan_conds (ScanPlan tag s) = sp_conds s"
| "scan_conds _ = []"

definition plan_tables :: "Plan \<Rightarrow> string list" where
  "plan_tables p = map scan_tab (leaves p)"

definition plan_conds :: "Plan \<Rightarrow> Condition list" where
  "plan_conds p = joined_conds p @ concat (map scan_conds (leaves p))"

abbreviation lhs_tab :: "Condition \<Rightarrow> string" where "lhs_tab c \<equiv> tc_tab_name (lhs_col c)"
abbreviation rhs_tab :: "Condition \<Rightarrow> string" where "rhs_tab c \<equiv> tc_tab_name (rhs_col c)"

text \<open>A tree of joins over scans in which every condition stands where its columns are.\<close>

fun placed :: "Plan \<Rightarrow> bool" where
  "placed (ScanPlan tag s) \<longleftrightarrow> (\<forall>c \<in> set (sp_conds s). lhs_tab c = sp_tab_name s \<and> (is_rhs_val c \<or> rhs_tab c = sp_tab_name s))"
| "placed (JoinPlan tag l r cs ty) \<longleftrightarrow> placed l \<and> placed r \<and>
     (\<forall>c \<in> set cs. \<not> is_rhs_val c \<and> lhs_tab c \<in> set (plan_tables l) \<and> rhs_tab c \<in> set (plan_tables r))"
| "placed _ \<longleftrightarrow> False"

lemma plan_tables_simps [simp]:
  "plan_tables (ScanPlan tag s) = [sp_tab_name s]" "plan_tables (JoinPlan tag l r cs ty) = plan_tables l @ plan_tables r"
  by (simp_all add: plan_tables_def)

text \<open>A condition up to its direction.\<close>

definition undirected :: "Condition \<Rightarrow> Condition set" where
  "undirected c = (if is_rhs_val c then {c} else {c, swap_cond c})"

abbreviation undirecteds :: "Condition list \<Rightarrow> Condition set multiset" where
  "undirecteds cs \<equiv> image_mset undirected (mset cs)"

lemma swap_cond_simps [simp]:
  "lhs_col (swap_cond c) = rhs_col c" "rhs_col (swap_cond c) = lhs_col c" "is_rhs_val (swap_cond c) = is_rhs_val c"
  "c_op (swap_cond c) = swap_op (c_op c)"
  by (simp_all add: swap_cond_def)

lemma swap_op_twice [simp]: "swap_op (swap_op x) = x"
  by (cases x) simp_all

lemma swap_cond_twice [simp]: "swap_cond (swap_cond c) = c"
  by (simp add: swap_cond_def)

lemma undirected_swap [simp]: "\<not> is_rhs_val c \<Longrightarrow> undirected (swap_cond c) = undirected c"
  by (auto simp: undirected_def)

lemma undirected_eq: "undirected c = undirected c' \<Longrightarrow> c = c' \<or> \<not> is_rhs_val c' \<and> c = swap_cond c'"
  by (auto simp: undirected_def doubleton_eq_iff split: if_splits)

text \<open>What a condition says of a combination of rows, whichever way round it is written.\<close>

locale condition_meaning =
  fixes means :: "'r \<Rightarrow> Condition \<Rightarrow> bool"
  assumes swap_means: "\<not> is_rhs_val c \<Longrightarrow> means \<rho> (swap_cond c) \<longleftrightarrow> means \<rho> c"
begin

lemma undirected_means: "undirected c = undirected c' \<Longrightarrow> means \<rho> c \<longleftrightarrow> means \<rho> c'"
  using undirected_eq [of c c'] swap_means [of c' \<rho>] by blast

lemma undirecteds_mean:
  assumes "undirecteds cs = undirecteds ds"
  shows "(\<forall>c \<in> set cs. means \<rho> c) \<longleftrightarrow> (\<forall>d \<in> set ds. means \<rho> d)"
proof -
  have s: "undirected ` set cs = undirected ` set ds" using arg_cong [OF assms, of set_mset] by simp
  have "means \<rho> c" if "\<forall>d \<in> set ds. means \<rho> d" "c \<in> set cs" for c
  proof -
    from s that(2) obtain d where "d \<in> set ds" "undirected c = undirected d" by (metis image_iff)
    then show ?thesis using undirected_means that(1) by blast
  qed
  moreover have "means \<rho> d" if "\<forall>c \<in> set cs. means \<rho> c" "d \<in> set ds" for d
  proof -
    from s that(2) obtain c where "c \<in> set cs" "undirected c = undirected d" by (metis image_iff)
    then show ?thesis using undirected_means that by blast
  qed
  ultimately show ?thesis by blast
qed

end

section \<open>Conditions of one table\<close>

abbreviation popped :: "string \<Rightarrow> Condition \<Rightarrow> bool" where
  "popped t c \<equiv> (t = lhs_tab c \<and> is_rhs_val c) \<or> lhs_tab c = rhs_tab c"

lemma pop_conds_filter: "pop_conds t cs = (filter (popped t) cs, filter (\<lambda>c. \<not> popped t c) cs)"
  by (induction cs) (auto simp: Let_def)

definition scannable :: "DbMeta \<Rightarrow> string \<Rightarrow> bool" where
  "scannable db t \<longleftrightarrow> (\<exists>m. get_table t db = Inr m \<and> tab_cols m \<noteq> [])"

lemma new_ScanPlan_scans:
  assumes "scannable db t"
  obtains s where "new_ScanPlan db tag t cs names = Inr (ScanPlan tag s)" "sp_tab_name s = t" "sp_conds s = cs"
  using assms that by (auto simp: scannable_def new_ScanPlan_def)

lemma scan_plan_scans:
  assumes "scannable db t"
  obtains tag s where "scan_plan db t cs = Inr (ScanPlan tag s)" "sp_tab_name s = t" "sp_conds s = cs"
proof -
  obtain m where m: "get_table t db = Inr m" using assms by (auto simp: scannable_def)
  let ?b = "index_loop (val_conds t cs) (tab_indexes m) [] 0 []"
  let ?tag = "if ?b = [] then T_SeqScan else T_IndexScan"
  have e: "scan_plan db t cs = new_ScanPlan db ?tag t cs ?b" using m by (simp add: scan_plan_def get_index_cols_def Let_def)
  show thesis by (rule new_ScanPlan_scans [OF assms, of ?tag cs ?b]) (use e that in simp)
qed

text \<open>Conditions the scans can take: a comparison of two columns of one table only for the first table.\<close>

definition separable :: "string list \<Rightarrow> Condition list \<Rightarrow> bool" where
  "separable ts cs \<longleftrightarrow> (\<forall>c \<in> set cs. lhs_tab c = rhs_tab c \<longrightarrow> \<not> is_rhs_val c \<and> ts \<noteq> [] \<and> lhs_tab c = hd ts)"

lemma table_scans_take:
  assumes "\<forall>t \<in> set ts. scannable db t" and "separable ts cs"
  shows "\<exists>ps rest. table_scans db ts cs = Inr (ps, rest) \<and> map scan_tab ps = ts \<and> (\<forall>p \<in> set ps. placed p \<and> leaves p = [p]) \<and>
    rest = filter (\<lambda>c. \<forall>t \<in> set ts. \<not> popped t c) cs \<and> mset cs = mset (concat (map scan_conds ps)) + mset rest"
  using assms
proof (induction ts arbitrary: cs)
  case (Cons t ts)
  let ?c = "filter (popped t) cs" and ?r = "filter (\<lambda>c. \<not> popped t c) cs"
  obtain tag s where s: "scan_plan db t ?c = Inr (ScanPlan tag s)" "sp_tab_name s = t" "sp_conds s = ?c"
    using scan_plan_scans [of db t ?c] Cons.prems(1) by auto
  have "\<forall>t \<in> set ts. scannable db t" "separable ts ?r" using Cons.prems(1) by (auto simp: separable_def)
  from Cons.IH [OF this] obtain ps rest where ps: "table_scans db ts ?r = Inr (ps, rest)" "map scan_tab ps = ts" "\<forall>p \<in> set ps. placed p \<and> leaves p = [p]"
    "rest = filter (\<lambda>c. \<forall>t \<in> set ts. \<not> popped t c) ?r" "mset ?r = mset (concat (map scan_conds ps)) + mset rest"
    by blast
  have run: "table_scans db (t # ts) cs = Inr (ScanPlan tag s # ps, rest)" using s(1) ps(1) by (simp add: pop_conds_filter)
  have "placed (ScanPlan tag s)" using Cons.prems(2) by (auto simp: s separable_def)
  moreover have "rest = filter (\<lambda>c. \<forall>u \<in> set (t # ts). \<not> popped u c) cs" unfolding ps(4) filter_filter by (rule filter_cong) auto
  moreover have "mset cs = mset ?c + mset ?r" unfolding mset_filter by (rule multiset_partition)
  then have "mset cs = mset (concat (map scan_conds (ScanPlan tag s # ps))) + mset rest"
    unfolding ps(5) by (simp only: list.map concat.simps scan_conds.simps mset_append s(3) add.assoc)
  moreover have "\<forall>p \<in> set (ScanPlan tag s # ps). placed p \<and> leaves p = [p]" using calculation(1) ps(3) by simp
  moreover have "map scan_tab (ScanPlan tag s # ps) = t # ts" using s(2) ps(2) by simp
  ultimately show ?case unfolding run by (intro exI [of _ "ScanPlan tag s # ps"] exI [of _ rest] conjI) (assumption | rule refl)+
qed simp

section \<open>Conditions of two tables\<close>

text \<open>What \<open>push_conds\<close> does to a tree of joins over different tables.\<close>

definition sides :: "Condition \<Rightarrow> string set \<Rightarrow> nat" where
  "sides c T = (if lhs_tab c \<in> T \<and> rhs_tab c \<in> T then 3 else if lhs_tab c \<in> T then 1 else if rhs_tab c \<in> T then 2 else 0)"

lemma plan_tables_leaves: "leaves q = leaves p \<Longrightarrow> plan_tables q = plan_tables p"
  by (simp add: plan_tables_def)

lemma push_conds_places:
  assumes "placed p" and "distinct (plan_tables p)" and "\<not> is_rhs_val c" and "lhs_tab c \<noteq> rhs_tab c"
    and "push_conds c p = (n, p')"
  shows "leaves p' = leaves p \<and> placed p' \<and> n = sides c (set (plan_tables p)) \<and>
    undirecteds (joined_conds p') = undirecteds (joined_conds p) + (if n = 3 then {#undirected c#} else {#})"
  using assms
proof (induction p arbitrary: n p')
  case (JoinPlan tag l r cs ty)
  have p: "placed l" "placed r" "distinct (plan_tables l)" "distinct (plan_tables r)" "set (plan_tables l) \<inter> set (plan_tables r) = {}"
    using JoinPlan.prems(1,2) by simp_all
  obtain a l' where l: "push_conds c l = (a, l')" by (cases "push_conds c l")
  obtain b r' where r: "push_conds c r = (b, r')" by (cases "push_conds c r")
  have L: "leaves l' = leaves l" "placed l'" "a = sides c (set (plan_tables l))"
    "undirecteds (joined_conds l') = undirecteds (joined_conds l) + (if a = 3 then {#undirected c#} else {#})"
    using JoinPlan.IH(1) [OF p(1,3) JoinPlan.prems(3,4) l] by simp_all
  have R: "leaves r' = leaves r" "placed r'" "b = sides c (set (plan_tables r))"
    "undirecteds (joined_conds r') = undirecteds (joined_conds r) + (if b = 3 then {#undirected c#} else {#})"
    using JoinPlan.IH(2) [OF p(2,4) JoinPlan.prems(3,4) r] by simp_all
  note T = plan_tables_leaves [OF L(1)] plan_tables_leaves [OF R(1)]
  have ab: "a = 3 \<Longrightarrow> b = 0" "b = 3 \<Longrightarrow> a = 0" using L(3) R(3) p(5) by (auto simp: sides_def split: if_splits)
  have push: "(n, p') = (if a = 3 then (3, JoinPlan tag l' r cs ty)
        else if b = 3 then (3, JoinPlan tag l' r' cs ty)
        else if a = 0 \<or> b = 0 then (a + b, JoinPlan tag l' r' cs ty)
        else (3, JoinPlan tag l' r' (cs @ [if a = 2 then swap_cond c else c]) ty))"
    using JoinPlan.prems(5) unfolding push_conds.simps l r Let_def prod.case by simp
  have n: "n = sides c (set (plan_tables (JoinPlan tag l r cs ty)))"
    using push L(3) R(3) p(5) JoinPlan.prems(4) by (auto simp: sides_def split: if_splits)
  have pl: "placed p'"
    using push L R p JoinPlan.prems T by (auto simp: sides_def split: if_splits)
  have u: "undirecteds (joined_conds p') = undirecteds (joined_conds (JoinPlan tag l r cs ty)) + (if n = 3 then {#undirected c#} else {#})"
    using push L(3,4) R(3,4) ab JoinPlan.prems(3) by (auto simp: sides_def split: if_splits)
  have "leaves p' = leaves (JoinPlan tag l r cs ty)" using push L(1) R(1) by (auto split: if_splits)
  with n pl u show ?case by blast
qed (auto simp: sides_def)

section \<open>Building the tree of joins\<close>

text \<open>One scan per table, and the scans that are marked as used.\<close>

definition scans_for :: "string list \<Rightarrow> Plan list \<Rightarrow> bool" where
  "scans_for ts scans \<longleftrightarrow> map scan_tab scans = ts \<and> distinct ts \<and> [] \<notin> set ts \<and> (\<forall>p \<in> set scans. placed p \<and> leaves p = [p])"

definition marked :: "Plan list \<Rightarrow> int list \<Rightarrow> Plan set" where
  "marked scans sc = {scans ! k | k. k < length scans \<and> sc ! k = 1}"

definition join_inv :: "Plan list \<Rightarrow> Condition list \<Rightarrow> Plan \<times> int list \<times> string list \<Rightarrow> bool" where
  "join_inv scans past = (\<lambda>(plan, sc, j).
     length sc = length scans \<and> set sc \<subseteq> {1, - 1} \<and> distinct (leaves plan) \<and> set (leaves plan) = marked scans sc \<and>
     set j - {[]} = scan_tab ` marked scans sc \<and> placed plan \<and> undirecteds (joined_conds plan) = undirecteds past)"

lemma leaves_scan: "p \<in> set (leaves q) \<Longrightarrow> \<exists>tag s. p = ScanPlan tag s"
  by (induction q) auto

lemma scan_index_found:
  "t \<in> scan_tab ` set ps \<Longrightarrow> \<forall>p \<in> set ps. leaves p = [p] \<Longrightarrow> \<exists>i < length ps. scan_index t ps = Inr (Some i) \<and> scan_tab (ps ! i) = t"
proof (induction ps)
  case (Cons p ps)
  obtain tag s where p: "p = ScanPlan tag s" using leaves_scan [of p p] Cons.prems(2) by auto
  show ?case
  proof (cases "sp_tab_name s = t")
    case False
    then obtain i where "i < length ps" "scan_index t ps = Inr (Some i)" "scan_tab (ps ! i) = t"
      using Cons p by auto
    then show ?thesis using False p by (intro exI [of _ "Suc i"]) simp
  qed (auto simp: p)
qed simp

lemma marked_update:
  assumes "i < length scans" and "length sc = length scans"
  shows "marked scans (sc[i := 1]) = insert (scans ! i) (marked scans sc)"
proof -
  have "(k < length scans \<and> sc[i := 1] ! k = 1) \<longleftrightarrow> k = i \<or> (k < length scans \<and> sc ! k = 1)" for k
    using assms by (cases "k = i") simp_all
  then show ?thesis by (auto simp: marked_def)
qed

lemma pop_scan_found:
  assumes s: "scans_for ts scans" and t: "t \<in> set ts" and sc: "length sc = length scans" "set sc \<subseteq> {1, - 1}"
  obtains p sc' where "pop_scan sc t j scans = Inr (p, sc', j @ [t])" "length sc' = length scans" "set sc' \<subseteq> {1, - 1}"
    "marked scans sc' = insert p (marked scans sc)" "placed p" "leaves p = [p]" "scan_tab p = t" "p \<in> set scans"
proof -
  have "t \<in> scan_tab ` set scans" "\<forall>p \<in> set scans. leaves p = [p]" using s t by (auto simp: scans_for_def)
  then obtain i where i: "i < length scans" "scan_index t scans = Inr (Some i)" "scan_tab (scans ! i) = t"
    using scan_index_found [of t scans] by blast
  have "scans ! i \<in> set scans" using i by simp
  moreover have "set (sc[i := 1]) \<subseteq> {1, - 1}" using sc(2) set_update_subset_insert [of sc i 1] by auto
  ultimately show thesis
    using that [of "scans ! i" "sc[i := 1]"] i sc marked_update [OF i(1) sc(1)] s by (simp add: pop_scan_def scans_for_def)
qed

lemma scans_for_inj: "scans_for ts scans \<Longrightarrow> inj_on scan_tab (set scans)"
  by (auto simp: scans_for_def distinct_map)

lemma marked_subset: "marked scans sc \<subseteq> set scans"
  by (auto simp: marked_def)

lemma join_inv_tables:
  assumes "scans_for ts scans" and "join_inv scans past (plan, sc, j)"
  shows "distinct (plan_tables plan)" "set (plan_tables plan) = set j - {[]}"
proof -
  have "inj_on scan_tab (set (leaves plan))"
    using assms(2) inj_on_subset [OF scans_for_inj [OF assms(1)] marked_subset] by (simp add: join_inv_def)
  with assms(2) show "distinct (plan_tables plan)" "set (plan_tables plan) = set j - {[]}"
    by (simp_all add: join_inv_def plan_tables_def distinct_map)
qed

text \<open>A condition between two different tables of the query.\<close>

definition joins :: "string list \<Rightarrow> Condition \<Rightarrow> bool" where
  "joins ts c \<longleftrightarrow> \<not> is_rhs_val c \<and> lhs_tab c \<in> set ts \<and> rhs_tab c \<in> set ts \<and> lhs_tab c \<noteq> rhs_tab c"

lemma new_scan_apart:
  "scan_tab p = t \<Longrightarrow> t \<noteq> [] \<Longrightarrow> t \<notin> set j \<Longrightarrow> set j - {[]} = scan_tab ` M \<Longrightarrow> p \<notin> M"
  by auto

lemma leaves_not_null [simp]: "leaves p = [p] \<Longrightarrow> p \<noteq> NullPlan"
  by auto

lemma first_join_inv:
  assumes s: "scans_for ts scans" and c: "joins ts c"
  shows "\<exists>st. first_join scans c (replicate (length scans) (- 1)) (replicate n []) = Inr st \<and> join_inv scans [c] st"
proof -
  let ?sc = "replicate (length scans) (- 1 :: int)" and ?j = "replicate n ([] :: string)"
  have m0: "marked scans ?sc = {}" by (auto simp: marked_def)
  obtain p sc1 where p: "pop_scan ?sc (lhs_tab c) ?j scans = Inr (p, sc1, ?j @ [lhs_tab c])" "length sc1 = length scans" "set sc1 \<subseteq> {1, - 1}"
    "marked scans sc1 = insert p (marked scans ?sc)" "placed p" "leaves p = [p]" "scan_tab p = lhs_tab c" "p \<in> set scans"
    by (rule pop_scan_found [OF s, of "lhs_tab c" ?sc ?j]) (use c in \<open>auto simp: joins_def\<close>)
  obtain r sc2 where r: "pop_scan sc1 (rhs_tab c) (?j @ [lhs_tab c]) scans = Inr (r, sc2, (?j @ [lhs_tab c]) @ [rhs_tab c])"
    "length sc2 = length scans" "set sc2 \<subseteq> {1, - 1}" "marked scans sc2 = insert r (marked scans sc1)" "placed r" "leaves r = [r]"
    "scan_tab r = rhs_tab c" "r \<in> set scans"
    by (rule pop_scan_found [OF s _ p(2,3), of "rhs_tab c" "?j @ [lhs_tab c]"]) (use c in \<open>auto simp: joins_def\<close>)
  have ne: "lhs_tab c \<noteq> []" "rhs_tab c \<noteq> []" "p \<noteq> r" using s c p(7) r(7) by (auto simp: scans_for_def joins_def)
  obtain pt ps rt rs where pr: "p = ScanPlan pt ps" "r = ScanPlan rt rs"
    using leaves_scan [of p p] leaves_scan [of r r] p(6) r(6) by auto
  have "join_inv scans [c] (new_JoinPlan p r [c], sc2, (?j @ [lhs_tab c]) @ [rhs_tab c])"
    using p(4,5,7) r(2-5,7) ne c m0 by (auto simp: join_inv_def new_JoinPlan_def pr joins_def)
  then show ?thesis using p(1) r(1) by (simp add: first_join_def)
qed

lemma join_inv_add:
  assumes "join_inv scans past (plan, sc, j)" and "placed q" and "distinct (leaves q)" and "set (leaves q) \<inter> marked scans sc = {}"
    and "marked scans sc' = set (leaves q) \<union> marked scans sc" and "length sc' = length scans" and "set sc' \<subseteq> {1, - 1}"
    and "set j' - {[]} = scan_tab ` set (leaves q) \<union> (set j - {[]})"
    and "\<forall>c \<in> set cs. \<not> is_rhs_val c \<and> lhs_tab c \<in> set (plan_tables q) \<and> rhs_tab c \<in> set (plan_tables plan)"
    and "undirecteds (joined_conds q @ cs) = undirecteds ds"
  shows "join_inv scans (past @ ds) (new_JoinPlan q plan cs, sc', j')"
proof -
  have "undirecteds (joined_conds (new_JoinPlan q plan cs)) = undirecteds (joined_conds q @ cs) + undirecteds (joined_conds plan)"
    by (simp add: new_JoinPlan_def)
  also have "\<dots> = undirecteds (past @ ds)" using assms(1) unfolding assms(10) by (simp add: join_inv_def)
  finally show ?thesis using assms(1-9) by (auto simp: join_inv_def new_JoinPlan_def image_Un)
qed

lemma join_step_inv:
  assumes s: "scans_for ts scans" and c: "joins ts c" and i: "join_inv scans past (plan, sc, j)"
  shows "\<exists>st. join_step scans c (plan, sc, j) = Inr st \<and> join_inv scans (past @ [c]) st"
proof -
  note tabs = join_inv_tables [OF s i]
  have sc: "length sc = length scans" "set sc \<subseteq> {1, - 1}" "set j - {[]} = scan_tab ` marked scans sc" "placed plan"
    using i by (simp_all add: join_inv_def)
  have ne: "lhs_tab c \<noteq> []" "rhs_tab c \<noteq> []" "lhs_tab c \<noteq> rhs_tab c" "lhs_tab c \<in> set ts" "rhs_tab c \<in> set ts" "\<not> is_rhs_val c"
    using s c by (auto simp: scans_for_def joins_def)
  show ?thesis
  proof (cases "lhs_tab c \<in> set j")
    case l: False
    obtain p sc1 where p: "pop_scan sc (lhs_tab c) j scans = Inr (p, sc1, j @ [lhs_tab c])" "length sc1 = length scans" "set sc1 \<subseteq> {1, - 1}"
      "marked scans sc1 = insert p (marked scans sc)" "placed p" "leaves p = [p]" "scan_tab p = lhs_tab c" "p \<in> set scans"
      by (rule pop_scan_found [OF s ne(4) sc(1,2)])
    have pn: "p \<notin> marked scans sc" using new_scan_apart [OF p(7) ne(1) l sc(3)] .
    obtain pt ps where ps: "p = ScanPlan pt ps" using leaves_scan [of p p] p(6) by auto
    show ?thesis
    proof (cases "rhs_tab c \<in> set j")
      case True
      have "join_inv scans (past @ [c]) (new_JoinPlan p plan [c], sc1, j @ [lhs_tab c])"
        by (rule join_inv_add [OF i p(5) _ _ _ p(2,3)]) (use p(4,7) ps pn ne tabs(2) True in auto)
      then show ?thesis using p(1,6) l True ne by (simp add: join_step_def)
    next
      case False
      obtain r sc2 where r: "pop_scan sc1 (rhs_tab c) (j @ [lhs_tab c]) scans = Inr (r, sc2, (j @ [lhs_tab c]) @ [rhs_tab c])"
        "length sc2 = length scans" "set sc2 \<subseteq> {1, - 1}" "marked scans sc2 = insert r (marked scans sc1)" "placed r" "leaves r = [r]"
        "scan_tab r = rhs_tab c" "r \<in> set scans"
        by (rule pop_scan_found [OF s ne(5) p(2,3)])
      have rn: "r \<notin> marked scans sc" using new_scan_apart [OF r(7) ne(2) False sc(3)] .
      obtain rt rs where rs: "r = ScanPlan rt rs" using leaves_scan [of r r] r(6) by auto
      have "join_inv scans (past @ [c]) (new_JoinPlan (new_JoinPlan p r [c]) plan [], sc2, (j @ [lhs_tab c]) @ [rhs_tab c])"
        by (rule join_inv_add [OF i _ _ _ _ r(2,3)]) (use p(4,5,7) r(4,5,7) ps rs pn rn ne in \<open>auto simp: new_JoinPlan_def\<close>)
      then show ?thesis using p(1,6) r(1,6) l False ne by (simp add: join_step_def)
    qed
  next
    case l: True
    show ?thesis
    proof (cases "rhs_tab c \<in> set j")
      case True
      obtain n p' where push: "push_conds c plan = (n, p')" by (cases "push_conds c plan")
      have "leaves p' = leaves plan" "placed p'" "n = sides c (set (plan_tables plan))"
        "undirecteds (joined_conds p') = undirecteds (joined_conds plan) + (if n = 3 then {#undirected c#} else {#})"
        using push_conds_places [OF sc(4) tabs(1) ne(6,3) push] by simp_all
      moreover have "sides c (set (plan_tables plan)) = 3" using tabs(2) l True ne by (simp add: sides_def)
      ultimately have "join_inv scans (past @ [c]) (p', sc, j)" using i by (simp add: join_inv_def)
      then show ?thesis using l True push by (simp add: join_step_def)
    next
      case False
      obtain r sc2 where r: "pop_scan sc (rhs_tab c) j scans = Inr (r, sc2, j @ [rhs_tab c])"
        "length sc2 = length scans" "set sc2 \<subseteq> {1, - 1}" "marked scans sc2 = insert r (marked scans sc)" "placed r" "leaves r = [r]"
        "scan_tab r = rhs_tab c" "r \<in> set scans"
        by (rule pop_scan_found [OF s ne(5) sc(1,2)])
      have rn: "r \<notin> marked scans sc" using new_scan_apart [OF r(7) ne(2) False sc(3)] .
      obtain rt rs where rs: "r = ScanPlan rt rs" using leaves_scan [of r r] r(6) by auto
      have "join_inv scans (past @ [c]) (new_JoinPlan r plan [swap_cond c], sc2, j @ [rhs_tab c])"
        by (rule join_inv_add [OF i r(5) _ _ _ r(2,3)]) (use r(4,7) rs rn ne tabs(2) l in auto)
      then show ?thesis using r(1,6) l False by (simp add: join_step_def)
    qed
  qed
qed

lemma join_loop_inv:
  "scans_for ts scans \<Longrightarrow> \<forall>c \<in> set cs. joins ts c \<Longrightarrow> join_inv scans past st \<Longrightarrow>
   \<exists>st'. join_loop scans cs st = Inr st' \<and> join_inv scans (past @ cs) st'"
proof (induction cs arbitrary: past st)
  case (Cons c cs)
  obtain plan sc j where st: "st = (plan, sc, j)" by (cases st)
  obtain st1 where st1: "join_step scans c st = Inr st1" "join_inv scans (past @ [c]) st1"
    using join_step_inv [OF Cons.prems(1), of c past plan sc j] Cons.prems(2,3) st by auto
  then show ?case using Cons.IH [OF Cons.prems(1) _ st1(2)] Cons.prems(2) by auto
qed simp

lemma join_rest_leaves:
  assumes "length sc = length ps" and "\<forall>p \<in> set ps. placed p \<and> leaves p = [p]" and "placed plan"
  shows "leaves (join_rest ps sc plan) = rev (map fst (filter (\<lambda>(p, s). s = - 1) (zip ps sc))) @ leaves plan \<and>
    placed (join_rest ps sc plan) \<and> joined_conds (join_rest ps sc plan) = joined_conds plan"
  using assms
proof (induction ps sc plan rule: join_rest.induct)
  case (1 p ps s ss plan)
  obtain tag f where p: "p = ScanPlan tag f" using leaves_scan [of p p] "1.prems"(2) by auto
  show ?case using "1.IH" "1.prems" by (auto simp: new_JoinPlan_def p)
qed auto

lemma join_rest_all:
  assumes s: "scans_for ts scans" and sc: "length sc = length scans" "set sc \<subseteq> {1, - 1}"
    and p: "placed plan" "distinct (leaves plan)" "set (leaves plan) = marked scans sc"
  shows "mset (leaves (join_rest scans sc plan)) = mset scans"
proof -
  let ?rest = "map fst (filter (\<lambda>(p, s). s = - 1) (zip scans sc))"
  have d: "distinct scans" using s by (auto simp: scans_for_def distinct_map)
  have l: "leaves (join_rest scans sc plan) = rev ?rest @ leaves plan"
    using join_rest_leaves [OF sc(1) _ p(1)] s by (simp add: scans_for_def)
  have rest: "set ?rest = {scans ! k | k. k < length scans \<and> sc ! k = - 1}" using sc(1) by (force simp: set_zip)
  have "sc ! k = 1 \<or> sc ! k = - 1" if "k < length scans" for k
    using subsetD [OF sc(2) nth_mem [of k sc]] that sc(1) by simp
  then have un: "set ?rest \<union> marked scans sc = set scans" unfolding rest marked_def set_conv_nth [of scans] by blast
  have dis: "set ?rest \<inter> marked scans sc = {}" unfolding rest marked_def using d by (auto simp: nth_eq_iff_index_eq)
  have "distinct ?rest" using d sc(1)
    by (metis (no_types, lifting) distinct_map_filter map_fst_zip)
  then have "distinct (rev ?rest @ leaves plan)" "set (rev ?rest @ leaves plan) = set scans" using p dis un by auto
  then show ?thesis unfolding l using d set_eq_iff_mset_eq_distinct by blast
qed

lemma mset_concat_map: "mset (concat (map f xs)) = (\<Sum>x \<in># mset xs. mset (f x))"
  by (induction xs) simp_all

text \<open>Conditions as the analyser leaves them.\<close>

definition resolved :: "string list \<Rightarrow> Condition \<Rightarrow> bool" where
  "resolved ts c \<longleftrightarrow> lhs_tab c \<in> set ts \<and> (if is_rhs_val c then rhs_tab c = [] else rhs_tab c \<in> set ts)"

lemma make_one_rel_places:
  assumes ts: "q_tables q = ts" "ts \<noteq> []" "distinct ts" "[] \<notin> set ts" "\<forall>t \<in> set ts. scannable db t"
    and cs: "\<forall>c \<in> set (q_conds q). resolved ts c" "separable ts (q_conds q)"
  shows "\<exists>p. make_one_rel db q = Inr p \<and> placed p \<and> mset (plan_tables p) = mset ts \<and> undirecteds (plan_conds p) = undirecteds (q_conds q)"
proof -
  obtain ps rest where ps: "table_scans db ts (q_conds q) = Inr (ps, rest)" "map scan_tab ps = ts" "\<forall>p \<in> set ps. placed p \<and> leaves p = [p]"
    "rest = filter (\<lambda>c. \<forall>t \<in> set ts. \<not> popped t c) (q_conds q)" "mset (q_conds q) = mset (concat (map scan_conds ps)) + mset rest"
    using table_scans_take [OF ts(5) cs(2)] by blast
  have s: "scans_for ts ps" using ps(2,3) ts(3,4) by (simp add: scans_for_def)
  have jn: "\<forall>c \<in> set rest. joins ts c" using cs(1) unfolding ps(4) by (auto simp: resolved_def joins_def split: if_splits)
  have len: "length ps = length ts" using ps(2) by auto
  have fin: "mset (plan_tables p) = mset ts \<and> undirecteds (plan_conds p) = undirecteds (q_conds q)"
    if "mset (leaves p) = mset ps" "undirecteds (joined_conds p) = undirecteds rest" for p
    using that ps(5) by (simp add: plan_tables_def plan_conds_def mset_concat_map flip: ps(2))
  have "\<exists>p. make_one_rel db q = Inr p \<and> placed p \<and> mset (leaves p) = mset ps \<and> undirecteds (joined_conds p) = undirecteds rest"
  proof (cases "length ts = 1")
    case True
    then obtain t where t: "ts = [t]" by (cases ts) auto
    then obtain p where p: "ps = [p]" using len by (cases ps) auto
    have "False" if "c \<in> set rest" for c using bspec [OF jn that] unfolding joins_def t by (metis list.set(1) list.set(2) singletonD)
    then have "rest = []" by (cases rest) auto
    moreover obtain tag f where "p = ScanPlan tag f" using leaves_scan [of p p] ps(3) p by auto
    moreover have "make_one_rel db q = Inr p" using ps(1) p t ts(1) by (simp add: make_one_rel_def)
    ultimately show ?thesis using ps(3) p by (intro exI [of _ p]) simp
  next
    case False
    let ?sc = "replicate (length ps) (- 1 :: int)"
    obtain plan sc j where run: "make_one_rel db q = Inr (join_rest ps sc plan)" and inv: "length sc = length ps" "set sc \<subseteq> {1, - 1}"
      "placed plan" "distinct (leaves plan)" "set (leaves plan) = marked ps sc" "undirecteds (joined_conds plan) = undirecteds rest"
    proof (cases rest)
      case Nil
      then obtain p qs where p: "ps = p # qs" using len ts(2) by (cases ps) auto
      then obtain tag f where f: "p = ScanPlan tag f" using leaves_scan [of p p] ps(3) by auto
      have "marked ps ?sc = {}" by (auto simp: marked_def)
      then have "marked ps (?sc[0 := 1]) = {p}" using marked_update [of 0 ps ?sc] p by simp
      moreover have "make_one_rel db q = Inr (join_rest ps (?sc[0 := 1]) p)"
        using ps(1) p Nil False ts(1,2) len by (simp add: make_one_rel_def Let_def)
      moreover have "set (?sc[0 := 1]) \<subseteq> {1, - 1}" using set_update_subset_insert [of ?sc 0 1] by auto
      ultimately show thesis using that [of "?sc[0 := 1]" p] ps(3) p f Nil by simp
    next
      case (Cons c cs)
      have jc: "joins ts c" "\<forall>c \<in> set cs. joins ts c" using jn Cons by simp_all
      obtain st1 where st1: "first_join ps c ?sc (replicate (length ts) []) = Inr st1" "join_inv ps [c] st1"
        using first_join_inv [OF s jc(1)] by blast
      obtain st2 where st2: "join_loop ps cs st1 = Inr st2" "join_inv ps ([c] @ cs) st2"
        using join_loop_inv [OF s jc(2) st1(2)] by blast
      obtain plan sc j where st: "join_loop ps cs st1 = Inr (plan, sc, j)" "join_inv ps (c # cs) (plan, sc, j)"
        using st2 by (cases st2) simp
      have "make_one_rel db q = Inr (join_rest ps sc plan)"
        using ps(1) Cons False ts(1) st1(1) st(1) len by (simp add: make_one_rel_def Let_def)
      then show thesis using that [of sc plan] st(2) Cons by (auto simp: join_inv_def)
    qed
    have "placed (join_rest ps sc plan)" "joined_conds (join_rest ps sc plan) = joined_conds plan"
      using join_rest_leaves [OF inv(1) ps(3) inv(3)] by simp_all
    then show ?thesis using run join_rest_all [OF s inv(1-5)] inv(6) by auto
  qed
  then show ?thesis using fin by blast
qed

section \<open>The meaning of conditions\<close>

text \<open>A row for every table; a column is read from the row of its table.\<close>

definition col_in :: "DbMeta \<Rightarrow> (string \<Rightarrow> byte list) \<Rightarrow> TabCol \<Rightarrow> rmdb_error + Value" where
  "col_in db \<rho> tc = ebind (get_table (tc_tab_name tc) db) (\<lambda>t. ebind (get_col (tc_col_name tc) t) (column_value (\<rho> (tc_tab_name tc))))"

definition holds_in :: "DbMeta \<Rightarrow> (string \<Rightarrow> byte list) \<Rightarrow> Condition \<Rightarrow> bool" where
  "holds_in db \<rho> c \<longleftrightarrow>
     ebind (col_in db \<rho> (lhs_col c)) (\<lambda>l. ebind (if is_rhs_val c then Inr (rhs_val c) else col_in db \<rho> (rhs_col c)) (binop (c_op c) l)) = Inr True"

lemma bytes_cmp_swap: "bytes_cmp b a = - bytes_cmp a b"
  by (induction a b rule: bytes_cmp.induct) auto

lemma num_binop_swap:
  "num_binop (swap_op op) (<) (=) b a = num_binop op (<) (=) a (b :: int)" "num_binop (swap_op op) float_lt float_eq y x = num_binop op float_lt float_eq x y"
  by (cases op; auto simp: float_eq_def)+

lemma str_binop_swap: "str_binop (swap_op op) b a = str_binop op a b"
  using bytes_cmp_swap [of "c_str b" "c_str a"] by (cases op) (auto simp: str_cmp_def)

lemma binop_swap: "binop (swap_op op) r l = Inr b \<longleftrightarrow> binop op l r = Inr b"
  by (cases "v_type l"; cases "v_type r") (simp_all add: binop_def Let_def num_binop_swap str_binop_swap)

interpretation conds: condition_meaning "holds_in db" for db
proof
  fix c :: Condition and \<rho>
  assume "\<not> is_rhs_val c"
  then show "holds_in db \<rho> (swap_cond c) \<longleftrightarrow> holds_in db \<rho> c"
    by (auto simp: holds_in_def ebind_eq_Inr binop_swap)
qed

section \<open>Planned queries\<close>

lemma get_cond_value: "get_cond e = Inr c \<Longrightarrow> is_rhs_val c \<Longrightarrow> rhs_col c = TabCol [] []"
  by (auto simp: get_cond_def Let_def ebind_eq_Inr split: Expr.splits)

lemma check_cond_value: "check_cond db cols c = Inr d \<Longrightarrow> is_rhs_val d = is_rhs_val c \<and> (is_rhs_val c \<longrightarrow> rhs_col d = rhs_col c)"
  by (cases "is_rhs_val c") (auto simp: check_cond_def ebind_eq_Inr Let_def split: if_splits)

lemma analysed_select:
  assumes "cat_ok db" and a: "do_analyze db (Select x) = Inr q"
  shows "q_tables q = ss_tabs x" "q_parse q = Select (x\<lparr>ss_tabs := []\<rparr>)" "\<forall>t \<in> set (ss_tabs x). is_table t db"
    "\<forall>c \<in> set (q_conds q). resolved (ss_tabs x) c"
proof -
  have q: "analyze_select db x = Inr q" using a by (simp add: do_analyze_def)
  obtain cs us where cs: "get_clause (ss_conds x) = Inr cs" "check_clause db (ss_tabs x) cs = Inr (q_conds q)"
    and us: "emap (\<lambda>t. if \<not> is_table t db then Inl (TableNotFoundError t) else Inr ()) (ss_tabs x) = Inr us"
    and q': "q_tables q = ss_tabs x" "q_parse q = Select (x\<lparr>ss_tabs := []\<rparr>)"
    using q by (auto simp: analyze_select_def Let_def ebind_eq_Inr new_Query_def)
  show "q_tables q = ss_tabs x" "q_parse q = Select (x\<lparr>ss_tabs := []\<rparr>)" by (rule q')+
  show "\<forall>t \<in> set (ss_tabs x). is_table t db"
  proof
    fix t assume "t \<in> set (ss_tabs x)"
    then obtain i where "i < length (ss_tabs x)" "ss_tabs x ! i = t" by (auto simp: in_set_conv_nth)
    then show "is_table t db" using emap_Inr [OF us] by (metis Inl_not_Inr)
  qed
  show "\<forall>c \<in> set (q_conds q). resolved (ss_tabs x) c"
  proof
    fix c assume c: "c \<in> set (q_conds q)"
    have "cond_typed db (ss_tabs x) c" by (rule check_clause_typed [OF assms(1) cs(2) c])
    moreover have "rhs_col c = TabCol [] []" if "is_rhs_val c"
    proof -
      obtain cols where "emap (check_cond db cols) cs = Inr (q_conds q)" using cs(2) by (auto simp: check_clause_def ebind_eq_Inr)
      then obtain d where d: "d \<in> set cs" "check_cond db cols d = Inr c" using emap_all [OF _ c] by blast
      then obtain e where "get_cond e = Inr d" using emap_all cs(1) unfolding get_clause_def by metis
      then show ?thesis using get_cond_value check_cond_value [OF d(2)] that by metis
    qed
    ultimately show "resolved (ss_tabs x) c" by (auto simp: resolved_def cond_typed_def split: if_splits)
  qed
qed

text \<open>
  Property C33. The plan of a SELECT means the statement. For an analysed statement over different
  tables, none without columns, whose comparisons of two columns of one table concern its first
  table, the planner builds a tree of joins that scans every table exactly once; every condition
  stands at a scan of its table or at a join with its left column in the left and its right
  column in the right subtree; and a choice of one row per table satisfies the conditions of the
  plan exactly if it satisfies those of the statement. Sorting and projection are put on top.
\<close>

theorem plan_means_query:
  assumes "cat_ok db" and "do_analyze db (Select x) = Inr q" and "distinct (ss_tabs x)" and "ss_tabs x \<noteq> []"
    and "\<forall>(k, t) \<in> set (db_tabs db). tab_cols t \<noteq> []"
    and "\<forall>c \<in> set (q_conds q). \<not> is_rhs_val c \<and> lhs_tab c = rhs_tab c \<longrightarrow> lhs_tab c = hd (ss_tabs x)"
  shows "\<exists>p. do_planner db q = ebind (generate_sort_plan db x (ss_tabs x) p) (\<lambda>sub.
        Inr (DMLPlan (select_tag (ss_aggregate_type x)) (ProjectionPlan T_Projection sub (q_cols q)) [] [] [] [] (ss_alias x) (q_is_all q))) \<and>
      placed p \<and> mset (plan_tables p) = mset (ss_tabs x) \<and>
      (\<forall>\<rho>. (\<forall>c \<in> set (plan_conds p). holds_in db \<rho> c) \<longleftrightarrow> (\<forall>c \<in> set (q_conds q). holds_in db \<rho> c))"
proof -
  note a = analysed_select [OF assms(1,2)]
  have in_db: "\<exists>m. get_table t db = Inr m \<and> (t, m) \<in> set (db_tabs db)" if "t \<in> set (ss_tabs x)" for t
    using a(3) that by (auto simp: is_table_def get_table_def map_of_SomeD split: option.splits)
  have sc: "\<forall>t \<in> set (ss_tabs x). scannable db t" using in_db assms(5) by (fastforce simp: scannable_def)
  have ne: "[] \<notin> set (ss_tabs x)" using in_db assms(1) by (fastforce simp: cat_ok_def)
  have sep: "separable (ss_tabs x) (q_conds q)" unfolding separable_def
  proof (intro ballI impI)
    fix c assume c: "c \<in> set (q_conds q)" "lhs_tab c = rhs_tab c"
    have "resolved (ss_tabs x) c" using a(4) c(1) by blast
    then have "\<not> is_rhs_val c" using c(2) ne by (auto simp: resolved_def)
    then show "\<not> is_rhs_val c \<and> ss_tabs x \<noteq> [] \<and> lhs_tab c = hd (ss_tabs x)" using assms(4,6) c by blast
  qed
  obtain p where p: "make_one_rel db q = Inr p" "placed p" "mset (plan_tables p) = mset (ss_tabs x)"
    "undirecteds (plan_conds p) = undirecteds (q_conds q)"
    using make_one_rel_places [OF a(1) assms(4,3) ne sc a(4) sep] by blast
  have "do_planner db q = ebind (generate_sort_plan db x (ss_tabs x) p) (\<lambda>sub.
      Inr (DMLPlan (select_tag (ss_aggregate_type x)) (ProjectionPlan T_Projection sub (q_cols q)) [] [] [] [] (ss_alias x) (q_is_all q)))"
    using a(1,2) p(1) by (simp add: do_planner_def generate_select_plan_def physical_optimization_def logical_optimization_def
        generate_sort_plan_def Let_def) (simp add: ebind_def split: sum.splits)
  with p conds.undirecteds_mean [OF p(4)] show ?thesis by (intro exI [of _ p]) simp
qed

text \<open>
  A comparison of two columns of a table other than the first: it goes to the scan of the first
  table, which has no such columns, so that evaluating it there dereferences the end of a list.
\<close>

theorem same_table_condition_misplaced:
  assumes "\<forall>t \<in> set (t1 # ts). scannable db t" and "cat_ok db" and "c \<in> set cs" and "lhs_tab c = rhs_tab c" and "lhs_tab c \<noteq> t1"
    and "table_scans db (t1 # ts) cs = Inr (ps, rest)"
  shows "\<exists>tag s. hd ps = ScanPlan tag s \<and> sp_tab_name s = t1 \<and> c \<in> set (sp_conds s) \<and>
    checkConds rec [c] (sp_cols s) = Inl (UndefinedBehaviour ''*end()'')"
proof -
  obtain m where m: "get_table t1 db = Inr m" "tab_cols m \<noteq> []" using assms(1) by (auto simp: scannable_def)
  have cols: "\<forall>col \<in> set (tab_cols m). cm_tab_name col = t1" using assms(2) get_table_in [OF m(1)] by (auto simp: cat_ok_def)
  then have "find (same_col (lhs_col c)) (tab_cols m) = None" using assms(5) by (auto simp: find_None_iff same_col_def)
  then have ub: "checkConds rec [c] (tab_cols m) = Inl (UndefinedBehaviour ''*end()'')" by (simp add: find_col_def)
  obtain tag s where s: "scan_plan db t1 (filter (popped t1) cs) = Inr (ScanPlan tag s)" "sp_tab_name s = t1" "sp_conds s = filter (popped t1) cs"
    using scan_plan_scans [of db t1] assms(1) by auto
  have "sp_cols s = tab_cols m" using s(1) m by (auto simp: scan_plan_def get_index_cols_def new_ScanPlan_def Let_def split: if_splits)
  moreover have "hd ps = ScanPlan tag s" using assms(6) s(1) by (auto simp: pop_conds_filter ebind_eq_Inr)
  moreover have "c \<in> set (sp_conds s)" using s(3) assms(3,4) by auto
  ultimately show ?thesis using s(2) ub by (simp del: checkConds.simps)
qed

text \<open>
  The choice of an index: with indexes on \<open>x\<close> and on \<open>x, y\<close>, in this order, and conditions that fix \<open>x\<close>
  and \<open>y\<close>, the first index is skipped but its columns are kept, so the plan asks for an index on
  \<open>x, x, y\<close>, which the table does not have.
\<close>

theorem skipped_index_spoils_the_next:
  assumes "tab_indexes t = [ix1, ix2]" and "map cm_name (im_cols ix1) = [x]" and "map cm_name (im_cols ix2) = [x, y]" and "x \<noteq> y"
    and "map (\<lambda>c. tc_col_name (lhs_col c)) vs = [x, y]" and "\<forall>c \<in> set vs. c_op c = OP_EQ" and "col_num ix1 = 1" and "col_num ix2 = 2"
  shows "index_loop vs (tab_indexes t) [] 0 [] = [x, x, y] \<and> get_index_meta [x, x, y] t = Inl (IndexNotFoundError (tab_name t) [x, x, y])"
proof -
  have names: "(\<lambda>c. tc_col_name (lhs_col c)) ` set vs = {x, y}" using arg_cong [OF assms(5), of set] by simp
  have "filter (\<lambda>c. c_op c = OP_EQ) vs = vs" using assms(6) by (simp add: filter_id_conv)
  then have e: "is_exist vs n \<longleftrightarrow> n \<in> {x, y}" "isequ vs n \<longleftrightarrow> n \<in> {x, y}" for n using names by (simp_all add: is_exist_def isequ_def)
  have miss: "\<exists>c \<in> set vs. tc_col_name (lhs_col c) \<notin> set [x]" using names assms(4) by (metis (no_types, lifting) empty_iff imageE insert_iff list.set(1) list.set(2))
  have all: "\<not> (\<exists>c \<in> set vs. tc_col_name (lhs_col c) \<notin> set [x, y])" using names by auto
  have "matched vs [x, x, y] = 3" "rest_absent vs 3 [x, x, y]" by (simp_all add: matched_def rest_absent_def e Let_def)
  then have "index_loop vs [ix1, ix2] [] 0 [] = [x, x, y]" using miss all assms(2,3) by (simp add: Let_def)
  moreover have "get_index_meta [x, x, y] t = Inl (IndexNotFoundError (tab_name t) [x, x, y])"
    using assms(1,7,8) by (simp add: get_index_meta_def index_on_def)
  ultimately show ?thesis using assms(1) by simp
qed

section \<open>An example\<close>

definition plan_col :: "string \<Rightarrow> string \<Rightarrow> ColMeta" where
  "plan_col t c = \<lparr>cm_tab_name = t, cm_name = c, cm_type = TYPE_INT, cm_len = 4, cm_offset = 0, cm_index = False\<rparr>"

definition plan_db :: DbMeta where
  "plan_db = \<lparr>db_name = ''db'', db_tabs =
     [(''a'', \<lparr>tab_name = ''a'', tab_cols = [plan_col ''a'' ''x''], tab_indexes = []\<rparr>),
      (''b'', \<lparr>tab_name = ''b'', tab_cols = [plan_col ''b'' ''y''], tab_indexes = []\<rparr>)]\<rparr>"

text \<open>\<open>SELECT * FROM a, b WHERE y > x\<close>\<close>

definition plan_stmt :: SelectStmt where
  "plan_stmt = OrderSelect [] [''a'', ''b''] [\<lparr>be_lhs = Col [] ''y'', be_op = SV_OP_GT, be_rhs = ColExpr (Col [] ''x'')\<rparr>] [] (- 1)"

definition plan_cond :: Condition where
  "plan_cond = \<lparr>lhs_col = TabCol ''b'' ''y'', c_op = OP_GT, is_rhs_val = False, rhs_col = TabCol ''a'' ''x'', rhs_val = new_Value TYPE_INT\<rparr>"

lemma plan_stmt_analysed:
  obtains q where "do_analyze plan_db (Select plan_stmt) = Inr q" "q_conds q = [plan_cond]"
  by (simp add: do_analyze_def analyze_select_def plan_stmt_def OrderSelect_def plan_db_def plan_col_def is_table_def get_table_def
      get_clause_def get_cond_def tabcol_of_def check_clause_def check_cond_def check_column_def get_col_def is_compatible_type_def
      legal_binop_def Let_def new_Query_def plan_cond_def)

theorem plan_means_query_witness:
  "\<exists>q p. do_analyze plan_db (Select plan_stmt) = Inr q \<and>
     do_planner plan_db q = Inr (DMLPlan T_select (ProjectionPlan T_Projection p (q_cols q)) [] [] [] [] [] (q_is_all q)) \<and>
     placed p \<and> mset (plan_tables p) = {#''a'', ''b''#}"
proof -
  obtain q where q: "do_analyze plan_db (Select plan_stmt) = Inr q" "q_conds q = [plan_cond]" by (rule plan_stmt_analysed)
  have "cat_ok plan_db" "\<forall>(k, t) \<in> set (db_tabs plan_db). tab_cols t \<noteq> []" by (simp_all add: cat_ok_def plan_db_def plan_col_def)
  moreover have "distinct (ss_tabs plan_stmt)" "ss_tabs plan_stmt \<noteq> []" by (simp_all add: plan_stmt_def OrderSelect_def)
  moreover have "\<forall>c \<in> set (q_conds q). \<not> is_rhs_val c \<and> lhs_tab c = rhs_tab c \<longrightarrow> lhs_tab c = hd (ss_tabs plan_stmt)"
    by (simp add: q(2) plan_cond_def)
  ultimately obtain p where "do_planner plan_db q = ebind (generate_sort_plan plan_db plan_stmt (ss_tabs plan_stmt) p) (\<lambda>sub.
        Inr (DMLPlan (select_tag (ss_aggregate_type plan_stmt)) (ProjectionPlan T_Projection sub (q_cols q)) [] [] [] [] (ss_alias plan_stmt) (q_is_all q)))"
    "placed p" "mset (plan_tables p) = mset (ss_tabs plan_stmt)"
    using plan_means_query [OF _ q(1)] by blast
  then show ?thesis using q(1) by (intro exI [of _ q] exI [of _ p]) (simp add: plan_stmt_def OrderSelect_def generate_sort_plan_def)
qed

end
