(* ===== verification/Spec2Isabelle.thy ===== *)
theory Spec2Isabelle
  imports Statements Recovery Ix_Manager Plan_Meaning
begin

text \<open>
  A verification development of RTDB, the relational database management system of \<open>src/src\<close>.

  \<^bold>\<open>The program.\<close> A server reads SQL statements, parses them (\<open>parser\<close>), resolves names and checks
  types against the catalogue (\<open>analyze\<close>, \<open>system\<close>), chooses a plan (\<open>optimizer\<close>), turns the plan into
  a tree of executors (\<open>portal.h\<close>, \<open>execution\<close>) and runs it inside a transaction (\<open>transaction\<close>).
  Executors read and change table files through the record manager (\<open>record\<close>) and indexes
  (\<open>index\<close>); both see pages through the buffer pool (\<open>storage\<close>, \<open>replacer\<close>), which keeps them in
  files. Every change is locked (\<open>transaction/concurrency\<close>) and logged (\<open>recovery\<close>).

  \<^bold>\<open>How it is modelled.\<close> A C++ object is a \<open>record\<close>, an enumeration or class hierarchy a \<open>datatype\<close>, a
  buffer a list of bytes (\<open>8 word\<close>). A method that can fail is a command, a function from the
  state to an error or result and the new state (\<open>RTDB_Prelude\<close>): the state at the time of an
  exception is the state the exception leaves behind. Every \<open>throw\<close> is a constructor of \<open>rmdb_error\<close>
  (\<open>Common\<close>); failed assertions and undefined behaviour (null dereference, index out of bounds)
  are error values too. A theorem that a command returns, or ends without an exception (\<open>ends\<close> with a
  condition that holds), excludes them; a theorem about what holds when a command returns does not.
  Numbers are \<open>int\<close> or \<open>nat\<close>; where the code counts in an \<open>int\<close> that can run over, this is undefined
  behaviour (\<open>allocate_page\<close>) or the conversion is written out (\<open>get_file_size\<close>), but the pin counts
  and the sizes of tables in memory are not bounded. Stored numbers are two's complement bytes of
  the width the code uses (\<open>put_int\<close>, \<open>get_int\<close>), and theorems about stored numbers have \<open>in_range\<close> hypotheses. A latch held over a whole method
  makes the method one step; the interleaving of methods is a sequence of steps.

  \<^bold>\<open>The theories\<close>, in the order of the layers of the program:

    \<^item> \<open>RTDB_Prelude\<close>: commands and their composition, \<open>keeps\<close> (a command keeps an invariant), hash maps
      as association lists, byte images of numbers. \<open>Common\<close>: \<open>common/config.h\<close>, \<open>defs.h\<close>, \<open>errors.h\<close>.
    \<^item> \<open>Replacer\<close>: \<open>LRUReplacer\<close>, the list with the hash table of iterators; shown to evict in the order
      of release. The interface is the locale of a replacer, which the buffer pool relies on.
    \<^item> \<open>Disk\<close>: \<open>DiskManager\<close> over a file system of byte lists; pages and the log read back as written,
      descriptors are exclusive.
    \<^item> \<open>Buffer_Pool\<close>, \<open>Buffer_Pool_Spec\<close>: \<open>BufferPoolManager\<close>, its step relation, its invariant, and the
      refinement: for a client that fetches no page again after it was deleted from the pool, and
      while no call throws, pool and disk together are a memory of pages, whatever is evicted. Two
      theorems show what goes wrong otherwise: an old page identifier and a failed read.
    \<^item> \<open>Transaction\<close>, \<open>Lock_Manager\<close>: \<open>Transaction\<close> and \<open>LockManager\<close>; no two transactions hold
      incompatible locks, requests are decided by compatibility, and after a release no lock is gained.
    \<^item> \<open>Log\<close>: log records, \<open>LogBuffer\<close>, \<open>LogManager\<close>; byte round trip of every kind of record; the log
      file is the sequence of the records' images.
    \<^item> \<open>Record_Page\<close>, \<open>Record_File\<close>, \<open>Record_Spec\<close>, \<open>Record_Table\<close>, \<open>Record_Manager\<close>: \<open>Bitmap\<close>,
      \<open>RmPageHandle\<close>, \<open>RmFileHandle\<close>, \<open>RmManager\<close>, \<open>RmScan\<close>; a table file refines a map from record
      identifiers to records; a scan ends and lists the map in order; a created file is an empty table.
    \<^item> \<open>Values\<close>: \<open>Value\<close> of \<open>common/common.h\<close>, comparison and storage of values; comparison is compared
      with the order of what the values mean.
    \<^item> \<open>Sm_Meta\<close>: \<open>ColMeta\<close>, \<open>IndexMeta\<close>, \<open>TabMeta\<close>, \<open>DbMeta\<close> with the text format of the meta file.
    \<^item> \<open>Ast\<close>, \<open>Analyze\<close>: the abstract syntax and \<open>Analyze\<close>; resolution of columns, type checks.
    \<^item> \<open>Partial_Commands\<close>, \<open>Executor\<close>, \<open>Operators\<close>, \<open>Joins\<close>, \<open>Table_Files\<close>, \<open>Seq_Scan\<close>: executors as tables
      of their virtual methods over a cursor state; conditions that pass the analysis evaluate
      without exceptions; projection, sort, scan and block nested loop join of two of the open tables
      deliver the rows of a relational specification, without an exception if the tables are in the
      pool, not locked by others, and the conditions evaluate. A join with an empty child fails.
    \<^item> \<open>File_Names\<close>, \<open>Dml\<close>, \<open>Txn_Manager\<close>, \<open>Statements\<close>: the executors of INSERT, DELETE and UPDATE, and
      \<open>TransactionManager\<close> over all layers below: pages, locks and log; abort undoes the statements
      of the transaction (unless it deleted a row it had written itself), commit logs and releases the locks.
    \<^item> \<open>Ix_Node\<close>, \<open>Ix_Map\<close>: the header of an index file and \<open>IxNodeHandle\<close>; a node is an ordered map,
      up to the bytes left behind its last entry.
    \<^item> \<open>Ix_Tree\<close>, \<open>Ix_Search\<close>, \<open>Ix_Update\<close>, \<open>Ix_Manager\<close>: \<open>IxIndexHandle\<close>, \<open>IxScan\<close> and \<open>IxManager\<close> on the
      buffer pool, with the latches of one thread; searching a tree of any height, inserting into and
      deleting from an index of one leaf; a created index is an empty tree.
    \<^item> \<open>Planner\<close>, \<open>Plan_Meaning\<close>: \<open>plan.h\<close>, \<open>planner.cpp\<close>, \<open>optimizer.h\<close>; a plan of a query yields the rows
      that the query's condition selects from the product of its tables, for the conditions the
      planner places where their columns are.
    \<^item> \<open>Recovery\<close>: \<open>log_recovery.cpp\<close>; analysis goes through the whole of a log that fits into the log
      buffer; undo returns exactly if no transaction is left open.

  \<^bold>\<open>Loops.\<close> A loop over a structure is recursion on it; a search with two bounds has a measure. The
  loops whose end depends on the state (\<open>RmScan::next\<close>, the pull loops over executors) are
  \<open>partial_function (option)\<close> definitions, where not ending is the value \<open>None\<close>; the theorems about them
  state that they come to an end (\<open>ends\<close>), and when without an exception (\<open>select_delivers\<close>,
  \<open>join_delivers\<close>, \<open>index_search\<close>).

  \<^bold>\<open>Parameters.\<close> The executors of INSERT, DELETE and UPDATE use an index through three operations
  (\<open>insert_entry\<close>, \<open>delete_entry\<close>, \<open>is_key_exist\<close>), which are arguments of the definitions and work on
  the state of the index and on the buffer pool; what the theorem on abort assumes of them is
  \<open>index_spares\<close>: they leave the pages of the table's file alone and delete no page. The bytes of a
  record buffer the code does not initialise are an argument (\<open>heap\<close>) of \<open>insert_Next\<close>.

  \<^bold>\<open>Not modelled.\<close> The scanner and the parser (\<open>lex.yy.cpp\<close>, \<open>yacc.tab.cpp\<close>) are generated; the
  printers (\<open>ast_printer.h\<close>, \<open>record_printer.h\<close>, \<open>format_print\<close>), the network loop of \<open>rmdb.cpp\<close> and
  the directory commands of \<open>DiskManager\<close> and \<open>SmManager\<close> (\<open>create_dir\<close>, \<open>destroy_dir\<close>) are input and
  output. The data definition statements of \<open>SmManager\<close>, \<open>IndexScanExecutor\<close> and the portal are
  left out: they put together calls of the modelled parts and output. The latches of one
  thread are modelled in the index tree; elsewhere a page operation is a step.
\<close>

end
